(* ===== verification/Litterae_Prelude.thy ===== *)
theory Litterae_Prelude
  imports Complex_Main "HOL-Library.Word"
begin

text \<open>
  Shared vocabulary of the development.

  \<^item> Bytes and Rust strings are lists of 8-bit characters; a Rust \<open>str\<close> is its UTF-8 bytes, so
    \<open>length\<close> is \<open>str::len\<close> and literals are written as HOL strings.
  \<^item> \<open>error\<close> is \<open>common::Error\<close>; a fallible call returns \<open>error + 'a\<close>.
  \<^item> \<open>pan\<close> marks the calls that may panic (a slice off a character boundary, a failed
    \<open>copy_from_slice\<close>): \<open>Panicked\<close> is the unwinding of the task.
  \<^item> A SQLite connection is a record \<open>db\<close>: its tables, and the outcome of the coming statements
    (\<open>faults\<close>): \<open>Some msg\<close> is a statement that fails with that message and changes nothing,
    \<open>None\<close> one that runs, and the empty list means that every further statement runs. Every theorem is
    over all fault lists, so every \<open>map_err(storage_err)?\<close> of the source is a branch of the model.
  \<^item> A table with an \<open>INTEGER PRIMARY KEY\<close> is a list of rows in insertion order; the locale
    \<open>rowid_table\<close> states what a row type offers (its key column) and proves once what every such
    table keeps: distinct keys, lookup after insert, frame of updates and deletes.
\<close>

type_synonym bytes = "char list"

named_theorems wire_simps \<open>evaluation of the wire-level string functions\<close>
named_theorems table_simps \<open>table operations\<close>

section \<open>Errors and panics\<close>

datatype error =
    Config string
  | Io string
  | Crypto string
  | Storage string
  | Network string
  | RateLimited string

type_synonym 'a result = "error + 'a"

datatype 'a pan = Panicked | Returned 'a

fun pan_bind :: "'a pan \<Rightarrow> ('a \<Rightarrow> 'b pan) \<Rightarrow> 'b pan" where
  "pan_bind Panicked f = Panicked"
| "pan_bind (Returned a) f = f a"

lemma pan_bind_eq_Returned:
  "pan_bind m f = Returned b \<longleftrightarrow> (\<exists>a. m = Returned a \<and> f a = Returned b)"
  by (cases m) auto

lemma pan_bind_eq_Panicked:
  "pan_bind m f = Panicked \<longleftrightarrow> m = Panicked \<or> (\<exists>a. m = Returned a \<and> f a = Panicked)"
  by (cases m) auto

fun is_ok :: "'a result \<Rightarrow> bool" where
  "is_ok (Inl _) = False"
| "is_ok (Inr _) = True"

fun ok :: "'a result \<Rightarrow> 'a option" where
  "ok (Inl _) = None"
| "ok (Inr a) = Some a"

lemma ok_eq_Some [simp]: "ok r = Some a \<longleftrightarrow> r = Inr a"
  by (cases r) auto

section \<open>Statements of a SQLite connection\<close>

record 't db =
  tables :: 't
  faults :: "string option list"

text \<open>One statement: it consumes the next fault; a failing one leaves the tables as they are.\<close>

definition db_stmt :: "('t \<Rightarrow> 'a result \<times> 't) \<Rightarrow> 't db \<Rightarrow> 'a result \<times> 't db" where
  "db_stmt f d =
     (case faults d of
        Some msg # fs \<Rightarrow> (Inl (Storage msg), d\<lparr>faults := fs\<rparr>)
      | None # fs \<Rightarrow> (let (r, t) = f (tables d) in (r, \<lparr>tables = t, faults = fs\<rparr>))
      | [] \<Rightarrow> (let (r, t) = f (tables d) in (r, \<lparr>tables = t, faults = []\<rparr>)))"

text \<open>The \<open>?\<close> operator on stateful calls.\<close>

definition op_bind :: "('s \<Rightarrow> 'a result \<times> 's) \<Rightarrow> ('a \<Rightarrow> 's \<Rightarrow> 'b result \<times> 's) \<Rightarrow>
    's \<Rightarrow> 'b result \<times> 's" where
  "op_bind m f s = (case m s of (Inl e, s') \<Rightarrow> (Inl e, s') | (Inr a, s') \<Rightarrow> f a s')"

lemma op_bind_Inr:
  "op_bind m f s = (Inr b, s'') \<longleftrightarrow> (\<exists>a s'. m s = (Inr a, s') \<and> f a s' = (Inr b, s''))"
  by (auto simp: op_bind_def split: prod.splits sum.splits)

lemma op_bind_Inl:
  "op_bind m f s = (Inl e, s'') \<longleftrightarrow>
     m s = (Inl e, s'') \<or> (\<exists>a s'. m s = (Inr a, s') \<and> f a s' = (Inl e, s''))"
  by (auto simp: op_bind_def split: prod.splits sum.splits)

text \<open>Calls that may also panic keep the effects they had before: a procedure returns how it ended and
  the state it leaves.\<close>

type_synonym ('a, 's) proc = "'s \<Rightarrow> 'a result pan \<times> 's"

definition lift_op :: "('s \<Rightarrow> 'a result \<times> 's) \<Rightarrow> ('a, 's) proc" where
  "lift_op m s = (let (r, s') = m s in (Returned r, s'))"

definition proc_bind :: "('a, 's) proc \<Rightarrow> ('a \<Rightarrow> ('b, 's) proc) \<Rightarrow> ('b, 's) proc" where
  "proc_bind m f s =
     (case m s of
        (Panicked, s') \<Rightarrow> (Panicked, s')
      | (Returned (Inl e), s') \<Rightarrow> (Returned (Inl e), s')
      | (Returned (Inr a), s') \<Rightarrow> f a s')"

definition proc_pan :: "'a pan \<Rightarrow> ('a, 's) proc" where
  "proc_pan p s = (case p of Panicked \<Rightarrow> (Panicked, s) | Returned a \<Rightarrow> (Returned (Inr a), s))"

definition proc_return :: "'a result \<Rightarrow> ('a, 's) proc" where
  "proc_return r s = (Returned r, s)"

lemma proc_bind_Inr:
  "proc_bind m f s = (Returned (Inr b), s'') \<longleftrightarrow>
     (\<exists>a s'. m s = (Returned (Inr a), s') \<and> f a s' = (Returned (Inr b), s''))"
  by (auto simp: proc_bind_def split: prod.splits pan.splits sum.splits)

lemma proc_bind_ok: "m s = (Returned (Inr a), s') \<Longrightarrow> proc_bind m f s = f a s'"
  by (simp add: proc_bind_def)

text \<open>The runs of a sequence: the first part ends it, or the second part runs after it.\<close>

lemma proc_bind_cases:
  assumes "proc_bind m f s = (r, s'')"
  obtains (panic) "m s = (Panicked, s'')" "r = Panicked"
    | (error) e where "m s = (Returned (Inl e), s'')" "r = Returned (Inl e)"
    | (step) a s' where "m s = (Returned (Inr a), s')" "f a s' = (r, s'')"
  using assms by (auto simp: proc_bind_def split: prod.splits pan.splits sum.splits)

lemma lift_op_Inr [simp]: "lift_op m s = (Returned r, s') \<longleftrightarrow> m s = (r, s')"
  by (auto simp: lift_op_def split: prod.splits)

lemma lift_op_not_panicked [simp]: "lift_op m s \<noteq> (Panicked, s')"
  by (auto simp: lift_op_def split: prod.splits)

lemma proc_return_simp [simp]: "proc_return r s = (r', s') \<longleftrightarrow> r' = Returned r \<and> s' = s"
  by (auto simp: proc_return_def)

lemma proc_pan_simp [simp]:
  "proc_pan p s = (Panicked, s') \<longleftrightarrow> p = Panicked \<and> s' = s"
  "proc_pan p s = (Returned r, s') \<longleftrightarrow> (\<exists>a. p = Returned a \<and> r = Inr a) \<and> s' = s"
  by (auto simp: proc_pan_def split: pan.splits)

text \<open>A component of a larger state.\<close>

definition zoom :: "('s \<Rightarrow> 't) \<Rightarrow> ('t \<Rightarrow> 's \<Rightarrow> 's) \<Rightarrow> ('t \<Rightarrow> 'a \<times> 't) \<Rightarrow> 's \<Rightarrow> 'a \<times> 's" where
  "zoom get put f s = (let (r, t) = f (get s) in (r, put t s))"

text \<open>\<open>Display\<close> of the errors.\<close>

fun error_to_string :: "error \<Rightarrow> string" where
  "error_to_string (Config s) = ''config error: '' @ s"
| "error_to_string (Io s) = ''io error: '' @ s"
| "error_to_string (Crypto s) = ''crypto error: '' @ s"
| "error_to_string (Storage s) = ''storage error: '' @ s"
| "error_to_string (Network s) = ''network error: '' @ s"
| "error_to_string (RateLimited s) = ''rate limited: '' @ s"

text \<open>Every outcome of a statement: it failed and changed no table, or it ran.\<close>

lemma db_stmt_cases:
  assumes "db_stmt f d = (r, d')"
  obtains (failed) msg where "r = Inl (Storage msg)" "tables d' = tables d"
    | (ran) "f (tables d) = (r, tables d')"
  using assms by (auto simp: db_stmt_def split: list.splits option.splits prod.splits)

lemma db_stmt_Inr:
  assumes "db_stmt f d = (Inr a, d')"
  shows "fst (f (tables d)) = Inr a" and "tables d' = snd (f (tables d))"
  using assms by (auto elim!: db_stmt_cases)

text \<open>An invariant of the tables that a statement keeps is kept whether or not the statement runs.\<close>

lemma db_stmt_tables_inv:
  assumes "db_stmt f d = (r, d')" and "P (tables d)"
    and "\<And>r t. f (tables d) = (r, t) \<Longrightarrow> P t"
  shows "P (tables d')"
  using assms(1) by (cases rule: db_stmt_cases) (use assms(2,3) in auto)

lemma db_stmt_no_faults [simp]:
  "faults d = [] \<Longrightarrow> db_stmt f d = (fst (f (tables d)), d\<lparr>tables := snd (f (tables d))\<rparr>)"
  by (cases d) (simp add: db_stmt_def split: prod.splits)

text \<open>A query: the rows it returns, the tables unchanged.\<close>

definition db_query :: "('t \<Rightarrow> 'a) \<Rightarrow> 't db \<Rightarrow> 'a result \<times> 't db" where
  "db_query f = db_stmt (\<lambda>t. (Inr (f t), t))"

lemma db_query_no_faults [simp]: "faults d = [] \<Longrightarrow> db_query f d = (Inr (f (tables d)), d)"
  by (simp add: db_query_def)

lemma db_query_Inr: "db_query f d = (Inr a, d') \<Longrightarrow> a = f (tables d) \<and> tables d' = tables d"
  by (auto simp: db_query_def elim!: db_stmt_cases)

lemma db_query_tables: "db_query f d = (r, d') \<Longrightarrow> tables d' = tables d"
  by (auto simp: db_query_def elim!: db_stmt_cases)

text \<open>Fallible calls that may panic, without state.\<close>

definition pr_bind :: "'a result pan \<Rightarrow> ('a \<Rightarrow> 'b result pan) \<Rightarrow> 'b result pan" where
  "pr_bind m f =
     (case m of Panicked \<Rightarrow> Panicked | Returned (Inl e) \<Rightarrow> Returned (Inl e) | Returned (Inr a) \<Rightarrow> f a)"

lemma pr_bind_simps [simp]:
  "pr_bind Panicked f = Panicked" "pr_bind (Returned (Inl e)) f = Returned (Inl e)"
  "pr_bind (Returned (Inr a)) f = f a"
  by (simp_all add: pr_bind_def)

lemma pr_bind_ok: "pr_bind m f = Returned (Inr b) \<longleftrightarrow> (\<exists>a. m = Returned (Inr a) \<and> f a = Returned (Inr b))"
  by (auto simp: pr_bind_def split: pan.splits sum.splits)

definition proc_result :: "'a result pan \<Rightarrow> ('a, 's) proc" where
  "proc_result r s = (r, s)"

lemma proc_result_simp [simp]: "proc_result r s = (r', s') \<longleftrightarrow> r' = r \<and> s' = s"
  by (auto simp: proc_result_def)

fun pan_map :: "('a \<Rightarrow> 'b pan) \<Rightarrow> 'a list \<Rightarrow> 'b list pan" where
  "pan_map f [] = Returned []"
| "pan_map f (x # xs) = pan_bind (f x) (\<lambda>y. pan_bind (pan_map f xs) (\<lambda>ys. Returned (y # ys)))"

lemma pan_map_total: "(\<And>x. x \<in> set xs \<Longrightarrow> f x = Returned (g x)) \<Longrightarrow> pan_map f xs = Returned (map g xs)"
  by (induction xs) auto

section \<open>Tables keyed by a rowid\<close>

text \<open>The next \<open>INTEGER PRIMARY KEY\<close> without \<open>AUTOINCREMENT\<close>: one more than the largest key in use, 1 for
  an empty table.\<close>

fun next_rowid :: "('r \<Rightarrow> int) \<Rightarrow> 'r list \<Rightarrow> int" where
  "next_rowid key [] = 1"
| "next_rowid key (r # rs) = fold (\<lambda>x m. max (key x) m) rs (key r) + 1"

definition tbl_insert :: "('r \<Rightarrow> int) \<Rightarrow> (int \<Rightarrow> 'r \<Rightarrow> 'r) \<Rightarrow> 'r \<Rightarrow> 'r list \<Rightarrow> int \<times> 'r list" where
  "tbl_insert key rekey r rows =
     (let i = next_rowid key rows in (i, rows @ [rekey i r]))"

definition tbl_get :: "('r \<Rightarrow> int) \<Rightarrow> int \<Rightarrow> 'r list \<Rightarrow> 'r option" where
  "tbl_get key i rows = find (\<lambda>r. key r = i) rows"

definition update_where :: "('r \<Rightarrow> bool) \<Rightarrow> ('r \<Rightarrow> 'r) \<Rightarrow> 'r list \<Rightarrow> 'r list" where
  "update_where p f rows = map (\<lambda>r. if p r then f r else r) rows"

lemma fold_max_ge_init: "m \<le> fold (\<lambda>x m. max (key x) m) rs (m :: int)"
  by (induction rs arbitrary: m) (auto intro: order_trans [OF max.cobounded2])

lemma fold_max_ge: "r \<in> set rs \<Longrightarrow> key r \<le> fold (\<lambda>x m. max (key x) m) rs (m :: int)"
proof (induction rs arbitrary: m)
  case (Cons a rs)
  have "key a \<le> fold (\<lambda>x m. max (key x) m) rs (max (key a) m)"
    by (rule order_trans [OF max.cobounded1 fold_max_ge_init])
  with Cons show ?case by auto
qed simp

lemma next_rowid_fresh: "r \<in> set rows \<Longrightarrow> key r < next_rowid key rows"
proof (cases rows)
  case (Cons a rs)
  assume "r \<in> set rows"
  with Cons show ?thesis
    using fold_max_ge_init [of "key a" key rs] fold_max_ge [of r rs key "key a"] by auto
qed simp

lemma next_rowid_notin: "x \<in> set rows \<Longrightarrow> key x \<noteq> next_rowid key rows"
  using next_rowid_fresh [of x rows key] by simp

lemma find_append:
  "find p (xs @ ys) = (case find p xs of Some x \<Rightarrow> Some x | None \<Rightarrow> find p ys)"
  by (induction xs) auto

lemma find_unique:
  assumes "distinct (map g xs)" and "x \<in> set xs" and "\<And>y. P y \<longleftrightarrow> g y = g x"
  shows "find P xs = Some x"
  using assms by (induction xs) (auto simp: image_iff)

lemma update_where_length [simp]: "length (update_where p f rows) = length rows"
  by (simp add: update_where_def)

lemma update_where_keys:
  "(\<And>r. g (f r) = g r) \<Longrightarrow> map g (update_where p f rows) = map g rows"
  by (simp add: update_where_def)

lemma set_update_where:
  "r \<in> set (update_where p f rows) \<longleftrightarrow> (\<exists>x \<in> set rows. r = (if p x then f x else x))"
  by (auto simp: update_where_def)

lemma find_map_same:
  assumes "\<And>x. x \<in> set rows \<Longrightarrow> key (g x) = key x"
  shows "find (\<lambda>r. key r = i) (map g rows) = map_option g (find (\<lambda>r. key r = i) rows)"
  using assms by (induction rows) auto

lemma find_update_where:
  assumes "\<And>r. key (f r) = key r"
  shows "tbl_get key i (update_where p f rows) =
           map_option (\<lambda>r. if p r then f r else r) (tbl_get key i rows)"
  unfolding tbl_get_def update_where_def by (rule find_map_same) (simp add: assms)

lemma tbl_get_Some_in: "tbl_get key i rows = Some r \<Longrightarrow> r \<in> set rows \<and> key r = i"
  by (auto simp: tbl_get_def find_Some_iff)

lemma tbl_get_unique:
  assumes "distinct (map key rows)" and "r \<in> set rows"
  shows "tbl_get key (key r) rows = Some r"
  using assms by (induction rows) (auto simp: tbl_get_def image_iff)

text \<open>What a row type offers: a key column that an insert can fill in.\<close>

locale rowid_table =
  fixes key :: "'r \<Rightarrow> int"
    and rekey :: "int \<Rightarrow> 'r \<Rightarrow> 'r"
  assumes key_rekey [simp]: "key (rekey i r) = i"
begin

lemma insert_distinct:
  assumes "distinct (map key rows)"
  shows "distinct (map key (snd (tbl_insert key rekey r rows)))"
  using assms next_rowid_notin [of _ rows key] by (fastforce simp: tbl_insert_def Let_def)

lemma insert_fresh: "x \<in> set rows \<Longrightarrow> key x \<noteq> fst (tbl_insert key rekey r rows)"
  by (simp add: tbl_insert_def Let_def next_rowid_notin)

lemma get_inserted:
  "tbl_get key (fst (tbl_insert key rekey r rows)) (snd (tbl_insert key rekey r rows)) =
     Some (rekey (fst (tbl_insert key rekey r rows)) r)"
proof -
  let ?i = "next_rowid key rows"
  have "find (\<lambda>x. key x = ?i) rows = None"
    by (simp add: find_None_iff next_rowid_notin)
  then show ?thesis
    by (simp add: tbl_get_def tbl_insert_def Let_def find_append)
qed

lemma get_other:
  assumes "tbl_get key i rows = Some x"
  shows "tbl_get key i (snd (tbl_insert key rekey r rows)) = Some x"
  using assms by (simp add: tbl_get_def tbl_insert_def Let_def find_append)

lemma get_after_delete:
  "tbl_get key i (filter (\<lambda>r. key r \<noteq> i) rows) = None"
  by (auto simp: tbl_get_def find_None_iff)

lemma get_after_delete_other:
  "i \<noteq> j \<Longrightarrow> tbl_get key j (filter (\<lambda>r. key r \<noteq> i) rows) = tbl_get key j rows"
  by (induction rows) (auto simp: tbl_get_def)

end

end
