(* ===== verification/Rust_Str.thy ===== *)
theory Rust_Str
  imports Litterae_Prelude
begin

text \<open>
  The part of Rust's \<open>str\<close> that the sources use, on the UTF-8 bytes of a string: lossy decoding,
  character boundaries and the slices that panic off them, trimming, ASCII case, splitting and searching
  for ASCII separators, and the textual form of IP addresses.

  \<open>utf8_scan\<close> is the decoder of one character. The lemmas show that lossy decoding always yields a
  valid string and is the identity on valid ones, and that the byte after a character of a valid
  string is a boundary.
\<close>

section \<open>UTF-8\<close>

definition byte_at :: "bytes \<Rightarrow> nat \<Rightarrow> nat" where
  "byte_at s i = (if i < length s then of_char (s ! i) else 0)"

definition is_cont :: "nat \<Rightarrow> bool" where
  "is_cont b \<longleftrightarrow> 128 \<le> b \<and> b < 192"

text \<open>Second byte allowed after a three- and a four-byte lead.\<close>

definition second3 :: "nat \<Rightarrow> nat \<Rightarrow> bool" where
  "second3 b0 b1 \<longleftrightarrow>
     (if b0 = 224 then 160 \<le> b1 \<and> b1 < 192
      else if b0 = 237 then 128 \<le> b1 \<and> b1 < 160
      else 128 \<le> b1 \<and> b1 < 192)"

definition second4 :: "nat \<Rightarrow> nat \<Rightarrow> bool" where
  "second4 b0 b1 \<longleftrightarrow>
     (if b0 = 240 then 144 \<le> b1 \<and> b1 < 192
      else if b0 = 244 then 128 \<le> b1 \<and> b1 < 144
      else 128 \<le> b1 \<and> b1 < 192)"

text \<open>
  The first character of a byte string: whether it is well formed, and its length; for an ill-formed
  start, the length of the maximal part that \<open>from_utf8_lossy\<close> replaces by one U+FFFD.
\<close>

definition utf8_scan :: "bytes \<Rightarrow> bool \<times> nat" where
  "utf8_scan s =
     (let b0 = byte_at s 0; b1 = byte_at s 1 in
      if b0 < 128 then (True, 1)
      else if 194 \<le> b0 \<and> b0 < 224 then
        (if is_cont b1 then (True, 2) else (False, 1))
      else if 224 \<le> b0 \<and> b0 < 240 then
        (if \<not> second3 b0 b1 then (False, 1)
         else if \<not> is_cont (byte_at s 2) then (False, 2) else (True, 3))
      else if 240 \<le> b0 \<and> b0 < 245 then
        (if \<not> second4 b0 b1 then (False, 1)
         else if \<not> is_cont (byte_at s 2) then (False, 2)
         else if \<not> is_cont (byte_at s 3) then (False, 3) else (True, 4))
      else (False, 1))"

lemma utf8_scan_pos [simp]: "0 < snd (utf8_scan s)"
  by (simp add: utf8_scan_def Let_def)

lemma utf8_scan_pos' [simp]: "snd (utf8_scan s) \<noteq> 0"
  using utf8_scan_pos [of s] by (metis less_irrefl)

lemma utf8_scan_drop: "s \<noteq> [] \<Longrightarrow> length s - snd (utf8_scan s) < length s"
  by (metis diff_less length_greater_0_conv utf8_scan_pos)

function utf8_valid :: "bytes \<Rightarrow> bool" where
  "utf8_valid s \<longleftrightarrow>
     (if s = [] then True
      else fst (utf8_scan s) \<and> utf8_valid (drop (snd (utf8_scan s)) s))"
  by pat_completeness auto
termination
  by (relation "measure length") (auto simp: utf8_scan_drop)

definition replacement :: bytes where
  "replacement = [char_of (239::nat), char_of (191::nat), char_of (189::nat)]"

function from_utf8_lossy :: "bytes \<Rightarrow> bytes" where
  "from_utf8_lossy s =
     (if s = [] then []
      else (if fst (utf8_scan s) then take (snd (utf8_scan s)) s else replacement) @
           from_utf8_lossy (drop (snd (utf8_scan s)) s))"
  by pat_completeness auto
termination
  by (relation "measure length") (auto simp: utf8_scan_drop)

text \<open>The characters of a string, each as its bytes.\<close>

function utf8_chars :: "bytes \<Rightarrow> bytes list" where
  "utf8_chars s =
     (if s = [] then []
      else take (snd (utf8_scan s)) s # utf8_chars (drop (snd (utf8_scan s)) s))"
  by pat_completeness auto
termination
  by (relation "measure length") (auto simp: utf8_scan_drop)

declare utf8_valid.simps [simp del] from_utf8_lossy.simps [simp del] utf8_chars.simps [simp del]

lemma utf8_valid_Nil [simp]: "utf8_valid []"
  by (simp add: utf8_valid.simps)

lemma from_utf8_lossy_Nil [simp]: "from_utf8_lossy [] = []"
  by (simp add: from_utf8_lossy.simps)

lemma utf8_chars_Nil [simp]: "utf8_chars [] = []"
  by (simp add: utf8_chars.simps)

lemma utf8_chars_nonempty: "s \<noteq> [] \<Longrightarrow> utf8_chars s \<noteq> []"
  by (subst utf8_chars.simps) simp

lemma byte_at_append: "i < length s \<Longrightarrow> byte_at (s @ t) i = byte_at s i"
  by (simp add: byte_at_def nth_append)

lemma byte_at_take: "i < n \<Longrightarrow> byte_at (take n s) i = byte_at s i"
  by (simp add: byte_at_def)

lemma is_cont_byte_at: "is_cont (byte_at s i) \<Longrightarrow> i < length s"
  by (auto simp: is_cont_def byte_at_def split: if_splits)

lemma second_in_range:
  "second3 b0 b1 \<Longrightarrow> is_cont b1" "second4 b0 b1 \<Longrightarrow> is_cont b1"
  by (auto simp: second3_def second4_def is_cont_def split: if_splits)

text \<open>A well-formed character lies inside the string.\<close>

lemma utf8_scan_length:
  assumes "fst (utf8_scan s)" and "s \<noteq> []"
  shows "snd (utf8_scan s) \<le> length s"
proof -
  have *: "is_cont (byte_at s i) \<Longrightarrow> Suc i \<le> length s" for i
    using is_cont_byte_at by (simp add: Suc_le_eq)
  have **: "0 < length s" using assms(2) by simp
  show ?thesis
    using assms(1) * [of 1] * [of 2] * [of 3] **
      second_in_range(1) [of "byte_at s 0" "byte_at s 1"]
      second_in_range(2) [of "byte_at s 0" "byte_at s 1"]
    by (auto simp: utf8_scan_def Let_def Suc_le_eq numeral_2_eq_2 numeral_3_eq_3
          split: if_splits)
qed

text \<open>Decoding one character reads its own bytes only.\<close>

lemma utf8_scan_agree:
  assumes ok: "fst (utf8_scan s)"
    and at: "\<And>i. i < snd (utf8_scan s) \<Longrightarrow> byte_at u i = byte_at s i"
  shows "utf8_scan u = utf8_scan s"
proof -
  let ?b = "byte_at s 0"
  have b0: "byte_at u 0 = ?b" using at by simp
  consider "?b < 128" | "194 \<le> ?b" "?b < 224" | "224 \<le> ?b" "?b < 240" | "240 \<le> ?b" "?b < 245"
    using ok by (fastforce simp: utf8_scan_def Let_def split: if_splits)
  then show ?thesis
  proof cases
    case 1
    with b0 show ?thesis by (simp add: utf8_scan_def)
  next
    case 2
    with ok have c: "is_cont (byte_at s 1)" by (simp add: utf8_scan_def split: if_splits)
    with 2 have "snd (utf8_scan s) = 2" by (simp add: utf8_scan_def)
    with at [of 1] 2 b0 c show ?thesis by (simp add: utf8_scan_def)
  next
    case 3
    with ok have c: "second3 ?b (byte_at s 1)" "is_cont (byte_at s 2)"
      by (simp_all add: utf8_scan_def split: if_splits)
    with 3 have "snd (utf8_scan s) = 3" by (simp add: utf8_scan_def)
    with at [of 1] at [of 2] 3 b0 c show ?thesis by (simp add: utf8_scan_def)
  next
    case 4
    with ok have c: "second4 ?b (byte_at s 1)" "is_cont (byte_at s 2)" "is_cont (byte_at s 3)"
      by (simp_all add: utf8_scan_def split: if_splits)
    with 4 have "snd (utf8_scan s) = 4" by (simp add: utf8_scan_def)
    with at [of 1] at [of 2] at [of 3] 4 b0 c show ?thesis by (simp add: utf8_scan_def)
  qed
qed

lemma utf8_scan_prefix:
  assumes "fst (utf8_scan s)" and "s \<noteq> []" and n: "n = snd (utf8_scan s)"
  shows "utf8_scan (take n s @ t) = (True, n)"
proof -
  have "n \<le> length s" using assms utf8_scan_length by simp
  then have "utf8_scan (take n s @ t) = utf8_scan s"
    by (intro utf8_scan_agree assms(1)) (simp add: n byte_at_append byte_at_take)
  with assms(1) n show ?thesis by (simp add: prod_eq_iff)
qed

lemma utf8_scan_replacement: "utf8_scan (replacement @ t) = (True, 3)"
  by (simp add: utf8_scan_def replacement_def byte_at_def second3_def is_cont_def)

lemma utf8_valid_step:
  "fst (utf8_scan s) \<Longrightarrow> s \<noteq> [] \<Longrightarrow>
     utf8_valid s \<longleftrightarrow> utf8_valid (drop (snd (utf8_scan s)) s)"
  by (subst utf8_valid.simps) simp

lemma utf8_valid_prepend:
  assumes "fst (utf8_scan s)" and "s \<noteq> []" and "utf8_valid t"
  shows "utf8_valid (take (snd (utf8_scan s)) s @ t)"
proof -
  let ?n = "snd (utf8_scan s)"
  have *: "utf8_scan (take ?n s @ t) = (True, ?n)"
    using utf8_scan_prefix [OF assms(1,2)] by simp
  have "length (take ?n s) = ?n" using utf8_scan_length [OF assms(1,2)] by simp
  moreover from this have "take ?n s @ t \<noteq> []" by (metis append_is_Nil_conv length_0_conv utf8_scan_pos')
  ultimately show ?thesis
    using * assms(3) by (subst utf8_valid_step) auto
qed

lemma utf8_valid_replacement:
  assumes "utf8_valid t"
  shows "utf8_valid (replacement @ t)"
proof -
  have "replacement @ t \<noteq> []" by (simp add: replacement_def)
  then have "utf8_valid (replacement @ t) \<longleftrightarrow> utf8_valid (drop 3 (replacement @ t))"
    using utf8_scan_replacement [of t] by (subst utf8_valid_step) auto
  with assms show ?thesis by (simp add: replacement_def)
qed

lemma utf8_valid_from_lossy: "utf8_valid (from_utf8_lossy s)"
proof (induction s rule: from_utf8_lossy.induct)
  case (1 s)
  show ?case
  proof (cases "s = []")
    case True
    then show ?thesis by simp
  next
    case False
    with 1 have IH: "utf8_valid (from_utf8_lossy (drop (snd (utf8_scan s)) s))" by simp
    show ?thesis
    proof (cases "fst (utf8_scan s)")
      case True
      then show ?thesis
        using False IH utf8_valid_prepend by (subst from_utf8_lossy.simps) simp
    next
      case F: False
      then show ?thesis
        using False IH utf8_valid_replacement by (subst from_utf8_lossy.simps) simp
    qed
  qed
qed

lemma from_utf8_lossy_valid: "utf8_valid s \<Longrightarrow> from_utf8_lossy s = s"
proof (induction s rule: from_utf8_lossy.induct)
  case (1 s)
  show ?case
  proof (cases "s = []")
    case False
    with 1(2) have "fst (utf8_scan s)" "utf8_valid (drop (snd (utf8_scan s)) s)"
      by (auto simp: utf8_valid.simps [of s])
    with False 1(1) show ?thesis
      by (subst from_utf8_lossy.simps) simp
  qed simp
qed

lemma concat_utf8_chars [simp]: "concat (utf8_chars s) = s"
proof (induction s rule: utf8_chars.induct)
  case (1 s)
  then show ?case
    by (cases "s = []") (simp_all add: utf8_chars.simps [of s])
qed

text \<open>ASCII strings are valid, and their characters are their bytes.\<close>

definition is_ascii :: "bytes \<Rightarrow> bool" where
  "is_ascii s \<longleftrightarrow> list_all (\<lambda>c. (of_char c :: nat) < 128) s"

lemma is_ascii_simps [simp]:
  "is_ascii []" "is_ascii (c # cs) \<longleftrightarrow> (of_char c :: nat) < 128 \<and> is_ascii cs"
  "is_ascii (s @ t) \<longleftrightarrow> is_ascii s \<and> is_ascii t"
  by (simp_all add: is_ascii_def)

lemma utf8_scan_ascii: "(of_char c :: nat) < 128 \<Longrightarrow> utf8_scan (c # cs) = (True, 1)"
  by (simp add: utf8_scan_def byte_at_def)

lemma utf8_valid_ascii_Cons:
  "(of_char c :: nat) < 128 \<Longrightarrow> utf8_valid (c # cs) = utf8_valid cs"
  by (subst utf8_valid_step) (simp_all add: utf8_scan_ascii)

lemma utf8_chars_ascii_Cons:
  "(of_char c :: nat) < 128 \<Longrightarrow> utf8_chars (c # cs) = [c] # utf8_chars cs"
  by (subst utf8_chars.simps) (simp add: utf8_scan_ascii)

lemma utf8_valid_ascii: "is_ascii s \<Longrightarrow> utf8_valid s"
  by (induction s) (simp_all add: utf8_valid_ascii_Cons)

lemma utf8_chars_ascii: "is_ascii s \<Longrightarrow> utf8_chars s = map (\<lambda>c. [c]) s"
  by (induction s) (simp_all add: utf8_chars_ascii_Cons)

section \<open>Character boundaries and slices\<close>

definition is_char_boundary :: "bytes \<Rightarrow> nat \<Rightarrow> bool" where
  "is_char_boundary s i \<longleftrightarrow>
     i = 0 \<or> i = length s \<or> (i < length s \<and> \<not> is_cont (byte_at s i))"

text \<open>\<open>&s[..n]\<close> and \<open>&s[n..]\<close>: a panic out of range or inside a character.\<close>

definition slice_to :: "bytes \<Rightarrow> nat \<Rightarrow> bytes pan" where
  "slice_to s n = (if is_char_boundary s n then Returned (take n s) else Panicked)"

definition slice_from :: "bytes \<Rightarrow> nat \<Rightarrow> bytes pan" where
  "slice_from s n = (if is_char_boundary s n then Returned (drop n s) else Panicked)"

lemma is_char_boundary_ascii: "is_ascii s \<Longrightarrow> n \<le> length s \<Longrightarrow> is_char_boundary s n"
proof (cases "n = length s")
  case False
  assume "is_ascii s" "n \<le> length s"
  with False have "(of_char (s ! n) :: nat) < 128" "n < length s"
    by (auto simp: is_ascii_def list_all_length)
  then show ?thesis by (simp add: is_char_boundary_def is_cont_def byte_at_def)
qed (simp add: is_char_boundary_def)

lemma slice_to_ascii: "is_ascii s \<Longrightarrow> n \<le> length s \<Longrightarrow> slice_to s n = Returned (take n s)"
  by (simp add: slice_to_def is_char_boundary_ascii)

section \<open>Characters\<close>

text \<open>The code point of one character.\<close>

definition code_point :: "bytes \<Rightarrow> nat" where
  "code_point c =
     (case length c of
        0 \<Rightarrow> 0
      | Suc 0 \<Rightarrow> byte_at c 0
      | Suc (Suc 0) \<Rightarrow> (byte_at c 0 - 192) * 64 + (byte_at c 1 - 128)
      | Suc (Suc (Suc 0)) \<Rightarrow>
          (byte_at c 0 - 224) * 4096 + (byte_at c 1 - 128) * 64 + (byte_at c 2 - 128)
      | _ \<Rightarrow> (byte_at c 0 - 240) * 262144 + (byte_at c 1 - 128) * 4096 +
             (byte_at c 2 - 128) * 64 + (byte_at c 3 - 128))"

text \<open>\<open>char::is_whitespace\<close> (the Unicode \<open>White_Space\<close> property) and \<open>char::is_control\<close>
  (category Cc).\<close>

definition is_whitespace :: "nat \<Rightarrow> bool" where
  "is_whitespace c \<longleftrightarrow>
     9 \<le> c \<and> c \<le> 13 \<or> c = 32 \<or> c = 133 \<or> c = 160 \<or> c = 5760 \<or>
     8192 \<le> c \<and> c \<le> 8202 \<or> c = 8232 \<or> c = 8233 \<or> c = 8239 \<or> c = 8287 \<or> c = 12288"

definition is_control :: "nat \<Rightarrow> bool" where
  "is_control c \<longleftrightarrow> c < 32 \<or> 127 \<le> c \<and> c < 160"

definition any_char :: "(nat \<Rightarrow> bool) \<Rightarrow> bytes \<Rightarrow> bool" where
  "any_char p s \<longleftrightarrow> list_ex (\<lambda>c. p (code_point c)) (utf8_chars s)"

lemma code_point_single [simp]: "code_point [c] = of_char c"
  by (simp add: code_point_def byte_at_def)

lemma any_char_Nil [simp]: "\<not> any_char p []"
  by (simp add: any_char_def)

lemma any_char_ascii: "is_ascii s \<Longrightarrow> any_char p s \<longleftrightarrow> list_ex (\<lambda>c. p (of_char c)) s"
  by (simp add: any_char_def utf8_chars_ascii list_ex_iff)

section \<open>Trimming\<close>

definition ws_char :: "bytes \<Rightarrow> bool" where
  "ws_char c = is_whitespace (code_point c)"

definition trim_start :: "bytes \<Rightarrow> bytes" where
  "trim_start s = concat (dropWhile ws_char (utf8_chars s))"

definition trim_end :: "bytes \<Rightarrow> bytes" where
  "trim_end s = concat (rev (dropWhile ws_char (rev (utf8_chars s))))"

definition trim :: "bytes \<Rightarrow> bytes" where
  "trim s = trim_end (trim_start s)"

text \<open>\<open>trim_end_matches\<close> for a set of ASCII characters.\<close>

definition trim_end_matches :: "(char \<Rightarrow> bool) \<Rightarrow> bytes \<Rightarrow> bytes" where
  "trim_end_matches p s = rev (dropWhile p (rev s))"

lemma length_concat_dropWhile: "length (concat (dropWhile p xs)) \<le> length (concat xs)"
  by (induction xs) auto

lemma length_trim_start: "length (trim_start s) \<le> length s"
  unfolding trim_start_def using length_concat_dropWhile [of ws_char "utf8_chars s"] by simp

lemma trim_start_ascii:
  "is_ascii s \<Longrightarrow> trim_start s = dropWhile (\<lambda>c. is_whitespace (of_char c)) s"
proof -
  have "concat (dropWhile ws_char (map (\<lambda>c. [c]) t)) = dropWhile (\<lambda>c. is_whitespace (of_char c)) t" for t
    by (induction t) (simp_all add: ws_char_def)
  then show "is_ascii s \<Longrightarrow> ?thesis" by (simp add: trim_start_def utf8_chars_ascii)
qed

lemma trim_end_ascii:
  "is_ascii s \<Longrightarrow> trim_end s = rev (dropWhile (\<lambda>c. is_whitespace (of_char c)) (rev s))"
proof -
  have *: "dropWhile ws_char (map (\<lambda>c. [c]) t) = map (\<lambda>c. [c]) (dropWhile (\<lambda>c. is_whitespace (of_char c)) t)" for t
    by (induction t) (simp_all add: ws_char_def)
  have **: "concat (map (\<lambda>c. [c]) t) = t" for t :: bytes
    by (induction t) simp_all
  show "is_ascii s \<Longrightarrow> ?thesis"
    by (simp add: trim_end_def utf8_chars_ascii rev_map * **)
qed

section \<open>ASCII case\<close>

definition ascii_lower :: "char \<Rightarrow> char" where
  "ascii_lower c =
     (if 65 \<le> (of_char c :: nat) \<and> (of_char c :: nat) \<le> 90 then char_of ((of_char c :: nat) + 32) else c)"

definition ascii_upper :: "char \<Rightarrow> char" where
  "ascii_upper c =
     (if 97 \<le> (of_char c :: nat) \<and> (of_char c :: nat) \<le> 122 then char_of ((of_char c :: nat) - 32) else c)"

definition to_ascii_lowercase :: "bytes \<Rightarrow> bytes" where
  "to_ascii_lowercase s = map ascii_lower s"

definition to_ascii_uppercase :: "bytes \<Rightarrow> bytes" where
  "to_ascii_uppercase s = map ascii_upper s"

definition eq_ignore_ascii_case :: "bytes \<Rightarrow> bytes \<Rightarrow> bool" where
  "eq_ignore_ascii_case s t \<longleftrightarrow> to_ascii_lowercase s = to_ascii_lowercase t"

lemma eq_ignore_ascii_case_refl [simp]: "eq_ignore_ascii_case s s"
  by (simp add: eq_ignore_ascii_case_def)

lemma eq_ignore_ascii_case_length: "eq_ignore_ascii_case s t \<Longrightarrow> length s = length t"
  unfolding eq_ignore_ascii_case_def to_ascii_lowercase_def by (rule map_eq_imp_length_eq)

lemma ascii_lower_eq_low: "(of_char d :: nat) < 65 \<Longrightarrow> ascii_lower c = d \<longleftrightarrow> c = d"
proof -
  assume d: "(of_char d :: nat) < 65"
  have "(of_char (char_of ((of_char c :: nat) + 32)) :: nat) = of_char c + 32"
    if "65 \<le> (of_char c :: nat)" "(of_char c :: nat) \<le> 90"
    using that by (simp add: of_char_of)
  with d show ?thesis by (auto simp: ascii_lower_def)
qed

lemma ascii_lower_idem [simp]: "ascii_lower (ascii_lower c) = ascii_lower c"
  by (auto simp: ascii_lower_def of_char_of)

lemma to_ascii_lowercase_idem [simp]:
  "to_ascii_lowercase (to_ascii_lowercase s) = to_ascii_lowercase s"
  by (simp add: to_ascii_lowercase_def)

section \<open>Searching and splitting\<close>

text \<open>\<open>str::find\<close> of an ASCII character, as the part before and the part after it.\<close>

fun split_once :: "char \<Rightarrow> bytes \<Rightarrow> (bytes \<times> bytes) option" where
  "split_once c [] = None"
| "split_once c (x # xs) =
     (if x = c then Some ([], xs)
      else map_option (\<lambda>(a, b). (x # a, b)) (split_once c xs))"

definition rsplit_once :: "char \<Rightarrow> bytes \<Rightarrow> (bytes \<times> bytes) option" where
  "rsplit_once c s = map_option (\<lambda>(a, b). (rev b, rev a)) (split_once c (rev s))"

text \<open>\<open>str::split\<close> by an ASCII character: one more part than there are separators.\<close>

fun split_on :: "char \<Rightarrow> bytes \<Rightarrow> bytes list" where
  "split_on c [] = [[]]"
| "split_on c (x # xs) =
     (if x = c then [] # split_on c xs
      else (case split_on c xs of [] \<Rightarrow> [[x]] | p # ps \<Rightarrow> (x # p) # ps))"

fun join :: "bytes \<Rightarrow> bytes list \<Rightarrow> bytes" where
  "join sep [] = []"
| "join sep [x] = x"
| "join sep (x # xs) = x @ sep @ join sep xs"

fun strip_prefix :: "bytes \<Rightarrow> bytes \<Rightarrow> bytes option" where
  "strip_prefix [] s = Some s"
| "strip_prefix (p # ps) [] = None"
| "strip_prefix (p # ps) (x # xs) = (if p = x then strip_prefix ps xs else None)"

definition strip_suffix :: "bytes \<Rightarrow> bytes \<Rightarrow> bytes option" where
  "strip_suffix p s = map_option rev (strip_prefix (rev p) (rev s))"

fun contains_sub :: "bytes \<Rightarrow> bytes \<Rightarrow> bool" where
  "contains_sub p [] = (p = [])"
| "contains_sub p (x # xs) = (strip_prefix p (x # xs) \<noteq> None \<or> contains_sub p xs)"

lemma split_once_Some:
  "split_once c s = Some (a, b) \<Longrightarrow> s = a @ c # b \<and> c \<notin> set a"
  by (induction s arbitrary: a) (auto split: if_splits)

lemma split_once_None: "split_once c s = None \<longleftrightarrow> c \<notin> set s"
  by (induction s) auto

lemma split_once_append: "c \<notin> set a \<Longrightarrow> split_once c (a @ c # b) = Some (a, b)"
  by (induction a) auto

lemma rsplit_once_Some:
  assumes "rsplit_once c s = Some (a, b)"
  shows "s = a @ c # b \<and> c \<notin> set b"
proof -
  from assms obtain x y where *: "split_once c (rev s) = Some (x, y)" and ab: "a = rev y" "b = rev x"
    by (auto simp: rsplit_once_def)
  from split_once_Some [OF *] have "rev s = x @ c # y" "c \<notin> set x" by auto
  then have "rev (rev s) = rev (x @ c # y)" by simp
  with ab \<open>c \<notin> set x\<close> show ?thesis by simp
qed

lemma rsplit_once_append: "c \<notin> set b \<Longrightarrow> rsplit_once c (a @ c # b) = Some (a, b)"
  by (simp add: rsplit_once_def split_once_append)

lemma split_on_nonempty [simp]: "split_on c s \<noteq> []"
  by (induction s) (auto split: list.splits)

lemma split_on_no_sep: "p \<in> set (split_on c s) \<Longrightarrow> c \<notin> set p"
  by (induction s arbitrary: p) (auto split: if_splits list.splits)

lemma join_split_on [simp]: "join [c] (split_on c s) = s"
proof (induction s)
  case (Cons x xs)
  obtain p ps where sp: "split_on c xs = p # ps"
    by (meson neq_Nil_conv split_on_nonempty)
  show ?case
  proof (cases "x = c")
    case True
    with Cons sp show ?thesis by simp
  next
    case False
    with Cons sp show ?thesis by (cases ps) auto
  qed
qed simp

lemma strip_prefix_Some: "strip_prefix p s = Some t \<longleftrightarrow> s = p @ t"
  by (induction p s rule: strip_prefix.induct) auto

lemma strip_prefix_append [simp]: "strip_prefix p (p @ s) = Some s"
  by (simp add: strip_prefix_Some)

lemma length_split_on: "length (split_on c s) = Suc (count_list s c)"
  by (induction s) (auto split: list.splits)

lemma split_on_single: "c \<notin> set s \<Longrightarrow> split_on c s = [s]"
  by (induction s) auto

lemma split_on_append: "c \<notin> set a \<Longrightarrow> split_on c (a @ c # b) = a # split_on c b"
  by (induction a) auto

section \<open>Decimal numbers\<close>

text \<open>\<open>format!\<close> of a natural number.\<close>

fun show_nat :: "nat \<Rightarrow> bytes" where
  "show_nat n = (if n < 10 then [char_of (48 + n)] else show_nat (n div 10) @ [char_of (48 + n mod 10)])"

declare show_nat.simps [simp del]

definition show_int :: "int \<Rightarrow> bytes" where
  "show_int i = (if i < 0 then CHR ''-'' # show_nat (nat (- i)) else show_nat (nat i))"

definition digit_value :: "char \<Rightarrow> nat option" where
  "digit_value c =
     (let b = of_char c in if 48 \<le> b \<and> b \<le> (57::nat) then Some (b - 48) else None)"

fun parse_digits :: "nat \<Rightarrow> bytes \<Rightarrow> nat option" where
  "parse_digits acc [] = Some acc"
| "parse_digits acc (c # cs) =
     (case digit_value c of None \<Rightarrow> None | Some d \<Rightarrow> parse_digits (10 * acc + d) cs)"

text \<open>\<open>str::parse::<i64>\<close>: an optional sign, at least one digit, and the range of \<open>i64\<close>.\<close>

definition parse_i64 :: "bytes \<Rightarrow> int option" where
  "parse_i64 s =
     (case s of
        [] \<Rightarrow> None
      | c # cs \<Rightarrow>
          (let neg = (c = CHR ''-'');
               ds = (if c = CHR ''-'' \<or> c = CHR ''+'' then cs else s)
           in if ds = [] then None
              else (case parse_digits 0 ds of
                      None \<Rightarrow> None
                    | Some n \<Rightarrow>
                        (if neg then (if n \<le> 2 ^ 63 then Some (- int n) else None)
                         else (if n < 2 ^ 63 then Some (int n) else None)))))"

lemma digit_value_show: "n < 10 \<Longrightarrow> digit_value (char_of (48 + n)) = Some n"
  by (simp add: digit_value_def of_char_of)

lemma parse_digits_append:
  "parse_digits acc (s @ t) =
     (case parse_digits acc s of None \<Rightarrow> None | Some m \<Rightarrow> parse_digits m t)"
  by (induction acc s rule: parse_digits.induct) (auto split: option.splits)

lemma parse_show_nat: "parse_digits 0 (show_nat n) = Some n"
proof (induction n rule: show_nat.induct)
  case (1 n)
  show ?case
  proof (cases "n < 10")
    case True
    then show ?thesis by (simp add: show_nat.simps [of n] digit_value_show)
  next
    case False
    with 1 show ?thesis
      by (simp add: show_nat.simps [of n] parse_digits_append digit_value_show)
  qed
qed

lemma show_nat_digits: "c \<in> set (show_nat n) \<Longrightarrow> 48 \<le> (of_char c :: nat) \<and> (of_char c :: nat) \<le> 57"
proof (induction n rule: show_nat.induct)
  case (1 n)
  show ?case
  proof (cases "n < 10")
    case True
    with 1 show ?thesis by (simp add: show_nat.simps [of n] of_char_of)
  next
    case False
    with 1 show ?thesis by (auto simp: show_nat.simps [of n] of_char_of)
  qed
qed

lemma show_nat_nonempty [simp]: "show_nat n \<noteq> []"
  by (simp add: show_nat.simps)

lemma parse_show_i64:
  assumes "- (2 ^ 63) \<le> i" and "i < 2 ^ 63"
  shows "parse_i64 (show_int i) = Some i"
proof (cases "i < 0")
  case True
  with assms show ?thesis by (simp add: parse_i64_def show_int_def parse_show_nat)
next
  case False
  obtain c cs where s: "show_nat (nat i) = c # cs"
    by (meson neq_Nil_conv show_nat_nonempty)
  then have "c \<noteq> CHR ''-'' \<and> c \<noteq> CHR ''+''"
    using show_nat_digits [of c "nat i"] by auto
  moreover have "nat i < 2 ^ 63" using assms False by (simp add: nat_less_iff)
  ultimately show ?thesis
    using False s parse_show_nat [of "nat i"] by (simp add: parse_i64_def show_int_def)
qed

text \<open>\<open>Display\<close> of \<open>Utf8Error\<close>: the index of the first invalid byte, and how many bytes are invalid unless the
  input ends inside a character.\<close>

function utf8_error :: "nat \<Rightarrow> bytes \<Rightarrow> bytes" where
  "utf8_error i s =
     (if s = [] then []
      else if fst (utf8_scan s) then utf8_error (i + snd (utf8_scan s)) (drop (snd (utf8_scan s)) s)
      else if length s \<le> snd (utf8_scan s) \<and> 194 \<le> byte_at s 0 \<and> byte_at s 0 \<le> 244
      then ''incomplete utf-8 byte sequence from index '' @ show_nat i
      else ''invalid utf-8 sequence of '' @ show_nat (snd (utf8_scan s)) @ '' bytes from index '' @ show_nat i)"
  by pat_completeness auto
termination
  by (relation "measure (\<lambda>(i, s). length s)") (auto simp: utf8_scan_drop)

declare utf8_error.simps [simp del]

end
