(* ===== verification/Input_Validation.thy ===== *)
theory Input_Validation
  imports Rust_Str
begin

text \<open>
  \<open>common::input\<close>: the checks that every string crossing a mail protocol boundary passes
  (envelope addresses, HELO arguments, mailbox and domain names), and the address-literal parsers of
  the standard library behind \<open>valid_helo_domain\<close>.

  The lemmas say what an accepted value can never contain, so that placing it inside an SMTP
  command, a header or a log line cannot start another one.
\<close>

section \<open>Address literals\<close>

text \<open>\<open>Ipv4Addr::from_str\<close> and \<open>Ipv6Addr::from_str\<close>, as recursive-descent readers that return the
  rest of the input.\<close>

definition to_digit :: "nat \<Rightarrow> char \<Rightarrow> nat option" where
  "to_digit radix c =
     (let b = (of_char c :: nat) in
      if 48 \<le> b \<and> b \<le> 57 then (if b - 48 < radix then Some (b - 48) else None)
      else if 97 \<le> b \<and> b \<le> 122 then (if b - 87 < radix then Some (b - 87) else None)
      else if 65 \<le> b \<and> b \<le> 90 then (if b - 55 < radix then Some (b - 55) else None)
      else None)"

fun take_digits :: "nat \<Rightarrow> bytes \<Rightarrow> nat list \<times> bytes" where
  "take_digits radix [] = ([], [])"
| "take_digits radix (c # cs) =
     (case to_digit radix c of
        None \<Rightarrow> ([], c # cs)
      | Some d \<Rightarrow> (let (ds, rest) = take_digits radix cs in (d # ds, rest)))"

definition read_number :: "nat \<Rightarrow> nat \<Rightarrow> bool \<Rightarrow> nat \<Rightarrow> bytes \<Rightarrow> bytes option" where
  "read_number radix max_digits allow_zero_prefix bound s =
     (let (ds, rest) = take_digits radix s in
      if max_digits < length ds \<or> ds = [] then None
      else if \<not> allow_zero_prefix \<and> hd ds = 0 \<and> 1 < length ds then None
      else if foldl (\<lambda>v d. v * radix + d) 0 ds < bound then Some rest else None)"

definition read_separator :: "char \<Rightarrow> nat \<Rightarrow> (bytes \<Rightarrow> bytes option) \<Rightarrow> bytes \<Rightarrow> bytes option" where
  "read_separator sep i inner s =
     (if i = 0 then inner s
      else (case s of [] \<Rightarrow> None | c # cs \<Rightarrow> if c = sep then inner cs else None))"

fun read_octets :: "nat \<Rightarrow> nat \<Rightarrow> bytes \<Rightarrow> bytes option" where
  "read_octets 0 i s = Some s"
| "read_octets (Suc k) i s =
     (case read_separator (CHR ''.'') i (read_number 10 3 False 256) s of
        None \<Rightarrow> None
      | Some rest \<Rightarrow> read_octets k (Suc i) rest)"

definition read_ipv4_addr :: "bytes \<Rightarrow> bytes option" where
  "read_ipv4_addr s = read_octets 4 0 s"

fun read_groups :: "nat \<Rightarrow> nat \<Rightarrow> nat \<Rightarrow> bytes \<Rightarrow> nat \<times> bool \<times> bytes" where
  "read_groups limit 0 i s = (i, False, s)"
| "read_groups limit (Suc k) i s =
     (case (if i < limit - 1 then read_separator (CHR '':'') i read_ipv4_addr s else None) of
        Some rest \<Rightarrow> (i + 2, True, rest)
      | None \<Rightarrow>
          (case read_separator (CHR '':'') i (read_number 16 4 True 65536) s of
             Some rest \<Rightarrow> read_groups limit k (Suc i) rest
           | None \<Rightarrow> (i, False, s)))"

definition parses_ipv4 :: "bytes \<Rightarrow> bool" where
  "parses_ipv4 s \<longleftrightarrow> length s \<le> 15 \<and> read_ipv4_addr s = Some []"

definition parses_ipv6 :: "bytes \<Rightarrow> bool" where
  "parses_ipv6 s \<longleftrightarrow>
     (let (head_size, head_ipv4, rest) = read_groups 8 8 0 s in
      if head_size = 8 then rest = []
      else if head_ipv4 then False
      else (case strip_prefix ''::'' rest of
              None \<Rightarrow> False
            | Some rest2 \<Rightarrow>
                (let limit = 8 - (head_size + 1) in
                 snd (snd (read_groups limit limit 0 rest2)) = [])))"

section \<open>The checks\<close>

definition valid_header_value :: "bytes \<Rightarrow> bool" where
  "valid_header_value value \<longleftrightarrow>
     \<not> any_char (\<lambda>c. c = 13 \<or> c = 10 \<or> c = 0 \<or> is_control c) value"

definition addr_delimiters :: "nat list" where
  "addr_delimiters = map of_char ''<>()[],;:'' @ [92, 34]"

definition is_ascii_alphanumeric :: "char \<Rightarrow> bool" where
  "is_ascii_alphanumeric c \<longleftrightarrow>
     (let b = (of_char c :: nat) in
      48 \<le> b \<and> b \<le> 57 \<or> 65 \<le> b \<and> b \<le> 90 \<or> 97 \<le> b \<and> b \<le> 122)"

definition valid_label :: "bytes \<Rightarrow> bool" where
  "valid_label label \<longleftrightarrow>
     label \<noteq> [] \<and> length label \<le> 63 \<and> hd label \<noteq> CHR ''-'' \<and> last label \<noteq> CHR ''-'' \<and>
     list_all (\<lambda>b. is_ascii_alphanumeric b \<or> b = CHR ''-'') label"

definition valid_domain_name :: "bytes \<Rightarrow> bool" where
  "valid_domain_name domain \<longleftrightarrow>
     domain \<noteq> [] \<and> length domain \<le> 253 \<and> valid_header_value domain \<and> is_ascii domain \<and>
     list_all valid_label (split_on (CHR ''.'') domain)"

definition valid_email_address :: "bytes \<Rightarrow> bool" where
  "valid_email_address address \<longleftrightarrow>
     (if address = [] \<or> 254 < length address \<or> \<not> valid_header_value address then False
      else if any_char (\<lambda>c. is_whitespace c \<or> c \<in> set addr_delimiters) address then False
      else (case split_on (CHR ''@'') address of
              [local, domain] \<Rightarrow>
                \<not> (local = [] \<or> domain = [] \<or> hd local = CHR ''.'' \<or> last local = CHR ''.'' \<or>
                   contains_sub ''..'' local \<or> \<not> valid_domain_name domain)
            | _ \<Rightarrow> False))"

definition valid_local_part :: "bytes \<Rightarrow> bool" where
  "valid_local_part local = valid_email_address (local @ ''@example.invalid'')"

definition valid_helo_domain :: "bytes \<Rightarrow> bool" where
  "valid_helo_domain value \<longleftrightarrow>
     (if valid_domain_name value then True
      else (case Option.bind (strip_prefix ''['' value) (strip_suffix '']'') of
              None \<Rightarrow> False
            | Some inner \<Rightarrow>
                (case strip_prefix ''IPv6:'' inner of
                   Some v6 \<Rightarrow> parses_ipv6 v6
                 | None \<Rightarrow> parses_ipv4 inner)))"

section \<open>What an accepted value cannot contain\<close>

text \<open>An ASCII byte of a string is always a character of its own, also in ill-formed input.\<close>

lemma utf8_scan_chunk:
  assumes "s \<noteq> []" and "c \<in> set (take (snd (utf8_scan s)) s)" and "(of_char c :: nat) < 128"
  shows "take (snd (utf8_scan s)) s = [c]"
proof -
  obtain i where i: "i < snd (utf8_scan s)" "i < length s" "c = s ! i"
    using assms(2) by (auto simp: in_set_conv_nth)
  have low: "byte_at s i < 128" using i assms(3) by (simp add: byte_at_def)
  have "snd (utf8_scan s) = 1"
  proof (rule ccontr)
    assume n: "snd (utf8_scan s) \<noteq> 1"
    then have hi: "128 \<le> byte_at s 0" "1 < snd (utf8_scan s) \<Longrightarrow> is_cont (byte_at s 1)"
      "2 < snd (utf8_scan s) \<Longrightarrow> is_cont (byte_at s 2)"
      "3 < snd (utf8_scan s) \<Longrightarrow> is_cont (byte_at s 3)" "snd (utf8_scan s) \<le> 4"
      by (auto simp: utf8_scan_def Let_def dest: second_in_range split: if_splits)
    with i(1) have "i = 0 \<or> i = 1 \<or> i = 2 \<or> i = 3" by linarith
    with hi low i(1) show False by (auto simp: is_cont_def)
  qed
  with i assms(1) show ?thesis by (cases s) auto
qed

lemma ascii_char_in_chars:
  "c \<in> set s \<Longrightarrow> (of_char c :: nat) < 128 \<Longrightarrow> [c] \<in> set (utf8_chars s)"
proof (induction s rule: utf8_chars.induct)
  case (1 s)
  then have "s \<noteq> []" by auto
  let ?n = "snd (utf8_scan s)"
  from 1(2) have "c \<in> set (take ?n s) \<or> c \<in> set (drop ?n s)"
    by (metis Un_iff append_take_drop_id set_append)
  then show ?case
  proof
    assume "c \<in> set (take ?n s)"
    with utf8_scan_chunk [OF \<open>s \<noteq> []\<close> this 1(3)] \<open>s \<noteq> []\<close> show ?thesis
      by (simp add: utf8_chars.simps [of s])
  next
    assume "c \<in> set (drop ?n s)"
    with 1(1,3) \<open>s \<noteq> []\<close> show ?thesis by (simp add: utf8_chars.simps [of s])
  qed
qed

lemma any_char_ascii_byte:
  "\<not> any_char p s \<Longrightarrow> c \<in> set s \<Longrightarrow> (of_char c :: nat) < 128 \<Longrightarrow> \<not> p (of_char c)"
  using ascii_char_in_chars [of c s] by (force simp: any_char_def list_ex_iff)

lemma valid_header_value_bytes:
  assumes "valid_header_value v" and "c \<in> set v"
  shows "32 \<le> (of_char c :: nat) \<and> (of_char c :: nat) \<noteq> 127"
  using any_char_ascii_byte [OF assms(1) [unfolded valid_header_value_def] assms(2)]
  by (cases "(of_char c :: nat) < 128") (auto simp: is_control_def)

text \<open>The bytes of a domain name.\<close>

definition domain_byte :: "char \<Rightarrow> bool" where
  "domain_byte c \<longleftrightarrow> is_ascii_alphanumeric c \<or> c = CHR ''-'' \<or> c = CHR ''.''"

lemma set_split_on: "c \<in> set s \<Longrightarrow> c \<noteq> d \<Longrightarrow> \<exists>p \<in> set (split_on d s). c \<in> set p"
  by (induction s) (auto split: list.splits)

lemma valid_domain_name_bytes:
  assumes "valid_domain_name d" and "c \<in> set d"
  shows "domain_byte c"
proof (cases "c = CHR ''.''")
  case False
  then obtain p where "p \<in> set (split_on (CHR ''.'') d)" "c \<in> set p"
    using set_split_on [OF assms(2)] by blast
  with assms(1) show ?thesis
    by (auto simp: valid_domain_name_def valid_label_def list_all_iff domain_byte_def)
qed (simp add: domain_byte_def)

lemma domain_byte_printable:
  "domain_byte c \<Longrightarrow> 45 \<le> (of_char c :: nat) \<and> (of_char c :: nat) \<le> 122 \<and>
     (of_char c :: nat) \<notin> {58, 59, 60, 61, 62, 63, 64, 91, 92, 93}"
  by (auto simp: domain_byte_def is_ascii_alphanumeric_def Let_def)

lemma valid_email_split:
  assumes "valid_email_address a"
  obtains local domain where "a = local @ CHR ''@'' # domain" "CHR ''@'' \<notin> set local"
    "CHR ''@'' \<notin> set domain" "local \<noteq> []" "valid_domain_name domain"
proof -
  from assms obtain local domain where sp: "split_on (CHR ''@'') a = [local, domain]"
    and ok: "local \<noteq> []" "valid_domain_name domain"
    by (auto simp: valid_email_address_def split: if_splits list.splits)
  have "a = local @ CHR ''@'' # domain"
    using join_split_on [of "CHR ''@''" a] unfolding sp by simp
  moreover have "CHR ''@'' \<notin> set local" "CHR ''@'' \<notin> set domain"
    using sp split_on_no_sep [of local "CHR ''@''" a] split_on_no_sep [of domain "CHR ''@''" a]
    by auto
  ultimately show thesis using that ok by blast
qed

definition protocol_bytes :: "nat set" where
  "protocol_bytes = {0..<32} \<union> {32, 34, 40, 41, 44, 58, 59, 60, 62, 91, 92, 93, 127}"

lemma valid_email_bytes:
  assumes "valid_email_address a" and "c \<in> set a"
  shows "(of_char c :: nat) \<notin> protocol_bytes"
proof (cases "(of_char c :: nat) < 128")
  case True
  from assms(1) have hv: "valid_header_value a"
    and na: "\<not> any_char (\<lambda>c. is_whitespace c \<or> c \<in> set addr_delimiters) a"
    by (auto simp: valid_email_address_def split: if_splits)
  show ?thesis
    using valid_header_value_bytes [OF hv assms(2)] any_char_ascii_byte [OF na assms(2) True]
    by (auto simp: protocol_bytes_def addr_delimiters_def is_whitespace_def)
qed (auto simp: protocol_bytes_def)

text \<open>Splitting an accepted address at its first or at its last \<open>@\<close> gives the same two parts.\<close>

lemma valid_email_rsplit:
  assumes "valid_email_address a"
  shows "\<exists>local domain. rsplit_once (CHR ''@'') a = Some (local, domain) \<and>
           split_once (CHR ''@'') a = Some (local, domain) \<and> valid_domain_name domain"
  using assms
  by (rule valid_email_split) (auto simp: rsplit_once_append split_once_append)

section \<open>Address literals consume address characters only\<close>

lemma take_digits_split:
  "take_digits r s = (ds, rest) \<Longrightarrow> \<exists>p. s = p @ rest \<and> (\<forall>c \<in> set p. to_digit r c \<noteq> None)"
proof (induction r s arbitrary: ds rule: take_digits.induct)
  case (2 r c cs)
  show ?case
  proof (cases "to_digit r c")
    case None
    with 2 show ?thesis by auto
  next
    case (Some d)
    then obtain ds' where td: "take_digits r cs = (ds', rest)"
      using 2(2) by (auto split: prod.splits)
    from 2(1) [OF Some td] obtain p where "cs = p @ rest" "\<forall>c \<in> set p. to_digit r c \<noteq> None"
      by blast
    with Some show ?thesis by (intro exI [of _ "c # p"]) auto
  qed
qed auto

text \<open>A hexadecimal digit, a dot or a colon.\<close>

definition literal_byte :: "char \<Rightarrow> bool" where
  "literal_byte c \<longleftrightarrow> to_digit 16 c \<noteq> None \<or> c = CHR ''.'' \<or> c = CHR '':''"

definition consumes_literal :: "bytes \<Rightarrow> bytes \<Rightarrow> bool" where
  "consumes_literal s rest \<longleftrightarrow> (\<exists>p. s = p @ rest \<and> list_all literal_byte p)"

lemma consumes_literal_refl [simp]: "consumes_literal s s"
  by (simp add: consumes_literal_def)

lemma consumes_literal_Cons: "literal_byte c \<Longrightarrow> consumes_literal s rest \<Longrightarrow> consumes_literal (c # s) rest"
proof -
  assume c: "literal_byte c" and "consumes_literal s rest"
  then obtain p where "s = p @ rest" "list_all literal_byte p"
    by (auto simp: consumes_literal_def)
  with c have "c # s = (c # p) @ rest" "list_all literal_byte (c # p)" by auto
  then show ?thesis unfolding consumes_literal_def by blast
qed

lemma consumes_literal_trans:
  assumes "consumes_literal s t" and "consumes_literal t u"
  shows "consumes_literal s u"
proof -
  from assms obtain p q where "s = p @ t" "t = q @ u" "list_all literal_byte p" "list_all literal_byte q"
    by (auto simp: consumes_literal_def)
  then have "s = (p @ q) @ u" "list_all literal_byte (p @ q)" by auto
  then show ?thesis unfolding consumes_literal_def by blast
qed

lemma to_digit_mono: "to_digit 10 c = Some d \<Longrightarrow> to_digit 16 c = Some d"
  by (auto simp: to_digit_def Let_def split: if_splits)

lemma read_number_consumes:
  assumes "read_number r m z b s = Some rest" and "r = 10 \<or> r = 16"
  shows "consumes_literal s rest"
proof -
  from assms(1) obtain ds where "take_digits r s = (ds, rest)"
    by (auto simp: read_number_def Let_def split: prod.splits if_splits)
  from take_digits_split [OF this] obtain p where
    "s = p @ rest" "\<forall>c \<in> set p. to_digit r c \<noteq> None" by blast
  with assms(2) show ?thesis
    by (fastforce simp: consumes_literal_def literal_byte_def list_all_iff dest: to_digit_mono)
qed

lemma read_separator_consumes:
  assumes "read_separator sep i inner s = Some rest"
    and "\<And>s rest. inner s = Some rest \<Longrightarrow> consumes_literal s rest"
    and "sep = CHR ''.'' \<or> sep = CHR '':''"
  shows "consumes_literal s rest"
proof (cases "i = 0")
  case False
  with assms(1) obtain cs where s: "s = sep # cs" and inner: "inner cs = Some rest"
    by (auto simp: read_separator_def split: list.splits if_splits)
  have "literal_byte sep" using assms(3) by (auto simp: literal_byte_def)
  with s inner assms(2) show ?thesis by (simp add: consumes_literal_Cons)
qed (use assms in \<open>simp add: read_separator_def\<close>)

lemma read_octets_consumes: "read_octets k i s = Some rest \<Longrightarrow> consumes_literal s rest"
proof (induction k i s rule: read_octets.induct)
  case (2 k i s)
  from "2.prems" obtain t where
    t: "read_separator (CHR ''.'') i (read_number 10 3 False 256) s = Some t"
    and r: "read_octets k (Suc i) t = Some rest"
    by (auto split: option.splits)
  have "consumes_literal s t"
    by (rule read_separator_consumes [OF t]) (auto intro: read_number_consumes)
  with "2.IH" [OF t r] show ?case by (rule consumes_literal_trans [rotated])
qed simp

lemma read_groups_consumes:
  "read_groups limit k i s = (n, v4, rest) \<Longrightarrow> consumes_literal s rest"
proof (induction limit k i s rule: read_groups.induct)
  case (2 limit k i s)
  let ?v4 = "if i < limit - 1 then read_separator (CHR '':'') i read_ipv4_addr s else None"
  let ?grp = "read_separator (CHR '':'') i (read_number 16 4 True 65536) s"
  show ?case
  proof (cases ?v4)
    case (Some t)
    then have "read_separator (CHR '':'') i read_ipv4_addr s = Some t" by (simp split: if_splits)
    then have "consumes_literal s t"
      by (rule read_separator_consumes) (auto simp: read_ipv4_addr_def intro: read_octets_consumes)
    with Some "2.prems" show ?thesis by simp
  next
    case None
    show ?thesis
    proof (cases ?grp)
      case (Some t)
      have "consumes_literal s t"
        by (rule read_separator_consumes [OF Some]) (auto intro: read_number_consumes)
      moreover have "consumes_literal t rest"
        using "2.IH" [OF None Some] "2.prems" None Some by simp
      ultimately show ?thesis by (rule consumes_literal_trans)
    next
      case none: None
      with None "2.prems" show ?thesis by simp
    qed
  qed
qed auto

lemma parses_ipv4_bytes: "parses_ipv4 s \<Longrightarrow> list_all literal_byte s"
  using read_octets_consumes [of 4 0 s "[]"]
  by (auto simp: parses_ipv4_def read_ipv4_addr_def consumes_literal_def)

lemma parses_ipv6_bytes:
  assumes "parses_ipv6 s"
  shows "list_all literal_byte s"
proof -
  obtain hs v4 rest where h: "read_groups 8 8 0 s = (hs, v4, rest)"
    by (metis prod_cases3)
  from read_groups_consumes [OF h] obtain p where p: "s = p @ rest" "list_all literal_byte p"
    by (auto simp: consumes_literal_def)
  show ?thesis
  proof (cases "hs = 8")
    case True
    with assms h p show ?thesis by (simp add: parses_ipv6_def)
  next
    case False
    with assms h obtain r2 n v where r2: "rest = ''::'' @ r2"
      and "read_groups (8 - (hs + 1)) (8 - (hs + 1)) 0 r2 = (n, v, [])"
      by (auto simp: parses_ipv6_def Let_def strip_prefix_Some split: option.splits if_splits)
        (metis prod.collapse)
    from read_groups_consumes [OF this(2)] have "list_all literal_byte r2"
      by (auto simp: consumes_literal_def)
    with p r2 show ?thesis by (simp add: literal_byte_def)
  qed
qed

lemma literal_byte_range:
  assumes "literal_byte c"
  shows "46 \<le> (of_char c :: nat)" "(of_char c :: nat) \<le> 102"
  using assms by (auto simp: literal_byte_def to_digit_def Let_def split: if_splits)

text \<open>The printable, space-free ASCII range of a HELO argument.\<close>

lemma valid_helo_bytes:
  assumes "valid_helo_domain v" and "c \<in> set v"
  shows "33 \<le> (of_char c :: nat) \<and> (of_char c :: nat) \<le> 122"
proof (cases "valid_domain_name v")
  case True
  from domain_byte_printable [OF valid_domain_name_bytes [OF True assms(2)]] show ?thesis by simp
next
  case False
  with assms(1) obtain inner where v: "v = ''['' @ inner @ '']''"
    and ip: "(case strip_prefix ''IPv6:'' inner of Some v6 \<Rightarrow> parses_ipv6 v6 | None \<Rightarrow> parses_ipv4 inner)"
    by (auto simp: valid_helo_domain_def strip_suffix_def strip_prefix_Some rev_swap
          split: option.splits bind_splits)
  have lit: "\<forall>c \<in> set inner. literal_byte c \<or> c \<in> set ''IPv6:''"
  proof (cases "strip_prefix ''IPv6:'' inner")
    case None
    with ip parses_ipv4_bytes show ?thesis by (auto simp: list_all_iff)
  next
    case (Some v6)
    with ip have "list_all literal_byte v6" by (simp add: parses_ipv6_bytes)
    moreover from Some have "inner = ''IPv6:'' @ v6" by (simp only: strip_prefix_Some)
    ultimately show ?thesis by (auto simp: list_all_iff)
  qed
  from assms(2) v have "c \<in> set inner \<or> c = CHR ''['' \<or> c = CHR '']''" by auto
  then show ?thesis using lit literal_byte_range [of c] by auto
qed

section \<open>Lower-casing keeps a domain valid\<close>

lemma alnum_lower [simp]:
  "is_ascii_alphanumeric (ascii_lower c) = is_ascii_alphanumeric c"
  by (auto simp: is_ascii_alphanumeric_def ascii_lower_def of_char_of Let_def)

lemma ascii_lower_eq_special [simp]:
  "ascii_lower c = CHR ''-'' \<longleftrightarrow> c = CHR ''-''" "ascii_lower c = CHR ''.'' \<longleftrightarrow> c = CHR ''.''"
  by (simp_all add: ascii_lower_eq_low)

lemma split_on_lower:
  "split_on (CHR ''.'') (to_ascii_lowercase s) = map to_ascii_lowercase (split_on (CHR ''.'') s)"
  by (induction s) (auto simp: to_ascii_lowercase_def split: list.splits)

lemma valid_label_lower: "valid_label (to_ascii_lowercase l) = valid_label l"
  by (cases "l = []")
    (simp_all add: valid_label_def to_ascii_lowercase_def list_all_iff hd_map last_map)

lemma ascii_lower_ascii: "(of_char (ascii_lower c) :: nat) < 128 \<longleftrightarrow> (of_char c :: nat) < 128"
  by (auto simp: ascii_lower_def of_char_of)

lemma is_ascii_lower: "is_ascii (to_ascii_lowercase s) = is_ascii s"
  by (simp add: is_ascii_def to_ascii_lowercase_def list_all_iff ascii_lower_ascii)

lemma valid_domain_header:
  assumes "is_ascii d" and "list_all valid_label (split_on (CHR ''.'') d)"
  shows "valid_header_value d"
proof -
  have "domain_byte c" if c: "c \<in> set d" for c
  proof (cases "c = CHR ''.''")
    case False
    then obtain p where "p \<in> set (split_on (CHR ''.'') d)" "c \<in> set p"
      using set_split_on [OF c] by blast
    with assms(2) show ?thesis by (auto simp: list_all_iff valid_label_def domain_byte_def)
  qed (simp add: domain_byte_def)
  then have "\<And>c. c \<in> set d \<Longrightarrow> 45 \<le> (of_char c :: nat) \<and> (of_char c :: nat) \<le> 122"
    using domain_byte_printable by blast
  with assms(1) show ?thesis
    by (fastforce simp: valid_header_value_def any_char_ascii list_ex_iff is_control_def)
qed

lemma valid_domain_name_lower: "valid_domain_name d \<Longrightarrow> valid_domain_name (to_ascii_lowercase d)"
proof -
  assume d: "valid_domain_name d"
  have "list_all valid_label (split_on (CHR ''.'') (to_ascii_lowercase d))"
    using d by (simp add: valid_domain_name_def split_on_lower list_all_iff valid_label_lower)
  moreover have "is_ascii (to_ascii_lowercase d)"
    using d by (simp add: valid_domain_name_def is_ascii_lower)
  ultimately show ?thesis
    using d valid_domain_header
    by (simp add: valid_domain_name_def) (simp add: to_ascii_lowercase_def)
qed

section \<open>Properties\<close>

text \<open>Evaluation on concrete ASCII input.\<close>

lemma read_octets_numeral [simp]:
  "read_octets (numeral n) i s =
     (case read_separator (CHR ''.'') i (read_number 10 3 False 256) s of
        None \<Rightarrow> None
      | Some rest \<Rightarrow> read_octets (pred_numeral n) (Suc i) rest)"
  by (simp add: numeral_eq_Suc)

lemma read_groups_numeral [simp]:
  "read_groups limit (numeral n) i s =
     (case (if i < limit - 1 then read_separator (CHR '':'') i read_ipv4_addr s else None) of
        Some rest \<Rightarrow> (i + 2, True, rest)
      | None \<Rightarrow>
          (case read_separator (CHR '':'') i (read_number 16 4 True 65536) s of
             Some rest \<Rightarrow> read_groups limit (pred_numeral n) (Suc i) rest
           | None \<Rightarrow> (i, False, s)))"
  by (simp add: numeral_eq_Suc)

lemmas input_eval =
  valid_email_address_def valid_header_value_def valid_domain_name_def valid_label_def
  valid_helo_domain_def addr_delimiters_def is_ascii_alphanumeric_def any_char_ascii
  is_control_def is_whitespace_def parses_ipv4_def parses_ipv6_def
  read_ipv4_addr_def read_number_def read_separator_def to_digit_def strip_suffix_def

text \<open>C26: an accepted envelope or compose address is \<open>local@domain\<close> with exactly one \<open>@\<close>, a
  non-empty local part and a valid domain name, at most 254 bytes long, and none of its bytes is a
  control character, a space or one of the delimiters \<open><>()[],;:\\\<close> and the double quote: it can
  neither end the command or header it is placed in nor start another one.\<close>

theorem valid_email_address_safe:
  assumes "valid_email_address address"
  shows "\<exists>local domain. address = local @ CHR ''@'' # domain \<and> CHR ''@'' \<notin> set (local @ domain) \<and>
           local \<noteq> [] \<and> valid_domain_name domain \<and> length address \<le> 254 \<and>
           set (map of_char address) \<inter> protocol_bytes = {}"
proof -
  have "length address \<le> 254"
    using assms by (auto simp: valid_email_address_def split: if_splits)
  moreover have "set (map of_char address) \<inter> protocol_bytes = {}"
    using valid_email_bytes [OF assms] by auto
  ultimately show ?thesis
    using assms by (elim valid_email_split) (metis Un_iff set_append)
qed

theorem valid_email_address_safe_witness:
  "valid_email_address ''alice@example.com'' \<and>
   (\<exists>local domain. ''alice@example.com'' = local @ CHR ''@'' # domain \<and>
      CHR ''@'' \<notin> set (local @ domain) \<and> local \<noteq> [] \<and> valid_domain_name domain \<and>
      length ''alice@example.com'' \<le> 254 \<and>
      set (map of_char ''alice@example.com'') \<inter> protocol_bytes = {})"
proof -
  have "valid_email_address ''alice@example.com''" by (simp add: input_eval)
  with valid_email_address_safe [OF this] show ?thesis by (intro conjI)
qed

text \<open>an accepted HELO or EHLO argument (a domain name or an IPv4 or IPv6 address literal) is
  made of printable ASCII only, with no space and no byte outside \<open>!\<close> to \<open>z\<close>, so it can neither break a
  log line nor carry a second argument.\<close>

theorem valid_helo_domain_safe:
  assumes "valid_helo_domain value"
  shows "list_all (\<lambda>c. 33 \<le> (of_char c :: nat) \<and> (of_char c :: nat) \<le> 122) value"
  using valid_helo_bytes [OF assms] by (simp add: list_all_iff)

theorem valid_helo_domain_safe_witness:
  "valid_helo_domain ''[IPv6:2001:db8::192.0.2.1]'' \<and>
   list_all (\<lambda>c. 33 \<le> (of_char c :: nat) \<and> (of_char c :: nat) \<le> 122) ''[IPv6:2001:db8::192.0.2.1]''"
proof -
  have "valid_helo_domain ''[IPv6:2001:db8::192.0.2.1]''" by (simp add: input_eval)
  with valid_helo_domain_safe [OF this] show ?thesis by (intro conjI)
qed

end
