(* ===== verification/Login_Throttle.thy ===== *)
theory Login_Throttle
  imports Litterae_Prelude
begin

text \<open>
  \<open>common::throttle\<close>: the per-identity exponential lockout in front of every password check.

  Durations and instants are counted in nanoseconds; a \<open>Duration\<close> saturates at its maximum
  (\<open>u64::MAX\<close> seconds and 999999999 ns), the failure counter is a 32-bit word. The clock is an
  argument. Every instance in the repository caps the delay at 60 seconds, so the sum of an instant and
  a delay is not checked for overflow here.
\<close>

record entry =
  failures :: "32 word"
  locked_until :: nat

record login_throttle =
  entries :: "string \<rightharpoonup> entry"
  base_delay :: nat
  max_delay :: nat

definition throttle_new :: "nat \<Rightarrow> nat \<Rightarrow> login_throttle" where
  "throttle_new base mx = \<lparr>entries = Map.empty, base_delay = base, max_delay = mx\<rparr>"

definition duration_max :: nat where
  "duration_max = (2 ^ 64 - 1) * 1000000000 + 999999999"

definition duration_saturating_mul :: "nat \<Rightarrow> nat \<Rightarrow> nat" where
  "duration_saturating_mul d k = min (d * k) duration_max"

definition u32_saturating_add :: "32 word \<Rightarrow> 32 word \<Rightarrow> 32 word" where
  "u32_saturating_add a b = (if unat a + unat b < 2 ^ 32 then a + b else - 1)"

definition u32_saturating_sub :: "32 word \<Rightarrow> 32 word \<Rightarrow> 32 word" where
  "u32_saturating_sub a b = (if b \<le> a then a - b else 0)"

text \<open>\<open>Err remaining\<close> while the key is locked out.\<close>

definition throttle_check :: "nat \<Rightarrow> string \<Rightarrow> login_throttle \<Rightarrow> nat + unit" where
  "throttle_check now key t =
     (case entries t key of
        Some e \<Rightarrow> if now < locked_until e then Inl (locked_until e - now) else Inr ()
      | None \<Rightarrow> Inr ())"

definition lockout_delay :: "login_throttle \<Rightarrow> 32 word \<Rightarrow> nat" where
  "lockout_delay t n =
     (let exponent = min (u32_saturating_sub n 1) 10 in
      min (duration_saturating_mul (base_delay t) (2 ^ unat exponent)) (max_delay t))"

definition record_failure :: "nat \<Rightarrow> nat \<Rightarrow> string \<Rightarrow> login_throttle \<Rightarrow> login_throttle" where
  "record_failure now0 now key t =
     (let e = (case entries t key of Some e \<Rightarrow> e | None \<Rightarrow> \<lparr>failures = 0, locked_until = now0\<rparr>);
          n = u32_saturating_add (failures e) 1
      in t\<lparr>entries := (entries t)(key \<mapsto> \<lparr>failures = n, locked_until = now + lockout_delay t n\<rparr>)\<rparr>)"

definition record_success :: "string \<Rightarrow> login_throttle \<Rightarrow> login_throttle" where
  "record_success key t = t\<lparr>entries := (entries t)(key := None)\<rparr>"

section \<open>Behaviour\<close>

text \<open>The failures recorded for a key since its last success.\<close>

definition failure_count :: "string \<Rightarrow> login_throttle \<Rightarrow> nat" where
  "failure_count key t = (case entries t key of Some e \<Rightarrow> unat (failures e) | None \<Rightarrow> 0)"

lemma unat_saturating_add1: "unat (u32_saturating_add n 1) = min (unat n + 1) (2 ^ 32 - 1)"
proof (cases "unat n + 1 < 2 ^ 32")
  case True
  then have "unat (n + 1) = unat n + 1"
    using unat_add_lem [of n 1] by simp
  with True show ?thesis by (simp add: u32_saturating_add_def)
next
  case False
  then have "unat n = 2 ^ 32 - 1" using unsigned_less [where 'a = nat, of n] by simp
  then show ?thesis by (simp add: u32_saturating_add_def unsigned_minus_1_eq_mask mask_eq_exp_minus_1)
qed

text \<open>The delay after the \<open>n\<close>-th failure in a row, as a function of numbers.\<close>

definition spec_delay :: "nat \<Rightarrow> nat \<Rightarrow> nat \<Rightarrow> nat" where
  "spec_delay base mx n = min (min (base * 2 ^ min (n - 1) 10) duration_max) mx"

lemma lockout_delay_spec:
  assumes "n \<noteq> 0"
  shows "lockout_delay t n = spec_delay (base_delay t) (max_delay t) (unat n)"
proof -
  have "1 \<le> n" using assms by (simp add: word_le_nat_alt unat_eq_0 [symmetric] Suc_le_eq)
  then have "unat (n - 1) = unat n - 1"
    by (simp add: unat_sub_if' word_le_nat_alt)
  then have "unat (min (n - 1) 10) = min (unat n - 1) 10"
    by (auto simp: min_def word_le_nat_alt)
  with \<open>1 \<le> n\<close> show ?thesis
    by (simp add: lockout_delay_def u32_saturating_sub_def Let_def duration_saturating_mul_def
        spec_delay_def)
qed

lemma spec_delay_le_max: "spec_delay base mx n \<le> mx"
  by (simp add: spec_delay_def)

lemma spec_delay_mono:
  assumes "n \<le> m"
  shows "spec_delay base mx n \<le> spec_delay base mx m"
proof -
  have "(2::nat) ^ min (n - 1) 10 \<le> 2 ^ min (m - 1) 10"
    using assms by (intro power_increasing) auto
  then have "base * 2 ^ min (n - 1) 10 \<le> base * 2 ^ min (m - 1) 10" by simp
  then show ?thesis unfolding spec_delay_def by (intro min.mono) auto
qed

lemma failure_count_record:
  "failure_count key (record_failure now0 now key t) = min (failure_count key t + 1) (2 ^ 32 - 1)"
  by (simp add: failure_count_def record_failure_def Let_def unat_saturating_add1 split: option.splits)

lemma record_failure_other:
  "k \<noteq> key \<Longrightarrow> entries (record_failure now0 now key t) k = entries t k"
  by (simp add: record_failure_def Let_def)

lemma record_failure_delays [simp]:
  "base_delay (record_failure now0 now key t) = base_delay t"
  "max_delay (record_failure now0 now key t) = max_delay t"
  by (simp_all add: record_failure_def Let_def)

lemma check_after_failure:
  "throttle_check later key (record_failure now0 now key t) =
     (let n = min (failure_count key t + 1) (2 ^ 32 - 1);
          until = now + spec_delay (base_delay t) (max_delay t) n
      in if later < until then Inl (until - later) else Inr ())"
proof -
  let ?n = "u32_saturating_add (case entries t key of Some e \<Rightarrow> failures e | None \<Rightarrow> 0) 1"
  have n: "unat ?n = min (failure_count key t + 1) (2 ^ 32 - 1)"
    by (simp add: unat_saturating_add1 failure_count_def split: option.splits)
  have "0 < min (failure_count key t + 1) (2 ^ 32 - 1 :: nat)" by simp
  with n have "?n \<noteq> 0" by (metis less_irrefl unat_0)
  then have delay: "lockout_delay t ?n =
      spec_delay (base_delay t) (max_delay t) (min (failure_count key t + 1) (2 ^ 32 - 1))"
    using lockout_delay_spec [of ?n t] unfolding n by simp
  moreover have "entries (record_failure now0 now key t) key =
      Some \<lparr>failures = ?n, locked_until = now + lockout_delay t ?n\<rparr>"
    by (simp add: record_failure_def Let_def split: option.splits)
  ultimately show ?thesis by (simp only: throttle_check_def Let_def option.case entry.simps)
qed

text \<open>after a failed attempt the identity, and no other one, is locked out for the base delay
  doubled once per earlier failure (at most ten times) and capped at the maximal delay: a check
  at any later time is refused exactly until that window has passed, and the answer is the remaining
  time. The failure counter saturates and never wraps back to a short delay.\<close>

theorem record_failure_lockout:
  "throttle_check later k (record_failure now0 now key t) =
     (if k = key
      then (let n = min (failure_count key t + 1) (2 ^ 32 - 1);
                until = now + min (min (base_delay t * 2 ^ min (n - 1) 10) duration_max) (max_delay t)
            in if later < until then Inl (until - later) else Inr ())
      else throttle_check later k t)
   \<and> failure_count key (record_failure now0 now key t) = min (failure_count key t + 1) (2 ^ 32 - 1)
   \<and> throttle_check later key (record_success key t) = Inr ()
   \<and> failure_count key (record_success key t) = 0"
proof (intro conjI)
  show "throttle_check later k (record_failure now0 now key t) =
     (if k = key
      then (let n = min (failure_count key t + 1) (2 ^ 32 - 1);
                until = now + min (min (base_delay t * 2 ^ min (n - 1) 10) duration_max) (max_delay t)
            in if later < until then Inl (until - later) else Inr ())
      else throttle_check later k t)"
  proof (cases "k = key")
    case True
    then show ?thesis by (simp only: check_after_failure spec_delay_def simp_thms if_True)
  next
    case False
    then show ?thesis by (simp add: throttle_check_def record_failure_other)
  qed
qed (simp_all only: failure_count_record, simp_all add: record_success_def throttle_check_def
    failure_count_def)

section \<open>Attempts that overlap\<close>

text \<open>A client of the throttle asks \<open>check\<close> before it looks at a password and calls \<open>record_failure\<close> after a wrong
  one; the two take the lock separately, so that attempts of several connections interleave. A run of wrong
  guesses for one key: the times at which a check let one in, the times at which a failure was recorded, and the
  last time read from the clock, which is monotonic. At most \<open>p\<close> of the guesses let in are without their recorded
  failure at any time. Refused checks, and whatever other keys do, come in between.\<close>

inductive guessing :: "string \<Rightarrow> nat \<Rightarrow> login_throttle \<Rightarrow> login_throttle \<Rightarrow> nat list \<Rightarrow> nat list \<Rightarrow> nat \<Rightarrow> bool"
  for key p t0 where
  start: "guessing key p t0 t0 [] [] 0"
| let_in: "guessing key p t0 t ins fails clock \<Longrightarrow> clock \<le> now \<Longrightarrow> throttle_check now key t = Inr () \<Longrightarrow>
    length ins < length fails + p \<Longrightarrow> guessing key p t0 t (ins @ [now]) fails now"
| refused: "guessing key p t0 t ins fails clock \<Longrightarrow> clock \<le> now \<Longrightarrow> throttle_check now key t = Inl remaining \<Longrightarrow>
    guessing key p t0 t ins fails now"
| failed: "guessing key p t0 t ins fails clock \<Longrightarrow> clock \<le> now0 \<Longrightarrow> now0 \<le> now \<Longrightarrow> length fails < length ins \<Longrightarrow>
    guessing key p t0 (record_failure now0 now key t) ins (fails @ [now]) now"
| other_failed: "guessing key p t0 t ins fails clock \<Longrightarrow> clock \<le> now0 \<Longrightarrow> now0 \<le> now \<Longrightarrow> k \<noteq> key \<Longrightarrow>
    guessing key p t0 (record_failure now0 now k t) ins fails now"
| other_succeeded: "guessing key p t0 t ins fails clock \<Longrightarrow> k \<noteq> key \<Longrightarrow>
    guessing key p t0 (record_success k t) ins fails clock"

lemma spec_delay_saturates: "spec_delay base mx (min n (2 ^ 32 - 1)) = spec_delay base mx n"
proof -
  have "min (min n (2 ^ 32 - 1) - 1) 10 = min (n - 1) (10 :: nat)" by simp
  then show ?thesis by (simp only: spec_delay_def)
qed

text \<open>What is on record for the key: the number of failures, and the end of the lockout after the last one.\<close>

definition on_record :: "string \<Rightarrow> login_throttle \<Rightarrow> nat list \<Rightarrow> bool" where
  "on_record key t fails \<longleftrightarrow>
     failure_count key t = min (length fails) (2 ^ 32 - 1) \<and>
     (\<forall>now. throttle_check now key t = Inr () \<longleftrightarrow>
        fails = [] \<or> last fails + spec_delay (base_delay t) (max_delay t) (length fails) \<le> now)"

lemma on_record_failed: "on_record key t fails \<Longrightarrow> on_record key (record_failure now0 now key t) (fails @ [now])"
  unfolding on_record_def failure_count_record check_after_failure
  using spec_delay_saturates [of "base_delay t" "max_delay t" "Suc (length fails)"] by (auto simp: Let_def min_def)

lemma on_record_other:
  assumes "on_record key t fails" and "entries t' key = entries t key" and "base_delay t' = base_delay t"
    and "max_delay t' = max_delay t"
  shows "on_record key t' fails"
  using assms by (simp add: on_record_def failure_count_def throttle_check_def)

definition paced :: "nat \<Rightarrow> login_throttle \<Rightarrow> nat list \<Rightarrow> bool" where
  "paced p t ins \<longleftrightarrow> (\<forall>m < length ins. p \<le> m \<longrightarrow>
     ins ! (m - p) + spec_delay (base_delay t) (max_delay t) (Suc (m - p)) \<le> ins ! m)"

lemma paced_snoc:
  assumes "paced p t ins" and "0 < p"
    and "p \<le> length ins \<Longrightarrow>
      ins ! (length ins - p) + spec_delay (base_delay t) (max_delay t) (Suc (length ins - p)) \<le> now"
  shows "paced p t (ins @ [now])"
  unfolding paced_def
proof (intro allI impI)
  fix m assume m: "m < length (ins @ [now])" "p \<le> m"
  then have "m - p < length ins" using assms(2) by auto
  then have "(ins @ [now]) ! (m - p) = ins ! (m - p)" by (simp add: nth_append)
  with m assms show "(ins @ [now]) ! (m - p) + spec_delay (base_delay t) (max_delay t) (Suc (m - p)) \<le> (ins @ [now]) ! m"
    by (cases "m = length ins") (simp_all add: paced_def nth_append)
qed

lemma guessing_facts:
  assumes "guessing key p t0 t ins fails clock" and "entries t0 key = None" and "0 < p"
  shows "base_delay t = base_delay t0 \<and> max_delay t = max_delay t0 \<and> on_record key t fails \<and>
    (\<forall>x \<in> set ins \<union> set fails. x \<le> clock) \<and> length fails \<le> length ins \<and> sorted fails \<and>
    (\<forall>j < length fails. ins ! j \<le> fails ! j) \<and> paced p t0 ins"
  using assms(1)
proof (induction rule: guessing.induct)
  case start
  show ?case using assms(2) by (simp add: on_record_def failure_count_def throttle_check_def paced_def)
next
  case (let_in t ins fails clock now)
  let ?m = "length ins" and ?D = "spec_delay (base_delay t0) (max_delay t0)"
  have "ins ! (?m - p) + ?D (Suc (?m - p)) \<le> now" if "p \<le> ?m"
  proof -
    have n: "?m - p < length fails" using let_in(4) that assms(3) by linarith
    then have "ins ! (?m - p) \<le> fails ! (?m - p)" using let_in.IH by blast
    also have "\<dots> \<le> last fails"
    proof -
      have "last fails = fails ! (length fails - 1)" using n by (intro last_conv_nth) auto
      then show ?thesis using n let_in.IH by (simp add: sorted_nth_mono)
    qed
    finally have "ins ! (?m - p) \<le> last fails" .
    moreover have "?D (Suc (?m - p)) \<le> ?D (length fails)" using n by (intro spec_delay_mono) simp
    moreover have "last fails + ?D (length fails) \<le> now"
      using let_in.IH let_in(3) n by (auto simp: on_record_def)
    ultimately show ?thesis by linarith
  qed
  moreover have "(ins @ [now]) ! j \<le> fails ! j" if "j < length fails" for j
    using that let_in.IH by (auto simp: nth_append)
  moreover have "\<forall>x \<in> set (ins @ [now]) \<union> set fails. x \<le> now" using let_in.IH let_in(2) by force
  ultimately show ?case using let_in.IH paced_snoc [of p t0 ins now] assms(3) by simp
next
  case (failed t ins fails clock now0 now)
  have "ins ! j \<le> (fails @ [now]) ! j" if "j < length (fails @ [now])" for j
  proof (cases "j < length fails")
    case False
    then have "j = length fails" using that by simp
    then have "ins ! j \<in> set ins" using failed(4) by simp
    then have "ins ! j \<le> clock" using failed.IH by blast
    with failed(2,3) \<open>j = length fails\<close> show ?thesis by simp
  qed (use failed.IH in \<open>simp add: nth_append\<close>)
  moreover have "sorted (fails @ [now])" using failed.IH failed(2,3) by (force simp: sorted_append)
  ultimately show ?case using failed.IH failed(2-4) on_record_failed by force
next
  case (other_failed t ins fails clock now0 now k)
  have "on_record key (record_failure now0 now k t) fails"
    by (rule on_record_other [of key t]) (use other_failed in \<open>auto simp: record_failure_other\<close>)
  with other_failed show ?case by force
next
  case (other_succeeded t ins fails clock k)
  have "on_record key (record_success k t) fails"
    by (rule on_record_other [of key t]) (use other_succeeded in \<open>auto simp: record_success_def\<close>)
  with other_succeeded show ?case by (auto simp: record_success_def)
next
  case (refused t ins fails clock now remaining)
  then show ?case by force
qed

lemma paced_sum:
  assumes "paced 1 t ins" and "m < length ins"
  shows "ins ! 0 + (\<Sum>i = 1..m. spec_delay (base_delay t) (max_delay t) i) \<le> ins ! m"
  using assms(2)
proof (induction m)
  case (Suc m)
  have "ins ! m + spec_delay (base_delay t) (max_delay t) (Suc m) \<le> ins ! Suc m"
    using assms(1) Suc.prems by (auto simp: paced_def)
  with Suc show ?case by simp
qed simp

text \<open>C27: however the wrong guesses for an identity overlap, and whatever happens to other identities: at any time
  the throttle lets another one in exactly when no failure is on record or the delay of the number of failures on
  record has passed since the last of them; and if at most \<open>p\<close> guesses are ever under way at once, each guess that is
  let in comes at least the delay of its number later than the guess \<open>p\<close> places before. An attacker with one
  connection thus waits, before guess \<open>m + 1\<close>, at least the sum of the first \<open>m\<close> delays.\<close>

theorem throttle_limits_guesses:
  assumes "guessing key p t0 t ins fails clock" and "entries t0 key = None" and "0 < p"
  shows "(throttle_check now key t = Inr () \<longleftrightarrow>
      fails = [] \<or> last fails + spec_delay (base_delay t0) (max_delay t0) (length fails) \<le> now) \<and>
    (\<forall>m < length ins. p \<le> m \<longrightarrow>
      ins ! (m - p) + spec_delay (base_delay t0) (max_delay t0) (Suc (m - p)) \<le> ins ! m) \<and>
    (p = 1 \<longrightarrow> (\<forall>m < length ins.
      ins ! 0 + (\<Sum>i = 1..m. spec_delay (base_delay t0) (max_delay t0) i) \<le> ins ! m))"
proof (intro conjI impI)
  note facts = guessing_facts [OF assms]
  then show "throttle_check now key t = Inr () \<longleftrightarrow>
      fails = [] \<or> last fails + spec_delay (base_delay t0) (max_delay t0) (length fails) \<le> now"
    by (simp add: on_record_def)
  from facts show "\<forall>m < length ins. p \<le> m \<longrightarrow>
      ins ! (m - p) + spec_delay (base_delay t0) (max_delay t0) (Suc (m - p)) \<le> ins ! m"
    by (simp add: paced_def)
  from facts paced_sum [of t0 ins] show "\<forall>m < length ins.
      ins ! 0 + (\<Sum>i = 1..m. spec_delay (base_delay t0) (max_delay t0) i) \<le> ins ! m" if "p = 1"
    using that by blast
qed

definition sample_throttle :: login_throttle where
  "sample_throttle = throttle_new 1000000000 60000000000"

lemma sample_guessing:
  "guessing ''a@b.c'' 1 sample_throttle
     (record_failure 1000000010 1000000010 ''a@b.c'' (record_failure 5 7 ''a@b.c'' sample_throttle))
     [3, 1000000007] [7, 1000000010] 1000000010"
proof -
  let ?t1 = "record_failure 5 7 ''a@b.c'' sample_throttle"
  have c: "throttle_check 3 ''a@b.c'' sample_throttle = Inr ()" "failure_count ''a@b.c'' sample_throttle = 0"
    by (simp_all add: sample_throttle_def throttle_new_def throttle_check_def failure_count_def)
  have d: "throttle_check later ''a@b.c'' ?t1 = (if later < 1000000007 then Inl (1000000007 - later) else Inr ())" for later
    by (simp add: check_after_failure Let_def spec_delay_def duration_max_def sample_throttle_def throttle_new_def
        failure_count_def)
  have "guessing ''a@b.c'' 1 sample_throttle sample_throttle ([] @ [3]) [] 3"
    by (rule guessing.let_in [OF guessing.start]) (simp_all add: c)
  then have "guessing ''a@b.c'' 1 sample_throttle ?t1 ([] @ [3]) ([] @ [7]) 7" by (rule guessing.failed) simp_all
  then have "guessing ''a@b.c'' 1 sample_throttle ?t1 ([] @ [3]) ([] @ [7]) 9"
    by (rule guessing.refused) (simp_all add: d)
  then have "guessing ''a@b.c'' 1 sample_throttle ?t1 (([] @ [3]) @ [1000000007]) ([] @ [7]) 1000000007"
    by (rule guessing.let_in) (simp_all add: d)
  from guessing.failed [OF this, of 1000000010 1000000010] show ?thesis by simp
qed

theorem throttle_limits_guesses_witness:
  "throttle_check 3000000009 ''a@b.c'' (record_failure 1000000010 1000000010 ''a@b.c''
     (record_failure 5 7 ''a@b.c'' sample_throttle)) \<noteq> Inr () \<and>
   throttle_check 3000000010 ''a@b.c'' (record_failure 1000000010 1000000010 ''a@b.c''
     (record_failure 5 7 ''a@b.c'' sample_throttle)) = Inr () \<and>
   spec_delay 1000000000 60000000000 1 = 1000000000 \<and>
   [3, 1000000007] ! 0 + spec_delay 1000000000 60000000000 1 \<le> [3, 1000000007 :: nat] ! 1"
proof -
  have e: "entries sample_throttle ''a@b.c'' = None" "base_delay sample_throttle = 1000000000"
    "max_delay sample_throttle = 60000000000" by (simp_all add: sample_throttle_def throttle_new_def)
  note facts = throttle_limits_guesses [OF sample_guessing e(1), unfolded e(2,3)]
  have "throttle_check now ''a@b.c'' (record_failure 1000000010 1000000010 ''a@b.c''
      (record_failure 5 7 ''a@b.c'' sample_throttle)) = Inr () \<longleftrightarrow> 3000000010 \<le> now" for now
    using facts [of now] by (simp add: spec_delay_def duration_max_def)
  then show ?thesis using facts by (simp add: spec_delay_def duration_max_def)
qed

end
