(* ===== verification/Conn_Limit.thy ===== *)
theory Conn_Limit
  imports Litterae_Prelude
begin

text \<open>
  Admission of connections: \<open>smtp_in::conn_limit\<close> (the per-IP counter and its guard) inside the accept
  loop of \<open>smtp_in::server::run\<close>, and the accept loops of \<open>submission::server::run\<close>, which share one
  global semaphore.

  The live connections are the spawned session tasks; a guard is released when its task ends, at any
  later time and in any order. The invariant by rule induction over all interleavings of accepts and
  session ends says that the counters are exact, so the subtraction in \<open>PerIpGuard::drop\<close> never
  underflows.
\<close>

datatype ip_addr = V4 "32 word" | V6 "128 word"

record per_ip_limiter =
  max_per_ip :: nat
  counts :: "ip_addr \<rightharpoonup> nat"

definition limiter_new :: "nat \<Rightarrow> per_ip_limiter" where
  "limiter_new m = \<lparr>max_per_ip = m, counts = Map.empty\<rparr>"

definition entry_or_0 :: "ip_addr \<Rightarrow> per_ip_limiter \<Rightarrow> nat" where
  "entry_or_0 ip l = (case counts l ip of Some n \<Rightarrow> n | None \<Rightarrow> 0)"

definition try_acquire :: "ip_addr \<Rightarrow> per_ip_limiter \<Rightarrow> bool \<times> per_ip_limiter" where
  "try_acquire ip l =
     (let count = entry_or_0 ip l in
      if max_per_ip l \<le> count then (False, l\<lparr>counts := (counts l)(ip \<mapsto> count)\<rparr>)
      else (True, l\<lparr>counts := (counts l)(ip \<mapsto> count + 1)\<rparr>))"

definition guard_drop :: "ip_addr \<Rightarrow> per_ip_limiter \<Rightarrow> per_ip_limiter pan" where
  "guard_drop ip l =
     (case counts l ip of
        None \<Rightarrow> Returned l
      | Some count \<Rightarrow>
          if count = 0 then Panicked
          else if count - 1 = 0 then Returned (l\<lparr>counts := (counts l)(ip := None)\<rparr>)
          else Returned (l\<lparr>counts := (counts l)(ip \<mapsto> count - 1)\<rparr>))"

section \<open>The accept loop of the inbound server\<close>

definition MAX_CONNECTIONS :: nat where "MAX_CONNECTIONS = 512"

definition MAX_CONNECTIONS_PER_IP :: nat where "MAX_CONNECTIONS_PER_IP = 32"

record smtp_server =
  limiter :: per_ip_limiter
  permits :: nat
  sessions :: "ip_addr list"

definition smtp_server_start :: smtp_server where
  "smtp_server_start =
     \<lparr>limiter = limiter_new MAX_CONNECTIONS_PER_IP, permits = MAX_CONNECTIONS, sessions = []\<rparr>"

datatype accept_outcome = AcceptFailed | PerIpLimit | GlobalLimit | Spawned

text \<open>One turn of the loop; \<open>None\<close> is a failed \<open>accept\<close>. When the global semaphore is exhausted the
  per-IP guard taken just before goes out of scope.\<close>

definition accept_turn :: "ip_addr option \<Rightarrow> smtp_server \<Rightarrow> (accept_outcome \<times> smtp_server) pan" where
  "accept_turn peer s =
     (case peer of
        None \<Rightarrow> Returned (AcceptFailed, s)
      | Some ip \<Rightarrow>
          (let (got, l) = try_acquire ip (limiter s) in
           if \<not> got then Returned (PerIpLimit, s\<lparr>limiter := l\<rparr>)
           else if permits s = 0 then
             pan_bind (guard_drop ip l) (\<lambda>l'. Returned (GlobalLimit, s\<lparr>limiter := l'\<rparr>))
           else Returned (Spawned, s\<lparr>limiter := l, permits := permits s - 1,
                                     sessions := ip # sessions s\<rparr>)))"

text \<open>The end of a session task, by return, timeout or panic: both guards are dropped.\<close>

definition session_end :: "ip_addr \<Rightarrow> smtp_server \<Rightarrow> smtp_server pan" where
  "session_end ip s =
     pan_bind (guard_drop ip (limiter s)) (\<lambda>l.
       Returned (s\<lparr>limiter := l, permits := permits s + 1, sessions := remove1 ip (sessions s)\<rparr>))"

text \<open>All the runs of the server: accepts and session ends in any order.\<close>

inductive server_reach :: "smtp_server \<Rightarrow> bool" where
  start: "server_reach smtp_server_start"
| accept: "server_reach s \<Longrightarrow> accept_turn peer s = Returned (out, s') \<Longrightarrow> server_reach s'"
| finish: "server_reach s \<Longrightarrow> ip \<in> set (sessions s) \<Longrightarrow> session_end ip s = Returned s' \<Longrightarrow>
     server_reach s'"

section \<open>Exactness of the counters\<close>

definition live :: "ip_addr \<Rightarrow> smtp_server \<Rightarrow> nat" where
  "live ip s = count_list (sessions s) ip"

definition server_inv :: "smtp_server \<Rightarrow> bool" where
  "server_inv s \<longleftrightarrow>
     max_per_ip (limiter s) = MAX_CONNECTIONS_PER_IP \<and>
     permits s + length (sessions s) = MAX_CONNECTIONS \<and>
     (\<forall>ip. live ip s \<le> MAX_CONNECTIONS_PER_IP \<and>
        counts (limiter s) ip = (if live ip s = 0 then None else Some (live ip s)))"

lemma count_list_remove1: "count_list (remove1 a xs) b = (if a = b then count_list xs b - 1 else count_list xs b)"
  by (induction xs) (auto simp: count_list_0_iff)

lemma count_list_pos: "x \<in> set xs \<Longrightarrow> 0 < count_list xs x"
  by (metis count_list_0_iff neq0_conv)

lemma entry_or_0_live: "server_inv s \<Longrightarrow> entry_or_0 ip (limiter s) = live ip s"
  by (simp add: server_inv_def entry_or_0_def)

lemma accept_turn_cases:
  assumes "server_inv s"
  shows "accept_turn (Some ip) s =
    (if live ip s = MAX_CONNECTIONS_PER_IP then Returned (PerIpLimit, s)
     else if permits s = 0 then Returned (GlobalLimit, s)
     else Returned (Spawned, s\<lparr>limiter := snd (try_acquire ip (limiter s)),
            permits := permits s - 1, sessions := ip # sessions s\<rparr>))"
proof -
  have c: "counts (limiter s) ip = (if live ip s = 0 then None else Some (live ip s))"
    and m: "max_per_ip (limiter s) = MAX_CONNECTIONS_PER_IP" and le: "live ip s \<le> MAX_CONNECTIONS_PER_IP"
    using assms by (simp_all add: server_inv_def)
  have full: "snd (try_acquire ip (limiter s)) = limiter s" if "live ip s = MAX_CONNECTIONS_PER_IP"
    using that c m
    by (simp add: try_acquire_def entry_or_0_live [OF assms] Let_def MAX_CONNECTIONS_PER_IP_def
        fun_upd_idem)
  have undo: "guard_drop ip (snd (try_acquire ip (limiter s))) = Returned (limiter s)"
    if "live ip s \<noteq> MAX_CONNECTIONS_PER_IP"
    using that c m le
    by (cases "live ip s") (simp_all add: try_acquire_def entry_or_0_live [OF assms] guard_drop_def
        fun_upd_idem)
  show ?thesis
    using m le full undo
    by (auto simp: accept_turn_def try_acquire_def entry_or_0_live [OF assms] Let_def)
qed

lemma accept_turn_inv:
  assumes "server_inv s" and "accept_turn peer s = Returned (out, s')"
  shows "server_inv s'"
proof (cases peer)
  case None
  with assms show ?thesis by (simp add: accept_turn_def)
next
  case (Some ip)
  show ?thesis
  proof (cases "live ip s = MAX_CONNECTIONS_PER_IP \<or> permits s = 0")
    case True
    with assms Some show ?thesis by (auto simp: accept_turn_cases split: if_splits)
  next
    case False
    then have "s' = s\<lparr>limiter := snd (try_acquire ip (limiter s)),
        permits := permits s - 1, sessions := ip # sessions s\<rparr>"
      using assms Some by (simp add: accept_turn_cases)
    moreover have "live ip s < MAX_CONNECTIONS_PER_IP"
      using False assms(1) by (auto simp: server_inv_def le_neq_implies_less)
    ultimately show ?thesis
      using False assms(1)
      by (auto simp: server_inv_def live_def try_acquire_def entry_or_0_live [OF assms(1)] Let_def)
  qed
qed

lemma session_end_inv:
  assumes "server_inv s" and "ip \<in> set (sessions s)"
  shows "\<exists>s'. session_end ip s = Returned s' \<and> server_inv s'"
proof -
  have pos: "0 < live ip s" using assms(2) by (simp add: live_def count_list_pos)
  have c: "counts (limiter s) ip = Some (live ip s)"
    using assms(1) pos by (simp add: server_inv_def)
  have "0 < length (sessions s)" using assms(2) by (rule length_pos_if_in_set)
  then have "length (sessions s) = length (remove1 ip (sessions s)) + 1"
    using assms(2) by (simp add: length_remove1)
  moreover have "permits s + length (sessions s) = MAX_CONNECTIONS"
    using assms(1) by (simp add: server_inv_def)
  ultimately have len: "permits s + 1 + length (remove1 ip (sessions s)) = MAX_CONNECTIONS"
    by linarith
  have le: "live ip s - 1 \<le> MAX_CONNECTIONS_PER_IP"
    using assms(1) by (simp add: server_inv_def le_diff_conv le_SucI)
  define l where "l = limiter s\<lparr>counts := (counts (limiter s))
      (ip := if live ip s = 1 then None else Some (live ip s - 1))\<rparr>"
  have l: "guard_drop ip (limiter s) = Returned l"
    using c pos by (auto simp: guard_drop_def l_def)
  have lc: "max_per_ip l = max_per_ip (limiter s)"
      "counts l = (counts (limiter s))(ip := if live ip s = 1 then None else Some (live ip s - 1))"
    by (simp_all add: l_def)
  let ?s' = "s\<lparr>limiter := l, permits := permits s + 1, sessions := remove1 ip (sessions s)\<rparr>"
  have lv: "live ip' ?s' = (if ip' = ip then live ip s - 1 else live ip' s)" for ip'
    by (auto simp: live_def count_list_remove1)
  have "server_inv ?s'"
    using assms(1) pos lc len le unfolding server_inv_def lv by auto
  with l show ?thesis by (simp add: session_end_def)
qed

lemma server_reach_inv: "server_reach s \<Longrightarrow> server_inv s"
proof (induction rule: server_reach.induct)
  case start
  show ?case by (simp add: server_inv_def smtp_server_start_def limiter_new_def live_def)
next
  case (accept s peer out s')
  then show ?case by (blast intro: accept_turn_inv)
next
  case (finish s ip s')
  then show ?case using session_end_inv by fastforce
qed

text \<open>C28: in every reachable state of the inbound server, under every interleaving of accepted
  connections and ending sessions, no address holds more than 32 sessions and no more than 512 exist;
  the next connection is refused for its address exactly when that address holds 32, refused for the
  total exactly when 512 exist, and spawned otherwise; and no guard release panics.\<close>

theorem server_admission:
  assumes "server_reach s"
  shows "count_list (sessions s) ip \<le> 32 \<and> length (sessions s) \<le> 512 \<and>
    (\<exists>s'. accept_turn (Some ip) s = Returned
       (if count_list (sessions s) ip = 32 then PerIpLimit
        else if length (sessions s) = 512 then GlobalLimit else Spawned, s')) \<and>
    (ip \<in> set (sessions s) \<longrightarrow> session_end ip s \<noteq> Panicked)"
proof -
  have inv: "server_inv s" using assms by (rule server_reach_inv)
  then have p: "permits s + length (sessions s) = 512" and l: "live ip s \<le> 32"
    by (simp_all add: server_inv_def MAX_CONNECTIONS_def MAX_CONNECTIONS_PER_IP_def)
  have "permits s = 0 \<longleftrightarrow> length (sessions s) = 512" using p by linarith
  then show ?thesis
    using session_end_inv [OF inv, of ip] accept_turn_cases [OF inv, of ip] p l
    by (auto simp: live_def MAX_CONNECTIONS_PER_IP_def)
qed

theorem server_admission_witness:
  "\<exists>s. server_reach s \<and> sessions s = [V4 1] \<and>
     count_list (sessions s) (V4 1) \<le> 32 \<and> length (sessions s) \<le> 512 \<and>
     (V4 1 \<in> set (sessions s) \<longrightarrow> session_end (V4 1) s \<noteq> Panicked)"
proof -
  obtain s where s: "accept_turn (Some (V4 1)) smtp_server_start = Returned (Spawned, s)"
    "sessions s = [V4 1]"
    by (simp add: accept_turn_def smtp_server_start_def try_acquire_def limiter_new_def
        entry_or_0_def MAX_CONNECTIONS_def MAX_CONNECTIONS_PER_IP_def)
  have "server_reach s" by (rule server_reach.accept [OF server_reach.start s(1)])
  with server_admission [OF this, of "V4 1"] s(2) show ?thesis by blast
qed

section \<open>The accept loops of the submission server\<close>

definition SUBMISSION_MAX_CONNECTIONS :: nat where "SUBMISSION_MAX_CONNECTIONS = 256"

datatype listener = Starttls | Implicit

text \<open>Both listeners draw on one semaphore; \<open>None\<close> is a failed \<open>accept\<close>.\<close>

record submission_server =
  sub_permits :: nat
  sub_sessions :: "listener list"

definition submission_accept ::
    "listener \<Rightarrow> ip_addr option \<Rightarrow> submission_server \<Rightarrow> accept_outcome \<times> submission_server" where
  "submission_accept l peer s =
     (case peer of
        None \<Rightarrow> (AcceptFailed, s)
      | Some ip \<Rightarrow>
          if sub_permits s = 0 then (GlobalLimit, s)
          else (Spawned, s\<lparr>sub_permits := sub_permits s - 1, sub_sessions := l # sub_sessions s\<rparr>))"

definition submission_session_end :: "listener \<Rightarrow> submission_server \<Rightarrow> submission_server" where
  "submission_session_end l s =
     s\<lparr>sub_permits := sub_permits s + 1, sub_sessions := remove1 l (sub_sessions s)\<rparr>"

inductive submission_reach :: "submission_server \<Rightarrow> bool" where
  start: "submission_reach \<lparr>sub_permits = SUBMISSION_MAX_CONNECTIONS, sub_sessions = []\<rparr>"
| accept: "submission_reach s \<Longrightarrow> submission_reach (snd (submission_accept l peer s))"
| finish: "submission_reach s \<Longrightarrow> l \<in> set (sub_sessions s) \<Longrightarrow>
     submission_reach (submission_session_end l s)"

lemma submission_reach_total:
  "submission_reach s \<Longrightarrow> sub_permits s + length (sub_sessions s) = 256"
proof (induction rule: submission_reach.induct)
  case (finish s l)
  then have "0 < length (sub_sessions s)" by (cases "sub_sessions s") auto
  then have "Suc (length (sub_sessions s) - 1) = length (sub_sessions s)" by simp
  with finish show ?case by (simp add: submission_session_end_def length_remove1)
qed (auto simp: submission_accept_def SUBMISSION_MAX_CONNECTIONS_def split: option.splits)

end
