(* ===== verification/Change_Notifier.thy ===== *)
theory Change_Notifier
  imports Litterae_Prelude
begin

text \<open>
  \<open>common::changes\<close>: the account change notifications behind JMAP push. The counters are under a mutex;
  the broadcast happens after the mutex is released, so a call has two atomic steps. The broadcast
  channel is a log of what was sent (delivery to the receivers is the channel's business).
\<close>

record account_changed =
  account_id :: int
  state :: "64 word"

record change_notifier =
  counters :: "int \<rightharpoonup> 64 word"
  sent :: "account_changed list"

definition notifier_new :: change_notifier where
  "notifier_new = \<lparr>counters = Map.empty, sent = []\<rparr>"

text \<open>The two steps of \<open>notify\<close>: bump the counter under the lock, then broadcast.\<close>

definition notify_bump :: "int \<Rightarrow> change_notifier \<Rightarrow> account_changed \<times> change_notifier" where
  "notify_bump a n =
     (let v = (case counters n a of Some v \<Rightarrow> v | None \<Rightarrow> 0) + 1
      in (\<lparr>account_id = a, state = v\<rparr>, n\<lparr>counters := (counters n)(a \<mapsto> v)\<rparr>))"

definition notify_send :: "account_changed \<Rightarrow> change_notifier \<Rightarrow> change_notifier" where
  "notify_send ev n = n\<lparr>sent := sent n @ [ev]\<rparr>"

definition notify :: "int \<Rightarrow> change_notifier \<Rightarrow> change_notifier" where
  "notify a n = (let (ev, n') = notify_bump a n in notify_send ev n')"

definition notify_all :: "int list \<Rightarrow> change_notifier" where
  "notify_all accounts = fold notify accounts notifier_new"

lemma notify_all_snoc: "notify_all (as @ [a]) = notify a (notify_all as)"
  by (simp add: notify_all_def)

lemma notify_all_counters:
  "counters (notify_all as) a =
     (if a \<in> set as then Some (of_nat (count_list as a)) else None)"
proof (induction as rule: rev_induct)
  case Nil
  show ?case by (simp add: notify_all_def notifier_new_def)
next
  case (snoc b as)
  show ?case
  proof (cases "a = b")
    case True
    have "count_list as a = 0" if "a \<notin> set as" using that by (simp add: count_list_0_iff)
    with True snoc show ?thesis
      by (auto simp: notify_all_snoc notify_def notify_bump_def notify_send_def Let_def count_list_append)
  next
    case False
    with snoc show ?thesis
      by (auto simp: notify_all_snoc notify_def notify_bump_def notify_send_def Let_def count_list_append)
  qed
qed

lemma notify_all_sent:
  "sent (notify_all as) =
     map (\<lambda>i. \<lparr>account_id = as ! i, state = of_nat (count_list (take (Suc i) as) (as ! i))\<rparr>) [0..<length as]"
proof (induction as rule: rev_induct)
  case (snoc a as)
  have "(case counters (notify_all as) a of Some v \<Rightarrow> v | None \<Rightarrow> 0) =
      (of_nat (count_list as a) :: 64 word)"
    by (simp add: notify_all_counters count_list_0_iff split: option.splits)
  moreover have "count_list (take (Suc i) (as @ [a])) ((as @ [a]) ! i) =
      count_list (take (Suc i) as) (as ! i)" if "i < length as" for i
    using that by (simp add: nth_append)
  ultimately show ?case
    using snoc
    by (simp add: notify_all_snoc notify_def notify_bump_def notify_send_def Let_def nth_append
        count_list_append add.commute)
qed (simp add: notify_all_def notifier_new_def)

text \<open>when notifications do not overlap, the \<open>k\<close>-th notification of an account carries the
  state \<open>k\<close>, whatever other accounts do in between, so for fewer than 2^64 notifications the states of
  one account strictly increase.\<close>

theorem notify_states_increase:
  assumes "i < j" and "j < length accounts" and "accounts ! i = accounts ! j"
    and "length accounts < 2 ^ 64"
  shows "account_id (sent (notify_all accounts) ! i) = accounts ! i \<and>
    state (sent (notify_all accounts) ! i) < state (sent (notify_all accounts) ! j)"
proof -
  let ?a = "accounts ! j"
  let ?n = "\<lambda>i. count_list (take (Suc i) accounts) ?a"
  have "take (Suc j) accounts = take (Suc i) accounts @ drop (Suc i) (take (Suc j) accounts)"
    using assms(1) by (metis append_take_drop_id min.absorb1 less_imp_le Suc_le_mono take_take)
  moreover have "?a \<in> set (drop (Suc i) (take (Suc j) accounts))"
    using assms(1,2) by (auto simp: in_set_conv_nth intro!: exI [of _ "j - Suc i"])
  ultimately have lt: "?n i < ?n j"
    by (metis count_list_0_iff count_list_append less_add_same_cancel1 neq0_conv)
  have "?n j \<le> length accounts"
    using count_le_length [of "take (Suc j) accounts" ?a] by simp
  with lt assms(4) have "(of_nat (?n i) :: 64 word) < of_nat (?n j)"
    by (simp add: word_less_nat_alt unat_of_nat)
  with assms(1-3) show ?thesis by (simp add: notify_all_sent)
qed

theorem notify_states_increase_witness:
  "account_id (sent (notify_all [7, 8, 7]) ! 0) = [7, 8, 7] ! 0 \<and>
   state (sent (notify_all [7, 8, 7]) ! 0) < state (sent (notify_all [7, 8, 7]) ! 2)"
  by (rule notify_states_increase) simp_all

text \<open>Two overlapping calls for one account may broadcast in the opposite order.\<close>

lemma notify_overlap_out_of_order:
  "\<exists>ev1 ev2 n1 n2. notify_bump a notifier_new = (ev1, n1) \<and> notify_bump a n1 = (ev2, n2) \<and>
     map state (sent (notify_send ev1 (notify_send ev2 n2))) = [2, 1]"
  by (simp add: notify_bump_def notify_send_def notifier_new_def Let_def)

end
