(* ===== verification/Sealing.thy ===== *)
theory Sealing
  imports Rust_Str
begin

text \<open>
  The crypto-agility header (\<open>common::header\<close>) and the seals of the \<open>crypto\<close> crate built on it: the
  plain and the key-committing AEAD wraps, HPKE seals, and the account-master-key layer.

  The primitives themselves (XChaCha20-Poly1305, X25519 HPKE, Argon2id, HMAC-SHA256, Ed25519) are
  the record \<open>crypto_lib\<close>, an argument of every definition; randomness (nonces, fresh keys) is an argument as
  well. What the code relies on is stated by \<open>aead_correct\<close>, \<open>hpke_correct\<close> and \<open>sign_correct\<close>: opening what was
  sealed under the same key gives the plaintext back.
\<close>

section \<open>The agility header\<close>

definition MAGIC :: bytes where "MAGIC = ''LTR1''"

definition HEADER_VERSION :: "8 word" where "HEADER_VERSION = 1"

datatype alg_id =
    CommittingWrapXChaCha20Poly1305
  | XChaCha20Poly1305
  | HpkeX25519Sha256ChaCha20Poly1305

fun alg_to_u16 :: "alg_id \<Rightarrow> 16 word" where
  "alg_to_u16 CommittingWrapXChaCha20Poly1305 = 1"
| "alg_to_u16 XChaCha20Poly1305 = 2"
| "alg_to_u16 HpkeX25519Sha256ChaCha20Poly1305 = 3"

definition alg_from_u16 :: "16 word \<Rightarrow> alg_id result" where
  "alg_from_u16 v =
     (if v = 1 then Inr CommittingWrapXChaCha20Poly1305
      else if v = 2 then Inr XChaCha20Poly1305
      else if v = 3 then Inr HpkeX25519Sha256ChaCha20Poly1305
      else Inl (Crypto (''unknown alg_id '' @ show_nat (unat v))))"

record agility_header =
  version :: "8 word"
  alg_id :: alg_id
  key_id :: "16 word"
  nonce :: bytes

definition header_new :: "alg_id \<Rightarrow> 16 word \<Rightarrow> bytes \<Rightarrow> agility_header" where
  "header_new a k n = \<lparr>version = HEADER_VERSION, alg_id = a, key_id = k, nonce = n\<rparr>"

definition to_be_bytes :: "16 word \<Rightarrow> bytes" where
  "to_be_bytes w = [char_of (unat w div 256), char_of (unat w mod 256)]"

definition from_be_bytes :: "char \<Rightarrow> char \<Rightarrow> 16 word" where
  "from_be_bytes a b = of_nat (of_char a * 256 + of_char b)"

definition header_encode :: "agility_header \<Rightarrow> bytes" where
  "header_encode h =
     MAGIC @ [char_of (unat (version h))] @ to_be_bytes (alg_to_u16 (alg_id h)) @
     to_be_bytes (key_id h) @ to_be_bytes (of_nat (length (nonce h))) @ nonce h"

definition header_decode :: "bytes \<Rightarrow> (agility_header \<times> bytes) result" where
  "header_decode buf =
     (if length buf < 4 + 1 + 2 + 2 + 2 then Inl (Crypto ''truncated agility header'')
      else if take 4 buf \<noteq> MAGIC then Inl (Crypto ''bad magic on agility header'')
      else
        (let rest = drop 4 buf; ver = of_nat (of_char (rest ! 0)); rest = drop 1 rest in
         case alg_from_u16 (from_be_bytes (rest ! 0) (rest ! 1)) of
           Inl e \<Rightarrow> Inl e
         | Inr alg \<Rightarrow>
             (let rest = drop 2 rest;
                  kid = from_be_bytes (rest ! 0) (rest ! 1); rest = drop 2 rest;
                  nonce_len = unat (from_be_bytes (rest ! 0) (rest ! 1)); rest = drop 2 rest
              in if length rest < nonce_len then Inl (Crypto ''truncated agility header nonce'')
                 else Inr (\<lparr>version = ver, alg_id = alg, key_id = kid, nonce = take nonce_len rest\<rparr>,
                           drop nonce_len rest))))"

lemma from_to_be_bytes:
  "from_be_bytes (to_be_bytes w ! 0) (to_be_bytes w ! 1) = w"
proof -
  have "unat w < 65536" using unsigned_less [where 'a = nat, of w] by simp
  then have "unat w div 256 < 256" by (simp add: div_less_iff_less_mult)
  then have "(unat w div 256) mod 256 * 256 + unat w mod 256 mod 256 = unat w" by simp
  then show ?thesis by (simp add: from_be_bytes_def to_be_bytes_def of_char_of)
qed

lemma to_from_be_bytes: "to_be_bytes (from_be_bytes a b) = [a, b]"
proof -
  have a: "(of_char a :: nat) < 256" "(of_char b :: nat) < 256"
    using nat_of_char_less_256 by auto
  then have "of_char a * 256 + of_char b < (65536 :: nat)" by linarith
  then have "unat (from_be_bytes a b) = of_char a * 256 + of_char b"
    unfolding from_be_bytes_def by (subst unat_of_nat) simp
  with a show ?thesis by (simp add: to_be_bytes_def)
qed

lemma to_be_bytes_two: "\<exists>x y. to_be_bytes w = [x, y] \<and> from_be_bytes x y = w"
  using from_to_be_bytes [of w] by (simp add: to_be_bytes_def)

lemma alg_from_to [simp]: "alg_from_u16 (alg_to_u16 a) = Inr a"
  by (cases a) (simp_all add: alg_from_u16_def)

lemma alg_to_from: "alg_from_u16 v = Inr a \<Longrightarrow> alg_to_u16 a = v"
  by (auto simp: alg_from_u16_def split: if_splits)

lemma header_decode_encode:
  assumes "length (nonce h) < 2 ^ 16"
  shows "header_decode (header_encode h @ payload) = Inr (h, payload)"
proof -
  obtain a1 a2 where a: "to_be_bytes (alg_to_u16 (alg_id h)) = [a1, a2]"
    "from_be_bytes a1 a2 = alg_to_u16 (alg_id h)" using to_be_bytes_two by blast
  obtain k1 k2 where k: "to_be_bytes (key_id h) = [k1, k2]" "from_be_bytes k1 k2 = key_id h"
    using to_be_bytes_two by blast
  obtain n1 n2 where n: "to_be_bytes (of_nat (length (nonce h))) = [n1, n2]"
    "from_be_bytes n1 n2 = of_nat (length (nonce h))" using to_be_bytes_two by blast
  have len: "unat (of_nat (length (nonce h)) :: 16 word) = length (nonce h)"
    using assms by (simp add: unat_of_nat)
  have "unat (version h) < 256" using unsigned_less [where 'a = nat, of "version h"] by simp
  then have ver: "of_nat (of_char (char_of (unat (version h)) :: char)) = version h"
    by (simp add: of_char_of)
  show ?thesis
    by (cases h) (use a k n len ver in \<open>simp add: header_decode_def header_encode_def MAGIC_def Let_def\<close>)
qed

text \<open>The decoder accepts nothing else: what it returns is exactly what was encoded.\<close>

lemma header_encode_decode:
  assumes "header_decode buf = Inr (h, payload)"
  shows "buf = header_encode h @ payload \<and> length (nonce h) < 2 ^ 16"
proof -
  from assms have "\<not> length buf < 11" and mg: "take 4 buf = MAGIC"
    by (auto simp: header_decode_def split: if_splits)
  then obtain m1 m2 m3 m4 v a1 a2 k1 k2 n1 n2 rest where
    buf: "buf = m1 # m2 # m3 # m4 # v # a1 # a2 # k1 # k2 # n1 # n2 # rest"
    by (auto simp: not_less Suc_le_length_iff eval_nat_numeral)
  have magic: "[m1, m2, m3, m4] = MAGIC" using mg buf by simp
  let ?n = "unat (from_be_bytes n1 n2)"
  from assms buf magic obtain alg where alg: "alg_from_u16 (from_be_bytes a1 a2) = Inr alg"
    and h: "h = \<lparr>version = of_nat (of_char v), alg_id = alg, key_id = from_be_bytes k1 k2,
      nonce = take ?n rest\<rparr>"
    and p: "payload = drop ?n rest" and le: "?n \<le> length rest"
    by (auto simp: header_decode_def Let_def split: if_splits sum.splits)
  have "char_of (unat (of_nat (of_char v) :: 8 word)) = v"
  proof -
    have "(of_char v :: nat) < 256" using nat_of_char_less_256 by auto
    then show ?thesis by (simp add: unat_of_nat)
  qed
  moreover have "of_nat (length (take ?n rest)) = from_be_bytes n1 n2" using le by simp
  moreover have "?n < 2 ^ 16" using unsigned_less [where 'a = nat, of "from_be_bytes n1 n2"] by simp
  ultimately show ?thesis
    unfolding buf h p header_encode_def
    by (simp add: magic [symmetric] to_from_be_bytes alg_to_from [OF alg])
qed

section \<open>The primitives\<close>

datatype crypto_error =
    Header error
  | SealFailed
  | OpenFailed
  | CommitmentFailed
  | Hpke string
  | Kdf string
  | InvalidKey string
  | WrongAlgorithm

type_synonym 'a cresult = "crypto_error + 'a"

fun crypto_error_to_string :: "crypto_error \<Rightarrow> string" where
  "crypto_error_to_string (Header e) = ''header error: '' @ error_to_string e"
| "crypto_error_to_string SealFailed = ''AEAD seal failed''"
| "crypto_error_to_string OpenFailed = ''AEAD open failed (wrong key, or ciphertext tampered)''"
| "crypto_error_to_string CommitmentFailed =
     ''committing-wrap prefix check failed: wrong key or tampered ciphertext''"
| "crypto_error_to_string (Hpke s) = ''HPKE operation failed: '' @ s"
| "crypto_error_to_string (Kdf s) = ''KDF operation failed: '' @ s"
| "crypto_error_to_string (InvalidKey s) = ''invalid key material: '' @ s"
| "crypto_error_to_string WrongAlgorithm = ''unexpected alg_id for this operation''"

text \<open>\<open>map_err(|e| Error::Crypto(e.to_string()))\<close>.\<close>

fun crypto_err :: "'a cresult \<Rightarrow> 'a result" where
  "crypto_err (Inl e) = Inl (Crypto (crypto_error_to_string e))"
| "crypto_err (Inr a) = Inr a"

lemma crypto_err_Inr [simp]: "crypto_err r = Inr a \<longleftrightarrow> r = Inr a" "Inr a = crypto_err r \<longleftrightarrow> r = Inr a"
  by (cases r; auto)+

record argon2_config =
  m_cost_kib :: nat
  t_cost :: nat
  p_cost :: nat

record crypto_lib =
  x_encrypt :: "bytes \<Rightarrow> bytes \<Rightarrow> bytes \<Rightarrow> bytes option"
  x_decrypt :: "bytes \<Rightarrow> bytes \<Rightarrow> bytes \<Rightarrow> bytes option"
  gen_keypair :: "bytes \<Rightarrow> bytes \<times> bytes"
  kem_public :: "bytes \<Rightarrow> string + unit"
  kem_private :: "bytes \<Rightarrow> string + unit"
  kem_encapped :: "bytes \<Rightarrow> string + unit"
  single_shot_seal :: "bytes \<Rightarrow> bytes \<Rightarrow> bytes \<Rightarrow> bytes \<Rightarrow> string + bytes \<times> bytes"
  single_shot_open :: "bytes \<Rightarrow> bytes \<Rightarrow> bytes \<Rightarrow> bytes \<Rightarrow> bytes option"
  argon2_params :: "argon2_config \<Rightarrow> string + unit"
  argon2_hash :: "argon2_config \<Rightarrow> bytes \<Rightarrow> bytes \<Rightarrow> string + bytes"
  hmac_sha256 :: "bytes \<Rightarrow> bytes \<Rightarrow> bytes"
  ed25519_public :: "bytes \<Rightarrow> bytes"
  ed25519_sign :: "bytes \<Rightarrow> bytes \<Rightarrow> bytes"
  ed25519_verify :: "bytes \<Rightarrow> bytes \<Rightarrow> bytes \<Rightarrow> bool"

text \<open>What the crates promise: decryption inverts encryption under the same key and nonce, an HPKE
  seal to a generated public key opens with its private key under the same \<open>info\<close> (and the encapsulated key
  it yields is 32 bytes long and parses), and a signature verifies under the public key of its signer.\<close>

definition aead_correct :: "crypto_lib \<Rightarrow> bool" where
  "aead_correct L \<longleftrightarrow>
     (\<forall>k n p c. x_encrypt L k n p = Some c \<longrightarrow> x_decrypt L k n c = Some p)"

definition hpke_correct :: "crypto_lib \<Rightarrow> bool" where
  "hpke_correct L \<longleftrightarrow>
     (\<forall>r sk pk. gen_keypair L r = (sk, pk) \<longrightarrow>
        length sk = 32 \<and> length pk = 32 \<and> kem_public L pk = Inr () \<and> kem_private L sk = Inr () \<and>
        (\<forall>r' info p enc c. single_shot_seal L r' pk info p = Inr (enc, c) \<longrightarrow>
           length enc = 32 \<and> kem_encapped L enc = Inr () \<and> single_shot_open L sk enc info c = Some p))"

definition sign_correct :: "crypto_lib \<Rightarrow> bool" where
  "sign_correct L \<longleftrightarrow>
     (\<forall>sk m. length (ed25519_sign L sk m) = 64 \<and>
        ed25519_verify L (ed25519_public L sk) m (ed25519_sign L sk m))"

section \<open>Seals\<close>

definition NONCE_LEN :: nat where "NONCE_LEN = 24"

definition ZERO_PREFIX_LEN :: nat where "ZERO_PREFIX_LEN = 16"

definition AMK_LEN :: nat where "AMK_LEN = 32"

text \<open>\<open>crypto::aead\<close>: the nonce is the random value the call draws.\<close>

definition aead_seal :: "crypto_lib \<Rightarrow> bytes \<Rightarrow> bytes \<Rightarrow> 16 word \<Rightarrow> bytes \<Rightarrow> bytes pan" where
  "aead_seal L nonce_bytes key kid plaintext =
     (case x_encrypt L key nonce_bytes plaintext of
        None \<Rightarrow> Panicked
      | Some ciphertext \<Rightarrow>
          Returned (header_encode (header_new XChaCha20Poly1305 kid nonce_bytes) @ ciphertext))"

definition aead_open :: "crypto_lib \<Rightarrow> bytes \<Rightarrow> bytes \<Rightarrow> bytes cresult" where
  "aead_open L key sealed =
     (case header_decode sealed of
        Inl e \<Rightarrow> Inl (Header e)
      | Inr (header, ciphertext) \<Rightarrow>
          if alg_id header \<noteq> XChaCha20Poly1305 then Inl WrongAlgorithm
          else if length (nonce header) \<noteq> NONCE_LEN then Inl (InvalidKey ''bad nonce length'')
          else (case x_decrypt L key (nonce header) ciphertext of
                  None \<Rightarrow> Inl OpenFailed
                | Some opened \<Rightarrow> Inr opened))"

text \<open>\<open>crypto::committing\<close>: sixteen zero bytes are sealed in front of the plaintext.\<close>

definition zero_prefix :: bytes where "zero_prefix = replicate ZERO_PREFIX_LEN (CHR 0x00)"

definition committing_seal :: "crypto_lib \<Rightarrow> bytes \<Rightarrow> bytes \<Rightarrow> 16 word \<Rightarrow> bytes \<Rightarrow> bytes pan" where
  "committing_seal L nonce_bytes key kid plaintext =
     (case x_encrypt L key nonce_bytes (zero_prefix @ plaintext) of
        None \<Rightarrow> Panicked
      | Some ciphertext \<Rightarrow>
          Returned (header_encode (header_new CommittingWrapXChaCha20Poly1305 kid nonce_bytes) @ ciphertext))"

definition committing_open :: "crypto_lib \<Rightarrow> bytes \<Rightarrow> bytes \<Rightarrow> bytes cresult" where
  "committing_open L key sealed =
     (case header_decode sealed of
        Inl e \<Rightarrow> Inl (Header e)
      | Inr (header, ciphertext) \<Rightarrow>
          if alg_id header \<noteq> CommittingWrapXChaCha20Poly1305 then Inl WrongAlgorithm
          else if length (nonce header) \<noteq> NONCE_LEN then Inl (InvalidKey ''bad nonce length'')
          else (case x_decrypt L key (nonce header) ciphertext of
                  None \<Rightarrow> Inl OpenFailed
                | Some opened \<Rightarrow>
                    if length opened < ZERO_PREFIX_LEN then Inl CommitmentFailed
                    else if take ZERO_PREFIX_LEN opened \<noteq> zero_prefix then Inl CommitmentFailed
                    else Inr (drop ZERO_PREFIX_LEN opened)))"

text \<open>\<open>crypto::hpke_seal\<close>.\<close>

definition hpke_seal ::
    "crypto_lib \<Rightarrow> bytes \<Rightarrow> bytes \<Rightarrow> 16 word \<Rightarrow> bytes \<Rightarrow> bytes \<Rightarrow> bytes cresult" where
  "hpke_seal L rnd pub_key kid info plaintext =
     (case kem_public L pub_key of
        Inl e \<Rightarrow> Inl (Hpke (''bad public key: '' @ e))
      | Inr _ \<Rightarrow>
          (case single_shot_seal L rnd pub_key info plaintext of
             Inl e \<Rightarrow> Inl (Hpke (''seal failed: '' @ e))
           | Inr (encapped, ciphertext) \<Rightarrow>
               Inr (header_encode (header_new HpkeX25519Sha256ChaCha20Poly1305 kid encapped) @ ciphertext)))"

definition hpke_open :: "crypto_lib \<Rightarrow> bytes \<Rightarrow> bytes \<Rightarrow> bytes \<Rightarrow> bytes cresult" where
  "hpke_open L priv_key info sealed =
     (case header_decode sealed of
        Inl e \<Rightarrow> Inl (Header e)
      | Inr (header, ciphertext) \<Rightarrow>
          if alg_id header \<noteq> HpkeX25519Sha256ChaCha20Poly1305 then Inl WrongAlgorithm
          else (case kem_private L priv_key of
                  Inl e \<Rightarrow> Inl (Hpke (''bad private key: '' @ e))
                | Inr _ \<Rightarrow>
                    (case kem_encapped L (nonce header) of
                       Inl e \<Rightarrow> Inl (Hpke (''bad encapped key: '' @ e))
                     | Inr _ \<Rightarrow>
                         (case single_shot_open L priv_key (nonce header) info ciphertext of
                            None \<Rightarrow> Inl OpenFailed
                          | Some plaintext \<Rightarrow> Inr plaintext))))"

text \<open>\<open>crypto::kdf\<close>, \<open>crypto::amk\<close> and \<open>crypto::keys\<close>. \<open>copy_from_slice\<close> panics on a length mismatch.\<close>

definition derive_pk :: "crypto_lib \<Rightarrow> bytes \<Rightarrow> bytes \<Rightarrow> argon2_config \<Rightarrow> bytes cresult" where
  "derive_pk L password salt config =
     (case argon2_params L config of
        Inl e \<Rightarrow> Inl (Kdf e)
      | Inr _ \<Rightarrow> (case argon2_hash L config password salt of Inl e \<Rightarrow> Inl (Kdf e) | Inr pk \<Rightarrow> Inr pk))"

definition wrap_amk :: "crypto_lib \<Rightarrow> bytes \<Rightarrow> bytes \<Rightarrow> 16 word \<Rightarrow> bytes \<Rightarrow> bytes pan" where
  "wrap_amk L nonce_bytes pk kid amk = committing_seal L nonce_bytes pk kid amk"

definition unwrap_amk :: "crypto_lib \<Rightarrow> bytes \<Rightarrow> bytes \<Rightarrow> bytes cresult pan" where
  "unwrap_amk L pk wrapped =
     (case committing_open L pk wrapped of
        Inl e \<Rightarrow> Returned (Inl e)
      | Inr opened \<Rightarrow> if length opened \<noteq> AMK_LEN then Panicked else Returned (Inr opened))"

definition wrap_priv_key :: "crypto_lib \<Rightarrow> bytes \<Rightarrow> bytes \<Rightarrow> 16 word \<Rightarrow> bytes \<Rightarrow> bytes pan" where
  "wrap_priv_key L nonce_bytes amk kid priv_key = aead_seal L nonce_bytes amk kid priv_key"

definition unwrap_priv_key :: "crypto_lib \<Rightarrow> bytes \<Rightarrow> bytes \<Rightarrow> bytes cresult" where
  "unwrap_priv_key L amk wrapped = aead_open L amk wrapped"

text \<open>\<open>crypto::keyed_hash\<close> and \<open>crypto::sign\<close>: thin layers over the primitives.\<close>

definition keyed_hash :: "crypto_lib \<Rightarrow> bytes \<Rightarrow> bytes \<Rightarrow> bytes" where
  "keyed_hash L key data = hmac_sha256 L key data"

record signing_keypair =
  sig_public :: bytes
  sig_private :: bytes

definition keypair_generate :: "crypto_lib \<Rightarrow> bytes \<Rightarrow> signing_keypair" where
  "keypair_generate L seed = \<lparr>sig_public = ed25519_public L seed, sig_private = seed\<rparr>"

definition keypair_from_private :: "crypto_lib \<Rightarrow> bytes \<Rightarrow> signing_keypair" where
  "keypair_from_private L private = \<lparr>sig_public = ed25519_public L private, sig_private = private\<rparr>"

definition sign :: "crypto_lib \<Rightarrow> signing_keypair \<Rightarrow> bytes \<Rightarrow> bytes" where
  "sign L kp message = ed25519_sign L (sig_private kp) message"

definition verify :: "crypto_lib \<Rightarrow> bytes \<Rightarrow> bytes \<Rightarrow> bytes \<Rightarrow> bool" where
  "verify L public message signature = ed25519_verify L public message signature"

section \<open>What opens\<close>

lemma decode_new [simp]:
  assumes "length n < 2 ^ 16"
  shows "header_decode (header_encode (header_new a k n) @ c) = Inr (header_new a k n, c)"
  using assms by (intro header_decode_encode) (simp add: header_new_def)

lemma header_new_sel [simp]:
  "alg_id (header_new a k n) = a" "nonce (header_new a k n) = n" "key_id (header_new a k n) = k"
  by (simp_all add: header_new_def)

lemma aead_open_seal:
  assumes "aead_correct L" and "length n = NONCE_LEN" and "aead_seal L n key kid p = Returned sealed"
  shows "aead_open L key sealed = Inr p"
  using assms
  by (auto simp: aead_seal_def aead_open_def aead_correct_def NONCE_LEN_def split: option.splits)

lemma committing_open_seal:
  assumes "aead_correct L" and "length n = NONCE_LEN"
    and "committing_seal L n key kid p = Returned sealed"
  shows "committing_open L key sealed = Inr p"
proof -
  from assms(3) obtain c where c: "x_encrypt L key n (zero_prefix @ p) = Some c"
    and s: "sealed = header_encode (header_new CommittingWrapXChaCha20Poly1305 kid n) @ c"
    by (auto simp: committing_seal_def split: option.splits)
  from c assms(1) have "x_decrypt L key n c = Some (zero_prefix @ p)" by (simp add: aead_correct_def)
  with s assms(2) show ?thesis
    by (simp add: committing_open_def NONCE_LEN_def ZERO_PREFIX_LEN_def zero_prefix_def)
qed

lemma hpke_open_seal:
  assumes "hpke_correct L" and "gen_keypair L r = (sk, pk)" and "hpke_seal L r' pk kid info p = Inr sealed"
  shows "hpke_open L sk info sealed = Inr p"
proof -
  from assms(3) obtain enc c where c: "single_shot_seal L r' pk info p = Inr (enc, c)"
    and s: "sealed = header_encode (header_new HpkeX25519Sha256ChaCha20Poly1305 kid enc) @ c"
    by (auto simp: hpke_seal_def split: sum.splits)
  from c assms(1,2) have "length enc = 32" "kem_encapped L enc = Inr ()" "kem_private L sk = Inr ()"
    "single_shot_open L sk enc info c = Some p"
    unfolding hpke_correct_def by blast+
  with s show ?thesis by (simp add: hpke_open_def)
qed

text \<open>What a successful open says about the blob, whoever made it.\<close>

lemma aead_open_Inr:
  assumes "aead_open L key sealed = Inr p"
  shows "\<exists>h c. sealed = header_encode h @ c \<and> alg_id h = XChaCha20Poly1305 \<and>
           length (nonce h) = NONCE_LEN \<and> x_decrypt L key (nonce h) c = Some p"
  using assms header_encode_decode [of sealed]
  by (fastforce simp: aead_open_def split: sum.splits option.splits if_splits prod.splits)

lemma committing_open_Inr:
  assumes "committing_open L key sealed = Inr p"
  shows "\<exists>h c. sealed = header_encode h @ c \<and> alg_id h = CommittingWrapXChaCha20Poly1305 \<and>
           length (nonce h) = NONCE_LEN \<and> x_decrypt L key (nonce h) c = Some (zero_prefix @ p)"
proof -
  from assms obtain h c opened where d: "header_decode sealed = Inr (h, c)"
    and h: "alg_id h = CommittingWrapXChaCha20Poly1305" "length (nonce h) = NONCE_LEN"
      "x_decrypt L key (nonce h) c = Some opened"
    and o: "take ZERO_PREFIX_LEN opened = zero_prefix" "p = drop ZERO_PREFIX_LEN opened"
    by (auto simp: committing_open_def split: sum.splits option.splits if_splits prod.splits)
  have "opened = zero_prefix @ p"
    unfolding o(2) o(1) [symmetric] by (rule append_take_drop_id [symmetric])
  with h header_encode_decode [OF d] show ?thesis by (intro exI [of _ h] exI [of _ c]) simp
qed

lemma unwrap_wrap_amk:
  assumes "aead_correct L" and "length n = NONCE_LEN" and "length amk = AMK_LEN"
    and "wrap_amk L n pk kid amk = Returned wrapped"
  shows "unwrap_amk L pk wrapped = Returned (Inr amk)"
  using assms committing_open_seal by (simp add: wrap_amk_def unwrap_amk_def)

lemma unwrap_wrap_priv_key:
  assumes "aead_correct L" and "length n = NONCE_LEN"
    and "wrap_priv_key L n amk kid priv = Returned wrapped"
  shows "unwrap_priv_key L amk wrapped = Inr priv"
  using assms aead_open_seal by (simp add: wrap_priv_key_def unwrap_priv_key_def)

lemma sign_verifies:
  "sign_correct L \<Longrightarrow> verify L (ed25519_public L seed) m (sign L (keypair_from_private L seed) m)"
  by (simp add: sign_correct_def verify_def sign_def keypair_from_private_def)

section \<open>Properties\<close>

text \<open>the agility header is a prefix code: decoding an encoded header followed by any payload
  gives both back (nonces shorter than 2^16 bytes, the range of the length field), and every
  buffer the decoder accepts is the encoding of the header it returns followed by the payload.\<close>

theorem agility_header_roundtrip:
  "(length (nonce h) < 2 ^ 16 \<longrightarrow> header_decode (header_encode h @ payload) = Inr (h, payload)) \<and>
   (header_decode buf = Inr (h, payload) \<longrightarrow>
      buf = header_encode h @ payload \<and> length (nonce h) < 2 ^ 16)"
  using header_decode_encode header_encode_decode by blast

theorem agility_header_roundtrip_witness:
  "header_decode (header_encode \<lparr>version = 1, alg_id = XChaCha20Poly1305, key_id = 515,
      nonce = ''abc''\<rparr> @ ''xyz'') =
     Inr (\<lparr>version = 1, alg_id = XChaCha20Poly1305, key_id = 515, nonce = ''abc''\<rparr>, ''xyz'')"
  using agility_header_roundtrip
    [of "\<lparr>version = 1, alg_id = XChaCha20Poly1305, key_id = 515, nonce = ''abc''\<rparr>" "''xyz''"] by simp

text \<open>C18: given the primitives' correctness and a 24-byte nonce, each of the three seals opens to its plaintext
  under its own key, and a blob of one kind is refused with \<open>WrongAlgorithm\<close> by the openers of the two others,
  whatever the key. The two key wraps built on them undo each other as well: a wrapped 32-byte account master key
  unwraps to itself, a wrapped private key too, and each unwrap refuses the other's output, whatever the key.\<close>

theorem seals_open_and_separate:
  assumes "aead_correct L" and "hpke_correct L" and "length n = 24" and "gen_keypair L r = (sk, pk)"
    and "aead_seal L n key kid p = Returned plain"
    and "committing_seal L n key kid p = Returned commit"
    and "hpke_seal L r' pk kid info p = Inr pubsealed"
    and "length amk = 32" and "wrap_amk L n key kid amk = Returned wrapped"
    and "wrap_priv_key L n amk kid' priv = Returned wrapped'"
  shows "aead_open L key plain = Inr p \<and> committing_open L key commit = Inr p \<and>
    hpke_open L sk info pubsealed = Inr p \<and>
    committing_open L k plain = Inl WrongAlgorithm \<and> hpke_open L k info' plain = Inl WrongAlgorithm \<and>
    aead_open L k commit = Inl WrongAlgorithm \<and> hpke_open L k info' commit = Inl WrongAlgorithm \<and>
    aead_open L k pubsealed = Inl WrongAlgorithm \<and> committing_open L k pubsealed = Inl WrongAlgorithm \<and>
    unwrap_amk L key wrapped = Returned (Inr amk) \<and> unwrap_priv_key L amk wrapped' = Inr priv \<and>
    unwrap_amk L k wrapped' = Returned (Inl WrongAlgorithm) \<and> unwrap_priv_key L k wrapped = Inl WrongAlgorithm"
proof -
  have n: "length n = NONCE_LEN" "length n < 2 ^ 16" using assms(3) by (simp_all add: NONCE_LEN_def)
  from assms(5) obtain c where pl: "plain = header_encode (header_new XChaCha20Poly1305 kid n) @ c"
    by (auto simp: aead_seal_def split: option.splits)
  from assms(6) obtain d where
    co: "commit = header_encode (header_new CommittingWrapXChaCha20Poly1305 kid n) @ d"
    by (auto simp: committing_seal_def split: option.splits)
  from assms(9) obtain d' where
    wa: "wrapped = header_encode (header_new CommittingWrapXChaCha20Poly1305 kid n) @ d'"
    by (auto simp: wrap_amk_def committing_seal_def split: option.splits)
  from assms(10) obtain c' where wp: "wrapped' = header_encode (header_new XChaCha20Poly1305 kid' n) @ c'"
    by (auto simp: wrap_priv_key_def aead_seal_def split: option.splits)
  have amk: "length amk = AMK_LEN" using assms(8) by (simp add: AMK_LEN_def)
  from assms(7) obtain enc e where "single_shot_seal L r' pk info p = Inr (enc, e)"
    and pu: "pubsealed = header_encode (header_new HpkeX25519Sha256ChaCha20Poly1305 kid enc) @ e"
    by (auto simp: hpke_seal_def split: sum.splits)
  then have enc: "length enc < 2 ^ 16"
    using assms(2,4) unfolding hpke_correct_def by fastforce
  show ?thesis
    using aead_open_seal [OF assms(1) n(1) assms(5)] committing_open_seal [OF assms(1) n(1) assms(6)]
      hpke_open_seal [OF assms(2,4,7)] decode_new [OF n(2)] decode_new [OF enc]
      unwrap_wrap_amk [OF assms(1) n(1) amk assms(9)] unwrap_wrap_priv_key [OF assms(1) n(1) assms(10)]
    unfolding pl co pu wa wp
    by (intro conjI)
      (simp_all add: aead_open_def committing_open_def hpke_open_def unwrap_amk_def unwrap_priv_key_def)
qed

text \<open>A concrete library: the ciphertext carries key and nonce, opening compares them.\<close>

definition sample_lib :: crypto_lib where
  "sample_lib = \<lparr>
     x_encrypt = (\<lambda>k n p. Some (k @ n @ p)),
     x_decrypt = (\<lambda>k n c. strip_prefix (k @ n) c),
     gen_keypair = (\<lambda>r. (take 32 (r @ replicate 32 (CHR ''s'')), take 32 (r @ replicate 32 (CHR ''s'')))),
     kem_public = (\<lambda>_. Inr ()), kem_private = (\<lambda>_. Inr ()), kem_encapped = (\<lambda>_. Inr ()),
     single_shot_seal = (\<lambda>r pk info p. Inr (replicate 32 (CHR ''e''), pk @ info @ p)),
     single_shot_open = (\<lambda>sk enc info c. strip_prefix (sk @ info) c),
     argon2_params = (\<lambda>_. Inr ()),
     argon2_hash = (\<lambda>_ pw salt. Inr (take 32 (pw @ salt @ replicate 32 (CHR ''k'')))),
     hmac_sha256 = (\<lambda>k d. take 32 (d @ k @ replicate 32 (CHR ''h''))),
     ed25519_public = (\<lambda>sk. sk),
     ed25519_sign = (\<lambda>sk m. take 64 (sk @ m @ replicate 64 (CHR ''s''))),
     ed25519_verify = (\<lambda>pk m s. s = take 64 (pk @ m @ replicate 64 (CHR ''s'')))\<rparr>"

lemma sample_lib_correct: "aead_correct sample_lib" "hpke_correct sample_lib" "sign_correct sample_lib"
  by (auto simp: aead_correct_def hpke_correct_def sign_correct_def sample_lib_def strip_prefix_Some)

definition sample_nonce :: bytes where "sample_nonce = replicate 24 (CHR ''n'')"

theorem seals_open_and_separate_witness:
  "\<exists>plain commit pubsealed sk wrapped wrapped'. aead_open sample_lib ''key'' plain = Inr ''secret'' \<and>
     committing_open sample_lib ''key'' commit = Inr ''secret'' \<and>
     hpke_open sample_lib sk ''info'' pubsealed = Inr ''secret'' \<and>
     committing_open sample_lib ''other'' plain = Inl WrongAlgorithm \<and>
     unwrap_amk sample_lib ''key'' wrapped = Returned (Inr (replicate 32 (CHR ''m''))) \<and>
     unwrap_priv_key sample_lib (replicate 32 (CHR ''m'')) wrapped' = Inr ''private'' \<and>
     unwrap_priv_key sample_lib ''other'' wrapped = Inl WrongAlgorithm"
proof -
  obtain sk pk where g: "gen_keypair sample_lib [] = (sk, pk)" by (metis prod.exhaust)
  obtain a where a: "aead_seal sample_lib sample_nonce ''key'' 1 ''secret'' = Returned a"
    by (simp add: aead_seal_def sample_lib_def)
  obtain b where b: "committing_seal sample_lib sample_nonce ''key'' 1 ''secret'' = Returned b"
    by (simp add: committing_seal_def sample_lib_def)
  obtain c where c: "hpke_seal sample_lib [] pk 1 ''info'' ''secret'' = Inr c"
    by (simp add: hpke_seal_def sample_lib_def)
  have n: "length sample_nonce = 24" by (simp add: sample_nonce_def)
  let ?amk = "replicate 32 (CHR ''m'')"
  obtain w where w: "wrap_amk sample_lib sample_nonce ''key'' 1 ?amk = Returned w"
    by (simp add: wrap_amk_def committing_seal_def sample_lib_def)
  obtain v where v: "wrap_priv_key sample_lib sample_nonce ?amk 1 ''private'' = Returned v"
    by (simp add: wrap_priv_key_def aead_seal_def sample_lib_def)
  have m: "length ?amk = 32" by simp
  from seals_open_and_separate [OF sample_lib_correct(1,2) n g a b c m w v, of "''other''"]
  show ?thesis by blast
qed

text \<open>the committing open accepts a blob under a key only if that key decrypts it to sixteen zero
  bytes followed by the returned plaintext; a decryption without that prefix, or one that is too
  short to hold it, is \<open>CommitmentFailed\<close>.\<close>

theorem committing_open_commits:
  "(committing_open L key sealed = Inr p \<longrightarrow>
     (\<exists>h c. sealed = header_encode h @ c \<and> alg_id h = CommittingWrapXChaCha20Poly1305 \<and>
        length (nonce h) = 24 \<and> x_decrypt L key (nonce h) c = Some (replicate 16 (CHR 0x00) @ p))) \<and>
   (alg_id h = CommittingWrapXChaCha20Poly1305 \<longrightarrow> length (nonce h) = 24 \<longrightarrow>
      x_decrypt L key (nonce h) c = Some opened \<longrightarrow> take 16 opened \<noteq> replicate 16 (CHR 0x00) \<longrightarrow>
      committing_open L key (header_encode h @ c) = Inl CommitmentFailed)"
proof (intro conjI impI)
  assume "committing_open L key sealed = Inr p"
  from committing_open_Inr [OF this]
  show "\<exists>h c. sealed = header_encode h @ c \<and> alg_id h = CommittingWrapXChaCha20Poly1305 \<and>
      length (nonce h) = 24 \<and> x_decrypt L key (nonce h) c = Some (replicate 16 (CHR 0x00) @ p)"
    by (simp add: NONCE_LEN_def zero_prefix_def ZERO_PREFIX_LEN_def)
qed (simp add: committing_open_def header_decode_encode NONCE_LEN_def zero_prefix_def ZERO_PREFIX_LEN_def)

theorem committing_open_commits_witness:
  "committing_open sample_lib ''key'' (header_encode (header_new CommittingWrapXChaCha20Poly1305 1
     sample_nonce) @ ''key'' @ sample_nonce @ ''no zero prefix here'') = Inl CommitmentFailed"
proof -
  let ?h = "header_new CommittingWrapXChaCha20Poly1305 1 sample_nonce"
  let ?t = "''no zero prefix here''"
  have d: "x_decrypt sample_lib ''key'' (nonce ?h) (''key'' @ sample_nonce @ ?t) = Some ?t"
    by (simp add: sample_lib_def strip_prefix_Some)
  have t: "take 16 ?t \<noteq> replicate 16 (CHR 0x00)" by (simp add: numeral_eq_Suc)
  have n: "length (nonce ?h) = 24" by (simp add: sample_nonce_def)
  show ?thesis
    by (rule committing_open_commits [THEN conjunct2, rule_format, OF _ n d t]) simp
qed

end
