(* ===== verification/Blob_Store.thy ===== *)
theory Blob_Store
  imports Input_Validation
begin

text \<open>
  \<open>store::blob\<close>: the content-addressed blob store.

  A path under the root is a shard directory and a file name. Every file-system call of the source is
  one step that consumes an entry of \<open>io_faults\<close>: \<open>Some msg\<close> is a call that fails (a failing
  \<open>write_all\<close> leaves a prefix of the data in the temporary file), \<open>None\<close> one that succeeds. A crash is a run
  that stops after any step, which the failing runs cover as well. SHA-256 with its hexadecimal form is
  the argument \<open>hash_hex\<close>; \<open>hex_hash\<close> says that it yields 64 hexadecimal digits.

  The locale \<open>content_store\<close> is the interface the delivery and queue code relies on; it is interpreted on
  the operations below. The last part is the step model of several writer threads on one directory.
\<close>

type_synonym path = "string \<times> string"

record blob_store =
  files :: "path \<rightharpoonup> bytes"
  io_faults :: "string option list"
  process_id :: string

definition hexdigit :: "char \<Rightarrow> bool" where
  "hexdigit c \<longleftrightarrow> to_digit 16 c \<noteq> None"

definition valid_hash :: "string \<Rightarrow> bool" where
  "valid_hash hash \<longleftrightarrow> length hash = 64 \<and> list_all hexdigit hash"

definition path_for :: "string \<Rightarrow> path result" where
  "path_for hash =
     (if length hash \<noteq> 64 \<or> \<not> list_all hexdigit hash then Inl (Storage ''invalid blob hash'')
      else Inr (take 2 hash, drop 2 hash))"

definition tmp_path :: "string \<Rightarrow> string \<Rightarrow> path" where
  "tmp_path pid hash = (take 2 hash, ''.tmp-'' @ pid @ ''-'' @ take 16 hash)"

text \<open>One file-system call: the effect when it succeeds and the state it leaves when it fails.\<close>

definition io_call ::
    "((path \<rightharpoonup> bytes) \<Rightarrow> path \<rightharpoonup> bytes) \<Rightarrow> ((path \<rightharpoonup> bytes) \<Rightarrow> path \<rightharpoonup> bytes) \<Rightarrow>
     blob_store \<Rightarrow> unit result \<times> blob_store" where
  "io_call eff broken s =
     (case io_faults s of
        Some msg # fs \<Rightarrow> (Inl (Io msg), s\<lparr>files := broken (files s), io_faults := fs\<rparr>)
      | None # fs \<Rightarrow> (Inr (), s\<lparr>files := eff (files s), io_faults := fs\<rparr>)
      | [] \<Rightarrow> (Inr (), s\<lparr>files := eff (files s)\<rparr>))"

definition rename_file :: "path \<Rightarrow> path \<Rightarrow> (path \<rightharpoonup> bytes) \<Rightarrow> path \<rightharpoonup> bytes" where
  "rename_file a b fs = (fs(b := fs a))(a := None)"

text \<open>\<open>BlobStore::write\<close>; \<open>torn\<close> is how many bytes reach the file when \<open>write_all\<close> fails.\<close>

definition blob_write ::
    "(bytes \<Rightarrow> string) \<Rightarrow> nat \<Rightarrow> bytes \<Rightarrow> blob_store \<Rightarrow> string result \<times> blob_store" where
  "blob_write hash_hex torn bytes s =
     (let hash = hash_hex bytes in
      case path_for hash of
        Inl e \<Rightarrow> (Inl e, s)
      | Inr final_path \<Rightarrow>
          if files s final_path \<noteq> None then (Inr hash, s)
          else
            (let tmp = tmp_path (process_id s) hash in
             op_bind (io_call id id) (\<lambda>_.
             op_bind (io_call (\<lambda>fs. fs(tmp \<mapsto> [])) id) (\<lambda>_.
             op_bind (io_call (\<lambda>fs. fs(tmp \<mapsto> bytes)) (\<lambda>fs. fs(tmp \<mapsto> take torn bytes))) (\<lambda>_.
             op_bind (io_call id id) (\<lambda>_.
             op_bind (io_call (rename_file tmp final_path) id) (\<lambda>_.
             op_bind (io_call id id) (\<lambda>_ s. (Inr hash, s))))))) s))"

definition blob_read :: "(bytes \<Rightarrow> string) \<Rightarrow> string \<Rightarrow> blob_store \<Rightarrow> bytes result \<times> blob_store" where
  "blob_read hash_hex hash s =
     (case path_for hash of
        Inl e \<Rightarrow> (Inl e, s)
      | Inr p \<Rightarrow>
          (case files s p of
             None \<Rightarrow> (Inl (Io ''entity not found''), s)
           | Some bytes \<Rightarrow>
               op_bind (io_call id id) (\<lambda>_ s.
                 let actual = hash_hex bytes in
                 if actual \<noteq> hash
                 then (Inl (Storage (''blob integrity check failed: expected '' @ hash @ '', got '' @ actual)), s)
                 else (Inr bytes, s)) s))"

definition blob_exists :: "string \<Rightarrow> blob_store \<Rightarrow> bool" where
  "blob_exists hash s = (case path_for hash of Inl _ \<Rightarrow> False | Inr p \<Rightarrow> files s p \<noteq> None)"

definition blob_remove :: "string \<Rightarrow> blob_store \<Rightarrow> unit result \<times> blob_store" where
  "blob_remove hash s =
     (case path_for hash of
        Inl e \<Rightarrow> (Inl e, s)
      | Inr p \<Rightarrow> if files s p = None then (Inr (), s) else io_call (\<lambda>fs. fs(p := None)) id s)"

section \<open>Contents\<close>

text \<open>What the store holds under a hash.\<close>

definition contents :: "blob_store \<Rightarrow> string \<rightharpoonup> bytes" where
  "contents s k = (if valid_hash k then files s (take 2 k, drop 2 k) else None)"

definition hex_hash :: "(bytes \<Rightarrow> string) \<Rightarrow> bool" where
  "hex_hash h \<longleftrightarrow> (\<forall>b. valid_hash (h b))"

text \<open>Every file under a hash name has that hash.\<close>

definition blobs_intact :: "(bytes \<Rightarrow> string) \<Rightarrow> blob_store \<Rightarrow> bool" where
  "blobs_intact h s \<longleftrightarrow> (\<forall>k b. contents s k = Some b \<longrightarrow> h b = k)"

lemma path_for_valid: "path_for k = (if valid_hash k then Inr (take 2 k, drop 2 k) else Inl (Storage ''invalid blob hash''))"
  by (auto simp: path_for_def valid_hash_def)

lemma take_drop_inj: "take n a = take n b \<Longrightarrow> drop n a = drop n b \<Longrightarrow> a = b"
  by (metis append_take_drop_id)

lemma tmp_not_final: "valid_hash k \<Longrightarrow> tmp_path pid j \<noteq> (take 2 k, drop 2 k)"
proof
  assume k: "valid_hash k" and "tmp_path pid j = (take 2 k, drop 2 k)"
  then have "CHR ''.'' \<in> set k"
    by (auto simp: tmp_path_def dest!: arg_cong [where f = set] intro: in_set_dropD)
  with k show False by (auto simp: valid_hash_def list_all_iff hexdigit_def to_digit_def)
qed

lemma io_call_cases:
  assumes "io_call eff broken s = (r, s')"
  obtains (ok) "r = Inr ()" "files s' = eff (files s)" "process_id s' = process_id s"
    | (failed) msg where "r = Inl (Io msg)" "files s' = broken (files s)" "process_id s' = process_id s"
  using assms by (auto simp: io_call_def split: list.splits option.splits)

text \<open>A call that touches no hash-named file leaves the contents alone, whether it fails or not.\<close>

definition keeps :: "((path \<rightharpoonup> bytes) \<Rightarrow> path \<rightharpoonup> bytes) \<Rightarrow> bool" where
  "keeps f \<longleftrightarrow> (\<forall>fs k. valid_hash k \<longrightarrow> f fs (take 2 k, drop 2 k) = fs (take 2 k, drop 2 k))"

lemma keeps_id [simp]: "keeps id"
  by (simp add: keeps_def)

lemma keeps_tmp [simp]: "keeps (\<lambda>fs. fs(tmp_path pid j \<mapsto> b))"
  using tmp_not_final by (simp add: keeps_def) metis

lemma io_call_keeps:
  assumes "keeps eff" and "keeps broken"
  shows "contents (snd (io_call eff broken s)) = contents s"
  using assms
  by (auto simp: contents_def fun_eq_iff keeps_def io_call_def split: list.splits option.splits)

lemma files_rename_final:
  assumes "valid_hash k" "valid_hash j"
  shows "rename_file (tmp_path pid i) (take 2 k, drop 2 k) fs (take 2 j, drop 2 j) =
    (if j = k then fs (tmp_path pid i) else fs (take 2 j, drop 2 j))"
  using assms tmp_not_final [OF assms(2), of pid i] take_drop_inj [of 2 k j]
  by (auto simp: rename_file_def)

text \<open>All runs of a write: the contents are unchanged, or the blob has been added complete.\<close>

lemma io_call_tmp_file:
  assumes "io_call eff broken s = (r, s')" and "eff = id" and "broken = id"
  shows "files s' = files s" "process_id s' = process_id s"
  using assms by (auto elim!: io_call_cases)

lemma blob_write_contents:
  assumes w: "blob_write h torn bytes s = (r, s')"
  shows "contents s' = contents s \<or>
    (valid_hash (h bytes) \<and> contents s (h bytes) = None \<and> contents s' = (contents s)(h bytes \<mapsto> bytes))"
    and "r = Inr k \<Longrightarrow> k = h bytes \<and> contents s' k \<noteq> None"
proof -
  let ?k = "h bytes" let ?tmp = "tmp_path (process_id s) ?k" let ?p = "(take 2 ?k, drop 2 ?k)"
  have "(contents s' = contents s \<or>
    (valid_hash ?k \<and> contents s ?k = None \<and> contents s' = (contents s)(?k \<mapsto> bytes))) \<and>
    (r = Inr k \<longrightarrow> k = ?k \<and> contents s' k \<noteq> None)"
  proof (cases "valid_hash ?k \<and> files s ?p = None")
    case False
    with w show ?thesis
      by (auto simp: blob_write_def path_for_valid Let_def contents_def split: if_splits)
  next
    case True
    then have v: "valid_hash ?k" and none: "contents s ?k = None" by (auto simp: contents_def)
    have run: "op_bind (io_call id id) (\<lambda>_.
             op_bind (io_call (\<lambda>fs. fs(?tmp \<mapsto> [])) id) (\<lambda>_.
             op_bind (io_call (\<lambda>fs. fs(?tmp \<mapsto> bytes)) (\<lambda>fs. fs(?tmp \<mapsto> take torn bytes))) (\<lambda>_.
             op_bind (io_call id id) (\<lambda>_.
             op_bind (io_call (rename_file ?tmp ?p) id) (\<lambda>_.
             op_bind (io_call id id) (\<lambda>_ s. (Inr ?k, s))))))) s = (r, s')"
      using w True by (simp add: blob_write_def path_for_valid Let_def)
    obtain r1 s1 where 1: "io_call id id s = (r1, s1)" by (metis prod.exhaust)
    obtain r2 s2 where 2: "io_call (\<lambda>fs. fs(?tmp \<mapsto> [])) id s1 = (r2, s2)" by (metis prod.exhaust)
    obtain r3 s3 where 3: "io_call (\<lambda>fs. fs(?tmp \<mapsto> bytes)) (\<lambda>fs. fs(?tmp \<mapsto> take torn bytes)) s2 = (r3, s3)"
      by (metis prod.exhaust)
    obtain r4 s4 where 4: "io_call id id s3 = (r4, s4)" by (metis prod.exhaust)
    obtain r5 s5 where 5: "io_call (rename_file ?tmp ?p) id s4 = (r5, s5)" by (metis prod.exhaust)
    obtain r6 s6 where 6: "io_call id id s5 = (r6, s6)" by (metis prod.exhaust)
    have c: "contents s1 = contents s" "contents s2 = contents s" "contents s3 = contents s"
      "contents s4 = contents s" "contents s6 = contents s5"
      using io_call_keeps [of id id s] io_call_keeps [of "\<lambda>fs. fs(?tmp \<mapsto> [])" id s1]
        io_call_keeps [of "\<lambda>fs. fs(?tmp \<mapsto> bytes)" "\<lambda>fs. fs(?tmp \<mapsto> take torn bytes)" s2]
        io_call_keeps [of id id s3] io_call_keeps [of id id s5] 1 2 3 4 6 by simp_all
    have tmp: "files s4 ?tmp = Some bytes" if "r3 = Inr ()"
      using 3 io_call_tmp_file [OF 4] that by (auto elim: io_call_cases)
    have c5: "contents s5 = contents s \<and> r5 \<noteq> Inr () \<or>
        r5 = Inr () \<and> (r3 = Inr () \<longrightarrow> contents s5 = (contents s)(?k \<mapsto> bytes))"
      using 5
    proof (cases rule: io_call_cases)
      case ok
      have "contents s5 j = (if j = ?k then files s4 ?tmp else contents s4 j)" for j
        using v by (simp add: contents_def ok files_rename_final)
      with ok tmp c show ?thesis by (auto simp: fun_eq_iff)
    next
      case (failed msg)
      then have "contents s5 = contents s4" by (simp add: contents_def fun_eq_iff)
      with failed c show ?thesis by simp
    qed
    show ?thesis
      using run c c5 1 2 3 4 5 6 v none
      by (cases r1; cases r2; cases r3; cases r4; cases r5; cases r6) (auto simp: op_bind_def)
  qed
  then show "contents s' = contents s \<or>
    (valid_hash ?k \<and> contents s ?k = None \<and> contents s' = (contents s)(?k \<mapsto> bytes))"
    and "r = Inr k \<Longrightarrow> k = h bytes \<and> contents s' k \<noteq> None" by blast+
qed

lemma blob_remove_contents:
  "contents (snd (blob_remove k s)) = contents s \<or> contents (snd (blob_remove k s)) = (contents s)(k := None)"
proof (cases "valid_hash k \<and> files s (take 2 k, drop 2 k) \<noteq> None")
  case True
  obtain r s' where c: "io_call (\<lambda>fs. fs((take 2 k, drop 2 k) := None)) id s = (r, s')"
    by (metis prod.exhaust)
  from c have "contents s' = contents s \<or> contents s' = (contents s)(k := None)"
  proof (cases rule: io_call_cases)
    case ok
    have "contents s' j = ((contents s)(k := None)) j" for j
      using True take_drop_inj [of 2 k j] by (auto simp: contents_def ok)
    then show ?thesis by (simp add: fun_eq_iff)
  next
    case (failed msg)
    then show ?thesis by (simp add: contents_def fun_eq_iff)
  qed
  with True c show ?thesis by (simp add: blob_remove_def path_for_valid)
qed (auto simp: blob_remove_def path_for_valid)

lemma blob_read_Inr:
  assumes "blob_read h k s = (Inr b, s')"
  shows "contents s k = Some b \<and> h b = k \<and> contents s' = contents s"
  using assms io_call_keeps [of id id s]
  by (auto simp: blob_read_def path_for_valid op_bind_def contents_def Let_def
      split: if_splits option.splits sum.splits prod.splits)

lemma blob_read_no_faults:
  assumes "io_faults s = []" and "blobs_intact h s" and "contents s k = Some b"
  shows "blob_read h k s = (Inr b, s)"
proof -
  have "valid_hash k" "files s (take 2 k, drop 2 k) = Some b" "h b = k"
    using assms(2,3) by (auto simp: contents_def blobs_intact_def split: if_splits)
  with assms(1) show ?thesis by (simp add: blob_read_def path_for_valid op_bind_def io_call_def)
qed

lemma io_call_no_faults: "io_faults s = [] \<Longrightarrow> io_call eff broken s = (Inr (), s\<lparr>files := eff (files s)\<rparr>)"
  by (simp add: io_call_def)

lemma blob_write_no_faults:
  assumes "hex_hash h" and "io_faults s = []"
  shows "\<exists>s'. blob_write h torn b s = (Inr (h b), s') \<and> io_faults s' = []"
  using assms by (simp add: blob_write_def path_for_valid hex_hash_def op_bind_def io_call_no_faults Let_def)

section \<open>The interface\<close>

text \<open>A content-addressed store: \<open>put\<close> files the bytes under their hash or leaves the store alone.\<close>

locale content_store =
  fixes hash :: "bytes \<Rightarrow> string"
    and put :: "bytes \<Rightarrow> 's \<Rightarrow> string result \<times> 's"
    and held :: "'s \<Rightarrow> string \<rightharpoonup> bytes"
  assumes put_effect: "held (snd (put b s)) = held s \<or>
      (held s (hash b) = None \<and> held (snd (put b s)) = (held s)(hash b \<mapsto> b))"
    and put_ok: "put b s = (Inr k, s') \<Longrightarrow> k = hash b \<and> held s' k \<noteq> None"
begin

definition intact :: "'s \<Rightarrow> bool" where
  "intact s \<longleftrightarrow> (\<forall>k b. held s k = Some b \<longrightarrow> hash b = k)"

lemma put_intact: "intact s \<Longrightarrow> intact (snd (put b s))"
  using put_effect [of b s] by (auto simp: intact_def split: if_splits)

lemma put_frame: "held s k = Some c \<Longrightarrow> held (snd (put b s)) k = Some c"
  using put_effect [of b s] by auto

text \<open>What was put stays readable, complete and unchanged after any further puts.\<close>

lemma puts_frame: "held s k = Some c \<Longrightarrow> held (fold (\<lambda>b s. snd (put b s)) bs s) k = Some c"
  by (induction bs arbitrary: s) (auto simp: put_frame)

lemma put_then_puts:
  assumes "intact s" and "put b s = (Inr k, s')"
  shows "\<exists>c. held (fold (\<lambda>b s. snd (put b s)) bs s') k = Some c \<and> hash c = hash b"
proof -
  from put_ok [OF assms(2)] obtain c where k: "k = hash b" and c: "held s' k = Some c" by auto
  have "intact s'" using put_intact [OF assms(1), of b] assms(2) by simp
  with k c have "hash c = hash b" by (simp add: intact_def)
  with puts_frame [OF c] show ?thesis by blast
qed

end

interpretation blobs: content_store h "blob_write h torn" contents for h torn
proof
  fix b s
  show "contents (snd (blob_write h torn b s)) = contents s \<or>
      (contents s (h b) = None \<and> contents (snd (blob_write h torn b s)) = (contents s)(h b \<mapsto> b))"
    using blob_write_contents(1) [of h torn b s] by (metis prod.collapse)
next
  fix b s k s'
  show "blob_write h torn b s = (Inr k, s') \<Longrightarrow> k = h b \<and> contents s' k \<noteq> None"
    using blob_write_contents(2) by blast
qed

lemma blobs_intact_iff: "blobs_intact h s = blobs.intact h s"
  by (simp add: blobs_intact_def blobs.intact_def)

section \<open>Properties\<close>

text \<open>C19: a write, whichever of its file-system calls fails and wherever it stops, either leaves the
  contents of the store unchanged or adds exactly the complete blob under its hash; when it succeeds
  the blob is there, and it stays there, with its hash, through all later writes. Integrity of the whole
  store is kept.\<close>

theorem blob_write_atomic:
  assumes "blobs_intact hash_hex s" and "blob_write hash_hex torn bytes s = (r, s')"
  shows "(contents s' = contents s \<or>
      contents s (hash_hex bytes) = None \<and> contents s' = (contents s)(hash_hex bytes \<mapsto> bytes)) \<and>
    blobs_intact hash_hex s' \<and>
    (r = Inr k \<longrightarrow> k = hash_hex bytes \<and>
      (\<exists>c. contents (fold (\<lambda>b s. snd (blob_write hash_hex torn b s)) later s') k = Some c \<and>
         hash_hex c = hash_hex bytes))"
proof -
  have "blobs_intact hash_hex s'"
    using blobs.put_intact [of hash_hex s torn bytes] assms by (simp add: blobs_intact_iff)
  moreover have "r = Inr k \<Longrightarrow>
      \<exists>c. contents (fold (\<lambda>b s. snd (blob_write hash_hex torn b s)) later s') k = Some c \<and>
        hash_hex c = hash_hex bytes"
    using blobs.put_then_puts [of hash_hex s torn bytes k s' later] assms by (simp add: blobs_intact_iff)
  ultimately show ?thesis using blob_write_contents [OF assms(2)] by blast
qed

text \<open>A concrete hash for the witnesses: the length in unary over 64 digits.\<close>

definition sample_hash :: "bytes \<Rightarrow> string" where
  "sample_hash b = replicate (min 64 (length b)) (CHR ''a'') @ replicate (64 - length b) (CHR ''0'')"

lemma sample_hash_hex: "hex_hash sample_hash"
  by (auto simp: hex_hash_def valid_hash_def sample_hash_def list_all_iff hexdigit_def to_digit_def)

theorem blob_write_atomic_witness:
  "let s = \<lparr>files = Map.empty, io_faults = [None, None, None, None, None, Some ''EIO''], process_id = ''7''\<rparr>;
       s' = snd (blob_write sample_hash 1 ''abc'' s)
   in (contents s' = contents s \<or>
      contents s (sample_hash ''abc'') = None \<and> contents s' = (contents s)(sample_hash ''abc'' \<mapsto> ''abc'')) \<and>
     blobs_intact sample_hash s'"
proof -
  let ?s = "\<lparr>files = Map.empty, io_faults = [None, None, None, None, None, Some ''EIO''], process_id = ''7''\<rparr>"
  have i: "blobs_intact sample_hash ?s" by (simp add: blobs_intact_def contents_def)
  obtain r s' where w: "blob_write sample_hash 1 ''abc'' ?s = (r, s')" by (metis prod.exhaust)
  show ?thesis unfolding Let_def w snd_conv using blob_write_atomic [OF i w] by blast
qed

lemma blob_read_frame:
  assumes "blob_read hash_hex k s = (r, s')"
  shows "files s' = files s" and "process_id s' = process_id s"
proof -
  have "files s' = files s \<and> process_id s' = process_id s"
  proof (cases "path_for k")
    case (Inr p)
    show ?thesis
    proof (cases "files s p")
      case (Some b)
      have run: "op_bind (io_call id id) (\<lambda>_ s.
          let actual = hash_hex b in
          if actual \<noteq> k
          then (Inl (Storage (''blob integrity check failed: expected '' @ k @ '', got '' @ actual)), s)
          else (Inr b, s)) s = (r, s')"
        using assms Inr Some by (simp add: blob_read_def)
      from run show ?thesis
        by (auto simp: op_bind_def io_call_def Let_def split: list.splits option.splits sum.splits prod.splits if_splits)
    qed (use assms Inr in \<open>simp add: blob_read_def\<close>)
  qed (use assms in \<open>simp add: blob_read_def\<close>)
  then show "files s' = files s" "process_id s' = process_id s" by blast+
qed

text \<open>C20: a read never returns bytes whose hash is not the one asked for; without I/O errors it returns the blob
  the store holds, and refuses with an error what it holds under the hash of other bytes; and whatever it returns,
  bytes or any error, no file changes.\<close>

theorem blob_read_verified:
  "(blob_read hash_hex k s = (Inr b, s') \<longrightarrow> hash_hex b = k \<and> contents s k = Some b) \<and>
   (io_faults s = [] \<longrightarrow> blobs_intact hash_hex s \<longrightarrow> contents s k = Some b \<longrightarrow>
      blob_read hash_hex k s = (Inr b, s)) \<and>
   (io_faults s = [] \<longrightarrow> contents s k = Some b \<longrightarrow> hash_hex b \<noteq> k \<longrightarrow>
      blob_read hash_hex k s =
        (Inl (Storage (''blob integrity check failed: expected '' @ k @ '', got '' @ hash_hex b)), s)) \<and>
   (blob_read hash_hex k s = (r, s'') \<longrightarrow> files s'' = files s \<and> process_id s'' = process_id s)"
proof (intro conjI impI)
  show "blob_read hash_hex k s =
      (Inl (Storage (''blob integrity check failed: expected '' @ k @ '', got '' @ hash_hex b)), s)"
    if "io_faults s = []" "contents s k = Some b" "hash_hex b \<noteq> k"
    using that by (auto simp: contents_def blob_read_def path_for_def valid_hash_def op_bind_def io_call_def Let_def split: if_splits)
qed (use blob_read_Inr blob_read_no_faults blob_read_frame in \<open>blast+\<close>)

theorem blob_read_verified_witness:
  "\<exists>s. io_faults s = [] \<and> blob_read sample_hash (sample_hash ''abc'') s = (Inr ''abc'', s)"
proof -
  let ?k = "sample_hash ''abc''"
  let ?s = "\<lparr>files = [(take 2 ?k, drop 2 ?k) \<mapsto> ''abc''], io_faults = [], process_id = ''7''\<rparr>"
  have v: "valid_hash ?k" using sample_hash_hex by (simp add: hex_hash_def)
  have "blobs_intact sample_hash ?s"
    using take_drop_inj [of 2 ?k] by (auto simp: blobs_intact_def contents_def split: if_splits)
  moreover have "contents ?s ?k = Some ''abc''" using v by (simp add: contents_def)
  ultimately have "blob_read sample_hash ?k ?s = (Inr ''abc'', ?s)"
    using blob_read_verified [THEN conjunct2, THEN conjunct1, rule_format, of ?s sample_hash ?k "''abc''"] by simp
  then show ?thesis by (intro exI [of _ ?s]) simp
qed

section \<open>Several writers\<close>

text \<open>The same write as a sequence of atomic file-system calls, for several threads of one process.
  Directory entries point to inodes, an open file is an inode with the thread's own offset;
  \<open>File::create\<close> truncates an existing file. A choice is the outcome of a call: an error, or how far a
  \<open>write\<close> gets.\<close>

record wfs =
  dirents :: "path \<rightharpoonup> nat"
  inodes :: "nat \<Rightarrow> bytes"
  next_inode :: nat

datatype wpc =
    W_check | W_mkdir | W_create | W_write nat nat | W_sync | W_rename | W_dirsync
  | W_done "string result"

record writer =
  w_bytes :: bytes
  w_pc :: wpc

definition pwrite :: "bytes \<Rightarrow> nat \<Rightarrow> bytes \<Rightarrow> bytes" where
  "pwrite c off b = take off (c @ replicate (off - length c) (CHR 0x00)) @ b @ drop (off + length b) c"

definition final_of :: "string \<Rightarrow> path" where
  "final_of k = (take 2 k, drop 2 k)"

fun writer_step ::
    "(bytes \<Rightarrow> string) \<Rightarrow> string \<Rightarrow> string + nat \<Rightarrow> writer \<Rightarrow> wfs \<Rightarrow> writer \<times> wfs" where
  "writer_step h pid (Inl msg) w fs = (w\<lparr>w_pc := W_done (Inl (Io msg))\<rparr>, fs)"
| "writer_step h pid (Inr n) w fs =
     (let hash = h (w_bytes w); final = final_of hash; tmp = tmp_path pid hash in
      case w_pc w of
        W_check \<Rightarrow>
          (if dirents fs final \<noteq> None then (w\<lparr>w_pc := W_done (Inr hash)\<rparr>, fs)
           else (w\<lparr>w_pc := W_mkdir\<rparr>, fs))
      | W_mkdir \<Rightarrow> (w\<lparr>w_pc := W_create\<rparr>, fs)
      | W_create \<Rightarrow>
          (case dirents fs tmp of
             Some i \<Rightarrow> (w\<lparr>w_pc := W_write i 0\<rparr>, fs\<lparr>inodes := (inodes fs)(i := [])\<rparr>)
           | None \<Rightarrow>
               (let i = next_inode fs in
                (w\<lparr>w_pc := W_write i 0\<rparr>,
                 fs\<lparr>dirents := (dirents fs)(tmp \<mapsto> i), inodes := (inodes fs)(i := []),
                    next_inode := Suc i\<rparr>)))
      | W_write i off \<Rightarrow>
          (if off = length (w_bytes w) then (w\<lparr>w_pc := W_sync\<rparr>, fs)
           else (let chunk = take (Suc n) (drop off (w_bytes w)) in
                 (w\<lparr>w_pc := W_write i (off + length chunk)\<rparr>,
                  fs\<lparr>inodes := (inodes fs)(i := pwrite (inodes fs i) off chunk)\<rparr>)))
      | W_sync \<Rightarrow> (w\<lparr>w_pc := W_rename\<rparr>, fs)
      | W_rename \<Rightarrow>
          (case dirents fs tmp of
             None \<Rightarrow> (w\<lparr>w_pc := W_done (Inl (Io ''entity not found''))\<rparr>, fs)
           | Some i \<Rightarrow> (w\<lparr>w_pc := W_dirsync\<rparr>,
                        fs\<lparr>dirents := ((dirents fs)(final \<mapsto> i))(tmp := None)\<rparr>))
      | W_dirsync \<Rightarrow> (w\<lparr>w_pc := W_done (Inr hash)\<rparr>, fs)
      | W_done r \<Rightarrow> (w, fs))"

text \<open>What a reader finds under a hash.\<close>

definition visible :: "wfs \<Rightarrow> string \<rightharpoonup> bytes" where
  "visible fs k = (if valid_hash k then map_option (inodes fs) (dirents fs (final_of k)) else None)"

text \<open>The runs in which a new writer only starts when \<open>allowed\<close> holds of its bytes and the threads.\<close>

inductive blob_runs ::
    "(bytes \<Rightarrow> string) \<Rightarrow> string \<Rightarrow> (bytes \<Rightarrow> (nat \<rightharpoonup> writer) \<Rightarrow> bool) \<Rightarrow> wfs \<Rightarrow> (nat \<rightharpoonup> writer) \<Rightarrow> bool"
  for h :: "bytes \<Rightarrow> string" and pid :: string and allowed :: "bytes \<Rightarrow> (nat \<rightharpoonup> writer) \<Rightarrow> bool" where
  empty: "blob_runs h pid allowed \<lparr>dirents = Map.empty, inodes = (\<lambda>_. []), next_inode = 0\<rparr> Map.empty"
| spawn: "blob_runs h pid allowed fs ws \<Longrightarrow> ws t = None \<Longrightarrow> allowed b ws \<Longrightarrow>
     blob_runs h pid allowed fs (ws(t \<mapsto> \<lparr>w_bytes = b, w_pc = W_check\<rparr>))"
| step: "blob_runs h pid allowed fs ws \<Longrightarrow> ws t = Some w \<Longrightarrow>
     writer_step h pid choice w fs = (w', fs') \<Longrightarrow> blob_runs h pid allowed fs' (ws(t \<mapsto> w'))"

text \<open>A writer that may still use its temporary file.\<close>

fun w_active :: "wpc \<Rightarrow> bool" where
  "w_active (W_done r) = False"
| "w_active _ = True"

definition no_clash :: "(bytes \<Rightarrow> string) \<Rightarrow> bytes \<Rightarrow> (nat \<rightharpoonup> writer) \<Rightarrow> bool" where
  "no_clash h b ws \<longleftrightarrow>
     (\<forall>t w. ws t = Some w \<longrightarrow> w_active (w_pc w) \<longrightarrow> take 16 (h (w_bytes w)) \<noteq> take 16 (h b))"

text \<open>What a writer has put into its temporary file.\<close>

fun w_file :: "wfs \<Rightarrow> path \<Rightarrow> bytes \<Rightarrow> wpc \<Rightarrow> bool" where
  "w_file fs tmp b (W_write i off) =
     (dirents fs tmp = Some i \<and> off \<le> length b \<and> inodes fs i = take off b)"
| "w_file fs tmp b W_sync = (\<exists>i. dirents fs tmp = Some i \<and> inodes fs i = b)"
| "w_file fs tmp b W_rename = (\<exists>i. dirents fs tmp = Some i \<and> inodes fs i = b)"
| "w_file fs tmp b _ = True"

text \<open>The directory part of the invariant: inodes are allocated, each has one name, and a file under a
  hash name has that hash.\<close>

definition ent_inj :: "('p \<rightharpoonup> nat) \<Rightarrow> bool" where
  "ent_inj d \<longleftrightarrow> (\<forall>p q i. d p = Some i \<longrightarrow> d q = Some i \<longrightarrow> p = q)"

definition ent_below :: "('p \<rightharpoonup> nat) \<Rightarrow> nat \<Rightarrow> bool" where
  "ent_below d n \<longleftrightarrow> (\<forall>p i. d p = Some i \<longrightarrow> i < n)"

lemma ent_inj_new: "ent_inj d \<Longrightarrow> ent_below d i \<Longrightarrow> ent_inj (d(x \<mapsto> i))"
  by (auto simp: ent_inj_def ent_below_def)

lemma ent_below_new: "ent_below d i \<Longrightarrow> ent_below (d(x \<mapsto> i)) (Suc i)"
  by (auto simp: ent_below_def intro: less_SucI)

lemma ent_inj_move: "ent_inj d \<Longrightarrow> d a = Some i \<Longrightarrow> ent_inj ((d(b \<mapsto> i))(a := None))"
  by (auto simp: ent_inj_def)

lemma ent_below_move: "ent_below d n \<Longrightarrow> d a = Some i \<Longrightarrow> ent_below ((d(b \<mapsto> i))(a := None)) n"
  by (auto simp: ent_below_def)

definition dir_inv :: "(bytes \<Rightarrow> string) \<Rightarrow> wfs \<Rightarrow> bool" where
  "dir_inv h fs \<longleftrightarrow>
     ent_below (dirents fs) (next_inode fs) \<and> ent_inj (dirents fs) \<and>
     (\<forall>k i. valid_hash k \<longrightarrow> dirents fs (final_of k) = Some i \<longrightarrow> h (inodes fs i) = k)"

definition runs_inv :: "(bytes \<Rightarrow> string) \<Rightarrow> string \<Rightarrow> wfs \<Rightarrow> (nat \<rightharpoonup> writer) \<Rightarrow> bool" where
  "runs_inv h pid fs ws \<longleftrightarrow>
     dir_inv h fs \<and>
     (\<forall>t w. ws t = Some w \<longrightarrow> w_file fs (tmp_path pid (h (w_bytes w))) (w_bytes w) (w_pc w)) \<and>
     (\<forall>t u w v. ws t = Some w \<longrightarrow> ws u = Some v \<longrightarrow> w_active (w_pc w) \<longrightarrow> w_active (w_pc v) \<longrightarrow>
        t \<noteq> u \<longrightarrow> take 16 (h (w_bytes w)) \<noteq> take 16 (h (w_bytes v)))"

lemma tmp_path_inj:
  assumes "valid_hash a" "valid_hash b" "tmp_path pid a = tmp_path pid b"
  shows "take 16 a = take 16 b"
  using assms by (simp add: tmp_path_def)

lemma pwrite_append: "off = length c \<Longrightarrow> pwrite c off b = c @ b"
  by (simp add: pwrite_def)

lemma tmp_not_final_of: "valid_hash k \<Longrightarrow> tmp_path pid j \<noteq> final_of k"
  by (simp add: final_of_def tmp_not_final)

lemma final_of_inj: "final_of k = final_of j \<longleftrightarrow> k = j"
  by (auto simp: final_of_def dest: take_drop_inj)

lemma take_Suc_chunk:
  assumes "off \<le> length b"
  shows "take off b @ take n (drop off b) = take (off + length (take n (drop off b))) b"
    and "off + length (take n (drop off b)) \<le> length b"
  using assms by (auto simp: take_add min_def)

lemma writer_step_kept:
  assumes "writer_step h pid choice w fs = (w', fs')"
  shows "w_bytes w' = w_bytes w" and "w_active (w_pc w') \<Longrightarrow> w_active (w_pc w)"
  using assms by (cases choice; auto simp: Let_def split: wpc.splits if_splits option.splits)+

text \<open>A step only touches its own temporary name, its final name and the inode of its file.\<close>

lemma writer_step_frame:
  assumes "writer_step h pid choice w fs = (w', fs')"
    and "w_file fs (tmp_path pid (h (w_bytes w))) (w_bytes w) (w_pc w)" and "dir_inv h fs"
    and "p \<noteq> tmp_path pid (h (w_bytes w))"
  shows "p \<noteq> final_of (h (w_bytes w)) \<Longrightarrow> dirents fs' p = dirents fs p"
    and "dirents fs p = Some i \<Longrightarrow> inodes fs' i = inodes fs i"
proof -
  let ?tmp = "tmp_path pid (h (w_bytes w))"
  have A: "i \<noteq> j" if "dirents fs ?tmp = Some j" "dirents fs p = Some i" for i j
    using assms(3,4) that unfolding dir_inv_def ent_inj_def by blast
  have B: "i \<noteq> next_inode fs" if "dirents fs p = Some i" for i
    using assms(3) that unfolding dir_inv_def ent_below_def by blast
  show "p \<noteq> final_of (h (w_bytes w)) \<Longrightarrow> dirents fs' p = dirents fs p"
    using assms(1,4) by (cases choice) (auto simp: Let_def split: wpc.splits if_splits option.splits)
  show "dirents fs p = Some i \<Longrightarrow> inodes fs' i = inodes fs i"
    using assms(1,2) A B
    by (cases choice) (auto simp: Let_def split: wpc.splits if_splits option.splits)
qed

lemma writer_step_file:
  assumes "writer_step h pid choice w fs = (w', fs')"
    and "w_file fs (tmp_path pid (h (w_bytes w))) (w_bytes w) (w_pc w)"
  shows "w_file fs' (tmp_path pid (h (w_bytes w))) (w_bytes w) (w_pc w')"
  using assms
  by (cases choice)
    (auto simp: Let_def pwrite_append take_Suc_chunk split: wpc.splits if_splits option.splits)

lemma writer_step_dir:
  assumes "hex_hash h" and "dir_inv h fs" and "writer_step h pid choice w fs = (w', fs')"
    and "w_file fs (tmp_path pid (h (w_bytes w))) (w_bytes w) (w_pc w)"
  shows "dir_inv h fs'"
proof (cases choice)
  case (Inl msg)
  with assms show ?thesis by simp
next
  case (Inr n)
  let ?k = "h (w_bytes w)" let ?tmp = "tmp_path pid ?k"
  have v: "valid_hash ?k" using assms(1) by (simp add: hex_hash_def)
  have nf: "\<And>k. valid_hash k \<Longrightarrow> ?tmp \<noteq> final_of k" by (rule tmp_not_final_of)
  have lt: "ent_below (dirents fs) (next_inode fs)" and inj: "ent_inj (dirents fs)"
    and ok: "\<And>k i. valid_hash k \<Longrightarrow> dirents fs (final_of k) = Some i \<Longrightarrow> h (inodes fs i) = k"
    using assms(2) by (auto simp: dir_inv_def)
  have other: "\<And>k i. valid_hash k \<Longrightarrow> dirents fs ?tmp = Some i \<Longrightarrow> dirents fs (final_of k) \<noteq> Some i"
    using inj nf unfolding ent_inj_def by blast
  show ?thesis
  proof (cases "w_pc w")
    case W_create
    show ?thesis
    proof (cases "dirents fs ?tmp")
      case (Some i)
      with W_create Inr assms(3) have "fs' = fs\<lparr>inodes := (inodes fs)(i := [])\<rparr>"
        by (auto simp: Let_def)
      with lt inj ok other [OF _ Some] show ?thesis by (auto simp: dir_inv_def)
    next
      case None
      with W_create Inr assms(3) have fs': "fs' = fs\<lparr>dirents := (dirents fs)(?tmp \<mapsto> next_inode fs),
          inodes := (inodes fs)(next_inode fs := []), next_inode := Suc (next_inode fs)\<rparr>"
        by (auto simp: Let_def)
      have "\<And>k. dirents fs (final_of k) \<noteq> Some (next_inode fs)"
        using lt unfolding ent_below_def by blast
      with ok nf have "\<forall>k i. valid_hash k \<longrightarrow> dirents fs' (final_of k) = Some i \<longrightarrow> h (inodes fs' i) = k"
        by (auto simp: fs') metis
      with lt inj show ?thesis by (simp add: dir_inv_def fs' ent_inj_new ent_below_new)
    qed
  next
    case (W_write i off)
    with Inr assms(3) consider "fs' = fs" |
      c where "fs' = fs\<lparr>inodes := (inodes fs)(i := c)\<rparr>"
      by (auto simp: Let_def split: if_splits)
    then show ?thesis
    proof cases
      case 1
      with assms(2) show ?thesis by simp
    next
      case 2
      have "dirents fs ?tmp = Some i" using assms(4) W_write by simp
      with lt inj ok other show ?thesis by (auto simp: 2 dir_inv_def)
    qed
  next
    case W_rename
    with assms(4) obtain i where i: "dirents fs ?tmp = Some i" "inodes fs i = w_bytes w" by auto
    with W_rename Inr assms(3) have fs': "fs' = fs\<lparr>dirents := ((dirents fs)(final_of ?k \<mapsto> i))(?tmp := None)\<rparr>"
      by (auto simp: Let_def)
    have "h (inodes fs' j) = k" if "valid_hash k" "dirents fs' (final_of k) = Some j" for k j
      using that ok [of k j] i nf [of k] by (auto simp: fs' final_of_inj split: if_splits)
    with lt inj i(1) show ?thesis by (simp add: dir_inv_def fs' ent_inj_move ent_below_move)
  qed (use assms Inr in \<open>auto simp: Let_def split: if_splits\<close>)
qed

lemma w_file_frame:
  assumes "w_file fs tmp b pc" and "dirents fs' tmp = dirents fs tmp"
    and "\<And>i. dirents fs tmp = Some i \<Longrightarrow> inodes fs' i = inodes fs i"
  shows "w_file fs' tmp b pc"
  using assms by (cases pc) auto

lemma w_file_inactive: "\<not> w_active pc \<Longrightarrow> w_file fs tmp b pc"
  by (cases pc) auto

lemma runs_inv_step:
  assumes "hex_hash h" and inv: "runs_inv h pid fs ws" and w: "ws t = Some w"
    and step: "writer_step h pid choice w fs = (w', fs')"
  shows "runs_inv h pid fs' (ws(t \<mapsto> w'))"
proof -
  have d: "dir_inv h fs" and f: "\<And>u v. ws u = Some v \<Longrightarrow> w_file fs (tmp_path pid (h (w_bytes v))) (w_bytes v) (w_pc v)"
    and a: "\<And>t u w v. ws t = Some w \<Longrightarrow> ws u = Some v \<Longrightarrow> w_active (w_pc w) \<Longrightarrow> w_active (w_pc v) \<Longrightarrow>
        t \<noteq> u \<Longrightarrow> take 16 (h (w_bytes w)) \<noteq> take 16 (h (w_bytes v))"
    using inv unfolding runs_inv_def by blast+
  have v: "\<And>b. valid_hash (h b)" using assms(1) by (simp add: hex_hash_def)
  have "w_file fs' (tmp_path pid (h (w_bytes v))) (w_bytes v) (w_pc v)" if u: "ws u = Some v" "u \<noteq> t" for u v
  proof (cases "w_active (w_pc v) \<and> w_active (w_pc w)")
    case True
    with a [OF u(1) w] u(2) have ne: "tmp_path pid (h (w_bytes v)) \<noteq> tmp_path pid (h (w_bytes w))"
      using tmp_path_inj [OF v v] by blast
    show ?thesis
      by (rule w_file_frame [OF f [OF u(1)]])
        (use writer_step_frame [OF step f [OF w] d ne] tmp_not_final_of [OF v] in auto)
  next
    case False
    show ?thesis
    proof (cases "w_active (w_pc v)")
      case True
      with False have "\<not> w_active (w_pc w)" by simp
      then obtain r where "w_pc w = W_done r" by (cases "w_pc w") auto
      with step have "fs' = fs" by (cases choice) (auto simp: Let_def)
      with f [OF u(1)] show ?thesis by simp
    qed (simp add: w_file_inactive)
  qed
  moreover have "w_file fs' (tmp_path pid (h (w_bytes w'))) (w_bytes w') (w_pc w')"
    using writer_step_file [OF step f [OF w]] writer_step_kept(1) [OF step] by simp
  moreover have "dir_inv h fs'" by (rule writer_step_dir [OF assms(1) d step f [OF w]])
  moreover have "take 16 (h (w_bytes w')) \<noteq> take 16 (h (w_bytes v))"
    if "ws u = Some v" "u \<noteq> t" "w_active (w_pc w')" "w_active (w_pc v)" for u v
    using a [OF w that(1)] that writer_step_kept [OF step] by auto
  ultimately show ?thesis
    using a unfolding runs_inv_def by (auto split: if_splits) metis+
qed

lemma blob_runs_inv:
  assumes "hex_hash h" and "blob_runs h pid (no_clash h) fs ws"
  shows "runs_inv h pid fs ws"
  using assms(2)
proof (induction rule: blob_runs.induct)
  case empty
  show ?case by (simp add: runs_inv_def dir_inv_def ent_inj_def ent_below_def)
next
  case (spawn fs ws t b)
  then show ?case unfolding runs_inv_def no_clash_def by (auto split: if_splits) metis+
next
  case (step fs ws t w choice w' fs')
  then show ?case by (blast intro: runs_inv_step [OF assms(1)])
qed

text \<open>C21: as long as no two writers with the same first sixteen digits are in flight, every file a
  reader can see under a hash is complete at every moment, under all interleavings, partial
  writes and errors.\<close>

theorem concurrent_writers_complete:
  assumes "hex_hash hash_hex" and "blob_runs hash_hex pid (no_clash hash_hex) fs ws"
    and "visible fs k = Some b"
  shows "hash_hex b = k"
  using blob_runs_inv [OF assms(1,2)] assms(3)
  by (auto simp: runs_inv_def dir_inv_def visible_def split: if_splits)

text \<open>A schedule: which thread makes its next call, and how that call turns out.\<close>

fun run_schedule :: "(bytes \<Rightarrow> string) \<Rightarrow> string \<Rightarrow> (nat \<times> (string + nat)) list \<Rightarrow>
    wfs \<times> (nat \<rightharpoonup> writer) \<Rightarrow> wfs \<times> (nat \<rightharpoonup> writer)" where
  "run_schedule h pid [] st = st"
| "run_schedule h pid ((t, c) # cs) (fs, ws) =
     (case ws t of
        None \<Rightarrow> run_schedule h pid cs (fs, ws)
      | Some w \<Rightarrow> (let (w', fs') = writer_step h pid c w fs in
                   run_schedule h pid cs (fs', ws(t \<mapsto> w'))))"

lemma run_schedule_runs:
  "blob_runs h pid allowed fs ws \<Longrightarrow> run_schedule h pid cs (fs, ws) = (fs', ws') \<Longrightarrow>
     blob_runs h pid allowed fs' ws'"
proof (induction cs arbitrary: fs ws)
  case (Cons tc cs)
  obtain t c where tc: "tc = (t, c)" by (metis prod.exhaust)
  show ?case
  proof (cases "ws t")
    case None
    with Cons tc show ?thesis by simp
  next
    case (Some w)
    obtain w' fs1 where st: "writer_step h pid c w fs = (w', fs1)" by (metis prod.exhaust)
    from Cons.prems(2) have "run_schedule h pid cs (fs1, ws(t \<mapsto> w')) = (fs', ws')"
      by (simp add: tc Some st)
    with Cons.IH blob_runs.step [OF Cons.prems(1) Some st] show ?thesis by blast
  qed
qed simp

theorem concurrent_writers_complete_witness:
  "\<exists>fs ws. blob_runs sample_hash ''7'' (no_clash sample_hash) fs ws \<and>
     visible fs (sample_hash ''ab'') = Some ''ab'' \<and> sample_hash ''ab'' = sample_hash ''ab''"
proof -
  let ?k = "sample_hash ''ab''"
  let ?fs0 = "\<lparr>dirents = Map.empty, inodes = (\<lambda>_. []), next_inode = 0\<rparr>"
  let ?ws0 = "[0 \<mapsto> \<lparr>w_bytes = ''ab'', w_pc = W_check\<rparr>]"
  let ?cs = "[(0, Inr 0), (0, Inr 0), (0, Inr 0), (0, Inr 0), (0, Inr 9), (0, Inr 0), (0, Inr 0), (0, Inr 0)]"
  have v: "valid_hash ?k" using sample_hash_hex by (simp add: hex_hash_def)
  have start: "blob_runs sample_hash ''7'' (no_clash sample_hash) ?fs0 ?ws0"
    by (rule blob_runs.spawn [OF blob_runs.empty]) (simp_all add: no_clash_def)
  obtain fs ws where r: "run_schedule sample_hash ''7'' ?cs (?fs0, ?ws0) = (fs, ws)"
    by (metis prod.exhaust)
  have vis: "visible fs ?k = Some ''ab''"
    using r v tmp_not_final_of [OF v, of "''7''" ?k] by (auto simp: Let_def visible_def pwrite_def)
  note runs = run_schedule_runs [OF start r]
  from concurrent_writers_complete [OF sample_hash_hex runs vis] runs vis show ?thesis by blast
qed

text \<open>C22: two threads writing the same bytes share the temporary file name (it is built from the process id and
  the hash alone). For every hash function, process id and non-empty content there is a schedule of just two such
  writers, on an empty store and with no call failing, after which one of them has returned its hash as written
  and synced while a reader finds an empty file under that hash, against the module's claim that a reader sees no
  file or a complete one.\<close>

theorem same_content_race:
  assumes "hex_hash hash_hex" and "b \<noteq> []"
  shows "\<exists>cs fs ws.
    run_schedule hash_hex pid cs
      (\<lparr>dirents = Map.empty, inodes = (\<lambda>_. []), next_inode = 0\<rparr>,
       [0 \<mapsto> \<lparr>w_bytes = b, w_pc = W_check\<rparr>, 1 \<mapsto> \<lparr>w_bytes = b, w_pc = W_check\<rparr>]) = (fs, ws) \<and>
    list_all (\<lambda>(i, c). \<not> isl c) cs \<and>
    map_option w_pc (ws 0) = Some (W_done (Inr (hash_hex b))) \<and>
    visible fs (hash_hex b) = Some []"
proof -
  let ?k = "hash_hex b"
  let ?fs0 = "\<lparr>dirents = Map.empty, inodes = (\<lambda>_. []), next_inode = 0\<rparr>"
  let ?w = "\<lparr>w_bytes = b, w_pc = W_check\<rparr>"
  let ?cs = "[(0, Inr 0), (0, Inr 0), (0, Inr 0), (0, Inr (length b)), (1, Inr 0), (1, Inr 0), (1, Inr 0),
              (0, Inr 0), (0, Inr 0), (0, Inr 0), (0, Inr 0)]"
  have v: "valid_hash ?k" using assms(1) by (simp add: hex_hash_def)
  obtain fs ws where r: "run_schedule hash_hex pid ?cs (?fs0, [0 \<mapsto> ?w, 1 \<mapsto> ?w]) = (fs, ws)"
    by (metis prod.exhaust)
  have "visible fs ?k = Some [] \<and> map_option w_pc (ws 0) = Some (W_done (Inr ?k))"
    using r v assms(2) tmp_not_final_of [OF v, of pid ?k] by (auto simp: Let_def visible_def pwrite_def)
  with r show ?thesis by (intro exI [of _ ?cs] exI [of _ fs] exI [of _ ws]) simp
qed

theorem same_content_race_witness:
  "\<exists>cs fs ws.
    run_schedule sample_hash ''7'' cs
      (\<lparr>dirents = Map.empty, inodes = (\<lambda>_. []), next_inode = 0\<rparr>,
       [0 \<mapsto> \<lparr>w_bytes = ''ab'', w_pc = W_check\<rparr>, 1 \<mapsto> \<lparr>w_bytes = ''ab'', w_pc = W_check\<rparr>]) = (fs, ws) \<and>
    map_option w_pc (ws 0) = Some (W_done (Inr (sample_hash ''ab''))) \<and>
    visible fs (sample_hash ''ab'') = Some [] \<and> sample_hash [] \<noteq> sample_hash ''ab''"
proof -
  have "sample_hash [] \<noteq> sample_hash ''ab''" by (simp add: sample_hash_def numeral_eq_Suc)
  with same_content_race [OF sample_hash_hex, of "''ab''" "''7''"] show ?thesis by blast
qed

end
