(* ===== verification/Metadata_Store.thy ===== *)
theory Metadata_Store
  imports Rust_Str
begin

text \<open>
  The SQLite metadata of the \<open>store\<close> crate: blob reference counts (\<open>metadata.rs\<close>), mailboxes, messages,
  uploads and contacts. Each method is the statements it runs, in order, with \<open>op_bind\<close> for \<open>?\<close>; every
  statement may fail (see \<open>db_stmt\<close>). Rows with equal sort keys keep their insertion order.

  \<open>LIKE\<close> is SQLite's matcher: \<open>%\<close> is any sequence of characters, \<open>_\<close> any one character, ASCII letters
  compare without case.
\<close>

section \<open>Rows and tables\<close>

record mailbox =
  mb_id :: int
  mb_account_id :: int
  mb_role :: string
  mb_name :: string

record thread_row =
  th_id :: int
  th_account_id :: int

record new_message =
  account_id :: int
  mailbox_id :: int
  thread_id :: int
  blob_hash :: string
  dek_wrap :: bytes
  mail_from :: string
  rcpt_to :: string
  remote_ip :: string
  size_bytes :: int
  spf_result :: string
  dkim_result :: string
  dmarc_result :: string
  received_at :: int
  msg_keywords :: string
  message_id_header :: "string option"
  in_reply_to :: "string option"
  references_header :: "string option"
  subject_hash :: "string option"
  spam_score :: "real option"
  av_clean :: "bool option"

record stored_message = new_message +
  msg_id :: int

record new_upload =
  up_account_id :: int
  up_blob_hash :: string
  up_dek_wrap :: bytes
  up_key_id :: "16 word"
  up_filename :: string
  up_content_type :: string
  up_size_bytes :: int
  up_created_at :: int

record stored_upload = new_upload +
  up_id :: int

record stored_contact =
  ct_id :: int
  ct_account_id :: int
  ct_sealed :: bytes
  ct_created_at :: int
  ct_updated_at :: int

record blob_ref =
  br_hash :: string
  br_count :: int
  br_created_at :: int

record meta_tables =
  blob_refs :: "blob_ref list"
  mailboxes :: "mailbox list"
  threads :: "thread_row list"
  messages :: "stored_message list"
  uploads :: "stored_upload list"
  contacts :: "stored_contact list"

type_synonym meta = "meta_tables db"

definition meta_empty :: meta_tables where
  "meta_empty = \<lparr>blob_refs = [], mailboxes = [], threads = [], messages = [], uploads = [], contacts = []\<rparr>"

interpretation mailbox_tbl: rowid_table mb_id "\<lambda>i r. r\<lparr>mb_id := i\<rparr>"
  by unfold_locales simp

interpretation thread_tbl: rowid_table th_id "\<lambda>i r. r\<lparr>th_id := i\<rparr>"
  by unfold_locales simp

interpretation message_tbl: rowid_table msg_id "\<lambda>i r. r\<lparr>msg_id := i\<rparr>"
  by unfold_locales simp

interpretation upload_tbl: rowid_table up_id "\<lambda>i r. r\<lparr>up_id := i\<rparr>"
  by unfold_locales simp

interpretation contact_tbl: rowid_table ct_id "\<lambda>i r. r\<lparr>ct_id := i\<rparr>"
  by unfold_locales simp

section \<open>Blob reference counts\<close>

definition incref_blob :: "string \<Rightarrow> int \<Rightarrow> meta \<Rightarrow> unit result \<times> meta" where
  "incref_blob hash now = db_stmt (\<lambda>t.
     (Inr (), if \<exists>r \<in> set (blob_refs t). br_hash r = hash
       then t\<lparr>blob_refs := update_where (\<lambda>r. br_hash r = hash) (\<lambda>r. r\<lparr>br_count := br_count r + 1\<rparr>) (blob_refs t)\<rparr>
       else t\<lparr>blob_refs := blob_refs t @ [\<lparr>br_hash = hash, br_count = 1, br_created_at = now\<rparr>]\<rparr>))"

definition find_ref :: "string \<Rightarrow> meta_tables \<Rightarrow> blob_ref option" where
  "find_ref hash t = find (\<lambda>r. br_hash r = hash) (blob_refs t)"

definition decref_blob :: "string \<Rightarrow> meta \<Rightarrow> int result \<times> meta" where
  "decref_blob hash =
     op_bind (db_stmt (\<lambda>t. (Inr (),
       t\<lparr>blob_refs := update_where (\<lambda>r. br_hash r = hash) (\<lambda>r. r\<lparr>br_count := br_count r - 1\<rparr>) (blob_refs t)\<rparr>)))
     (\<lambda>_. db_stmt (\<lambda>t. (case find_ref hash t of
        None \<Rightarrow> Inl (Storage ''Query returned no rows'')
      | Some r \<Rightarrow> Inr (br_count r), t)))"

definition ref_count :: "string \<Rightarrow> meta \<Rightarrow> int option result \<times> meta" where
  "ref_count hash = db_query (\<lambda>t. map_option br_count (find_ref hash t))"

section \<open>Mailboxes\<close>

definition SYSTEM_ROLES :: "(string \<times> string) list" where
  "SYSTEM_ROLES = [(''inbox'', ''Inbox''), (''archive'', ''Archive''), (''trash'', ''Trash''),
                   (''sent'', ''Sent''), (''drafts'', ''Drafts''), (''junk'', ''Junk'')]"

definition mailbox_or_ignore :: "int \<Rightarrow> string \<Rightarrow> string \<Rightarrow> mailbox list \<Rightarrow> mailbox list" where
  "mailbox_or_ignore a role name rows =
     (if \<exists>m \<in> set rows. mb_account_id m = a \<and> mb_role m = role then rows
      else snd (tbl_insert mb_id (\<lambda>i r. r\<lparr>mb_id := i\<rparr>)
                  \<lparr>mb_id = 0, mb_account_id = a, mb_role = role, mb_name = name\<rparr> rows))"

fun insert_roles :: "int \<Rightarrow> (string \<times> string) list \<Rightarrow> meta \<Rightarrow> unit result \<times> meta" where
  "insert_roles a [] d = (Inr (), d)"
| "insert_roles a ((role, name) # rs) d =
     op_bind (db_stmt (\<lambda>t. (Inr (), t\<lparr>mailboxes := mailbox_or_ignore a role name (mailboxes t)\<rparr>)))
       (\<lambda>_. insert_roles a rs) d"

definition get_mailbox_by_role :: "int \<Rightarrow> string \<Rightarrow> meta \<Rightarrow> mailbox option result \<times> meta" where
  "get_mailbox_by_role a role =
     db_query (\<lambda>t. find (\<lambda>m. mb_account_id m = a \<and> mb_role m = role) (mailboxes t))"

definition ensure_mailbox :: "int \<Rightarrow> string \<Rightarrow> meta \<Rightarrow> mailbox result \<times> meta" where
  "ensure_mailbox a role =
     op_bind (insert_roles a SYSTEM_ROLES) (\<lambda>_.
     op_bind (get_mailbox_by_role a role) (\<lambda>m d.
       (case m of Some mb \<Rightarrow> Inr mb | None \<Rightarrow> Inl (Storage (''no such mailbox role: '' @ role)), d)))"

definition get_mailbox :: "int \<Rightarrow> meta \<Rightarrow> mailbox option result \<times> meta" where
  "get_mailbox i = db_query (\<lambda>t. tbl_get mb_id i (mailboxes t))"

definition mailboxes_for_account :: "int \<Rightarrow> meta \<Rightarrow> mailbox list result \<times> meta" where
  "mailboxes_for_account a =
     op_bind (ensure_mailbox a ''inbox'') (\<lambda>_.
       db_query (\<lambda>t. sort_key mb_id (filter (\<lambda>m. mb_account_id m = a) (mailboxes t))))"

section \<open>Messages\<close>

definition KEYWORD_JUNK :: string where "KEYWORD_JUNK = ''$junk''"

definition KEYWORD_DRAFT :: string where "KEYWORD_DRAFT = ''$draft''"

definition insert_message :: "new_message \<Rightarrow> meta \<Rightarrow> int result \<times> meta" where
  "insert_message msg = db_stmt (\<lambda>t.
     (let (i, rows) = tbl_insert msg_id (\<lambda>i r. r\<lparr>msg_id := i\<rparr>)
                        (new_message.extend msg \<lparr>msg_id = 0\<rparr>) (messages t)
      in (Inr i, t\<lparr>messages := rows\<rparr>)))"

definition get_message :: "int \<Rightarrow> meta \<Rightarrow> stored_message option result \<times> meta" where
  "get_message i = db_query (\<lambda>t. tbl_get msg_id i (messages t))"

definition get_messages :: "int list \<Rightarrow> meta \<Rightarrow> stored_message list result \<times> meta" where
  "get_messages ids d =
     (if ids = [] then (Inr [], d)
      else db_query (\<lambda>t. filter (\<lambda>m. msg_id m \<in> set ids) (messages t)) d)"

definition newest_first :: "(stored_message \<Rightarrow> bool) \<Rightarrow> meta_tables \<Rightarrow> stored_message list" where
  "newest_first p t = sort_key (\<lambda>m. - received_at m) (filter p (messages t))"

definition messages_for_account :: "int \<Rightarrow> meta \<Rightarrow> stored_message list result \<times> meta" where
  "messages_for_account a = db_query (newest_first (\<lambda>m. account_id m = a))"

definition messages_in_mailbox :: "int \<Rightarrow> int \<Rightarrow> meta \<Rightarrow> stored_message list result \<times> meta" where
  "messages_in_mailbox a mb = db_query (newest_first (\<lambda>m. account_id m = a \<and> mailbox_id m = mb))"

definition like_eq :: "bytes \<Rightarrow> bytes \<Rightarrow> bool" where
  "like_eq p x \<longleftrightarrow> p = x \<or>
     (case (p, x) of
        ([c], [d]) \<Rightarrow> (of_char c :: nat) < 128 \<and> (of_char d :: nat) < 128 \<and> ascii_lower c = ascii_lower d
      | _ \<Rightarrow> False)"

fun like_match :: "bytes list \<Rightarrow> bytes list \<Rightarrow> bool" where
  "like_match [] s = (s = [])"
| "like_match (p # ps) [] = (p = ''%'' \<and> like_match ps [])"
| "like_match (p # ps) (x # xs) =
     (if p = ''%'' then like_match ps (x # xs) \<or> like_match (p # ps) xs
      else (p = ''_'' \<or> like_eq p x) \<and> like_match ps xs)"

definition sql_like :: "string \<Rightarrow> string \<Rightarrow> bool" where
  "sql_like s pat = like_match (utf8_chars pat) (utf8_chars s)"

definition has_keyword :: "string \<Rightarrow> stored_message \<Rightarrow> bool" where
  "has_keyword keyword m = sql_like ('','' @ msg_keywords m @ '','') (''%,'' @ keyword @ '',%'')"

definition messages_with_keyword :: "int \<Rightarrow> string \<Rightarrow> meta \<Rightarrow> stored_message list result \<times> meta" where
  "messages_with_keyword a keyword =
     db_query (newest_first (\<lambda>m. account_id m = a \<and> has_keyword keyword m))"

definition messages_without_keyword :: "int \<Rightarrow> string \<Rightarrow> meta \<Rightarrow> stored_message list result \<times> meta" where
  "messages_without_keyword a keyword =
     db_query (newest_first (\<lambda>m. account_id m = a \<and> \<not> has_keyword keyword m))"

definition messages_in_thread :: "int \<Rightarrow> int \<Rightarrow> meta \<Rightarrow> stored_message list result \<times> meta" where
  "messages_in_thread a th =
     db_query (\<lambda>t. sort_key received_at (filter (\<lambda>m. account_id m = a \<and> thread_id m = th) (messages t)))"

definition set_message :: "int \<Rightarrow> (stored_message \<Rightarrow> stored_message) \<Rightarrow> meta \<Rightarrow> unit result \<times> meta" where
  "set_message i f = db_stmt (\<lambda>t. (Inr (), t\<lparr>messages := update_where (\<lambda>m. msg_id m = i) f (messages t)\<rparr>))"

definition update_message :: "int \<Rightarrow> int option \<Rightarrow> string option \<Rightarrow> meta \<Rightarrow> unit result \<times> meta" where
  "update_message i mb kw =
     op_bind (case mb of
        None \<Rightarrow> (\<lambda>d. (Inr (), d))
      | Some b \<Rightarrow> set_message i (\<lambda>m. m\<lparr>mailbox_id := b\<rparr>))
     (\<lambda>_. case kw of
        None \<Rightarrow> (\<lambda>d. (Inr (), d))
      | Some k \<Rightarrow> set_message i (\<lambda>m. m\<lparr>msg_keywords := k\<rparr>))"

definition delete_message :: "int \<Rightarrow> meta \<Rightarrow> unit result \<times> meta" where
  "delete_message i = db_stmt (\<lambda>t. (Inr (), t\<lparr>messages := filter (\<lambda>m. msg_id m \<noteq> i) (messages t)\<rparr>))"

section \<open>Uploads and contacts\<close>

definition insert_upload :: "new_upload \<Rightarrow> meta \<Rightarrow> int result \<times> meta" where
  "insert_upload up = db_stmt (\<lambda>t.
     (let (i, rows) = tbl_insert up_id (\<lambda>i r. r\<lparr>up_id := i\<rparr>)
                        (new_upload.extend up \<lparr>up_id = 0\<rparr>) (uploads t)
      in (Inr i, t\<lparr>uploads := rows\<rparr>)))"

definition get_upload :: "int \<Rightarrow> meta \<Rightarrow> stored_upload option result \<times> meta" where
  "get_upload i = db_query (\<lambda>t. tbl_get up_id i (uploads t))"

definition insert_contact :: "int \<Rightarrow> bytes \<Rightarrow> int \<Rightarrow> meta \<Rightarrow> int result \<times> meta" where
  "insert_contact a sealed now = db_stmt (\<lambda>t.
     (let (i, rows) = tbl_insert ct_id (\<lambda>i r. r\<lparr>ct_id := i\<rparr>)
            \<lparr>ct_id = 0, ct_account_id = a, ct_sealed = sealed, ct_created_at = now, ct_updated_at = now\<rparr>
            (contacts t)
      in (Inr i, t\<lparr>contacts := rows\<rparr>)))"

definition get_contact :: "int \<Rightarrow> meta \<Rightarrow> stored_contact option result \<times> meta" where
  "get_contact i = db_query (\<lambda>t. tbl_get ct_id i (contacts t))"

definition contacts_for_account :: "int \<Rightarrow> meta \<Rightarrow> stored_contact list result \<times> meta" where
  "contacts_for_account a =
     db_query (\<lambda>t. sort_key ct_id (filter (\<lambda>c. ct_account_id c = a) (contacts t)))"

definition update_contact :: "int \<Rightarrow> bytes \<Rightarrow> int \<Rightarrow> meta \<Rightarrow> unit result \<times> meta" where
  "update_contact i sealed now = db_stmt (\<lambda>t. (Inr (),
     t\<lparr>contacts := update_where (\<lambda>c. ct_id c = i)
         (\<lambda>c. c\<lparr>ct_sealed := sealed, ct_updated_at := now\<rparr>) (contacts t)\<rparr>))"

definition delete_contact :: "int \<Rightarrow> meta \<Rightarrow> unit result \<times> meta" where
  "delete_contact i = db_stmt (\<lambda>t. (Inr (), t\<lparr>contacts := filter (\<lambda>c. ct_id c \<noteq> i) (contacts t)\<rparr>))"

section \<open>Invariant\<close>

definition mailboxes_ok :: "mailbox list \<Rightarrow> bool" where
  "mailboxes_ok rows \<longleftrightarrow>
     distinct (map mb_id rows) \<and> distinct (map (\<lambda>m. (mb_account_id m, mb_role m)) rows)"

text \<open>Primary keys are unique in every table, and so are account and role of the mailboxes.\<close>

definition meta_ok :: "meta_tables \<Rightarrow> bool" where
  "meta_ok t \<longleftrightarrow>
     mailboxes_ok (mailboxes t) \<and> distinct (map th_id (threads t)) \<and> distinct (map msg_id (messages t)) \<and>
     distinct (map up_id (uploads t)) \<and> distinct (map ct_id (contacts t))"

lemma mailbox_or_ignore_ok:
  assumes "mailboxes_ok rows"
  shows "mailboxes_ok (mailbox_or_ignore a role name rows)"
proof (cases "\<exists>m \<in> set rows. mb_account_id m = a \<and> mb_role m = role")
  case True
  with assms show ?thesis by (simp add: mailbox_or_ignore_def)
next
  case False
  let ?r = "\<lparr>mb_id = 0, mb_account_id = a, mb_role = role, mb_name = name\<rparr>"
  have "distinct (map mb_id (snd (tbl_insert mb_id (\<lambda>i r. r\<lparr>mb_id := i\<rparr>) ?r rows)))"
    using assms by (intro mailbox_tbl.insert_distinct) (simp add: mailboxes_ok_def)
  with False assms show ?thesis
    by (auto simp: mailbox_or_ignore_def mailboxes_ok_def tbl_insert_def Let_def)
qed

lemma mailbox_or_ignore_mono: "set rows \<subseteq> set (mailbox_or_ignore a role name rows)"
  by (auto simp: mailbox_or_ignore_def tbl_insert_def Let_def)

lemma mailbox_or_ignore_has:
  "\<exists>m \<in> set (mailbox_or_ignore a role name rows). mb_account_id m = a \<and> mb_role m = role"
  by (auto simp: mailbox_or_ignore_def tbl_insert_def Let_def)

lemma mailbox_or_ignore_other:
  "m \<in> set (mailbox_or_ignore a role name rows) \<Longrightarrow> mb_account_id m \<noteq> a \<Longrightarrow> m \<in> set rows"
  by (auto simp: mailbox_or_ignore_def tbl_insert_def Let_def split: if_splits)

text \<open>What the loop over the roles leaves, whether or not it gets to its end.\<close>

definition mailboxes_grow :: "int \<Rightarrow> meta_tables \<Rightarrow> meta_tables \<Rightarrow> bool" where
  "mailboxes_grow a t t' \<longleftrightarrow>
     (\<exists>rows. t' = t\<lparr>mailboxes := rows\<rparr> \<and> (mailboxes_ok (mailboxes t) \<longrightarrow> mailboxes_ok rows) \<and>
        set (mailboxes t) \<subseteq> set rows \<and>
        (\<forall>m \<in> set rows. mb_account_id m \<noteq> a \<longrightarrow> m \<in> set (mailboxes t)))"

lemma mailboxes_grow_refl [simp]: "mailboxes_grow a t t"
  by (auto simp: mailboxes_grow_def intro: exI [of _ "mailboxes t"])

lemma mailboxes_grow_trans:
  assumes "mailboxes_grow a t u" and "mailboxes_grow a u v"
  shows "mailboxes_grow a t v"
proof -
  from assms obtain rows rows' where
    1: "u = t\<lparr>mailboxes := rows\<rparr>" "mailboxes_ok (mailboxes t) \<longrightarrow> mailboxes_ok rows"
      "set (mailboxes t) \<subseteq> set rows"
      "\<forall>m \<in> set rows. mb_account_id m \<noteq> a \<longrightarrow> m \<in> set (mailboxes t)" and
    2: "v = u\<lparr>mailboxes := rows'\<rparr>" "mailboxes_ok (mailboxes u) \<longrightarrow> mailboxes_ok rows'"
      "set (mailboxes u) \<subseteq> set rows'"
      "\<forall>m \<in> set rows'. mb_account_id m \<noteq> a \<longrightarrow> m \<in> set (mailboxes u)"
    unfolding mailboxes_grow_def by blast
  then show ?thesis unfolding mailboxes_grow_def by (intro exI [of _ rows']) auto
qed

lemma mailbox_or_ignore_grow:
  "mailboxes_grow a t (t\<lparr>mailboxes := mailbox_or_ignore a role name (mailboxes t)\<rparr>)"
  unfolding mailboxes_grow_def
  by (intro exI [of _ "mailbox_or_ignore a role name (mailboxes t)"])
    (simp add: mailbox_or_ignore_ok mailbox_or_ignore_mono mailbox_or_ignore_other)

lemma insert_roles_grow:
  "insert_roles a rs d = (r, d') \<Longrightarrow> mailboxes_grow a (tables d) (tables d') \<and>
     (r = Inr () \<longrightarrow> (\<forall>role \<in> fst ` set rs. \<exists>m \<in> set (mailboxes (tables d')).
        mb_account_id m = a \<and> mb_role m = role))"
proof (induction rs arbitrary: d)
  case (Cons rn rs)
  obtain role name where rn: "rn = (role, name)" by (cases rn)
  define f :: "meta_tables \<Rightarrow> unit result \<times> meta_tables" where
    "f = (\<lambda>t. (Inr (), t\<lparr>mailboxes := mailbox_or_ignore a role name (mailboxes t)\<rparr>))"
  have run: "op_bind (db_stmt f) (\<lambda>_. insert_roles a rs) d = (r, d')"
    using Cons.prems unfolding rn f_def by simp
  obtain r1 d1 where st: "db_stmt f d = (r1, d1)" by (cases "db_stmt f d")
  then show ?case
  proof (cases rule: db_stmt_cases)
    case (failed msg)
    with run st show ?thesis by (simp add: op_bind_def) (metis mailboxes_grow_refl Inl_Inr_False)
  next
    case ran
    then have r1: "r1 = Inr ()" and
      t1: "tables d1 = (tables d)\<lparr>mailboxes := mailbox_or_ignore a role name (mailboxes (tables d))\<rparr>"
      by (simp_all add: f_def)
    have "insert_roles a rs d1 = (r, d')" using run st r1 by (simp add: op_bind_def)
    note ih = Cons.IH [OF this]
    have g: "mailboxes_grow a (tables d) (tables d1)" unfolding t1 by (rule mailbox_or_ignore_grow)
    have "\<exists>m \<in> set (mailboxes (tables d1)). mb_account_id m = a \<and> mb_role m = role"
      unfolding t1 using mailbox_or_ignore_has by simp
    moreover have "set (mailboxes (tables d1)) \<subseteq> set (mailboxes (tables d'))"
      using ih unfolding mailboxes_grow_def by auto
    ultimately have "\<exists>m \<in> set (mailboxes (tables d')). mb_account_id m = a \<and> mb_role m = role" by blast
    with ih mailboxes_grow_trans [OF g] show ?thesis by (simp add: rn)
  qed
qed simp

lemma insert_roles_no_faults:
  "faults d = [] \<Longrightarrow> \<exists>d'. insert_roles a rs d = (Inr (), d') \<and> faults d' = []"
  by (induction a rs d rule: insert_roles.induct) (auto simp: op_bind_def)

lemma ensure_mailbox_effect:
  assumes "ensure_mailbox a role d = (r, d')"
  shows "mailboxes_grow a (tables d) (tables d')"
    and "r = Inr m \<Longrightarrow> m \<in> set (mailboxes (tables d')) \<and> mb_account_id m = a \<and> mb_role m = role"
    and "r = Inr m \<Longrightarrow> role' \<in> fst ` set SYSTEM_ROLES \<Longrightarrow>
      \<exists>m' \<in> set (mailboxes (tables d')). mb_account_id m' = a \<and> mb_role m' = role'"
proof -
  obtain r1 d1 where 1: "insert_roles a SYSTEM_ROLES d = (r1, d1)" by (metis prod.exhaust)
  note g = insert_roles_grow [OF 1]
  obtain r2 d2 where 2: "get_mailbox_by_role a role d1 = (r2, d2)" by (metis prod.exhaust)
  have t2: "tables d2 = tables d1" using 2 db_query_tables by (auto simp: get_mailbox_by_role_def)
  have f: "r2 = Inr x \<Longrightarrow> x = find (\<lambda>m. mb_account_id m = a \<and> mb_role m = role) (mailboxes (tables d1))" for x
    using 2 db_query_Inr by (fastforce simp: get_mailbox_by_role_def)
  show "mailboxes_grow a (tables d) (tables d')"
    using assms 1 2 g t2 by (auto simp: ensure_mailbox_def op_bind_def split: sum.splits option.splits)
  show "r = Inr m \<Longrightarrow> m \<in> set (mailboxes (tables d')) \<and> mb_account_id m = a \<and> mb_role m = role"
    using assms 1 2 t2 f
    by (auto simp: ensure_mailbox_def op_bind_def find_Some_iff split: sum.splits option.splits)
  show "r = Inr m \<Longrightarrow> role' \<in> fst ` set SYSTEM_ROLES \<Longrightarrow>
      \<exists>m' \<in> set (mailboxes (tables d')). mb_account_id m' = a \<and> mb_role m' = role'"
    using assms 1 2 t2 g
    by (fastforce simp: ensure_mailbox_def op_bind_def split: sum.splits option.splits)
qed

lemma ensure_mailbox_no_faults:
  assumes "faults d = []" and "role \<in> fst ` set SYSTEM_ROLES"
  shows "\<exists>m d'. ensure_mailbox a role d = (Inr m, d') \<and> faults d' = []"
proof -
  obtain d1 where 1: "insert_roles a SYSTEM_ROLES d = (Inr (), d1)" "faults d1 = []"
    using insert_roles_no_faults [OF assms(1)] by blast
  have "\<exists>m \<in> set (mailboxes (tables d1)). mb_account_id m = a \<and> mb_role m = role"
    using insert_roles_grow [OF 1(1)] assms(2) by blast
  then obtain m where "find (\<lambda>m. mb_account_id m = a \<and> mb_role m = role) (mailboxes (tables d1)) = Some m"
    by (cases "find (\<lambda>m. mb_account_id m = a \<and> mb_role m = role) (mailboxes (tables d1))")
      (auto simp: find_None_iff)
  with 1 show ?thesis by (simp add: ensure_mailbox_def op_bind_def get_mailbox_by_role_def)
qed

lemma mailboxes_grow_ok: "mailboxes_grow a t t' \<Longrightarrow> meta_ok t \<Longrightarrow> meta_ok t'"
  by (auto simp: mailboxes_grow_def meta_ok_def)

section \<open>Messages: what an insert, an update and a delete do\<close>

lemma insert_message_effect:
  assumes "insert_message msg d = (Inr i, d')"
  shows "tables d' = (tables d)\<lparr>messages := messages (tables d) @ [new_message.extend msg \<lparr>msg_id = i\<rparr>]\<rparr>"
    and "i \<notin> msg_id ` set (messages (tables d))"
    and "tbl_get msg_id i (messages (tables d')) = Some (new_message.extend msg \<lparr>msg_id = i\<rparr>)"
proof -
  let ?r = "new_message.extend msg \<lparr>msg_id = 0\<rparr>" let ?ins = "tbl_insert msg_id (\<lambda>i r. r\<lparr>msg_id := i\<rparr>) ?r (messages (tables d))"
  have i: "i = fst ?ins" and t: "tables d' = (tables d)\<lparr>messages := snd ?ins\<rparr>"
    using assms by (auto simp: insert_message_def split: prod.splits elim!: db_stmt_cases)
  have ext: "?r\<lparr>msg_id := i\<rparr> = new_message.extend msg \<lparr>msg_id = i\<rparr>"
    by (simp add: new_message.extend_def)
  have "snd ?ins = messages (tables d) @ [?r\<lparr>msg_id := i\<rparr>]"
    unfolding i by (simp add: tbl_insert_def Let_def)
  with t ext show "tables d' = (tables d)\<lparr>messages := messages (tables d) @ [new_message.extend msg \<lparr>msg_id = i\<rparr>]\<rparr>"
    by simp
  show "i \<notin> msg_id ` set (messages (tables d))"
  proof
    assume "i \<in> msg_id ` set (messages (tables d))"
    then obtain x where x: "i = msg_id x" "x \<in> set (messages (tables d))" by (rule imageE)
    from message_tbl.insert_fresh [OF x(2)] show False unfolding x(1) [symmetric] i by (rule notE) (rule refl)
  qed
  show "tbl_get msg_id i (messages (tables d')) = Some (new_message.extend msg \<lparr>msg_id = i\<rparr>)"
    using message_tbl.get_inserted [of ?r "messages (tables d)"] t i ext by simp
qed

lemma insert_message_fails: "insert_message msg d = (Inl e, d') \<Longrightarrow> tables d' = tables d"
  by (auto simp: insert_message_def split: prod.splits elim!: db_stmt_cases)

lemma insert_message_ok:
  assumes "insert_message msg d = (r, d')" and "meta_ok (tables d)"
  shows "meta_ok (tables d')"
proof (cases r)
  case (Inl e)
  with insert_message_fails [of msg d e d'] assms show ?thesis by simp
next
  case (Inr i)
  with assms(1) have "insert_message msg d = (Inr i, d')" by simp
  note e = insert_message_effect [OF this]
  have "msg_id (new_message.extend msg \<lparr>msg_id = i\<rparr>) = i" by (simp add: new_message.extend_def)
  with e assms(2) show ?thesis by (auto simp: meta_ok_def)
qed

lemma set_message_get:
  assumes "set_message i f d = (Inr (), d')" and "\<And>m. msg_id (f m) = msg_id m"
  shows "tbl_get msg_id j (messages (tables d')) =
    map_option (\<lambda>m. if j = i then f m else m) (tbl_get msg_id j (messages (tables d)))"
proof -
  have "messages (tables d') = update_where (\<lambda>m. msg_id m = i) f (messages (tables d))"
    using db_stmt_Inr(2) [OF assms(1) [unfolded set_message_def]] by simp
  then have "tbl_get msg_id j (messages (tables d')) =
      map_option (\<lambda>m. if msg_id m = i then f m else m) (tbl_get msg_id j (messages (tables d)))"
    using find_update_where [of msg_id f j "\<lambda>m. msg_id m = i"] assms(2) by simp
  then show ?thesis
    by (cases "tbl_get msg_id j (messages (tables d))") (auto dest: tbl_get_Some_in)
qed

lemma set_optional_get:
  assumes "(case v of None \<Rightarrow> (\<lambda>d. (Inr (), d)) | Some b \<Rightarrow> set_message i (f b)) d = (Inr (), d')"
    and "\<And>b m. msg_id (f b m) = msg_id m"
  shows "tbl_get msg_id j (messages (tables d')) =
    map_option (\<lambda>m. if j = i then (case v of None \<Rightarrow> m | Some b \<Rightarrow> f b m) else m)
      (tbl_get msg_id j (messages (tables d)))"
proof (cases v)
  case None
  with assms(1) show ?thesis by (cases "tbl_get msg_id j (messages (tables d))") simp_all
next
  case (Some b)
  with assms(1) have "set_message i (f b) d = (Inr (), d')" by simp
  from set_message_get [OF this assms(2), of j] show ?thesis unfolding Some option.case .
qed

lemma update_message_get:
  assumes "update_message i mb kw d = (Inr (), d')"
  shows "tbl_get msg_id j (messages (tables d')) =
    map_option (\<lambda>m. if j = i then m\<lparr>mailbox_id := (case mb of Some b \<Rightarrow> b | None \<Rightarrow> mailbox_id m),
                                   msg_keywords := (case kw of Some k \<Rightarrow> k | None \<Rightarrow> msg_keywords m)\<rparr> else m)
      (tbl_get msg_id j (messages (tables d)))"
proof -
  obtain d1 where
    1: "(case mb of None \<Rightarrow> (\<lambda>d. (Inr (), d)) | Some b \<Rightarrow> set_message i (\<lambda>m. m\<lparr>mailbox_id := b\<rparr>)) d = (Inr (), d1)" and
    2: "(case kw of None \<Rightarrow> (\<lambda>d. (Inr (), d)) | Some k \<Rightarrow> set_message i (\<lambda>m. m\<lparr>msg_keywords := k\<rparr>)) d1 = (Inr (), d')"
    using assms by (auto simp: update_message_def op_bind_Inr)
  show ?thesis
    using set_optional_get [OF 1, of j] set_optional_get [OF 2, of j]
    by (cases "tbl_get msg_id j (messages (tables d))"; cases "j = i")
      (simp_all split: option.splits)
qed

text \<open>a message that was inserted is found under the returned id with exactly the inserted
  fields, under an id no stored message had; messages stored before are found unchanged; an update
  touches only the mailbox and the keywords of that one message; a delete removes that message and no
  other. A failed statement changes nothing.\<close>

theorem message_store_laws:
  "(insert_message msg d = (Inr i, d') \<longrightarrow>
      tbl_get msg_id i (messages (tables d')) = Some (new_message.extend msg \<lparr>msg_id = i\<rparr>) \<and>
      tbl_get msg_id i (messages (tables d)) = None \<and>
      (\<forall>j \<noteq> i. tbl_get msg_id j (messages (tables d')) = tbl_get msg_id j (messages (tables d)))) \<and>
    (insert_message msg d = (Inl e, d') \<longrightarrow> tables d' = tables d) \<and>
    (update_message i mb kw d = (Inr (), d') \<longrightarrow>
      tbl_get msg_id j (messages (tables d')) =
        map_option (\<lambda>m. if j = i then m\<lparr>mailbox_id := (case mb of Some b \<Rightarrow> b | None \<Rightarrow> mailbox_id m),
                                       msg_keywords := (case kw of Some k \<Rightarrow> k | None \<Rightarrow> msg_keywords m)\<rparr> else m)
          (tbl_get msg_id j (messages (tables d)))) \<and>
    (delete_message i d = (Inr (), d') \<longrightarrow>
      tbl_get msg_id j (messages (tables d')) =
        (if j = i then None else tbl_get msg_id j (messages (tables d))))"
proof (intro conjI impI allI)
  assume ins: "insert_message msg d = (Inr i, d')"
  note e = insert_message_effect [OF ins]
  show "tbl_get msg_id i (messages (tables d')) = Some (new_message.extend msg \<lparr>msg_id = i\<rparr>)"
    by (rule e(3))
  show "tbl_get msg_id i (messages (tables d)) = None"
    using e(2) by (auto simp: tbl_get_def find_None_iff)
  fix j assume "j \<noteq> i"
  then show "tbl_get msg_id j (messages (tables d')) = tbl_get msg_id j (messages (tables d))"
    by (simp add: e(1) tbl_get_def find_append new_message.extend_def split: option.splits)
next
  assume "insert_message msg d = (Inl e, d')"
  then show "tables d' = tables d" by (rule insert_message_fails)
next
  assume u: "update_message i mb kw d = (Inr (), d')"
  then show "tbl_get msg_id j (messages (tables d')) =
        map_option (\<lambda>m. if j = i then m\<lparr>mailbox_id := (case mb of Some b \<Rightarrow> b | None \<Rightarrow> mailbox_id m),
                                       msg_keywords := (case kw of Some k \<Rightarrow> k | None \<Rightarrow> msg_keywords m)\<rparr> else m)
          (tbl_get msg_id j (messages (tables d)))"
    by (rule update_message_get)
next
  assume "delete_message i d = (Inr (), d')"
  then have "messages (tables d') = filter (\<lambda>m. msg_id m \<noteq> i) (messages (tables d))"
    using db_stmt_Inr(2) by (fastforce simp: delete_message_def)
  then show "tbl_get msg_id j (messages (tables d')) =
        (if j = i then None else tbl_get msg_id j (messages (tables d)))"
    by (simp add: message_tbl.get_after_delete message_tbl.get_after_delete_other)
qed

definition sample_message :: new_message where
  "sample_message = \<lparr>account_id = 4, mailbox_id = 1, thread_id = 1, blob_hash = ''h'', dek_wrap = ''w'',
     mail_from = ''a@b.c'', rcpt_to = ''d@e.f'', remote_ip = ''192.0.2.1'', size_bytes = 3,
     spf_result = ''pass'', dkim_result = ''pass'', dmarc_result = ''pass'', received_at = 100,
     msg_keywords = [], message_id_header = None, in_reply_to = None, references_header = None,
     subject_hash = None, spam_score = None, av_clean = None\<rparr>"

theorem message_store_laws_witness:
  "\<exists>d'. insert_message sample_message \<lparr>tables = meta_empty, faults = []\<rparr> = (Inr 1, d') \<and>
     tbl_get msg_id 1 (messages (tables d')) = Some (new_message.extend sample_message \<lparr>msg_id = 1\<rparr>)"
proof -
  let ?d = "\<lparr>tables = meta_empty, faults = []\<rparr>"
  obtain d' where i: "insert_message sample_message ?d = (Inr 1, d')"
    by (simp add: insert_message_def meta_empty_def tbl_insert_def)
  with message_store_laws [of sample_message ?d 1 d'] show ?thesis by blast
qed

text \<open>C23: asking for a mailbox by a system role returns the mailbox of that account and role, creating
  the missing ones of the six system roles; it never creates a second mailbox for an account and role,
  never changes or removes an existing mailbox, touches no other account and no other table. Without
  statement failures it always succeeds.\<close>

theorem ensure_mailbox_correct:
  assumes "ensure_mailbox a role d = (r, d')" and "meta_ok (tables d)"
  shows "(r = Inr m \<longrightarrow> m \<in> set (mailboxes (tables d')) \<and> mb_account_id m = a \<and> mb_role m = role \<and>
      (\<forall>role' \<in> fst ` set SYSTEM_ROLES. \<exists>!m'. m' \<in> set (mailboxes (tables d')) \<and>
         mb_account_id m' = a \<and> mb_role m' = role')) \<and>
    set (mailboxes (tables d)) \<subseteq> set (mailboxes (tables d')) \<and>
    (\<forall>m' \<in> set (mailboxes (tables d')). mb_account_id m' \<noteq> a \<longrightarrow> m' \<in> set (mailboxes (tables d))) \<and>
    tables d' = (tables d)\<lparr>mailboxes := mailboxes (tables d')\<rparr> \<and> meta_ok (tables d') \<and>
    (faults d = [] \<longrightarrow> role \<in> fst ` set SYSTEM_ROLES \<longrightarrow> (\<exists>m. r = Inr m))"
proof -
  note e = ensure_mailbox_effect [OF assms(1)]
  have ok: "meta_ok (tables d')" by (rule mailboxes_grow_ok [OF e(1) assms(2)])
  then have dist: "distinct (map (\<lambda>m. (mb_account_id m, mb_role m)) (mailboxes (tables d')))"
    by (simp add: meta_ok_def mailboxes_ok_def)
  have uniq: "x = y" if "x \<in> set (mailboxes (tables d'))" "y \<in> set (mailboxes (tables d'))"
    "mb_account_id x = mb_account_id y" "mb_role x = mb_role y" for x y
    using dist that by (auto simp: distinct_map inj_on_def)
  have "\<exists>!m'. m' \<in> set (mailboxes (tables d')) \<and> mb_account_id m' = a \<and> mb_role m' = role'"
    if "r = Inr m" "role' \<in> fst ` set SYSTEM_ROLES" for role'
    using e(3) [OF that] uniq by (metis (no_types, lifting))
  moreover have "\<exists>m. r = Inr m" if "faults d = []" "role \<in> fst ` set SYSTEM_ROLES"
    using ensure_mailbox_no_faults [OF that, of a] assms(1) by auto
  ultimately show ?thesis
    using e(1,2) ok unfolding mailboxes_grow_def by auto
qed

theorem ensure_mailbox_correct_witness:
  "\<exists>m d'. ensure_mailbox 4 ''junk'' \<lparr>tables = meta_empty, faults = []\<rparr> = (Inr m, d') \<and>
     mb_role m = ''junk'' \<and> mb_account_id m = 4 \<and> meta_ok (tables d')"
proof -
  let ?d = "\<lparr>tables = meta_empty, faults = []\<rparr>"
  obtain r d' where i: "ensure_mailbox 4 ''junk'' ?d = (r, d')" by (metis prod.exhaust)
  have ok: "meta_ok (tables ?d)" by (simp add: meta_ok_def meta_empty_def mailboxes_ok_def)
  have f: "faults ?d = []" and j: "''junk'' \<in> fst ` set SYSTEM_ROLES" by (simp_all add: SYSTEM_ROLES_def)
  note t = ensure_mailbox_correct [OF i ok]
  from t [of undefined] have "faults ?d = [] \<longrightarrow> ''junk'' \<in> fst ` set SYSTEM_ROLES \<longrightarrow> (\<exists>m. r = Inr m)"
    by (elim conjE) assumption
  with f j obtain m where m: "r = Inr m" by (elim impE exE) simp_all
  from t [of m] m have "mb_account_id m = 4 \<and> mb_role m = ''junk'' \<and> meta_ok (tables d')"
    by (elim conjE) (drule mp, assumption, elim conjE, intro conjI)
  with i m show ?thesis by auto
qed

section \<open>Keyword queries\<close>

lemma like_percent: "like_match (''%'' # ps) s \<longleftrightarrow> (\<exists>a b. s = a @ b \<and> like_match ps b)"
proof (induction s)
  case (Cons x xs)
  have "like_match (''%'' # ps) (x # xs) \<longleftrightarrow> like_match ps (x # xs) \<or> (\<exists>a b. xs = a @ b \<and> like_match ps b)"
    using Cons by simp
  also have "\<dots> \<longleftrightarrow> (\<exists>a b. x # xs = a @ b \<and> like_match ps b)"
    by (metis append_Cons append_Nil append_eq_Cons_conv)
  finally show ?case .
qed simp

lemma like_literal:
  assumes "\<forall>p \<in> set ps. p \<noteq> ''%'' \<and> p \<noteq> ''_''"
  shows "like_match (ps @ [''%'']) s \<longleftrightarrow> (\<exists>a b. s = a @ b \<and> list_all2 like_eq ps a)"
  using assms
proof (induction ps arbitrary: s)
  case Nil
  have "like_match [''%''] s" by (induction s) auto
  then show ?case by auto
next
  case (Cons p ps)
  show ?case
  proof (cases s)
    case Nil
    with Cons show ?thesis by auto
  next
    case s: (Cons x xs)
    have "like_match ((p # ps) @ [''%'']) s \<longleftrightarrow> like_eq p x \<and> (\<exists>a b. xs = a @ b \<and> list_all2 like_eq ps a)"
      using s Cons.prems Cons.IH by simp
    also have "\<dots> \<longleftrightarrow> (\<exists>a b. s = a @ b \<and> list_all2 like_eq (p # ps) a)"
    proof
      assume "like_eq p x \<and> (\<exists>a b. xs = a @ b \<and> list_all2 like_eq ps a)"
      then obtain a b where "s = (x # a) @ b" "list_all2 like_eq (p # ps) (x # a)" by (auto simp: s)
      then show "\<exists>a b. s = a @ b \<and> list_all2 like_eq (p # ps) a" by blast
    next
      assume "\<exists>a b. s = a @ b \<and> list_all2 like_eq (p # ps) a"
      then obtain b zs where "xs = zs @ b" "like_eq p x" "list_all2 like_eq ps zs"
        by (auto simp: s list_all2_Cons1)
      then show "like_eq p x \<and> (\<exists>a b. xs = a @ b \<and> list_all2 like_eq ps a)" by blast
    qed
    finally show ?thesis .
  qed
qed

lemma like_contains:
  assumes "\<forall>p \<in> set ps. p \<noteq> ''%'' \<and> p \<noteq> ''_''"
  shows "like_match (''%'' # ps @ [''%'']) s \<longleftrightarrow> (\<exists>a b c. s = a @ b @ c \<and> list_all2 like_eq ps b)"
  unfolding like_percent like_literal [OF assms] by blast

lemma map_append_ex:
  "(\<exists>a b c. map f s = a @ b @ c \<and> P b) \<longleftrightarrow> (\<exists>a b c. s = a @ b @ c \<and> P (map f b))"
proof
  assume "\<exists>a b c. map f s = a @ b @ c \<and> P b"
  then obtain a b c where "map f s = a @ b @ c" and P: "P b" by blast
  then obtain a' r where s: "s = a' @ r" and "map f r = b @ c" by (metis map_eq_append_conv)
  then obtain b' c' where "r = b' @ c'" "b = map f b'" by (metis map_eq_append_conv)
  with s P show "\<exists>a b c. s = a @ b @ c \<and> P (map f b)" by blast
next
  assume "\<exists>a b c. s = a @ b @ c \<and> P (map f b)"
  then obtain a b c where "map f s = map f a @ map f b @ map f c" "P (map f b)" by auto
  then show "\<exists>a b c. map f s = a @ b @ c \<and> P b" by blast
qed

lemma ex_delimited:
  "(\<exists>a b c. s = a @ b @ c \<and> (\<exists>k. b = [x] @ k @ [x] \<and> P k)) \<longleftrightarrow>
     (\<exists>a c k. s = a @ x # k @ x # c \<and> P k)"
proof
  assume "\<exists>a b c. s = a @ b @ c \<and> (\<exists>k. b = [x] @ k @ [x] \<and> P k)"
  then obtain a c k where "s = a @ ([x] @ k @ [x]) @ c" "P k" by blast
  then have "s = a @ x # k @ x # c \<and> P k" by simp
  then show "\<exists>a c k. s = a @ x # k @ x # c \<and> P k" by blast
next
  assume "\<exists>a c k. s = a @ x # k @ x # c \<and> P k"
  then obtain a c k where "s = a @ ([x] @ k @ [x]) @ c" "P k" by auto
  then show "\<exists>a b c. s = a @ b @ c \<and> (\<exists>k. b = [x] @ k @ [x] \<and> P k)" by blast
qed

lemma like_eq_ascii:
  "(of_char c :: nat) < 128 \<Longrightarrow> (of_char d :: nat) < 128 \<Longrightarrow> like_eq [c] [d] \<longleftrightarrow> ascii_lower c = ascii_lower d"
  by (auto simp: like_eq_def)

lemma list_all2_like_ascii:
  "is_ascii a \<Longrightarrow> is_ascii b \<Longrightarrow>
     list_all2 like_eq (map (\<lambda>c. [c]) a) (map (\<lambda>c. [c]) b) \<longleftrightarrow> eq_ignore_ascii_case a b"
proof (induction a arbitrary: b)
  case Nil
  then show ?case by (cases b) (auto simp: eq_ignore_ascii_case_def to_ascii_lowercase_def)
next
  case (Cons c a)
  then show ?case
    by (cases b) (auto simp: like_eq_ascii eq_ignore_ascii_case_def to_ascii_lowercase_def)
qed

lemma split_on_app: "split_on c (x @ c # y) = split_on c x @ split_on c y"
  by (induction x) (auto split: list.splits)

lemma mem_split_on:
  assumes "c \<notin> set k"
  shows "k \<in> set (split_on c s) \<longleftrightarrow> (\<exists>a b. c # s @ [c] = a @ c # k @ c # b)"
proof
  show "k \<in> set (split_on c s) \<Longrightarrow> \<exists>a b. c # s @ [c] = a @ c # k @ c # b"
  proof (induction s rule: length_induct)
    case (1 s)
    show ?case
    proof (cases "c \<in> set s")
      case False
      with 1(2) have "k = s" by (simp add: split_on_single)
      then have "c # s @ [c] = [] @ c # k @ c # []" by simp
      then show ?thesis by blast
    next
      case True
      then obtain x y where s: "s = x @ c # y" "c \<notin> set x" by (metis split_list_first)
      with 1(2) consider "k = x" | "k \<in> set (split_on c y)" by (auto simp: split_on_append)
      then show ?thesis
      proof cases
        case 1
        then have "c # s @ [c] = [] @ c # k @ c # (y @ [c])" by (simp add: s)
        then show ?thesis by blast
      next
        case 2
        have "length y < length s" using s by simp
        with "1.IH" 2 obtain a b where "c # y @ [c] = a @ c # k @ c # b" by blast
        then have "c # s @ [c] = (c # x @ a) @ c # k @ c # b" by (simp add: s)
        then show ?thesis by blast
      qed
    qed
  qed
next
  assume "\<exists>a b. c # s @ [c] = a @ c # k @ c # b"
  then obtain a b where eq: "c # s @ [c] = a @ c # k @ c # b" by blast
  have "split_on c (c # s @ [c]) = [] # split_on c s @ [[]]"
    using split_on_app [of c s "[]"] by simp
  moreover have "split_on c (a @ c # k @ c # b) = split_on c a @ k # split_on c b"
    using assms by (simp add: split_on_app split_on_single split_on_append)
  ultimately have l: "[] # split_on c s @ [[]] = split_on c a @ k # split_on c b" unfolding eq by simp
  obtain p ps where a: "split_on c a = p # ps" by (cases "split_on c a") auto
  obtain q qs where b: "split_on c b = qs @ [q]" by (cases "split_on c b" rule: rev_cases) auto
  from l have "split_on c s = ps @ k # qs" unfolding a b by simp
  then show "k \<in> set (split_on c s)" by simp
qed

lemma ascii_lower_comma: "ascii_lower c = CHR '','' \<longleftrightarrow> c = CHR '',''"
  by (simp add: ascii_lower_eq_low)

lemma eq_ignore_comma:
  "eq_ignore_ascii_case ('','' @ k @ '','') b \<longleftrightarrow> (\<exists>k'. b = '','' @ k' @ '','' \<and> eq_ignore_ascii_case k k')"
proof
  assume e: "eq_ignore_ascii_case ('','' @ k @ '','') b"
  then have len: "length b = length k + 2" using eq_ignore_ascii_case_length by fastforce
  then obtain x m y where b: "b = x # m @ [y]"
    by (cases b; cases "tl b" rule: rev_cases) auto
  with len have "length k = length m" by simp
  with e b have "ascii_lower x = CHR '',''" "ascii_lower y = CHR '',''" "eq_ignore_ascii_case k m"
    by (auto simp: eq_ignore_ascii_case_def to_ascii_lowercase_def ascii_lower_def)
  with b show "\<exists>k'. b = '','' @ k' @ '','' \<and> eq_ignore_ascii_case k k'"
    by (auto simp: ascii_lower_comma)
qed (auto simp: eq_ignore_ascii_case_def to_ascii_lowercase_def)

lemma eq_ignore_no_comma:
  "eq_ignore_ascii_case k k' \<Longrightarrow> CHR '','' \<notin> set k \<Longrightarrow> CHR '','' \<notin> set k'"
proof
  assume e: "eq_ignore_ascii_case k k'" and k: "CHR '','' \<notin> set k" and k': "CHR '','' \<in> set k'"
  have "ascii_lower (CHR '','') \<in> set (to_ascii_lowercase k')"
    unfolding to_ascii_lowercase_def set_map using k' by (rule imageI)
  moreover have "ascii_lower (CHR '','') = CHR '',''" by (simp add: ascii_lower_comma)
  ultimately have "CHR '','' \<in> set (to_ascii_lowercase k')" by simp
  with e have "CHR '','' \<in> set (to_ascii_lowercase k)" by (simp add: eq_ignore_ascii_case_def)
  then obtain x where "x \<in> set k" "ascii_lower x = CHR '',''"
    unfolding to_ascii_lowercase_def set_map by (metis imageE)
  with k show False by (simp add: ascii_lower_comma)
qed

lemma has_keyword_ascii:
  assumes "is_ascii keyword" and "is_ascii (msg_keywords m)"
    and "set keyword \<inter> {CHR ''%'', CHR ''_'', CHR '',''} = {}"
  shows "has_keyword keyword m \<longleftrightarrow>
    (\<exists>k \<in> set (split_on (CHR '','') (msg_keywords m)). eq_ignore_ascii_case keyword k)"
proof -
  let ?s = "'','' @ msg_keywords m @ '',''" and ?q = "'','' @ keyword @ '',''"
  have pat: "utf8_chars (''%,'' @ keyword @ '',%'') = ''%'' # map (\<lambda>c. [c]) ?q @ [''%'']"
    using utf8_chars_ascii [of "''%,'' @ keyword @ '',%''"] assms(1) by simp
  have str: "utf8_chars ?s = map (\<lambda>c. [c]) ?s"
    using utf8_chars_ascii [of ?s] assms(2) by simp
  have lit: "\<forall>p \<in> set (map (\<lambda>c. [c]) ?q). p \<noteq> ''%'' \<and> p \<noteq> ''_''" using assms(3) by auto
  have "has_keyword keyword m \<longleftrightarrow>
      (\<exists>a b c. map (\<lambda>c. [c]) ?s = a @ b @ c \<and> list_all2 like_eq (map (\<lambda>c. [c]) ?q) b)"
    unfolding has_keyword_def sql_like_def pat str by (rule like_contains [OF lit])
  also have "\<dots> \<longleftrightarrow> (\<exists>a b c. ?s = a @ b @ c \<and> list_all2 like_eq (map (\<lambda>c. [c]) ?q) (map (\<lambda>c. [c]) b))"
    by (rule map_append_ex)
  also have "\<dots> \<longleftrightarrow> (\<exists>a b c. ?s = a @ b @ c \<and> eq_ignore_ascii_case ?q b)"
  proof -
    have "is_ascii ?q" using assms(1) by simp
    moreover have "is_ascii b" if "?s = a @ b @ c" for a b c
      using arg_cong [OF that, of is_ascii] assms(2) by simp
    ultimately show ?thesis using list_all2_like_ascii by blast
  qed
  also have "\<dots> \<longleftrightarrow> (\<exists>a c k. CHR '','' # msg_keywords m @ [CHR '',''] = a @ CHR '','' # k @ CHR '','' # c \<and>
      eq_ignore_ascii_case keyword k)"
    unfolding eq_ignore_comma ex_delimited by (simp only: append_Cons append_Nil)
  also have "\<dots> \<longleftrightarrow> (\<exists>k \<in> set (split_on (CHR '','') (msg_keywords m)). eq_ignore_ascii_case keyword k)"
  proof -
    define X where "X = (\<lambda>k a c. CHR '','' # msg_keywords m @ [CHR '',''] = a @ CHR '','' # k @ CHR '','' # c)"
    have "CHR '','' \<notin> set keyword" using assms(3) by blast
    then have X: "(\<exists>a c. X k a c) \<longleftrightarrow> k \<in> set (split_on (CHR '','') (msg_keywords m))"
      if "eq_ignore_ascii_case keyword k" for k
      unfolding X_def using mem_split_on [OF eq_ignore_no_comma [OF that]] by metis
    have "(\<exists>a c k. X k a c \<and> eq_ignore_ascii_case keyword k) \<longleftrightarrow>
        (\<exists>k \<in> set (split_on (CHR '','') (msg_keywords m)). eq_ignore_ascii_case keyword k)"
      using X by blast
    then show ?thesis by (simp only: X_def)
  qed
  finally show ?thesis .
qed

text \<open>for ASCII keywords without a comma or a \<open>LIKE\<close> wildcard, the keyword query returns exactly the
  account's messages that carry the keyword as one of their comma-separated entries (ASCII letters
  compare without case), the complementary query exactly the others, and both newest first.\<close>

theorem messages_with_keyword_exact:
  assumes "faults d = []" and "is_ascii keyword"
    and "set keyword \<inter> {CHR ''%'', CHR ''_'', CHR '',''} = {}"
    and "\<forall>m \<in> set (messages (tables d)). is_ascii (msg_keywords m)"
  shows "\<exists>ms ns. messages_with_keyword a keyword d = (Inr ms, d) \<and>
    messages_without_keyword a keyword d = (Inr ns, d) \<and>
    set ms = {m \<in> set (messages (tables d)). account_id m = a \<and>
       (\<exists>k \<in> set (split_on (CHR '','') (msg_keywords m)). eq_ignore_ascii_case keyword k)} \<and>
    set ns = {m \<in> set (messages (tables d)). account_id m = a} - set ms \<and>
    sorted (map (\<lambda>m. - received_at m) ms) \<and> sorted (map (\<lambda>m. - received_at m) ns)"
proof -
  have hk: "has_keyword keyword m \<longleftrightarrow>
      (\<exists>k \<in> set (split_on (CHR '','') (msg_keywords m)). eq_ignore_ascii_case keyword k)"
    if "m \<in> set (messages (tables d))" for m
    using has_keyword_ascii [OF assms(2) _ assms(3)] assms(4) that by blast
  show ?thesis
    using assms(1) hk
    by (auto simp: messages_with_keyword_def messages_without_keyword_def newest_first_def)
qed

theorem messages_with_keyword_exact_witness:
  "\<exists>ms. messages_with_keyword 4 ''$seen'' \<lparr>tables = meta_empty\<lparr>messages :=
      [new_message.extend (sample_message\<lparr>msg_keywords := ''$junk,$Seen''\<rparr>) \<lparr>msg_id = 1\<rparr>]\<rparr>, faults = []\<rparr> =
      (Inr ms, \<lparr>tables = meta_empty\<lparr>messages :=
      [new_message.extend (sample_message\<lparr>msg_keywords := ''$junk,$Seen''\<rparr>) \<lparr>msg_id = 1\<rparr>]\<rparr>, faults = []\<rparr>)
      \<and> ms \<noteq> []"
proof -
  let ?m = "new_message.extend (sample_message\<lparr>msg_keywords := ''$junk,$Seen''\<rparr>) \<lparr>msg_id = 1\<rparr>"
  let ?d = "\<lparr>tables = meta_empty\<lparr>messages := [?m]\<rparr>, faults = []\<rparr>"
  have f: "faults ?d = []" "is_ascii ''$seen''" by simp_all
  have k: "set ''$seen'' \<inter> {CHR ''%'', CHR ''_'', CHR '',''} = {}" by simp
  have kw: "msg_keywords ?m = ''$junk,$Seen''" "account_id ?m = 4"
    by (simp_all add: new_message.extend_def sample_message_def)
  have a: "\<forall>m \<in> set (messages (tables ?d)). is_ascii (msg_keywords m)" by (simp add: kw)
  obtain ms where q: "messages_with_keyword 4 ''$seen'' ?d = (Inr ms, ?d)" and
    s: "set ms = {m \<in> set (messages (tables ?d)). account_id m = 4 \<and>
       (\<exists>k \<in> set (split_on (CHR '','') (msg_keywords m)). eq_ignore_ascii_case ''$seen'' k)}"
    using messages_with_keyword_exact [OF f k a, of 4] by blast
  have "?m \<in> set ms" unfolding s
    by (simp add: kw eq_ignore_ascii_case_def to_ascii_lowercase_def ascii_lower_def char_of_def
        bit_Suc_0_iff)
  with q show ?thesis by (metis empty_iff list.set(1))
qed

end
