(* ===== verification/Threads.thy ===== *)
theory Threads
  imports Metadata_Store
begin

text \<open>
  \<open>store::threads\<close>: subject normalisation and thread assignment.

  \<open>str::to_lowercase\<close> applies the Unicode case tables; it is the argument \<open>lowercase\<close>. The slices of
  \<open>normalize_subject\<close> panic off a character boundary (\<open>slice_to\<close>, \<open>slice_from\<close>). A query with \<open>LIMIT 1\<close> and
  no \<open>ORDER BY\<close> returns any one of the matching rows: that choice is the argument \<open>pick\<close>, of which the
  code relies on \<open>picks_member\<close> only.
\<close>

section \<open>Subject normalisation\<close>

definition strip_one :: "bytes \<Rightarrow> bytes \<Rightarrow> bytes option pan" where
  "strip_one lower prefix =
     (if length prefix \<le> length lower then
        pan_bind (slice_to lower (length prefix)) (\<lambda>h.
          if eq_ignore_ascii_case h prefix
          then pan_bind (slice_from lower (length prefix)) (\<lambda>t. Returned (Some (trim_start t)))
          else Returned None)
      else Returned None)"

fun find_strip :: "bytes list \<Rightarrow> bytes \<Rightarrow> bytes option pan" where
  "find_strip [] lower = Returned None"
| "find_strip (p # ps) lower =
     pan_bind (strip_one lower p) (\<lambda>r. case r of Some t \<Rightarrow> Returned (Some t) | None \<Rightarrow> find_strip ps lower)"

definition reply_prefixes :: "bytes list" where
  "reply_prefixes = [''re:'', ''fwd:'', ''fw:'']"

lemma strip_one_shorter: "strip_one lower p = Returned (Some t) \<Longrightarrow> p \<noteq> [] \<Longrightarrow> length t < length lower"
proof -
  assume s: "strip_one lower p = Returned (Some t)" and p: "p \<noteq> []"
  then have "t = trim_start (drop (length p) lower)" "length p \<le> length lower"
    by (auto simp: strip_one_def slice_to_def slice_from_def pan_bind_eq_Returned split: if_splits)
  with p length_trim_start [of "drop (length p) lower"] show ?thesis
    by (cases p) auto
qed

lemma find_strip_shorter:
  "find_strip ps lower = Returned (Some t) \<Longrightarrow> [] \<notin> set ps \<Longrightarrow> length t < length lower"
  by (induction ps)
    (auto simp: pan_bind_eq_Returned dest: strip_one_shorter split: option.splits)

function normalize_loop :: "bytes \<Rightarrow> bytes pan" where
  "normalize_loop s =
     (case find_strip reply_prefixes (trim_start s) of
        Panicked \<Rightarrow> Panicked
      | Returned None \<Rightarrow> Returned s
      | Returned (Some rest) \<Rightarrow> if length rest \<noteq> length s then normalize_loop rest else Returned s)"
  by pat_completeness auto
termination
proof (relation "measure length", simp)
  fix s x rest
  assume "find_strip reply_prefixes (trim_start s) = Returned x" "x = Some rest"
  then have "length rest < length (trim_start s)"
    by (intro find_strip_shorter [of reply_prefixes]) (auto simp: reply_prefixes_def)
  with length_trim_start [of s] show "(rest, s) \<in> measure length" by simp
qed

declare normalize_loop.simps [simp del]

definition normalize_subject :: "(bytes \<Rightarrow> bytes) \<Rightarrow> bytes \<Rightarrow> bytes pan" where
  "normalize_subject lowercase subject =
     pan_bind (normalize_loop (trim subject)) (\<lambda>s. Returned (lowercase s))"

text \<open>What the loop stops at starts with none of the prefixes.\<close>

lemma normalize_loop_done:
  "normalize_loop s = Returned t \<Longrightarrow> find_strip reply_prefixes (trim_start t) = Returned None"
proof (induction s rule: normalize_loop.induct)
  case (1 s)
  show ?case
  proof (cases "find_strip reply_prefixes (trim_start s)")
    case Panicked
    with 1(2) show ?thesis by (simp add: normalize_loop.simps [of s])
  next
    case r: (Returned x)
    show ?thesis
    proof (cases x)
      case None
      with r 1(2) show ?thesis by (simp add: normalize_loop.simps [of s])
    next
      case (Some rest)
      have "length rest < length (trim_start s)"
        using r Some by (intro find_strip_shorter [of reply_prefixes]) (auto simp: reply_prefixes_def)
      with length_trim_start [of s] have "length rest \<noteq> length s" by simp
      with r Some 1 show ?thesis by (simp add: normalize_loop.simps [of s])
    qed
  qed
qed

section \<open>ASCII subjects\<close>

definition ws :: "char \<Rightarrow> bool" where
  "ws c = is_whitespace (of_char c)"

lemma ws_abs: "(\<lambda>c. is_whitespace (of_char c)) = ws"
  by (simp add: ws_def fun_eq_iff)

definition ltrim :: "bytes \<Rightarrow> bytes" where "ltrim s = dropWhile ws s"

definition rtrim :: "bytes \<Rightarrow> bytes" where "rtrim s = rev (dropWhile ws (rev s))"

lemma rtrim_Cons: "rtrim (x # xs) = (if ws x \<and> list_all ws xs then [] else x # rtrim xs)"
proof -
  have "dropWhile ws (rev xs @ [x]) =
      (if list_all ws xs then dropWhile ws [x] else dropWhile ws (rev xs) @ [x])"
    by (auto simp: dropWhile_append list_all_iff)
  moreover have "list_all ws xs \<Longrightarrow> dropWhile ws (rev xs) = []"
    by (simp add: list_all_iff)
  ultimately show ?thesis by (auto simp: rtrim_def)
qed

lemma rtrim_all: "list_all ws xs \<Longrightarrow> rtrim xs = []"
  by (simp add: rtrim_def list_all_iff)

lemma ltrim_rtrim: "ltrim (rtrim s) = rtrim (ltrim s)"
proof (induction s)
  case (Cons x xs)
  then show ?case
    using rtrim_all [of xs] by (auto simp: rtrim_Cons ltrim_def)
qed (simp add: ltrim_def rtrim_def)

lemma ltrim_idem [simp]: "ltrim (ltrim s) = ltrim s"
  by (simp add: ltrim_def)

lemma is_ascii_ltrim [simp]: "is_ascii s \<Longrightarrow> is_ascii (ltrim s)"
  by (auto simp: is_ascii_def ltrim_def list_all_iff dest: set_dropWhileD)

lemma is_ascii_rtrim [simp]: "is_ascii s \<Longrightarrow> is_ascii (rtrim s)"
  by (auto simp: is_ascii_def rtrim_def list_all_iff dest: set_dropWhileD)

lemma is_ascii_drop [simp]: "is_ascii s \<Longrightarrow> is_ascii (drop n s)"
  by (auto simp: is_ascii_def list_all_iff dest: in_set_dropD)

lemma trim_start_ascii': "is_ascii s \<Longrightarrow> trim_start s = ltrim s"
  by (simp add: trim_start_ascii ws_abs ltrim_def)

lemma trim_ascii: "is_ascii s \<Longrightarrow> trim s = rtrim (ltrim s)"
  by (simp add: trim_def trim_start_ascii' trim_end_ascii ws_abs rtrim_def)

lemma strip_one_ascii:
  "is_ascii s \<Longrightarrow> strip_one s p =
     Returned (if length p \<le> length s \<and> eq_ignore_ascii_case (take (length p) s) p
               then Some (ltrim (drop (length p) s)) else None)"
  by (simp add: strip_one_def slice_to_ascii slice_from_def is_char_boundary_ascii trim_start_ascii')

lemma find_strip_ascii: "is_ascii s \<Longrightarrow> find_strip ps s \<noteq> Panicked"
  by (induction ps) (auto simp: strip_one_ascii split: option.splits)

lemma find_strip_ascii_result:
  "is_ascii s \<Longrightarrow> find_strip ps s = Returned (Some t) \<Longrightarrow> is_ascii t"
  by (induction ps) (auto simp: strip_one_ascii split: option.splits if_splits)

lemma normalize_loop_ascii: "is_ascii s \<Longrightarrow> normalize_loop s \<noteq> Panicked"
proof (induction s rule: normalize_loop.induct)
  case (1 s)
  have a: "is_ascii (trim_start s)" using 1(2) by (simp add: trim_start_ascii')
  then obtain x where x: "find_strip reply_prefixes (trim_start s) = Returned x"
    using find_strip_ascii by (cases "find_strip reply_prefixes (trim_start s)") auto
  show ?case
  proof (cases x)
    case None
    with x show ?thesis by (simp add: normalize_loop.simps [of s])
  next
    case (Some rest)
    with find_strip_ascii_result [OF a, of reply_prefixes rest] x have "is_ascii rest" by simp
    with 1(1) [OF x Some] x Some show ?thesis by (simp add: normalize_loop.simps [of s])
  qed
qed

text \<open>A reply or forward marker in any mixture of cases.\<close>

definition is_marker :: "bytes \<Rightarrow> bool" where
  "is_marker p \<longleftrightarrow> (\<exists>q \<in> set reply_prefixes. eq_ignore_ascii_case p q)"

lemma find_strip_marker:
  assumes "is_ascii (p @ s)" and "is_marker p"
  shows "find_strip reply_prefixes (p @ s) = Returned (Some (ltrim s))"
proof -
  have len: "eq_ignore_ascii_case p q \<Longrightarrow> length p = length q" for q
    by (rule eq_ignore_ascii_case_length)
  consider "eq_ignore_ascii_case p ''re:''" | "eq_ignore_ascii_case p ''fwd:''" | "eq_ignore_ascii_case p ''fw:''"
    using assms(2) by (auto simp: is_marker_def reply_prefixes_def)
  then show ?thesis
  proof cases
    case 1
    with len [of "''re:''"] assms(1) show ?thesis by (simp add: reply_prefixes_def strip_one_ascii)
  next
    case 2
    with len [of "''fwd:''"] obtain a b c e where p: "p = [a, b, c, e]"
      by (auto simp: length_Suc_conv numeral_eq_Suc)
    with 2 have "ascii_lower a = CHR ''f''" by (simp add: eq_ignore_ascii_case_def to_ascii_lowercase_def ascii_lower_def)
    with p have "\<not> eq_ignore_ascii_case (take 3 (p @ s)) ''re:''"
      by (simp add: eq_ignore_ascii_case_def to_ascii_lowercase_def numeral_3_eq_3 ascii_lower_def [of "CHR ''r''"])
    with 2 p assms(1) show ?thesis by (simp add: reply_prefixes_def strip_one_ascii)
  next
    case 3
    with len [of "''fw:''"] obtain a b c where p: "p = [a, b, c]"
      by (auto simp: length_Suc_conv numeral_eq_Suc)
    with 3 have a: "ascii_lower a = CHR ''f''" and c: "ascii_lower c = CHR '':''"
      by (simp_all add: eq_ignore_ascii_case_def to_ascii_lowercase_def ascii_lower_def)
    from a p have n1: "\<not> eq_ignore_ascii_case (take 3 (p @ s)) ''re:''"
      by (simp add: eq_ignore_ascii_case_def to_ascii_lowercase_def ascii_lower_def [of "CHR ''r''"])
    from c p have n2: "\<not> eq_ignore_ascii_case (take 4 (p @ s)) ''fwd:''"
      by (simp add: eq_ignore_ascii_case_def to_ascii_lowercase_def numeral_eq_Suc ascii_lower_def [of "CHR ''d''"])
    from n1 n2 3 p assms(1) show ?thesis by (simp add: reply_prefixes_def strip_one_ascii)
  qed
qed

lemma marker_ends:
  assumes "is_marker p"
  shows "p \<noteq> []" "\<not> ws (hd p)" "\<not> ws (last p)" "is_ascii p"
proof -
  have low: "\<not> ws c" if "ascii_lower c \<in> set ''refwd:''" for c
  proof -
    have "33 \<le> (of_char c :: nat) \<and> (of_char c :: nat) < 128"
    proof (cases "65 \<le> (of_char c :: nat) \<and> (of_char c :: nat) \<le> 90")
      case False
      then have "ascii_lower c = c" by (auto simp: ascii_lower_def)
      with that show ?thesis by auto
    qed simp
    then show ?thesis by (auto simp: ws_def is_whitespace_def)
  qed
  have asc: "(of_char c :: nat) < 128" if "ascii_lower c \<in> set ''refwd:''" for c
  proof (cases "65 \<le> (of_char c :: nat) \<and> (of_char c :: nat) \<le> 90")
    case False
    then have "ascii_lower c = c" by (auto simp: ascii_lower_def)
    with that show ?thesis by auto
  qed simp
  from assms obtain q where q: "q \<in> set reply_prefixes" "map ascii_lower p = map ascii_lower q"
    by (auto simp: is_marker_def eq_ignore_ascii_case_def to_ascii_lowercase_def)
  then have m: "set (map ascii_lower p) \<subseteq> set ''refwd:''" and ne: "p \<noteq> []"
    by (auto simp: reply_prefixes_def ascii_lower_def)
  then have all: "\<forall>c \<in> set p. ascii_lower c \<in> set ''refwd:''" by auto
  show "p \<noteq> []" by (rule ne)
  show "\<not> ws (hd p)" "\<not> ws (last p)" using all low ne by (meson hd_in_set last_in_set)+
  show "is_ascii p" using all asc by (auto simp: is_ascii_def list_all_iff)
qed

lemma ltrim_marker: "is_marker p \<Longrightarrow> ltrim (p @ s) = p @ s"
  using marker_ends(1,2) [of p] by (cases p) (auto simp: ltrim_def)

lemma rtrim_marker:
  assumes "is_marker p"
  shows "rtrim (p @ s) = p @ rtrim s"
proof -
  obtain q c where p: "p = q @ [c]" "\<not> ws c"
    using marker_ends(1,3) [OF assms] by (cases p rule: rev_cases) auto
  have "dropWhile ws (rev s @ c # rev q) = dropWhile ws (rev s) @ c # rev q"
    using p(2) by (auto simp: dropWhile_append)
  then show ?thesis by (simp add: rtrim_def p)
qed

text \<open>on ASCII subjects normalisation never panics, any reply or forward marker (in any case)
  in front of a subject changes nothing, and no marker is left in front of the result.\<close>

theorem normalize_subject_markers:
  assumes "is_ascii subject"
  shows "(is_marker p \<longrightarrow> normalize_subject lowercase (p @ subject) = normalize_subject lowercase subject) \<and>
    (\<exists>s. normalize_loop (trim subject) = Returned s \<and> normalize_subject lowercase subject = Returned (lowercase s) \<and>
       find_strip reply_prefixes (trim_start s) = Returned None)"
proof (intro conjI impI)
  assume m: "is_marker p"
  then have a: "is_ascii (p @ subject)" using assms marker_ends(4) by simp
  have t: "trim (p @ subject) = p @ rtrim subject"
    by (simp add: trim_ascii [OF a] ltrim_marker [OF m] rtrim_marker [OF m])
  have a2: "is_ascii (p @ rtrim subject)" using a by simp
  have r: "ltrim (rtrim subject) = trim subject" by (simp add: trim_ascii [OF assms] ltrim_rtrim)
  have "length (trim subject) \<noteq> length (p @ rtrim subject)"
  proof -
    have "length (ltrim (rtrim subject)) \<le> length (rtrim subject)"
      by (simp add: ltrim_def length_dropWhile_le)
    with marker_ends(1) [OF m] r show ?thesis by (cases p) auto
  qed
  moreover have "find_strip reply_prefixes (trim_start (p @ rtrim subject)) = Returned (Some (trim subject))"
    using find_strip_marker [OF a2 m] r by (simp add: trim_start_ascii' [OF a2] ltrim_marker [OF m])
  ultimately have "normalize_loop (p @ rtrim subject) = normalize_loop (trim subject)"
    by (simp add: normalize_loop.simps [of "p @ rtrim subject"])
  then show "normalize_subject lowercase (p @ subject) = normalize_subject lowercase subject"
    by (simp add: normalize_subject_def t)
next
  have "normalize_loop (trim subject) \<noteq> Panicked"
    using assms by (intro normalize_loop_ascii) (simp add: trim_ascii)
  then obtain s where s: "normalize_loop (trim subject) = Returned s"
    by (cases "normalize_loop (trim subject)") auto
  with normalize_loop_done [OF s] show "\<exists>s. normalize_loop (trim subject) = Returned s \<and>
      normalize_subject lowercase subject = Returned (lowercase s) \<and>
      find_strip reply_prefixes (trim_start s) = Returned None"
    by (simp add: normalize_subject_def)
qed

theorem normalize_subject_markers_witness:
  "is_marker ''FWD:'' \<and>
   normalize_subject to_ascii_lowercase (''FWD:'' @ '' Hello'') = normalize_subject to_ascii_lowercase '' Hello''"
proof -
  have m: "is_marker ''FWD:''"
    by (simp add: is_marker_def reply_prefixes_def eq_ignore_ascii_case_def to_ascii_lowercase_def
        ascii_lower_def char_of_def bit_Suc_0_iff)
  have "is_ascii '' Hello''" by simp
  from normalize_subject_markers [OF this, of "''FWD:''" to_ascii_lowercase] m show ?thesis by simp
qed

text \<open>C25: on a trimmed subject that does not start with a marker, normalisation panics exactly
  when byte 3 or byte 4 exists and lies inside a multi-byte character.\<close>

theorem normalize_subject_panics:
  assumes "trim subject = subject" and "trim_start subject = subject"
    and "\<forall>p \<in> set reply_prefixes. \<not> eq_ignore_ascii_case (take (length p) subject) p"
  shows "normalize_subject lowercase subject = Panicked \<longleftrightarrow>
    (3 \<le> length subject \<and> \<not> is_char_boundary subject 3) \<or>
    (4 \<le> length subject \<and> \<not> is_char_boundary subject 4)"
proof -
  have one: "strip_one subject p =
      (if length p \<le> length subject \<and> \<not> is_char_boundary subject (length p) then Panicked else Returned None)"
    if "p \<in> set reply_prefixes" for p
    using assms(3) that by (auto simp: strip_one_def slice_to_def)
  have "find_strip reply_prefixes subject =
      (if 3 \<le> length subject \<and> \<not> is_char_boundary subject 3 \<or>
          4 \<le> length subject \<and> \<not> is_char_boundary subject 4 then Panicked else Returned None)"
    using one [of "''re:''"] one [of "''fwd:''"] one [of "''fw:''"]
    by (simp add: reply_prefixes_def numeral_eq_Suc)
  then show ?thesis
    by (simp add: normalize_subject_def assms(1,2) normalize_loop.simps [of subject])
qed

text \<open>A four-letter subject whose last letter, e with an acute accent, takes two bytes.\<close>

definition cafe :: bytes where
  "cafe = ''Caf'' @ [CHR 0xC3, CHR 0xA9]"

lemma cafe_chars: "utf8_chars cafe = [''C'', ''a'', ''f'', [CHR 0xC3, CHR 0xA9]]"
  by (simp add: cafe_def utf8_chars.simps utf8_scan_def byte_at_def is_cont_def Let_def)

theorem normalize_subject_panics_witness:
  "utf8_valid cafe \<and> normalize_subject to_ascii_lowercase cafe = Panicked"
proof -
  have ws: "\<not> ws_char ''C''" "\<not> ws_char [CHR 0xC3, CHR 0xA9]"
    by (simp_all add: ws_char_def code_point_def byte_at_def is_whitespace_def)
  then have t: "trim_start cafe = cafe" unfolding trim_start_def cafe_chars by (simp add: cafe_def)
  have "trim_end cafe = cafe" using ws unfolding trim_end_def cafe_chars by (simp add: cafe_def)
  with t have tr: "trim cafe = cafe" by (simp add: trim_def)
  have np: "\<forall>p \<in> set reply_prefixes. \<not> eq_ignore_ascii_case (take (length p) cafe) p"
    by (simp add: reply_prefixes_def cafe_def eq_ignore_ascii_case_def to_ascii_lowercase_def
        ascii_lower_def char_of_def bit_Suc_0_iff)
  have "utf8_valid cafe"
    by (simp add: cafe_def utf8_valid.simps utf8_scan_def byte_at_def is_cont_def Let_def)
  moreover have "\<not> is_char_boundary cafe 4"
    by (simp add: cafe_def is_char_boundary_def is_cont_def byte_at_def)
  ultimately show ?thesis
    using normalize_subject_panics [OF tr t np, of to_ascii_lowercase] by (simp add: cafe_def)
qed

section \<open>Thread assignment\<close>

record thread_match =
  tm_account_id :: int
  tm_reference_ids :: "string list"
  tm_subject_hash :: "string option"

definition picks_member :: "('r list \<Rightarrow> 'r option) \<Rightarrow> bool" where
  "picks_member pick \<longleftrightarrow>
     (\<forall>rows. (rows = [] \<longrightarrow> pick rows = None) \<and> (rows \<noteq> [] \<longrightarrow> (\<exists>r \<in> set rows. pick rows = Some r)))"

definition reference_rows :: "int \<Rightarrow> string list \<Rightarrow> meta_tables \<Rightarrow> stored_message list" where
  "reference_rows a ids t =
     filter (\<lambda>m. account_id m = a \<and> (\<exists>h. message_id_header m = Some h \<and> h \<in> set ids)) (messages t)"

lemma reference_rows_code [code]:
  "reference_rows a ids t = filter (\<lambda>m. account_id m = a \<and> (case message_id_header m of None \<Rightarrow> False | Some h \<Rightarrow> h \<in> set ids)) (messages t)"
  by (auto simp: reference_rows_def intro!: filter_cong split: option.splits)

definition thread_by_reference ::
    "(stored_message list \<Rightarrow> stored_message option) \<Rightarrow> int \<Rightarrow> string list \<Rightarrow> meta \<Rightarrow> int option result \<times> meta" where
  "thread_by_reference pick a ids d =
     (if ids = [] then (Inr None, d)
      else db_query (\<lambda>t. map_option thread_id (pick (reference_rows a ids t))) d)"

definition thread_by_subject_hash :: "int \<Rightarrow> string \<Rightarrow> meta \<Rightarrow> int option result \<times> meta" where
  "thread_by_subject_hash a hash =
     db_query (\<lambda>t. case newest_first (\<lambda>m. account_id m = a \<and> subject_hash m = Some hash) t of
        [] \<Rightarrow> None | m # _ \<Rightarrow> Some (thread_id m))"

definition create_thread :: "int \<Rightarrow> meta \<Rightarrow> int result \<times> meta" where
  "create_thread a = db_stmt (\<lambda>t.
     (let (i, rows) = tbl_insert th_id (\<lambda>i r. r\<lparr>th_id := i\<rparr>) \<lparr>th_id = 0, th_account_id = a\<rparr> (threads t)
      in (Inr i, t\<lparr>threads := rows\<rparr>)))"

definition find_or_create_thread ::
    "(stored_message list \<Rightarrow> stored_message option) \<Rightarrow> thread_match \<Rightarrow> meta \<Rightarrow> int result \<times> meta" where
  "find_or_create_thread pick m =
     op_bind (thread_by_reference pick (tm_account_id m) (tm_reference_ids m)) (\<lambda>r.
       case r of
         Some i \<Rightarrow> (\<lambda>d. (Inr i, d))
       | None \<Rightarrow>
           op_bind (case tm_subject_hash m of
                      None \<Rightarrow> (\<lambda>d. (Inr None, d))
                    | Some hash \<Rightarrow> thread_by_subject_hash (tm_account_id m) hash)
             (\<lambda>r. case r of Some i \<Rightarrow> (\<lambda>d. (Inr i, d)) | None \<Rightarrow> create_thread (tm_account_id m)))"

text \<open>Every message is in a thread of its own account.\<close>

definition threads_ok :: "meta_tables \<Rightarrow> bool" where
  "threads_ok t \<longleftrightarrow>
     (\<forall>m \<in> set (messages t). \<exists>h \<in> set (threads t). th_id h = thread_id m \<and> th_account_id h = account_id m)"

lemma create_thread_Inr:
  assumes "create_thread a d = (Inr i, d')"
  shows "tables d' = (tables d)\<lparr>threads := threads (tables d) @ [\<lparr>th_id = i, th_account_id = a\<rparr>]\<rparr>"
    and "i \<notin> th_id ` set (threads (tables d))"
proof -
  let ?ins = "tbl_insert th_id (\<lambda>i r. r\<lparr>th_id := i\<rparr>) \<lparr>th_id = 0, th_account_id = a\<rparr> (threads (tables d))"
  have i: "i = fst ?ins" and t: "tables d' = (tables d)\<lparr>threads := snd ?ins\<rparr>"
    using db_stmt_Inr [OF assms [unfolded create_thread_def]] by (simp_all split: prod.splits)
  then show "tables d' = (tables d)\<lparr>threads := threads (tables d) @ [\<lparr>th_id = i, th_account_id = a\<rparr>]\<rparr>"
    by (simp add: tbl_insert_def Let_def)
  show "i \<notin> th_id ` set (threads (tables d))"
    unfolding i by (auto simp: tbl_insert_def Let_def dest: next_rowid_notin [of _ "threads (tables d)" th_id])
qed

lemma create_thread_Inl: "create_thread a d = (Inl e, d') \<Longrightarrow> tables d' = tables d"
  by (auto simp: create_thread_def split: prod.splits elim!: db_stmt_cases)

lemma thread_by_reference_tables: "thread_by_reference pick a ids d = (r, d') \<Longrightarrow> tables d' = tables d"
  by (auto simp: thread_by_reference_def dest: db_query_tables split: if_splits)

lemma thread_by_reference_Inr:
  assumes "thread_by_reference pick a ids d = (Inr x, d')" and "picks_member pick"
  shows "(x = None \<longleftrightarrow> reference_rows a ids (tables d) = []) \<and>
    (\<forall>i. x = Some i \<longrightarrow> (\<exists>m \<in> set (reference_rows a ids (tables d)). thread_id m = i))"
proof (cases "ids = []")
  case True
  with assms(1) show ?thesis by (simp add: thread_by_reference_def reference_rows_def)
next
  case False
  define rows where "rows = reference_rows a ids (tables d)"
  have x: "x = map_option thread_id (pick rows)"
    using assms(1) False unfolding rows_def thread_by_reference_def by (auto dest: db_query_Inr)
  show ?thesis
  proof (cases "rows = []")
    case True
    with assms(2) x show ?thesis by (simp add: picks_member_def rows_def)
  next
    case False
    with assms(2) obtain y where "y \<in> set rows" "pick rows = Some y"
      unfolding picks_member_def by blast
    with x False show ?thesis unfolding rows_def [symmetric] by auto
  qed
qed

text \<open>The rows a subject hash finds, newest first.\<close>

definition subject_rows :: "int \<Rightarrow> string option \<Rightarrow> meta_tables \<Rightarrow> stored_message list" where
  "subject_rows a h t =
     (case h of None \<Rightarrow> [] | Some hash \<Rightarrow> newest_first (\<lambda>m. account_id m = a \<and> subject_hash m = Some hash) t)"

lemma subject_rows_account: "m \<in> set (subject_rows a h t) \<Longrightarrow> m \<in> set (messages t) \<and> account_id m = a"
  by (auto simp: subject_rows_def newest_first_def split: option.splits)

text \<open>The outcomes of the assignment.\<close>

lemma find_or_create_thread_cases:
  assumes run: "find_or_create_thread pick m d = (r, d')" and pick: "picks_member pick"
  obtains (failed) e where "r = Inl e" "tables d' = tables d"
    | (reference) x where "x \<in> set (reference_rows (tm_account_id m) (tm_reference_ids m) (tables d))"
        "r = Inr (thread_id x)" "tables d' = tables d"
    | (subject) x xs where "reference_rows (tm_account_id m) (tm_reference_ids m) (tables d) = []"
        "subject_rows (tm_account_id m) (tm_subject_hash m) (tables d) = x # xs"
        "r = Inr (thread_id x)" "tables d' = tables d"
    | (fresh) i where "reference_rows (tm_account_id m) (tm_reference_ids m) (tables d) = []"
        "subject_rows (tm_account_id m) (tm_subject_hash m) (tables d) = []"
        "r = Inr i" "i \<notin> th_id ` set (threads (tables d))"
        "tables d' = (tables d)\<lparr>threads := threads (tables d) @ [\<lparr>th_id = i, th_account_id = tm_account_id m\<rparr>]\<rparr>"
proof -
  let ?a = "tm_account_id m" let ?sub = "case tm_subject_hash m of None \<Rightarrow> (\<lambda>d. (Inr None, d))
    | Some hash \<Rightarrow> thread_by_subject_hash ?a hash"
  obtain r1 d1 where 1: "thread_by_reference pick ?a (tm_reference_ids m) d = (r1, d1)" by (metis prod.exhaust)
  have t1: "tables d1 = tables d" by (rule thread_by_reference_tables [OF 1])
  obtain r2 d2 where 2: "?sub d1 = (r2, d2)" by (metis prod.exhaust)
  have t2: "tables d2 = tables d1"
    using 2 db_query_tables by (auto simp: thread_by_subject_hash_def split: option.splits)
  have s2: "y = (case subject_rows ?a (tm_subject_hash m) (tables d) of [] \<Rightarrow> None | m # _ \<Rightarrow> Some (thread_id m))"
    if "r2 = Inr y" for y
    using 2 t1 that
    by (auto simp: subject_rows_def thread_by_subject_hash_def dest!: db_query_Inr split: option.splits)
  show thesis
  proof (cases r1)
    case (Inl e)
    with run 1 t1 show thesis by (intro failed) (auto simp: find_or_create_thread_def op_bind_def)
  next
    case (Inr x)
    note ref = thread_by_reference_Inr [OF 1 [unfolded Inr] pick]
    show thesis
    proof (cases x)
      case (Some i)
      with ref obtain y where "y \<in> set (reference_rows ?a (tm_reference_ids m) (tables d))" "thread_id y = i"
        by blast
      with run 1 Inr Some t1 show thesis
        by (intro reference [of y]) (auto simp: find_or_create_thread_def op_bind_def)
    next
      case None
      with ref have rr: "reference_rows ?a (tm_reference_ids m) (tables d) = []" by simp
      have run2: "op_bind ?sub (\<lambda>r. case r of Some i \<Rightarrow> (\<lambda>d. (Inr i, d)) | None \<Rightarrow> create_thread ?a) d1 = (r, d')"
        using run 1 Inr None by (simp add: find_or_create_thread_def op_bind_def)
      show thesis
      proof (cases r2)
        case (Inl e)
        with run2 2 t1 t2 show thesis by (intro failed) (auto simp: op_bind_def)
      next
        case (Inr y)
        note y = s2 [OF Inr]
        show thesis
        proof (cases "subject_rows ?a (tm_subject_hash m) (tables d)")
          case (Cons z zs)
          with y Inr run2 2 t1 t2 show thesis by (intro subject [OF rr Cons]) (auto simp: op_bind_def)
        next
          case Nil
          with y Inr run2 2 have c: "create_thread ?a d2 = (r, d')" by (simp add: op_bind_def)
          show thesis
          proof (cases r)
            case (Inl e)
            with c t1 t2 show thesis by (intro failed) (auto dest: create_thread_Inl)
          next
            case (Inr i)
            note e = create_thread_Inr [OF c [unfolded Inr]]
            show thesis by (rule fresh [OF rr Nil Inr]) (use e t1 t2 in simp_all)
          qed
        qed
      qed
    qed
  qed
qed

lemma threads_ok_append: "threads_ok t \<Longrightarrow> threads_ok (t\<lparr>threads := threads t @ rows\<rparr>)"
  by (auto simp: threads_ok_def)

text \<open>The three ways a thread is found, each with its owner.\<close>

lemma find_or_create_thread_member:
  assumes "find_or_create_thread pick m d = (r, d')" and "picks_member pick"
    and "threads_ok (tables d)" and "meta_ok (tables d)"
  shows "(\<forall>i. r = Inr i \<longrightarrow>
      (\<exists>h \<in> set (threads (tables d')). th_id h = i \<and> th_account_id h = tm_account_id m) \<and>
      (if reference_rows (tm_account_id m) (tm_reference_ids m) (tables d) \<noteq> []
       then i \<in> thread_id ` set (reference_rows (tm_account_id m) (tm_reference_ids m) (tables d))
       else (case subject_rows (tm_account_id m) (tm_subject_hash m) (tables d) of
               x # _ \<Rightarrow> i = thread_id x
             | [] \<Rightarrow> i \<notin> th_id ` set (threads (tables d))))) \<and>
    threads_ok (tables d') \<and> meta_ok (tables d') \<and> messages (tables d') = messages (tables d)"
  using assms(1,2)
proof (cases rule: find_or_create_thread_cases)
  case (failed e)
  with assms show ?thesis by simp
next
  case (reference x)
  then have x: "x \<in> set (messages (tables d))" "account_id x = tm_account_id m"
    by (auto simp: reference_rows_def)
  have "\<exists>h \<in> set (threads (tables d)). th_id h = thread_id x \<and> th_account_id h = tm_account_id m"
    using bspec [OF assms(3) [unfolded threads_ok_def] x(1)] x(2) by simp
  with reference assms(3,4) show ?thesis by auto
next
  case (subject x xs)
  then have x: "x \<in> set (messages (tables d))" "account_id x = tm_account_id m"
    using subject_rows_account [of x] by (metis list.set_intros(1))+
  have "\<exists>h \<in> set (threads (tables d)). th_id h = thread_id x \<and> th_account_id h = tm_account_id m"
    using bspec [OF assms(3) [unfolded threads_ok_def] x(1)] x(2) by simp
  with subject assms(3,4) show ?thesis by auto
next
  case (fresh i)
  have "meta_ok (tables d')" using assms(4) fresh(4) by (simp add: fresh(5) meta_ok_def)
  with fresh threads_ok_append [OF assms(3)] show ?thesis by simp
qed

text \<open>C24: a message joins the thread of a message of the same account that it references, if there
  is one; otherwise the thread of the account's newest message with the same subject hash; otherwise a new
  thread. The thread always belongs to the message's account, so threads never mix accounts, whatever
  row the database returns among several references; stored messages are not touched.\<close>

theorem find_or_create_thread_correct:
  assumes "find_or_create_thread pick m d = (r, d')" and "picks_member pick"
    and "threads_ok (tables d)" and "meta_ok (tables d)"
  shows "(\<forall>i. r = Inr i \<longrightarrow>
      (\<exists>h \<in> set (threads (tables d')). th_id h = i \<and> th_account_id h = tm_account_id m) \<and>
      (if reference_rows (tm_account_id m) (tm_reference_ids m) (tables d) \<noteq> []
       then i \<in> thread_id ` set (reference_rows (tm_account_id m) (tm_reference_ids m) (tables d))
       else (case subject_rows (tm_account_id m) (tm_subject_hash m) (tables d) of
               x # _ \<Rightarrow> i = thread_id x
             | [] \<Rightarrow> i \<notin> th_id ` set (threads (tables d))))) \<and>
    threads_ok (tables d') \<and> meta_ok (tables d') \<and> messages (tables d') = messages (tables d)"
  using assms by (rule find_or_create_thread_member)

theorem find_or_create_thread_correct_witness:
  "let d = \<lparr>tables = meta_empty\<lparr>threads := [\<lparr>th_id = 1, th_account_id = 4\<rparr>], messages :=
        [new_message.extend (sample_message\<lparr>message_id_header := Some ''<a@b>''\<rparr>) \<lparr>msg_id = 1\<rparr>]\<rparr>, faults = []\<rparr>
   in fst (find_or_create_thread (\<lambda>rows. case rows of [] \<Rightarrow> None | r # _ \<Rightarrow> Some r)
       \<lparr>tm_account_id = 4, tm_reference_ids = [''<a@b>''], tm_subject_hash = None\<rparr> d) = Inr 1"
proof -
  let ?pick = "\<lambda>rows. case rows of [] \<Rightarrow> None | r # _ \<Rightarrow> Some (r :: stored_message)"
  let ?x = "new_message.extend (sample_message\<lparr>message_id_header := Some ''<a@b>''\<rparr>) \<lparr>msg_id = 1\<rparr>"
  let ?d = "\<lparr>tables = meta_empty\<lparr>threads := [\<lparr>th_id = 1, th_account_id = 4\<rparr>], messages := [?x]\<rparr>, faults = []\<rparr>"
  let ?m = "\<lparr>tm_account_id = 4, tm_reference_ids = [''<a@b>''], tm_subject_hash = None\<rparr>"
  have x: "thread_id ?x = 1" "account_id ?x = 4" "message_id_header ?x = Some ''<a@b>''" "msg_id ?x = 1"
    by (simp_all add: new_message.extend_def sample_message_def)
  have p: "picks_member ?pick" by (auto simp: picks_member_def split: list.splits)
  have t: "threads_ok (tables ?d)" by (simp add: threads_ok_def x)
  have k: "meta_ok (tables ?d)" by (simp add: meta_ok_def meta_empty_def mailboxes_ok_def)
  obtain r d' where run: "find_or_create_thread ?pick ?m ?d = (r, d')" by (metis prod.exhaust)
  have ok: "\<exists>i. r = Inr i"
    using run by (simp add: find_or_create_thread_def op_bind_def thread_by_reference_def reference_rows_def x)
      auto
  have "reference_rows 4 [''<a@b>''] (tables ?d) = [?x]" by (simp add: reference_rows_def x)
  with find_or_create_thread_correct [OF run p t k] ok have "r = Inr 1" by (auto simp: x)
  with run show ?thesis by simp
qed

end
