(* ===== verification/Delivery.thy ===== *)
theory Delivery
  imports Threads Blob_Store Sealing
begin

text \<open>
  The \<open>delivery\<close> crate: sealing a message to the account's public key, filing it (blob, mailbox, thread,
  metadata row), and opening it again with the account's private key.

  The MIME parser is an argument (\<open>mail_parse\<close>), as are SHA-256 in hexadecimal, Unicode lower-casing, the
  display form of an IP address and the choice among rows of an unordered query; the fresh keys and
  nonces a call draws are the record \<open>seal_random\<close>. A delivery that panics keeps the effects it had
  before the panic.
\<close>

section \<open>Definitions\<close>

definition DEK_SEAL_INFO :: bytes where "DEK_SEAL_INFO = ''litterae/message-dek/v1''"

record scan_metadata =
  sm_spam_score :: "real option"
  sm_av_clean :: "bool option"

datatype header_value = Text string | TextList "string list" | OtherHeader

record parsed_message =
  p_message_id :: "string option"
  p_in_reply_to :: header_value
  p_references :: header_value
  p_subject :: "string option"

record mail_lib =
  ml_crypto :: crypto_lib
  ml_sha256_hex :: "bytes \<Rightarrow> string"
  ml_parse :: "bytes \<Rightarrow> parsed_message option"
  ml_lowercase :: "bytes \<Rightarrow> bytes"
  ml_pick :: "stored_message list \<Rightarrow> stored_message option"

record seal_random =
  sr_dek :: bytes
  sr_nonce :: bytes
  sr_hpke :: bytes
  sr_torn :: nat

record mail_store =
  ms_blobs :: blob_store
  ms_meta :: meta

definition on_meta :: "(meta \<Rightarrow> 'a result \<times> meta) \<Rightarrow> ('a, mail_store) proc" where
  "on_meta f = lift_op (zoom ms_meta (\<lambda>d s. s\<lparr>ms_meta := d\<rparr>) f)"

definition on_blobs :: "(blob_store \<Rightarrow> 'a result \<times> blob_store) \<Rightarrow> ('a, mail_store) proc" where
  "on_blobs f = lift_op (zoom ms_blobs (\<lambda>b s. s\<lparr>ms_blobs := b\<rparr>) f)"

definition seal_for_account ::
    "mail_lib \<Rightarrow> seal_random \<Rightarrow> bytes \<Rightarrow> 16 word \<Rightarrow> bytes \<Rightarrow> (string \<times> bytes, mail_store) proc" where
  "seal_for_account ml rnd account_pub kid raw =
     (let dek = sr_dek rnd in
      proc_bind (proc_pan (aead_seal (ml_crypto ml) (sr_nonce rnd) dek 1 raw)) (\<lambda>sealed_blob.
      proc_bind (on_blobs (blob_write (ml_sha256_hex ml) (sr_torn rnd) sealed_blob)) (\<lambda>hash.
      proc_bind (proc_return (crypto_err
          (hpke_seal (ml_crypto ml) (sr_hpke rnd) account_pub kid DEK_SEAL_INFO dek))) (\<lambda>wrap.
      proc_return (Inr (hash, wrap))))))"

record inbound_envelope =
  env_mail_from :: string
  env_rcpt_to :: string
  env_remote_ip :: string

record auth_results =
  ar_spf :: string
  ar_dkim :: string
  ar_dmarc :: string

record delivered_message =
  dm_message_id :: int
  dm_blob_hash :: string

record recipient_account =
  ra_id :: int
  ra_account_pub :: bytes
  ra_key_id :: "16 word"

fun header_value_ids :: "header_value \<Rightarrow> string list" where
  "header_value_ids (Text s) = [s]"
| "header_value_ids (TextList l) = l"
| "header_value_ids OtherHeader = []"

definition subject_hash_of :: "mail_lib \<Rightarrow> bytes \<Rightarrow> string option \<Rightarrow> string option pan" where
  "subject_hash_of ml account_pub subject =
     (case subject of
        None \<Rightarrow> Returned None
      | Some s \<Rightarrow> pan_bind (normalize_subject (ml_lowercase ml) s)
                   (\<lambda>n. Returned (Some (ml_sha256_hex ml (account_pub @ n)))))"

definition non_empty :: "string \<Rightarrow> string option" where
  "non_empty s = (if s = [] then None else Some s)"

definition deliver ::
    "mail_lib \<Rightarrow> seal_random \<Rightarrow> recipient_account \<Rightarrow> inbound_envelope \<Rightarrow> auth_results \<Rightarrow> bytes \<Rightarrow> int \<Rightarrow>
     string option \<Rightarrow> scan_metadata \<Rightarrow> (delivered_message, mail_store) proc" where
  "deliver ml rnd account envelope auth raw_message now spam_reason scan =
     (case ml_parse ml raw_message of
        None \<Rightarrow> proc_return (Inl (Storage ''unparseable RFC5322 message''))
      | Some parsed \<Rightarrow>
          (let in_reply_to_ids = header_value_ids (p_in_reply_to parsed);
               reference_ids = header_value_ids (p_references parsed)
           in
           proc_bind (proc_pan (subject_hash_of ml (ra_account_pub account) (p_subject parsed))) (\<lambda>shash.
           proc_bind (on_meta (ensure_mailbox (ra_id account)
               (if spam_reason \<noteq> None then ''junk'' else ''inbox''))) (\<lambda>mb.
           proc_bind (on_meta (find_or_create_thread (ml_pick ml)
               \<lparr>tm_account_id = ra_id account, tm_reference_ids = in_reply_to_ids @ reference_ids,
                tm_subject_hash = shash\<rparr>)) (\<lambda>th.
           proc_bind (seal_for_account ml rnd (ra_account_pub account) (ra_key_id account) raw_message)
             (\<lambda>(hash, wrap).
           proc_bind (on_meta (insert_message
               \<lparr>account_id = ra_id account, mailbox_id = mb_id mb, thread_id = th, blob_hash = hash,
                dek_wrap = wrap, mail_from = env_mail_from envelope, rcpt_to = env_rcpt_to envelope,
                remote_ip = env_remote_ip envelope, size_bytes = int (length raw_message),
                spf_result = ar_spf auth, dkim_result = ar_dkim auth, dmarc_result = ar_dmarc auth,
                received_at = now, msg_keywords = (if spam_reason \<noteq> None then KEYWORD_JUNK else []),
                message_id_header = p_message_id parsed,
                in_reply_to = non_empty (join '' '' in_reply_to_ids),
                references_header = non_empty (join '' '' reference_ids),
                subject_hash = shash, spam_score = sm_spam_score scan, av_clean = sm_av_clean scan\<rparr>))
             (\<lambda>i. proc_return (Inr \<lparr>dm_message_id = i, dm_blob_hash = hash\<rparr>))))))))"

definition open_blob :: "mail_lib \<Rightarrow> string \<Rightarrow> bytes \<Rightarrow> bytes \<Rightarrow> (bytes, mail_store) proc" where
  "open_blob ml hash wrap account_priv =
     proc_bind (proc_return (crypto_err (hpke_open (ml_crypto ml) account_priv DEK_SEAL_INFO wrap))) (\<lambda>dek.
     proc_bind (proc_pan (if length dek \<noteq> 32 then Panicked else Returned dek)) (\<lambda>dek_bytes.
     proc_bind (on_blobs (blob_read (ml_sha256_hex ml) hash)) (\<lambda>sealed_blob.
     proc_return (crypto_err (aead_open (ml_crypto ml) dek_bytes sealed_blob)))))"

definition open_message :: "mail_lib \<Rightarrow> stored_message \<Rightarrow> bytes \<Rightarrow> (bytes, mail_store) proc" where
  "open_message ml stored account_priv = open_blob ml (blob_hash stored) (dek_wrap stored) account_priv"

section \<open>Sealing and opening\<close>

lemma on_meta_run: "on_meta f s = (r, s') \<longleftrightarrow>
    (\<exists>x d. f (ms_meta s) = (x, d) \<and> r = Returned x \<and> s' = s\<lparr>ms_meta := d\<rparr>)"
  by (auto simp: on_meta_def zoom_def lift_op_def split: prod.splits)

lemma on_blobs_run: "on_blobs f s = (r, s') \<longleftrightarrow>
    (\<exists>x b. f (ms_blobs s) = (x, b) \<and> r = Returned x \<and> s' = s\<lparr>ms_blobs := b\<rparr>)"
  by (auto simp: on_blobs_def zoom_def lift_op_def split: prod.splits)

text \<open>The invariant of the mail store.\<close>

definition mail_ok :: "(bytes \<Rightarrow> string) \<Rightarrow> mail_store \<Rightarrow> bool" where
  "mail_ok h s \<longleftrightarrow> blobs_intact h (ms_blobs s) \<and> meta_ok (tables (ms_meta s)) \<and> threads_ok (tables (ms_meta s))"

text \<open>A seal leaves the metadata alone; when it succeeds the store holds a blob under the returned hash.\<close>

lemma seal_for_account_meta:
  assumes "seal_for_account ml rnd pub kid raw s = (r, s')"
  shows "ms_meta s' = ms_meta s"
    and "blobs_intact (ml_sha256_hex ml) (ms_blobs s) \<Longrightarrow> blobs_intact (ml_sha256_hex ml) (ms_blobs s')"
    and "contents (ms_blobs s) k = Some c \<Longrightarrow> contents (ms_blobs s') k = Some c"
proof -
  let ?h = "ml_sha256_hex ml"
  have "s' = s \<or> (\<exists>b x bs. blob_write ?h (sr_torn rnd) b (ms_blobs s) = (x, bs) \<and> s' = s\<lparr>ms_blobs := bs\<rparr>)"
    using assms unfolding seal_for_account_def Let_def
    by (auto elim!: proc_bind_cases simp: on_blobs_run) blast+
  then consider "s' = s" | b where "s' = s\<lparr>ms_blobs := snd (blob_write ?h (sr_torn rnd) b (ms_blobs s))\<rparr>"
    by (metis snd_conv)
  then show "ms_meta s' = ms_meta s"
    "blobs_intact ?h (ms_blobs s) \<Longrightarrow> blobs_intact ?h (ms_blobs s')"
    "contents (ms_blobs s) k = Some c \<Longrightarrow> contents (ms_blobs s') k = Some c"
    using blobs.put_intact [of ?h "ms_blobs s" "sr_torn rnd"] blobs.put_frame [of "ms_blobs s" k c ?h "sr_torn rnd"]
    by (cases; simp add: blobs_intact_iff)+
qed

lemma seal_for_account_Inr:
  assumes "seal_for_account ml rnd pub kid raw s = (Returned (Inr (hash, wrap)), s')"
  obtains sealed where "aead_seal (ml_crypto ml) (sr_nonce rnd) (sr_dek rnd) 1 raw = Returned sealed"
    "hash = ml_sha256_hex ml sealed" "contents (ms_blobs s') hash \<noteq> None"
    "contents (ms_blobs s') = contents (ms_blobs s) \<or>
       contents (ms_blobs s') = (contents (ms_blobs s))(hash \<mapsto> sealed)"
    "hpke_seal (ml_crypto ml) (sr_hpke rnd) pub kid DEK_SEAL_INFO (sr_dek rnd) = Inr wrap"
proof -
  from assms obtain sealed b where
    1: "aead_seal (ml_crypto ml) (sr_nonce rnd) (sr_dek rnd) 1 raw = Returned sealed"
      "hpke_seal (ml_crypto ml) (sr_hpke rnd) pub kid DEK_SEAL_INFO (sr_dek rnd) = Inr wrap" and
    2: "blob_write (ml_sha256_hex ml) (sr_torn rnd) sealed (ms_blobs s) = (Inr hash, b)"
      "s' = s\<lparr>ms_blobs := b\<rparr>"
    unfolding seal_for_account_def Let_def by (auto simp: proc_bind_Inr on_blobs_run)
  have "hash = ml_sha256_hex ml sealed" "contents b hash \<noteq> None"
    using blob_write_contents(2) [OF 2(1)] by auto
  with 1 2 blob_write_contents(1) [OF 2(1)] show thesis by (intro that [of sealed]) auto
qed

text \<open>The blob a seal would write collides with no stored blob.\<close>

definition no_collision :: "mail_lib \<Rightarrow> seal_random \<Rightarrow> bytes \<Rightarrow> mail_store \<Rightarrow> bool" where
  "no_collision ml rnd raw s \<longleftrightarrow>
     (\<forall>sealed. aead_seal (ml_crypto ml) (sr_nonce rnd) (sr_dek rnd) 1 raw = Returned sealed \<longrightarrow>
        contents (ms_blobs s) (ml_sha256_hex ml sealed) \<in> {None, Some sealed})"

lemma open_blob_stored:
  assumes L: "aead_correct (ml_crypto ml)" "hpke_correct (ml_crypto ml)"
    and kp: "gen_keypair (ml_crypto ml) r = (sk, pub)"
    and len: "length (sr_dek rnd) = 32" "length (sr_nonce rnd) = 24"
    and seal: "aead_seal (ml_crypto ml) (sr_nonce rnd) (sr_dek rnd) 1 raw = Returned sealed"
    and wrap: "hpke_seal (ml_crypto ml) (sr_hpke rnd) pub kid DEK_SEAL_INFO (sr_dek rnd) = Inr wrap"
    and held: "contents (ms_blobs s) hash = Some sealed" "blobs_intact (ml_sha256_hex ml) (ms_blobs s)"
      "io_faults (ms_blobs s) = []"
  shows "open_blob ml hash wrap sk s = (Returned (Inr raw), s)"
proof -
  have "hpke_open (ml_crypto ml) sk DEK_SEAL_INFO wrap = Inr (sr_dek rnd)"
    by (rule hpke_open_seal [OF L(2) kp wrap])
  moreover have "aead_open (ml_crypto ml) (sr_dek rnd) sealed = Inr raw"
    by (rule aead_open_seal [OF L(1) _ seal]) (simp add: len NONCE_LEN_def)
  moreover have "blob_read (ml_sha256_hex ml) hash (ms_blobs s) = (Inr sealed, ms_blobs s)"
    by (rule blob_read_no_faults [OF held(3,2,1)])
  ultimately show ?thesis
    using len(1) by (simp add: open_blob_def proc_bind_def proc_return_def proc_pan_def on_blobs_def
        zoom_def lift_op_def)
qed

section \<open>Delivery\<close>

text \<open>The successful runs, step by step.\<close>

lemma deliver_Inr:
  assumes "deliver ml rnd account envelope auth raw now spam scan s = (Returned (Inr dm), s')"
  obtains parsed shash mb th wrap d1 d2 d3 s1 where
    "ml_parse ml raw = Some parsed"
    "subject_hash_of ml (ra_account_pub account) (p_subject parsed) = Returned shash"
    "ensure_mailbox (ra_id account) (if spam \<noteq> None then ''junk'' else ''inbox'') (ms_meta s) = (Inr mb, d1)"
    "find_or_create_thread (ml_pick ml) \<lparr>tm_account_id = ra_id account,
       tm_reference_ids = header_value_ids (p_in_reply_to parsed) @ header_value_ids (p_references parsed),
       tm_subject_hash = shash\<rparr> d1 = (Inr th, d2)"
    "seal_for_account ml rnd (ra_account_pub account) (ra_key_id account) raw (s\<lparr>ms_meta := d2\<rparr>) =
       (Returned (Inr (dm_blob_hash dm, wrap)), s1)"
    "insert_message \<lparr>account_id = ra_id account, mailbox_id = mb_id mb, thread_id = th,
       blob_hash = dm_blob_hash dm, dek_wrap = wrap, mail_from = env_mail_from envelope,
       rcpt_to = env_rcpt_to envelope, remote_ip = env_remote_ip envelope,
       size_bytes = int (length raw), spf_result = ar_spf auth, dkim_result = ar_dkim auth,
       dmarc_result = ar_dmarc auth, received_at = now,
       msg_keywords = (if spam \<noteq> None then KEYWORD_JUNK else []),
       message_id_header = p_message_id parsed,
       in_reply_to = non_empty (join '' '' (header_value_ids (p_in_reply_to parsed))),
       references_header = non_empty (join '' '' (header_value_ids (p_references parsed))),
       subject_hash = shash, spam_score = sm_spam_score scan, av_clean = sm_av_clean scan\<rparr> (ms_meta s1) =
       (Inr (dm_message_id dm), d3)"
    "s' = s1\<lparr>ms_meta := d3\<rparr>"
proof (cases "ml_parse ml raw")
  case None
  with assms show thesis by (simp add: deliver_def)
next
  case (Some parsed)
  with assms show thesis
    by (auto simp: deliver_def Let_def proc_bind_Inr on_meta_run intro: that)
qed

text \<open>What every step before the last one keeps: the rows there are, of every table; only mailboxes and threads of
  the account are added.\<close>

definition rows_kept :: "int \<Rightarrow> meta_tables \<Rightarrow> meta_tables \<Rightarrow> bool" where
  "rows_kept a t t' \<longleftrightarrow>
     set (mailboxes t) \<subseteq> set (mailboxes t') \<and> (\<forall>m \<in> set (mailboxes t') - set (mailboxes t). mb_account_id m = a) \<and>
     set (threads t) \<subseteq> set (threads t') \<and> (\<forall>h \<in> set (threads t') - set (threads t). th_account_id h = a) \<and>
     blob_refs t' = blob_refs t \<and> uploads t' = uploads t \<and> contacts t' = contacts t"

lemma rows_kept_refl [simp]: "rows_kept a t t"
  by (simp add: rows_kept_def)

lemma rows_kept_trans: "rows_kept a t u \<Longrightarrow> rows_kept a u v \<Longrightarrow> rows_kept a t v"
  by (auto simp: rows_kept_def)

definition grows :: "mail_lib \<Rightarrow> int \<Rightarrow> mail_store \<Rightarrow> mail_store \<Rightarrow> bool" where
  "grows ml a s s' \<longleftrightarrow>
     mail_ok (ml_sha256_hex ml) s' \<and> messages (tables (ms_meta s')) = messages (tables (ms_meta s)) \<and>
     rows_kept a (tables (ms_meta s)) (tables (ms_meta s')) \<and>
     (\<forall>k c. contents (ms_blobs s) k = Some c \<longrightarrow> contents (ms_blobs s') k = Some c)"

lemma grows_refl: "mail_ok (ml_sha256_hex ml) s \<Longrightarrow> grows ml a s s"
  by (simp add: grows_def)

lemma grows_trans: "grows ml a s t \<Longrightarrow> grows ml a t u \<Longrightarrow> grows ml a s u"
  using rows_kept_trans by (fastforce simp: grows_def)

lemma grows_ok: "grows ml a s t \<Longrightarrow> mail_ok (ml_sha256_hex ml) t"
  by (simp add: grows_def)

lemma ensure_mailbox_grows:
  assumes "ensure_mailbox a role (ms_meta s) = (r, d)" and "mail_ok (ml_sha256_hex ml) s"
  shows "grows ml a s (s\<lparr>ms_meta := d\<rparr>)"
proof -
  obtain rows where t: "tables d = (tables (ms_meta s))\<lparr>mailboxes := rows\<rparr>"
    "set (mailboxes (tables (ms_meta s))) \<subseteq> set rows"
    "\<forall>m \<in> set rows. mb_account_id m \<noteq> a \<longrightarrow> m \<in> set (mailboxes (tables (ms_meta s)))"
    using ensure_mailbox_effect(1) [OF assms(1)] unfolding mailboxes_grow_def by blast
  have "meta_ok (tables d)"
    using mailboxes_grow_ok [OF ensure_mailbox_effect(1) [OF assms(1)]] assms(2) by (simp add: mail_ok_def)
  with t assms(2) show ?thesis by (auto simp: grows_def rows_kept_def mail_ok_def threads_ok_def)
qed

lemma find_or_create_thread_grows:
  assumes "find_or_create_thread (ml_pick ml) m (ms_meta s) = (r, d)" and "picks_member (ml_pick ml)"
    and "mail_ok (ml_sha256_hex ml) s" and "tm_account_id m = a"
  shows "grows ml a s (s\<lparr>ms_meta := d\<rparr>)"
proof -
  have "rows_kept a (tables (ms_meta s)) (tables d) \<and>
      messages (tables d) = messages (tables (ms_meta s)) \<and> meta_ok (tables d) \<and> threads_ok (tables d)"
    using assms(1,2)
  proof (cases rule: find_or_create_thread_cases)
    case (fresh i)
    have "meta_ok (tables d)" using assms(3) fresh(4) by (simp add: fresh(5) meta_ok_def mail_ok_def)
    with fresh threads_ok_append assms(3,4) show ?thesis by (auto simp: mail_ok_def rows_kept_def)
  qed (use assms(3) in \<open>simp_all add: mail_ok_def\<close>)
  with assms(3) show ?thesis by (simp add: grows_def mail_ok_def)
qed

lemma seal_for_account_grows:
  assumes "seal_for_account ml rnd pub kid raw s = (r, s')" and "mail_ok (ml_sha256_hex ml) s"
  shows "grows ml a s s'"
  using seal_for_account_meta [OF assms(1)] assms(2) by (simp add: grows_def mail_ok_def)

lemma insert_message_fails_grows:
  assumes "insert_message m (ms_meta s) = (Inl e, d)" and "mail_ok (ml_sha256_hex ml) s"
  shows "grows ml a s (s\<lparr>ms_meta := d\<rparr>)"
  using insert_message_fails [OF assms(1)] assms(2) by (simp add: grows_def mail_ok_def)

lemma deliver_fails:
  assumes run: "deliver ml rnd account envelope auth raw now spam scan s = (r, s')"
    and pick: "picks_member (ml_pick ml)" and ok: "mail_ok (ml_sha256_hex ml) s"
    and bad: "\<And>dm. r \<noteq> Returned (Inr dm)"
  shows "grows ml (ra_id account) s s'"
proof (cases "ml_parse ml raw")
  case None
  with run ok show ?thesis by (simp add: deliver_def grows_refl)
next
  case (Some parsed)
  note run' = run [unfolded deliver_def Some option.case Let_def]
  from run' show ?thesis
  proof (cases rule: proc_bind_cases)
    case panic
    with ok show ?thesis by (simp add: grows_refl)
  next
    case (error e)
    then show ?thesis by auto
  next
    case (step shash s1)
    then have s1: "s1 = s" by simp
    from step(2) show ?thesis
    proof (cases rule: proc_bind_cases)
      case panic
      then show ?thesis by (simp add: on_meta_run)
    next
      case (error e)
      with s1 ensure_mailbox_grows ok show ?thesis by (auto simp: on_meta_run)
    next
      case (step mb s2)
      with s1 ensure_mailbox_grows ok have g2: "grows ml (ra_id account) s s2" by (auto simp: on_meta_run)
      note ok2 = grows_ok [OF g2]
      from step(2) show ?thesis
      proof (cases rule: proc_bind_cases)
        case panic
        then show ?thesis by (simp add: on_meta_run)
      next
        case (error e)
        with find_or_create_thread_grows [OF _ pick ok2 thread_match.select_convs(1)] grows_trans [OF g2] show ?thesis
          by (auto simp: on_meta_run)
      next
        case (step th s3)
        with find_or_create_thread_grows [OF _ pick ok2 thread_match.select_convs(1)] grows_trans [OF g2] have g3: "grows ml (ra_id account) s s3"
          by (auto simp: on_meta_run)
        note ok3 = grows_ok [OF g3]
        from step(2) show ?thesis
        proof (cases rule: proc_bind_cases)
          case panic
          with seal_for_account_grows [OF _ ok3] grows_trans [OF g3] show ?thesis by blast
        next
          case (error e)
          with seal_for_account_grows [OF _ ok3] grows_trans [OF g3] show ?thesis by blast
        next
          case (step hw s4)
          with seal_for_account_grows [OF _ ok3] grows_trans [OF g3] have g4: "grows ml (ra_id account) s s4" by blast
          from step(2) show ?thesis
            using bad insert_message_fails_grows [OF _ grows_ok [OF g4]] grows_trans [OF g4]
            by (auto simp: on_meta_run split: prod.splits elim!: proc_bind_cases)
        qed
      qed
    qed
  qed
qed

text \<open>What a successful delivery has filed.\<close>

definition filed :: "recipient_account \<Rightarrow> inbound_envelope \<Rightarrow> string option \<Rightarrow> delivered_message \<Rightarrow>
    mail_store \<Rightarrow> mail_store \<Rightarrow> stored_message \<Rightarrow> bool" where
  "filed account envelope spam dm s s' m \<longleftrightarrow>
     messages (tables (ms_meta s')) = messages (tables (ms_meta s)) @ [m] \<and>
     msg_id m = dm_message_id dm \<and> blob_hash m = dm_blob_hash dm \<and>
     account_id m = ra_id account \<and>
     mail_from m = env_mail_from envelope \<and> rcpt_to m = env_rcpt_to envelope \<and>
     msg_keywords m = (if spam \<noteq> None then KEYWORD_JUNK else []) \<and>
     (\<exists>mb \<in> set (mailboxes (tables (ms_meta s'))). mb_id mb = mailbox_id m \<and>
        mb_account_id mb = ra_id account \<and> mb_role mb = (if spam \<noteq> None then ''junk'' else ''inbox'')) \<and>
     contents (ms_blobs s') (blob_hash m) \<noteq> None"

lemma deliver_succeeds:
  assumes run: "deliver ml rnd account envelope auth raw now spam scan s = (Returned (Inr dm), s')"
    and pick: "picks_member (ml_pick ml)" and ok: "mail_ok (ml_sha256_hex ml) s"
  shows "\<exists>m. filed account envelope spam dm s s' m \<and> mail_ok (ml_sha256_hex ml) s' \<and>
    rows_kept (ra_id account) (tables (ms_meta s)) (tables (ms_meta s')) \<and>
    (\<forall>k c. contents (ms_blobs s) k = Some c \<longrightarrow> contents (ms_blobs s') k = Some c) \<and>
    hpke_seal (ml_crypto ml) (sr_hpke rnd) (ra_account_pub account) (ra_key_id account) DEK_SEAL_INFO
      (sr_dek rnd) = Inr (dek_wrap m) \<and>
    (\<exists>sealed. aead_seal (ml_crypto ml) (sr_nonce rnd) (sr_dek rnd) 1 raw = Returned sealed \<and>
       blob_hash m = ml_sha256_hex ml sealed \<and>
       (contents (ms_blobs s') = contents (ms_blobs s) \<or>
        contents (ms_blobs s') = (contents (ms_blobs s))(blob_hash m \<mapsto> sealed)))"
  using run
proof (rule deliver_Inr)
  fix parsed :: parsed_message and shash and mb :: mailbox and th wrap d1 d2 d3 s1
  let ?role = "if spam \<noteq> None then ''junk'' else ''inbox''"
  let ?tm = "\<lparr>tm_account_id = ra_id account, tm_reference_ids = header_value_ids (p_in_reply_to parsed) @
      header_value_ids (p_references parsed), tm_subject_hash = shash\<rparr>"
  let ?new = "\<lparr>account_id = ra_id account, mailbox_id = mb_id mb, thread_id = th,
       blob_hash = dm_blob_hash dm, dek_wrap = wrap, mail_from = env_mail_from envelope,
       rcpt_to = env_rcpt_to envelope, remote_ip = env_remote_ip envelope,
       size_bytes = int (length raw), spf_result = ar_spf auth, dkim_result = ar_dkim auth,
       dmarc_result = ar_dmarc auth, received_at = now,
       msg_keywords = (if spam \<noteq> None then KEYWORD_JUNK else []),
       message_id_header = p_message_id parsed,
       in_reply_to = non_empty (join '' '' (header_value_ids (p_in_reply_to parsed))),
       references_header = non_empty (join '' '' (header_value_ids (p_references parsed))),
       subject_hash = shash, spam_score = sm_spam_score scan, av_clean = sm_av_clean scan\<rparr>"
  let ?m = "new_message.extend ?new \<lparr>msg_id = dm_message_id dm\<rparr>"
  assume e: "ensure_mailbox (ra_id account) ?role (ms_meta s) = (Inr mb, d1)"
    and f: "find_or_create_thread (ml_pick ml) ?tm d1 = (Inr th, d2)"
    and sl: "seal_for_account ml rnd (ra_account_pub account) (ra_key_id account) raw (s\<lparr>ms_meta := d2\<rparr>) =
       (Returned (Inr (dm_blob_hash dm, wrap)), s1)"
    and i: "insert_message ?new (ms_meta s1) = (Inr (dm_message_id dm), d3)"
    and s': "s' = s1\<lparr>ms_meta := d3\<rparr>"
  have g1: "grows ml (ra_id account) s (s\<lparr>ms_meta := d1\<rparr>)" by (rule ensure_mailbox_grows [OF e ok])
  have g2: "grows ml (ra_id account) (s\<lparr>ms_meta := d1\<rparr>) (s\<lparr>ms_meta := d2\<rparr>)"
    using find_or_create_thread_grows [of ml ?tm "s\<lparr>ms_meta := d1\<rparr>" "Inr th" d2 "ra_id account"] f pick grows_ok [OF g1]
    by simp
  have g3: "grows ml (ra_id account) (s\<lparr>ms_meta := d2\<rparr>) s1" by (rule seal_for_account_grows [OF sl grows_ok [OF g2]])
  have g: "grows ml (ra_id account) s s1" by (rule grows_trans [OF grows_trans [OF g1 g2] g3])
  have mb: "mb \<in> set (mailboxes (tables d1))" "mb_account_id mb = ra_id account" "mb_role mb = ?role"
    using ensure_mailbox_effect(2) [OF e refl] by simp_all
  have mbx: "set (mailboxes (tables d1)) \<subseteq> set (mailboxes (tables (ms_meta s1)))"
    using grows_trans [OF g2 g3] by (simp add: grows_def rows_kept_def)
  have mt: "ms_meta s1 = d2" using seal_for_account_meta(1) [OF sl] by simp
  have thr: "\<exists>h \<in> set (threads (tables d2)). th_id h = th \<and> th_account_id h = ra_id account"
    using find_or_create_thread_member [OF f pick] grows_ok [OF g1] by (simp add: mail_ok_def)
  define m where "m = ?m"
  have ins: "tables d3 = (tables (ms_meta s1))\<lparr>messages := messages (tables (ms_meta s1)) @ [m]\<rparr>"
    unfolding m_def by (rule insert_message_effect(1) [OF i])
  have sel: "msg_id m = dm_message_id dm" "blob_hash m = dm_blob_hash dm" "account_id m = ra_id account"
    "thread_id m = th" "mailbox_id m = mb_id mb" "dek_wrap m = wrap" "mail_from m = env_mail_from envelope"
    "rcpt_to m = env_rcpt_to envelope" "msg_keywords m = (if spam \<noteq> None then KEYWORD_JUNK else [])"
    by (simp_all add: m_def new_message.extend_def)
  obtain sealed where sd: "aead_seal (ml_crypto ml) (sr_nonce rnd) (sr_dek rnd) 1 raw = Returned sealed"
    "dm_blob_hash dm = ml_sha256_hex ml sealed" "contents (ms_blobs s1) (dm_blob_hash dm) \<noteq> None"
    "contents (ms_blobs s1) = contents (ms_blobs s) \<or>
       contents (ms_blobs s1) = (contents (ms_blobs s))(dm_blob_hash dm \<mapsto> sealed)"
    "hpke_seal (ml_crypto ml) (sr_hpke rnd) (ra_account_pub account) (ra_key_id account) DEK_SEAL_INFO
      (sr_dek rnd) = Inr wrap"
    using sl by (rule seal_for_account_Inr) simp
  have "filed account envelope spam dm s s' m"
    unfolding filed_def sel
    using g ins mb mbx sd(3) by (auto simp: s' grows_def)
  moreover have "mail_ok (ml_sha256_hex ml) s'"
  proof -
    have "meta_ok (tables d3)"
      using insert_message_ok [OF i] grows_ok [OF g] by (simp add: mail_ok_def)
    moreover have "threads_ok (tables d3)"
      using grows_ok [OF g] thr by (simp add: ins mt threads_ok_def mail_ok_def sel)
    ultimately show ?thesis using grows_ok [OF g] by (simp add: mail_ok_def s')
  qed
  moreover have "\<forall>k c. contents (ms_blobs s) k = Some c \<longrightarrow> contents (ms_blobs s') k = Some c"
    using g by (simp add: grows_def s')
  moreover have "rows_kept (ra_id account) (tables (ms_meta s)) (tables (ms_meta s'))"
    using g by (simp add: grows_def rows_kept_def s' ins)
  ultimately show ?thesis
    using sd by (intro exI [of _ m] conjI exI [of _ sealed]) (simp_all add: sel s')
qed

section \<open>Success without faults\<close>

lemma find_or_create_thread_no_faults:
  assumes "faults d = []"
  shows "\<exists>i d'. find_or_create_thread pick m d = (Inr i, d') \<and> faults d' = []"
proof -
  have c: "\<exists>i d'. create_thread a d = (Inr i, d') \<and> faults d' = []" if "faults d = []" for a d
    using that by (simp add: create_thread_def split: prod.splits)
  have r: "\<exists>x. thread_by_reference pick a ids d = (Inr x, d)" for a ids
    using assms by (simp add: thread_by_reference_def)
  have t: "\<exists>x. thread_by_subject_hash a h d = (Inr x, d)" for a h
    using assms by (simp add: thread_by_subject_hash_def)
  obtain x where x: "thread_by_reference pick (tm_account_id m) (tm_reference_ids m) d = (Inr x, d)"
    using r by blast
  obtain y where y: "(case tm_subject_hash m of None \<Rightarrow> (\<lambda>d. (Inr None, d))
      | Some hash \<Rightarrow> thread_by_subject_hash (tm_account_id m) hash) d = (Inr y, d)"
    using t by (cases "tm_subject_hash m") auto
  show ?thesis
    using c [OF assms, of "tm_account_id m"] assms
    by (cases x; cases y) (auto simp: find_or_create_thread_def op_bind_def x y)
qed

lemma insert_message_no_faults:
  "faults d = [] \<Longrightarrow> \<exists>i d'. insert_message m d = (Inr i, d') \<and> faults d' = []"
  by (simp add: insert_message_def split: prod.splits)

definition no_faults :: "mail_store \<Rightarrow> bool" where
  "no_faults s \<longleftrightarrow> io_faults (ms_blobs s) = [] \<and> faults (ms_meta s) = []"

lemma deliver_no_faults:
  assumes "ml_parse ml raw = Some parsed"
    and "subject_hash_of ml (ra_account_pub account) (p_subject parsed) = Returned shash"
    and "aead_seal (ml_crypto ml) (sr_nonce rnd) (sr_dek rnd) 1 raw = Returned sealed"
    and "hpke_seal (ml_crypto ml) (sr_hpke rnd) (ra_account_pub account) (ra_key_id account) DEK_SEAL_INFO
      (sr_dek rnd) = Inr wrap"
    and "hex_hash (ml_sha256_hex ml)" and "no_faults s"
  shows "\<exists>dm s'. deliver ml rnd account envelope auth raw now spam scan s = (Returned (Inr dm), s') \<and> no_faults s'"
proof -
  let ?role = "if spam \<noteq> None then ''junk'' else ''inbox''"
  have f0: "faults (ms_meta s) = []" "io_faults (ms_blobs s) = []" using assms(6) by (simp_all add: no_faults_def)
  have "?role \<in> fst ` set SYSTEM_ROLES" by (simp add: SYSTEM_ROLES_def)
  then obtain mb d1 where 1: "ensure_mailbox (ra_id account) ?role (ms_meta s) = (Inr mb, d1)" "faults d1 = []"
    using ensure_mailbox_no_faults [OF f0(1)] by blast
  let ?tm = "\<lparr>tm_account_id = ra_id account, tm_reference_ids = header_value_ids (p_in_reply_to parsed) @
      header_value_ids (p_references parsed), tm_subject_hash = shash\<rparr>"
  obtain th d2 where 2: "find_or_create_thread (ml_pick ml) ?tm d1 = (Inr th, d2)" "faults d2 = []"
    using find_or_create_thread_no_faults [OF 1(2)] by blast
  obtain b where 3: "blob_write (ml_sha256_hex ml) (sr_torn rnd) sealed (ms_blobs s) =
      (Inr (ml_sha256_hex ml sealed), b)" "io_faults b = []"
    using blob_write_no_faults [OF assms(5) f0(2)] by blast
  have 4: "seal_for_account ml rnd (ra_account_pub account) (ra_key_id account) raw (s\<lparr>ms_meta := d2\<rparr>) =
      (Returned (Inr (ml_sha256_hex ml sealed, wrap)), s\<lparr>ms_blobs := b, ms_meta := d2\<rparr>)"
    by (simp add: seal_for_account_def proc_bind_def proc_pan_def proc_return_def on_blobs_def lift_op_def
        zoom_def assms(3,4) 3)
  obtain i d3 where 5: "insert_message
      \<lparr>account_id = ra_id account, mailbox_id = mb_id mb, thread_id = th,
       blob_hash = ml_sha256_hex ml sealed, dek_wrap = wrap, mail_from = env_mail_from envelope,
       rcpt_to = env_rcpt_to envelope, remote_ip = env_remote_ip envelope,
       size_bytes = int (length raw), spf_result = ar_spf auth, dkim_result = ar_dkim auth,
       dmarc_result = ar_dmarc auth, received_at = now,
       msg_keywords = (if spam \<noteq> None then KEYWORD_JUNK else []),
       message_id_header = p_message_id parsed,
       in_reply_to = non_empty (join '' '' (header_value_ids (p_in_reply_to parsed))),
       references_header = non_empty (join '' '' (header_value_ids (p_references parsed))),
       subject_hash = shash, spam_score = sm_spam_score scan, av_clean = sm_av_clean scan\<rparr> d2 = (Inr i, d3)"
      "faults d3 = []"
    using insert_message_no_faults [OF 2(2)] by blast
  have "deliver ml rnd account envelope auth raw now spam scan s =
      (Returned (Inr \<lparr>dm_message_id = i, dm_blob_hash = ml_sha256_hex ml sealed\<rparr>), s\<lparr>ms_blobs := b, ms_meta := d3\<rparr>)"
  proof -
    have a0: "proc_pan (subject_hash_of ml (ra_account_pub account) (p_subject parsed)) s = (Returned (Inr shash), s)"
      by (simp add: assms(2))
    have a1: "on_meta (ensure_mailbox (ra_id account) ?role) s = (Returned (Inr mb), s\<lparr>ms_meta := d1\<rparr>)"
      unfolding on_meta_run 1(1) by simp
    have a2: "on_meta (find_or_create_thread (ml_pick ml) ?tm) (s\<lparr>ms_meta := d1\<rparr>) =
        (Returned (Inr th), s\<lparr>ms_meta := d2\<rparr>)"
      unfolding on_meta_run using 2(1) by simp
    have a5: "on_meta (insert_message m) (s\<lparr>ms_blobs := b, ms_meta := d2\<rparr>) =
        (Returned (Inr i), s\<lparr>ms_blobs := b, ms_meta := d3\<rparr>)" if "insert_message m d2 = (Inr i, d3)" for m
      unfolding on_meta_run using that by simp
    show ?thesis
      unfolding deliver_def assms(1) option.case Let_def
      by (simp only: proc_bind_ok a0 a1 a2 4 prod.case a5 [OF 5(1)] proc_return_def)
  qed
  with 3(2) 5(2) show ?thesis by (auto simp: no_faults_def)
qed

section \<open>Properties\<close>

text \<open>C17: a delivery is all or nothing for the mailbox: it either files exactly one new message, in the
  recipient account's inbox (the junk mailbox, tagged, when the message was judged spam), with its blob in
  the store, or, on every error and panic, leaves the list of messages as it was. In all cases the
  stored blobs stay, every mailbox and thread row stays and what is added there belongs to the recipient's
  account, the other tables are as they were, and the invariant of the mail store (intact blobs, unique ids,
  threads that never mix accounts) is kept.\<close>

theorem deliver_all_or_nothing:
  assumes "deliver ml rnd account envelope auth raw now spam scan s = (r, s')"
    and "picks_member (ml_pick ml)" and "mail_ok (ml_sha256_hex ml) s"
  shows "mail_ok (ml_sha256_hex ml) s' \<and>
    (\<forall>k c. contents (ms_blobs s) k = Some c \<longrightarrow> contents (ms_blobs s') k = Some c) \<and>
    rows_kept (ra_id account) (tables (ms_meta s)) (tables (ms_meta s')) \<and>
    (case r of
       Returned (Inr dm) \<Rightarrow> \<exists>m. filed account envelope spam dm s s' m
     | _ \<Rightarrow> messages (tables (ms_meta s')) = messages (tables (ms_meta s)))"
proof (cases "\<exists>dm. r = Returned (Inr dm)")
  case True
  then obtain dm where r: "r = Returned (Inr dm)" by blast
  from deliver_succeeds [OF assms(1) [unfolded r] assms(2,3)] show ?thesis unfolding r by auto
next
  case False
  then have "grows ml (ra_id account) s s'" using deliver_fails [OF assms] by blast
  with False show ?thesis by (auto simp: grows_def split: pan.splits sum.splits)
qed

definition sample_parsed :: parsed_message where
  "sample_parsed = \<lparr>p_message_id = Some ''<1@b.c>'', p_in_reply_to = OtherHeader,
     p_references = TextList [''<0@b.c>''], p_subject = None\<rparr>"

definition sample_mail_lib :: mail_lib where
  "sample_mail_lib = \<lparr>ml_crypto = sample_lib, ml_sha256_hex = sample_hash, ml_parse = (\<lambda>_. Some sample_parsed),
     ml_lowercase = to_ascii_lowercase, ml_pick = (\<lambda>rows. case rows of [] \<Rightarrow> None | r # _ \<Rightarrow> Some r)\<rparr>"

definition sample_random :: seal_random where
  "sample_random = \<lparr>sr_dek = replicate 32 (CHR ''d''), sr_nonce = sample_nonce, sr_hpke = [], sr_torn = 0\<rparr>"

definition empty_store :: mail_store where
  "empty_store = \<lparr>ms_blobs = \<lparr>files = Map.empty, io_faults = [], process_id = ''7''\<rparr>,
     ms_meta = \<lparr>tables = meta_empty, faults = []\<rparr>\<rparr>"

definition sample_account :: recipient_account where
  "sample_account = \<lparr>ra_id = 4, ra_account_pub = snd (gen_keypair sample_lib []), ra_key_id = 1\<rparr>"

definition sample_envelope :: inbound_envelope where
  "sample_envelope = \<lparr>env_mail_from = ''a@b.c'', env_rcpt_to = ''d@e.f'', env_remote_ip = ''192.0.2.1''\<rparr>"

lemma sample_mail_lib_ok:
  "picks_member (ml_pick sample_mail_lib)" "hex_hash (ml_sha256_hex sample_mail_lib)"
  "aead_correct (ml_crypto sample_mail_lib)" "hpke_correct (ml_crypto sample_mail_lib)"
  using sample_hash_hex sample_lib_correct
  by (auto simp: sample_mail_lib_def picks_member_def split: list.splits)

lemma empty_store_ok: "mail_ok h empty_store" "no_faults empty_store"
  by (simp_all add: mail_ok_def empty_store_def blobs_intact_def contents_def meta_ok_def meta_empty_def
      mailboxes_ok_def threads_ok_def no_faults_def)

lemma sample_delivery:
  "\<exists>dm s'. deliver sample_mail_lib sample_random sample_account sample_envelope auth raw now spam scan
     empty_store = (Returned (Inr dm), s') \<and> no_faults s'"
proof (rule deliver_no_faults)
  show "ml_parse sample_mail_lib raw = Some sample_parsed" by (simp add: sample_mail_lib_def)
  show "subject_hash_of sample_mail_lib (ra_account_pub sample_account) (p_subject sample_parsed) = Returned None"
    by (simp add: subject_hash_of_def sample_parsed_def)
  show "aead_seal (ml_crypto sample_mail_lib) (sr_nonce sample_random) (sr_dek sample_random) 1 raw =
      Returned (header_encode (header_new XChaCha20Poly1305 1 (sr_nonce sample_random)) @
        sr_dek sample_random @ sr_nonce sample_random @ raw)"
    by (simp add: aead_seal_def sample_mail_lib_def sample_lib_def)
  show "hpke_seal (ml_crypto sample_mail_lib) (sr_hpke sample_random) (ra_account_pub sample_account)
      (ra_key_id sample_account) DEK_SEAL_INFO (sr_dek sample_random) =
      Inr (header_encode (header_new HpkeX25519Sha256ChaCha20Poly1305 (ra_key_id sample_account)
        (replicate 32 (CHR ''e''))) @ ra_account_pub sample_account @ DEK_SEAL_INFO @ sr_dek sample_random)"
    by (simp add: hpke_seal_def sample_mail_lib_def sample_lib_def)
qed (rule sample_mail_lib_ok(2) empty_store_ok(2))+

theorem deliver_all_or_nothing_witness:
  "\<exists>dm s' m. deliver sample_mail_lib sample_random sample_account sample_envelope
      \<lparr>ar_spf = ''pass'', ar_dkim = ''none'', ar_dmarc = ''pass''\<rparr> ''hello'' 5 (Some ''bulk'')
      \<lparr>sm_spam_score = None, sm_av_clean = None\<rparr> empty_store = (Returned (Inr dm), s') \<and>
    filed sample_account sample_envelope (Some ''bulk'') dm empty_store s' m"
proof -
  obtain dm s' where r: "deliver sample_mail_lib sample_random sample_account sample_envelope
      \<lparr>ar_spf = ''pass'', ar_dkim = ''none'', ar_dmarc = ''pass''\<rparr> ''hello'' 5 (Some ''bulk'')
      \<lparr>sm_spam_score = None, sm_av_clean = None\<rparr> empty_store = (Returned (Inr dm), s')"
    using sample_delivery by blast
  from deliver_all_or_nothing [OF r sample_mail_lib_ok(1) empty_store_ok(1)] r show ?thesis by auto
qed

lemma deliver_opens:
  assumes "aead_correct (ml_crypto ml)" and "hpke_correct (ml_crypto ml)" and "hex_hash (ml_sha256_hex ml)"
    and "picks_member (ml_pick ml)"
    and "gen_keypair (ml_crypto ml) r = (sk, ra_account_pub account)"
    and "length (sr_dek rnd) = 32" and "length (sr_nonce rnd) = 24"
    and "ml_parse ml raw = Some parsed"
    and "subject_hash_of ml (ra_account_pub account) (p_subject parsed) = Returned shash"
    and "aead_seal (ml_crypto ml) (sr_nonce rnd) (sr_dek rnd) 1 raw = Returned sealed"
    and "hpke_seal (ml_crypto ml) (sr_hpke rnd) (ra_account_pub account) (ra_key_id account) DEK_SEAL_INFO
      (sr_dek rnd) = Inr wrap"
    and "mail_ok (ml_sha256_hex ml) s" and "no_faults s" and "no_collision ml rnd raw s"
  shows "\<exists>dm s' m. deliver ml rnd account envelope auth raw now spam scan s = (Returned (Inr dm), s') \<and> no_faults s' \<and>
    filed account envelope spam dm s s' m \<and> mail_ok (ml_sha256_hex ml) s' \<and>
    tbl_get msg_id (dm_message_id dm) (messages (tables (ms_meta s'))) = Some m \<and>
    (\<forall>s''. mail_ok (ml_sha256_hex ml) s'' \<longrightarrow> no_faults s'' \<longrightarrow>
       (\<forall>k c. contents (ms_blobs s') k = Some c \<longrightarrow> contents (ms_blobs s'') k = Some c) \<longrightarrow>
       open_message ml m sk s'' = (Returned (Inr raw), s''))"
proof -
  obtain dm s' where run: "deliver ml rnd account envelope auth raw now spam scan s = (Returned (Inr dm), s')"
    and nf: "no_faults s'"
    using deliver_no_faults [OF assms(8-11,3,13)] by blast
  obtain m sealed' where m: "filed account envelope spam dm s s' m" "mail_ok (ml_sha256_hex ml) s'"
      "hpke_seal (ml_crypto ml) (sr_hpke rnd) (ra_account_pub account) (ra_key_id account) DEK_SEAL_INFO
        (sr_dek rnd) = Inr (dek_wrap m)"
      "aead_seal (ml_crypto ml) (sr_nonce rnd) (sr_dek rnd) 1 raw = Returned sealed'"
      "blob_hash m = ml_sha256_hex ml sealed'"
      "contents (ms_blobs s') = contents (ms_blobs s) \<or>
        contents (ms_blobs s') = (contents (ms_blobs s))(blob_hash m \<mapsto> sealed')"
    using deliver_succeeds [OF run assms(4,12)] by blast
  have ne: "contents (ms_blobs s') (blob_hash m) \<noteq> None" using m(1) unfolding filed_def by blast
  have "contents (ms_blobs s) (blob_hash m) \<in> {None, Some sealed'}"
    using assms(14) m(4,5) by (simp add: no_collision_def)
  with m(6) ne have held: "contents (ms_blobs s') (blob_hash m) = Some sealed'" by auto
  have get: "tbl_get msg_id (dm_message_id dm) (messages (tables (ms_meta s'))) = Some m"
    using tbl_get_unique [of msg_id "messages (tables (ms_meta s'))" m] m(1,2)
    by (simp add: filed_def mail_ok_def meta_ok_def)
  have "open_message ml m sk s'' = (Returned (Inr raw), s'')"
    if "mail_ok (ml_sha256_hex ml) s''" "no_faults s''"
      "\<forall>k c. contents (ms_blobs s') k = Some c \<longrightarrow> contents (ms_blobs s'') k = Some c" for s''
    unfolding open_message_def
    by (rule open_blob_stored [OF assms(1,2,5,6,7) m(4,3)])
      (use that held in \<open>simp_all add: mail_ok_def no_faults_def\<close>)
  with run nf get m(1,2) show ?thesis by blast
qed

text \<open>what was delivered can be read: without storage failures a parseable message with a subject that
  normalises is filed, and its row opens, with the account's private key, to exactly the bytes
  received, then and in every later state that still holds the blobs.\<close>

theorem deliver_then_open:
  assumes "aead_correct (ml_crypto ml)" and "hpke_correct (ml_crypto ml)" and "hex_hash (ml_sha256_hex ml)"
    and "picks_member (ml_pick ml)"
    and "gen_keypair (ml_crypto ml) r = (sk, ra_account_pub account)"
    and "length (sr_dek rnd) = 32" and "length (sr_nonce rnd) = 24"
    and "ml_parse ml raw = Some parsed"
    and "subject_hash_of ml (ra_account_pub account) (p_subject parsed) = Returned shash"
    and "aead_seal (ml_crypto ml) (sr_nonce rnd) (sr_dek rnd) 1 raw = Returned sealed"
    and "hpke_seal (ml_crypto ml) (sr_hpke rnd) (ra_account_pub account) (ra_key_id account) DEK_SEAL_INFO
      (sr_dek rnd) = Inr wrap"
    and "mail_ok (ml_sha256_hex ml) s" and "no_faults s" and "no_collision ml rnd raw s"
  shows "\<exists>dm s' m. deliver ml rnd account envelope auth raw now spam scan s = (Returned (Inr dm), s') \<and>
    tbl_get msg_id (dm_message_id dm) (messages (tables (ms_meta s'))) = Some m \<and>
    account_id m = ra_id account \<and>
    (\<forall>s''. mail_ok (ml_sha256_hex ml) s'' \<longrightarrow> no_faults s'' \<longrightarrow>
       (\<forall>k c. contents (ms_blobs s') k = Some c \<longrightarrow> contents (ms_blobs s'') k = Some c) \<longrightarrow>
       open_message ml m sk s'' = (Returned (Inr raw), s''))"
  using deliver_opens [OF assms, of envelope auth now spam scan] unfolding filed_def by blast

theorem deliver_then_open_witness:
  "\<exists>dm s' m. deliver sample_mail_lib sample_random sample_account sample_envelope
      \<lparr>ar_spf = ''pass'', ar_dkim = ''none'', ar_dmarc = ''pass''\<rparr> ''hello'' 5 None
      \<lparr>sm_spam_score = None, sm_av_clean = None\<rparr> empty_store = (Returned (Inr dm), s') \<and>
    tbl_get msg_id (dm_message_id dm) (messages (tables (ms_meta s'))) = Some m \<and> account_id m = 4"
proof -
  let ?ml = sample_mail_lib and ?rnd = sample_random and ?a = sample_account and ?raw = "''hello''"
  have kp: "gen_keypair (ml_crypto ?ml) [] = (fst (gen_keypair sample_lib []), ra_account_pub ?a)"
    by (simp add: sample_mail_lib_def sample_account_def)
  have l: "length (sr_dek ?rnd) = 32" "length (sr_nonce ?rnd) = 24"
    by (simp_all add: sample_random_def sample_nonce_def)
  have p: "ml_parse ?ml ?raw = Some sample_parsed" by (simp add: sample_mail_lib_def)
  have sh: "subject_hash_of ?ml (ra_account_pub ?a) (p_subject sample_parsed) = Returned None"
    by (simp add: subject_hash_of_def sample_parsed_def)
  obtain sealed where sd: "aead_seal (ml_crypto ?ml) (sr_nonce ?rnd) (sr_dek ?rnd) 1 ?raw = Returned sealed"
    by (simp add: aead_seal_def sample_mail_lib_def sample_lib_def)
  obtain wrap where w: "hpke_seal (ml_crypto ?ml) (sr_hpke ?rnd) (ra_account_pub ?a) (ra_key_id ?a)
      DEK_SEAL_INFO (sr_dek ?rnd) = Inr wrap"
    by (simp add: hpke_seal_def sample_mail_lib_def sample_lib_def)
  have nc: "no_collision ?ml ?rnd ?raw empty_store"
    by (simp add: no_collision_def empty_store_def contents_def)
  have id: "ra_id ?a = 4" by (simp add: sample_account_def)
  from deliver_then_open [OF sample_mail_lib_ok(3,4,2,1) kp l p sh sd w empty_store_ok nc] id
  show ?thesis by metis
qed

end
