(* ===== verification/Smtp_Wire.thy ===== *)
theory Smtp_Wire
  imports Rust_Str
begin

text \<open>
  The wire level of the two SMTP servers (\<open>smtp-in/src/session.rs\<close>; \<open>submission/src/session.rs\<close> has the
  same functions word for word): bounded line reading, the DATA phase with its dot-unstuffing and size
  limit, replies, and the split of a command line.

  A connection is a record: the bytes in the \<open>BufReader\<close> (\<open>rbuf\<close>), what the coming reads of the socket
  return (\<open>rpend\<close>, one chunk per read, the empty chunk being an end of file), whether the reads after
  those fail or report the end of file (\<open>rfail\<close>), the lines written so far (\<open>sent\<close>) and how many more
  writes the peer accepts (\<open>wleft\<close>). Every theorem is over all connections, so over every way the bytes
  can be cut into segments.
\<close>

section \<open>Definitions\<close>

record conn =
  rbuf :: bytes
  rpend :: "bytes list"
  rfail :: bool
  sent :: "bytes list"
  wleft :: nat

datatype read_result = Byte char | Eof | ReadError

definition read_byte :: "conn \<Rightarrow> read_result \<times> conn" where
  "read_byte c =
     (case rbuf c of
        b # bs \<Rightarrow> (Byte b, c\<lparr>rbuf := bs\<rparr>)
      | [] \<Rightarrow>
          (case rpend c of
             [] \<Rightarrow> (if rfail c then ReadError else Eof, c)
           | [] # cs \<Rightarrow> (Eof, c\<lparr>rpend := cs\<rparr>)
           | (b # bs) # cs \<Rightarrow> (Byte b, c\<lparr>rbuf := bs, rpend := cs\<rparr>)))"

definition remaining :: "conn \<Rightarrow> nat" where
  "remaining c = length (rbuf c) + length (concat (rpend c))"

lemma read_byte_remaining:
  "read_byte c = (Byte b, c') \<Longrightarrow> remaining c = Suc (remaining c')"
  by (auto simp: read_byte_def remaining_def split: list.splits if_splits)

lemma read_byte_remaining_le: "read_byte c = (r, c') \<Longrightarrow> remaining c' \<le> remaining c"
  by (auto simp: read_byte_def remaining_def split: list.splits if_splits)

text \<open>\<open>Line\<close> is \<open>Ok(true)\<close>, \<open>LineEof\<close> is \<open>Ok(false)\<close>; \<open>LineError\<close> is a read error or a line past the limit.\<close>

datatype line_result = Line bytes | LineEof | LineError

function read_line_from :: "nat \<Rightarrow> bytes \<Rightarrow> conn \<Rightarrow> line_result \<times> conn" where
  "read_line_from max_len out c =
     (case read_byte c of
        (Eof, c') \<Rightarrow> (LineEof, c')
      | (ReadError, c') \<Rightarrow> (LineError, c')
      | (Byte b, c') \<Rightarrow>
          (let out' = out @ [b] in
           if b = CHR 0x0A then (Line out', c')
           else if length out' > max_len then (LineError, c')
           else read_line_from max_len out' c'))"
  by pat_completeness auto
termination
  by (relation "measure (\<lambda>(m, out, c). remaining c)") (auto dest: read_byte_remaining [OF sym])

declare read_line_from.simps [simp del]

definition read_line_bounded :: "nat \<Rightarrow> conn \<Rightarrow> line_result \<times> conn" where
  "read_line_bounded max_len c = read_line_from max_len [] c"

definition MAX_COMMAND_LINE :: nat where "MAX_COMMAND_LINE = 4096"

definition MAX_DATA_LINE :: nat where "MAX_DATA_LINE = 65536"

definition MAX_RECIPIENTS :: nat where "MAX_RECIPIENTS = 100"

lemma read_line_from_remaining:
  "read_line_from m out c = (r, c') \<Longrightarrow> remaining c' \<le> remaining c \<and> (r = Line l \<longrightarrow> remaining c' < remaining c)"
proof (induction m out c rule: read_line_from.induct)
  case (1 m out c)
  obtain x d where rb: "read_byte c = (x, d)" by (cases "read_byte c")
  show ?case
  proof (cases x)
    case (Byte b)
    note rem = read_byte_remaining [OF rb [unfolded Byte]]
    show ?thesis
    proof (cases "b = CHR 0x0A \<or> length (out @ [b]) > m")
      case True
      with "1.prems" rb Byte rem show ?thesis
        by (subst (asm) read_line_from.simps) (auto simp: Let_def split: if_splits)
    next
      case False
      with "1.prems" rb Byte have "read_line_from m (out @ [b]) d = (r, c')"
        by (subst (asm) read_line_from.simps) (auto simp: Let_def)
      with "1.IH" [OF rb [symmetric] Byte refl] False rem show ?thesis by auto
    qed
  next
    case Eof
    with "1.prems" rb read_byte_remaining_le [OF rb] show ?thesis
      by (subst (asm) read_line_from.simps) auto
  next
    case ReadError
    with "1.prems" rb read_byte_remaining_le [OF rb] show ?thesis
      by (subst (asm) read_line_from.simps) auto
  qed
qed

lemma read_line_remaining:
  "read_line_bounded m c = (r, c') \<Longrightarrow> remaining c' \<le> remaining c"
  "read_line_bounded m c = (Line l, c') \<Longrightarrow> remaining c' < remaining c"
  using read_line_from_remaining unfolding read_line_bounded_def by blast+

text \<open>The DATA phase.\<close>

datatype data_error = TooLarge | IoError

function read_data_from :: "nat \<Rightarrow> bytes \<Rightarrow> conn \<Rightarrow> (data_error + bytes) \<times> conn" where
  "read_data_from max_size out c =
     (case read_line_bounded MAX_DATA_LINE c of
        (LineError, c') \<Rightarrow> (Inl TooLarge, c')
      | (LineEof, c') \<Rightarrow> (Inl IoError, c')
      | (Line line, c') \<Rightarrow>
          (if line = [CHR ''.'', CHR 0x0D, CHR 0x0A] \<or> line = [CHR ''.'', CHR 0x0A] then (Inr out, c')
           else let content = (if take 1 line = ''.'' then drop 1 line else line) in
             if length out + length content > max_size then (Inl TooLarge, c')
             else read_data_from max_size (out @ content) c'))"
  by pat_completeness auto
termination
  by (relation "measure (\<lambda>(m, out, c). remaining c)") (auto dest: read_line_remaining(2) [OF sym])

declare read_data_from.simps [simp del]

definition read_data :: "nat \<Rightarrow> conn \<Rightarrow> (data_error + bytes) \<times> conn" where
  "read_data max_size c = read_data_from max_size [] c"

text \<open>Replies: \<open>True\<close> is a write that the peer accepted.\<close>

definition write_all :: "bytes \<Rightarrow> conn \<Rightarrow> bool \<times> conn" where
  "write_all bs c =
     (if wleft c = 0 then (False, c) else (True, c\<lparr>sent := sent c @ [bs], wleft := wleft c - 1\<rparr>))"

definition write_reply :: "nat \<Rightarrow> bytes \<Rightarrow> conn \<Rightarrow> bool \<times> conn" where
  "write_reply code text = write_all (show_nat code @ '' '' @ text @ [CHR 0x0D, CHR 0x0A])"

fun write_multiline_reply :: "nat \<Rightarrow> bytes list \<Rightarrow> conn \<Rightarrow> bool \<times> conn" where
  "write_multiline_reply code [] c = (True, c)"
| "write_multiline_reply code (text # lines) c =
     (let sep = (if lines = [] then CHR '' '' else CHR ''-'') in
      case write_all (show_nat code @ [sep] @ text @ [CHR 0x0D, CHR 0x0A]) c of
        (False, c') \<Rightarrow> (False, c')
      | (True, c') \<Rightarrow> write_multiline_reply code lines c')"

text \<open>Splitting a command line. The space is an ASCII byte, so both slices are at character boundaries.\<close>

definition split_command :: "bytes \<Rightarrow> bytes \<times> bytes" where
  "split_command line =
     (case split_once (CHR '' '') line of Some (verb, rest) \<Rightarrow> (verb, trim rest) | None \<Rightarrow> (line, []))"

definition parse_addr_param :: "bytes \<Rightarrow> bytes \<Rightarrow> bytes option pan" where
  "parse_addr_param rest0 prefix =
     (let rest = trim rest0 in
      if length rest < length prefix then Returned None
      else pan_bind (slice_to rest (length prefix)) (\<lambda>p.
        if \<not> eq_ignore_ascii_case p prefix then Returned None
        else pan_bind (slice_from rest (length prefix)) (\<lambda>tl.
          Returned (case strip_prefix ''<'' (trim_start tl) of
                      None \<Rightarrow> None
                    | Some after \<Rightarrow> map_option fst (split_once (CHR ''>'') after)))))"

text \<open>The text of a command line: decoded, without the line end.\<close>

definition line_text :: "bytes \<Rightarrow> bytes" where
  "line_text line = trim_end_matches (\<lambda>c. c = CHR 0x0D \<or> c = CHR 0x0A) (from_utf8_lossy line)"

section \<open>Bounded lines\<close>

text \<open>The bytes a connection delivers before an end of file or an error, whatever the segmentation.\<close>

definition inflow :: "conn \<Rightarrow> bytes" where
  "inflow c = rbuf c @ concat (takeWhile (\<lambda>x. x \<noteq> []) (rpend c))"

definition breaks :: "conn \<Rightarrow> bool" where
  "breaks c \<longleftrightarrow> rfail c \<and> [] \<notin> set (rpend c)"

definition same_writer :: "conn \<Rightarrow> conn \<Rightarrow> bool" where
  "same_writer c c' \<longleftrightarrow> sent c' = sent c \<and> wleft c' = wleft c"

lemma same_writer_refl [simp]: "same_writer c c"
  by (simp add: same_writer_def)

lemma same_writer_trans: "same_writer c d \<Longrightarrow> same_writer d e \<Longrightarrow> same_writer c e"
  by (simp add: same_writer_def)

lemma read_byte_inflow_Nil:
  assumes "inflow c = []"
  shows "fst (read_byte c) = (if breaks c then ReadError else Eof)"
proof -
  have b: "rbuf c = []" using assms by (simp add: inflow_def)
  show ?thesis
  proof (cases "rpend c")
    case (Cons x xs)
    have "x = []" using assms Cons by (cases x) (simp_all add: inflow_def)
    with b Cons show ?thesis by (simp add: read_byte_def breaks_def)
  qed (simp add: b read_byte_def breaks_def)
qed

lemma read_byte_inflow_Cons:
  assumes "inflow c = b # bs"
  obtains d where "read_byte c = (Byte b, d)" "inflow d = bs" "breaks d = breaks c"
    "same_writer c d" "remaining c = Suc (remaining d)"
proof -
  have "\<exists>d. read_byte c = (Byte b, d) \<and> inflow d = bs \<and> breaks d = breaks c \<and> same_writer c d"
  proof (cases "rbuf c")
    case (Cons x xs)
    with assms show ?thesis by (simp add: read_byte_def inflow_def breaks_def same_writer_def)
  next
    case Nil
    with assms obtain x xs cs where "rpend c = (x # xs) # cs"
      by (cases "rpend c"; cases "hd (rpend c)") (simp_all add: inflow_def)
    with Nil assms show ?thesis by (simp add: read_byte_def inflow_def breaks_def same_writer_def)
  qed
  then obtain d where d: "read_byte c = (Byte b, d)" "inflow d = bs" "breaks d = breaks c" "same_writer c d"
    by blast
  with read_byte_remaining [OF d(1)] show thesis by (intro that)
qed

lemma read_byte_writer: "read_byte c = (r, d) \<Longrightarrow> same_writer c d"
  by (auto simp: read_byte_def same_writer_def split: list.splits if_splits)

lemma read_byte_stop: "read_byte c = (x, d) \<Longrightarrow> (\<And>b. x \<noteq> Byte b) \<Longrightarrow> remaining c = remaining d"
  by (auto simp: read_byte_def remaining_def split: list.splits if_splits)

text \<open>The whole line reader in closed form.\<close>

definition line_of :: "nat \<Rightarrow> bytes \<Rightarrow> bool \<Rightarrow> line_result" where
  "line_of m s broken =
     (let k = takeWhile (\<lambda>b. b \<noteq> CHR 0x0A) s in
      if m < length k then LineError
      else if k = s then (if broken then LineError else LineEof)
      else Line (k @ [CHR 0x0A]))"

lemma read_line_from_flat:
  assumes "length out \<le> m"
  shows "\<exists>d. read_line_from m out c =
      ((case line_of (m - length out) (inflow c) (breaks c) of Line l \<Rightarrow> Line (out @ l) | r \<Rightarrow> r), d) \<and>
      same_writer c d \<and> remaining c \<le> remaining d + Suc (m - length out) \<and>
      (\<forall>l. line_of (m - length out) (inflow c) (breaks c) = Line l \<longrightarrow>
         inflow c = l @ inflow d \<and> breaks d = breaks c)"
  using assms
proof (induction "inflow c" arbitrary: c out)
  case Nil
  obtain x d where rb: "read_byte c = (x, d)" by (cases "read_byte c")
  have x: "x = (if breaks c then ReadError else Eof)"
    using read_byte_inflow_Nil [OF Nil(1) [symmetric]] rb by simp
  have "remaining c = remaining d"
    by (rule read_byte_stop [OF rb]) (simp add: x)
  moreover have "line_of (m - length out) (inflow c) (breaks c) = (if breaks c then LineError else LineEof)"
    using Nil(1) [symmetric] by (simp add: line_of_def)
  ultimately show ?case
    using read_byte_writer [OF rb] by (subst read_line_from.simps) (simp add: rb x)
next
  case (Cons b bs)
  obtain d where d: "read_byte c = (Byte b, d)" "inflow d = bs" "breaks d = breaks c"
    "same_writer c d" "remaining c = Suc (remaining d)"
    using read_byte_inflow_Cons [OF Cons(2) [symmetric]] by blast
  note s = Cons(2) [symmetric]
  consider (nl) "b = CHR 0x0A" | (long) "b \<noteq> CHR 0x0A" "m = length out" | (more) "b \<noteq> CHR 0x0A" "length out < m"
    using Cons.prems by linarith
  then show ?case
  proof cases
    case nl
    with d s show ?thesis by (subst read_line_from.simps) (auto simp: line_of_def Let_def)
  next
    case long
    with d s show ?thesis by (subst read_line_from.simps) (auto simp: line_of_def Let_def)
  next
    case more
    have step: "read_line_from m out c = read_line_from m (out @ [b]) d"
      using more d(1) by (subst read_line_from.simps) (simp add: Let_def)
    obtain e where e: "read_line_from m (out @ [b]) d =
        ((case line_of (m - length (out @ [b])) (inflow d) (breaks d) of Line l \<Rightarrow> Line ((out @ [b]) @ l) | r \<Rightarrow> r), e)"
      "same_writer d e" "remaining d \<le> remaining e + Suc (m - length (out @ [b]))"
      "\<forall>l. line_of (m - length (out @ [b])) (inflow d) (breaks d) = Line l \<longrightarrow>
         inflow d = l @ inflow e \<and> breaks e = breaks d"
      using Cons(1) [of d "out @ [b]"] d(2) more by auto
    have "m - length out = Suc (m - length (out @ [b]))" using more by simp
    then have lo: "line_of (m - length out) (inflow c) (breaks c) =
        (case line_of (m - length (out @ [b])) (inflow d) (breaks d) of Line l \<Rightarrow> Line (b # l) | r \<Rightarrow> r)"
      using more s d(2,3) by (simp add: line_of_def Let_def del: takeWhile_eq_all_conv)
    have "same_writer c e" using same_writer_trans d(4) e(2) by blast
    moreover have "remaining c \<le> remaining e + Suc (m - length out)" using d(5) e(3) more by simp
    ultimately show ?thesis using e(1,4) s d(2,3) unfolding step lo
      by (auto split: line_result.splits)
  qed
qed

lemma read_line_flat:
  "\<exists>d. read_line_bounded m c = (line_of m (inflow c) (breaks c), d) \<and> same_writer c d \<and>
     remaining c \<le> remaining d + Suc m \<and>
     (\<forall>l. line_of m (inflow c) (breaks c) = Line l \<longrightarrow> inflow c = l @ inflow d \<and> breaks d = breaks c)"
proof -
  have *: "(case r of Line l \<Rightarrow> Line ([] @ l) | LineEof \<Rightarrow> LineEof | LineError \<Rightarrow> LineError) = r" for r
    by (cases r) auto
  show ?thesis
    using read_line_from_flat [of "[]" m c] unfolding read_line_bounded_def * list.size diff_zero by blast
qed

text \<open>whatever the segmentation of the input, \<open>read_line_bounded\<close> returns the bytes up to the first line
  feed, fails when more than \<open>max_len\<close> bytes come before it, and otherwise reports the end of file or the
  read error; it never takes more than \<open>max_len + 1\<close> bytes from the connection, and the bytes after a line
  it returns are those still to come.\<close>

theorem read_line_bounded_spec:
  "let k = takeWhile (\<lambda>b. b \<noteq> CHR 0x0A) (inflow c); (r, d) = read_line_bounded m c in
     r = (if m < length k then LineError
          else if k = inflow c then (if breaks c then LineError else LineEof)
          else Line (k @ [CHR 0x0A])) \<and>
     remaining c \<le> remaining d + m + 1 \<and>
     (case r of Line l \<Rightarrow> inflow c = l @ inflow d | _ \<Rightarrow> True)"
proof -
  obtain d where d: "read_line_bounded m c = (line_of m (inflow c) (breaks c), d)" "same_writer c d"
    "remaining c \<le> remaining d + Suc m"
    "\<And>l. line_of m (inflow c) (breaks c) = Line l \<Longrightarrow> inflow c = l @ inflow d \<and> breaks d = breaks c"
    using read_line_flat [of m c] by metis
  have "case line_of m (inflow c) (breaks c) of Line l \<Rightarrow> inflow c = l @ inflow d | _ \<Rightarrow> True"
    using d(4) by (auto split: line_result.split)
  with d(3) show ?thesis unfolding d(1) Let_def by (simp add: line_of_def Let_def del: takeWhile_eq_all_conv)
qed

lemma line_of_Line:
  assumes "CHR 0x0A \<notin> set k" and "length k \<le> m"
  shows "line_of m (k @ CHR 0x0A # rest) b = Line (k @ [CHR 0x0A])"
proof -
  have "takeWhile (\<lambda>b. b \<noteq> CHR 0x0A) (k @ CHR 0x0A # rest) = k"
    using assms(1) by (subst takeWhile_append2) auto
  with assms show ?thesis by (simp add: line_of_def)
qed

lemma line_of_LineD:
  assumes "line_of m s b = Line l"
  shows "l \<noteq> []" "last l = CHR 0x0A" "CHR 0x0A \<notin> set (butlast l)" "length l \<le> Suc m"
proof -
  have "CHR 0x0A \<notin> set (takeWhile (\<lambda>b. b \<noteq> CHR 0x0A) s)" by (auto dest: set_takeWhileD)
  with assms show "l \<noteq> []" "last l = CHR 0x0A" "CHR 0x0A \<notin> set (butlast l)" "length l \<le> Suc m"
    by (auto simp: line_of_def Let_def simp del: takeWhile_eq_all_conv split: if_splits)
qed

lemma read_line_Line:
  assumes "inflow c = k @ CHR 0x0A # rest" and "CHR 0x0A \<notin> set k" and "length k \<le> m"
  obtains d where "read_line_bounded m c = (Line (k @ [CHR 0x0A]), d)" "inflow d = rest" "same_writer c d"
proof -
  obtain d where "read_line_bounded m c = (line_of m (inflow c) (breaks c), d)" "same_writer c d"
    "remaining c \<le> remaining d + Suc m"
    "\<And>l. line_of m (inflow c) (breaks c) = Line l \<Longrightarrow> inflow c = l @ inflow d \<and> breaks d = breaks c"
    using read_line_flat [of m c] by metis
  with assms line_of_Line [OF assms(2,3)] that [of d] show thesis by simp
qed

lemma read_line_LineD:
  assumes "read_line_bounded m c = (Line l, d)"
  shows "l \<noteq> []" "last l = CHR 0x0A" "CHR 0x0A \<notin> set (butlast l)" "length l \<le> Suc m"
    "inflow c = l @ inflow d" "same_writer c d"
proof -
  obtain e where e: "read_line_bounded m c = (line_of m (inflow c) (breaks c), e)" "same_writer c e"
    "remaining c \<le> remaining e + Suc m"
    "\<And>l. line_of m (inflow c) (breaks c) = Line l \<Longrightarrow> inflow c = l @ inflow e \<and> breaks e = breaks c"
    using read_line_flat [of m c] by metis
  with assms have l: "line_of m (inflow c) (breaks c) = Line l" "e = d" by auto
  show "l \<noteq> []" "last l = CHR 0x0A" "CHR 0x0A \<notin> set (butlast l)" "length l \<le> Suc m"
    using line_of_LineD [OF l(1)] .
  show "inflow c = l @ inflow d" "same_writer c d" using e l by auto
qed

lemma read_line_writer: "read_line_bounded m c = (r, d) \<Longrightarrow> same_writer c d"
  using read_line_flat [of m c] by (metis Pair_inject)

section \<open>The DATA phase\<close>

definition end_of_data :: "bytes \<Rightarrow> bool" where
  "end_of_data line \<longleftrightarrow> line = [CHR ''.'', CHR 0x0D, CHR 0x0A] \<or> line = [CHR ''.'', CHR 0x0A]"

definition unstuff :: "bytes \<Rightarrow> bytes" where
  "unstuff line = (if take 1 line = ''.'' then drop 1 line else line)"

definition dot_stuff :: "bytes \<Rightarrow> bytes" where
  "dot_stuff line = (if take 1 line = ''.'' then CHR ''.'' # line else line)"

text \<open>A line a client may send: it ends in its only line feed and, stuffed, is within the limit.\<close>

definition data_line :: "bytes \<Rightarrow> bool" where
  "data_line l \<longleftrightarrow> l \<noteq> [] \<and> last l = CHR 0x0A \<and> CHR 0x0A \<notin> set (butlast l) \<and> length l \<le> MAX_DATA_LINE"

lemma read_data_from_step:
  "read_data_from max_size out c =
     (case read_line_bounded MAX_DATA_LINE c of
        (LineError, c') \<Rightarrow> (Inl TooLarge, c')
      | (LineEof, c') \<Rightarrow> (Inl IoError, c')
      | (Line line, c') \<Rightarrow>
          (if end_of_data line then (Inr out, c')
           else if length out + length (unstuff line) > max_size then (Inl TooLarge, c')
           else read_data_from max_size (out @ unstuff line) c'))"
  by (subst read_data_from.simps) (simp add: end_of_data_def unstuff_def Let_def split: prod.split line_result.split)

lemma unstuff_dot_stuff [simp]: "unstuff (dot_stuff l) = l"
  by (cases l) (auto simp: unstuff_def dot_stuff_def)

lemma dot_stuff_not_end: "l \<noteq> [] \<Longrightarrow> \<not> end_of_data (dot_stuff l)"
  by (cases l) (auto simp: end_of_data_def dot_stuff_def)

lemma dot_stuff_line:
  assumes "data_line l"
  obtains k where "dot_stuff l = k @ [CHR 0x0A]" "CHR 0x0A \<notin> set k" "length k \<le> MAX_DATA_LINE"
proof -
  have "l = butlast l @ [CHR 0x0A]"
    using assms by (metis append_butlast_last_id data_line_def)
  moreover have "CHR 0x0A \<notin> set (butlast l)" using assms by (simp add: data_line_def)
  moreover have "0 < length l" "length l \<le> MAX_DATA_LINE" using assms by (simp_all add: data_line_def)
  then have "length (butlast l) < MAX_DATA_LINE" unfolding length_butlast by linarith
  ultimately obtain b where l: "l = b @ [CHR 0x0A]" "CHR 0x0A \<notin> set b" "length b < MAX_DATA_LINE"
    by blast
  show thesis
  proof (cases "take 1 l = ''.''")
    case True
    show thesis
      by (rule that [of "CHR ''.'' # b"]) (use l True in \<open>auto simp: dot_stuff_def\<close>)
  next
    case False
    show thesis by (rule that [of b]) (use l False in \<open>auto simp: dot_stuff_def\<close>)
  qed
qed

lemma MAX_DATA_LINE_ge: "Suc (Suc 0) \<le> MAX_DATA_LINE"
  unfolding MAX_DATA_LINE_def by linarith

lemma read_data_from_stuffed:
  assumes "list_all data_line ls" and "length out \<le> max_size"
    and "inflow c = concat (map dot_stuff ls) @ [CHR ''.'', CHR 0x0D, CHR 0x0A] @ rest"
  shows "\<exists>d. read_data_from max_size out c =
      (if length out + length (concat ls) \<le> max_size then Inr (out @ concat ls) else Inl TooLarge, d) \<and>
      (length out + length (concat ls) \<le> max_size \<longrightarrow> inflow d = rest)"
  using assms
proof (induction ls arbitrary: out c)
  case Nil
  then have i: "inflow c = [CHR ''.'', CHR 0x0D] @ CHR 0x0A # rest" by simp
  have n: "CHR 0x0A \<notin> set [CHR ''.'', CHR 0x0D]" by simp
  have m: "length [CHR ''.'', CHR 0x0D] \<le> MAX_DATA_LINE" using MAX_DATA_LINE_ge by simp
  obtain d where "read_line_bounded MAX_DATA_LINE c = (Line ([CHR ''.'', CHR 0x0D] @ [CHR 0x0A]), d)"
    "inflow d = rest"
    by (rule read_line_Line [OF i n m])
  with Nil show ?case by (subst read_data_from_step) (simp add: end_of_data_def)
next
  case (Cons l ls)
  then have l: "data_line l" by simp
  then obtain k where k: "dot_stuff l = k @ [CHR 0x0A]" "CHR 0x0A \<notin> set k" "length k \<le> MAX_DATA_LINE"
    by (rule dot_stuff_line)
  have "inflow c = k @ CHR 0x0A # concat (map dot_stuff ls) @ [CHR ''.'', CHR 0x0D, CHR 0x0A] @ rest"
    using Cons.prems(3) k(1) by simp
  then obtain d where d: "read_line_bounded MAX_DATA_LINE c = (Line (k @ [CHR 0x0A]), d)"
    "inflow d = concat (map dot_stuff ls) @ [CHR ''.'', CHR 0x0D, CHR 0x0A] @ rest"
    using k(2,3) by (rule read_line_Line)
  have rd: "read_line_bounded MAX_DATA_LINE c = (Line (dot_stuff l), d)" using d(1) k(1) by simp
  have ne: "\<not> end_of_data (dot_stuff l)" using l by (intro dot_stuff_not_end) (simp add: data_line_def)
  show ?case
  proof (cases "length out + length l \<le> max_size")
    case True
    then have "read_data_from max_size out c = read_data_from max_size (out @ l) d"
      using rd ne by (subst read_data_from_step) simp
    moreover obtain e where "read_data_from max_size (out @ l) d =
        (if length (out @ l) + length (concat ls) \<le> max_size then Inr ((out @ l) @ concat ls) else Inl TooLarge, e)"
      "length (out @ l) + length (concat ls) \<le> max_size \<longrightarrow> inflow e = rest"
      using Cons.IH [of "out @ l" d] Cons.prems(1) True d(2) by auto
    ultimately show ?thesis by (intro exI [of _ e]) (simp add: add.assoc)
  next
    case False
    with rd ne show ?thesis by (subst read_data_from_step) simp
  qed
qed

text \<open>a client that dot-stuffs the lines of its message and ends with \<open>.\<close> on a line has exactly its
  message stored when it is within the size limit, with the next bytes left for the next command, and has
  it refused as too large otherwise; the segmentation of the stream does not matter.\<close>

theorem read_data_roundtrip:
  assumes "list_all data_line ls"
    and "inflow c = concat (map dot_stuff ls) @ [CHR ''.'', CHR 0x0D, CHR 0x0A] @ rest"
  shows "fst (read_data max_size c) =
      (if length (concat ls) \<le> max_size then Inr (concat ls) else Inl TooLarge) \<and>
    (length (concat ls) \<le> max_size \<longrightarrow> inflow (snd (read_data max_size c)) = rest)"
  using read_data_from_stuffed [OF assms(1) _ assms(2), of "[]" max_size] by (auto simp: read_data_def)

definition sample_conn :: "bytes list \<Rightarrow> conn" where
  "sample_conn chunks = \<lparr>rbuf = [], rpend = chunks, rfail = False, sent = [], wleft = 100\<rparr>"

theorem read_data_roundtrip_witness:
  "fst (read_data 20 (sample_conn [''..a'', [CHR 0x0D], [CHR 0x0A, CHR ''.''], [CHR 0x0D, CHR 0x0A] @ ''QUIT''])) =
     Inr [CHR ''.'', CHR ''a'', CHR 0x0D, CHR 0x0A]"
  using read_data_roundtrip [of "[[CHR ''.'', CHR ''a'', CHR 0x0D, CHR 0x0A]]"
      "sample_conn [''..a'', [CHR 0x0D], [CHR 0x0A, CHR ''.''], [CHR 0x0D, CHR 0x0A] @ ''QUIT'']" "''QUIT''" 20]
  by (simp add: sample_conn_def inflow_def data_line_def MAX_DATA_LINE_def dot_stuff_def)

lemma read_data_from_sound:
  assumes "read_data_from max_size out c = (Inr raw, d)" and "length out \<le> max_size"
  shows "length raw \<le> max_size \<and>
    (\<exists>ls e. list_all (\<lambda>l. l \<noteq> [] \<and> last l = CHR 0x0A \<and> CHR 0x0A \<notin> set (butlast l) \<and> \<not> end_of_data l) ls \<and>
       end_of_data e \<and> raw = out @ concat (map unstuff ls) \<and> inflow c = concat ls @ e @ inflow d)"
  using assms
proof (induction max_size out c rule: read_data_from.induct)
  case (1 max_size out c)
  obtain l c' where rl: "read_line_bounded MAX_DATA_LINE c = (Line l, c')"
    using "1.prems"(1) by (subst (asm) read_data_from_step) (auto split: prod.splits line_result.splits)
  note l = read_line_LineD [OF rl]
  show ?case
  proof (cases "end_of_data l")
    case True
    with "1.prems"(1) rl have "raw = out" "d = c'" by (subst (asm) read_data_from_step, simp)+
    with True l(5) "1.prems"(2) show ?thesis
      by (intro conjI exI [of _ "[]"] exI [of _ l]) simp_all
  next
    case False
    have le: "length out + length (unstuff l) \<le> max_size"
      and nxt: "read_data_from max_size (out @ unstuff l) c' = (Inr raw, d)"
      using "1.prems"(1) rl False by (subst (asm) read_data_from_step, simp split: if_splits)+
    have "length raw \<le> max_size \<and>
      (\<exists>ls e. list_all (\<lambda>l. l \<noteq> [] \<and> last l = CHR 0x0A \<and> CHR 0x0A \<notin> set (butlast l) \<and> \<not> end_of_data l) ls \<and>
       end_of_data e \<and> raw = (out @ unstuff l) @ concat (map unstuff ls) \<and> inflow c' = concat ls @ e @ inflow d)"
      using "1.IH" [OF rl [symmetric] refl _ refl, folded unstuff_def] nxt le False
      by (simp add: end_of_data_def)
    then obtain ls e where "length raw \<le> max_size"
      "list_all (\<lambda>l. l \<noteq> [] \<and> last l = CHR 0x0A \<and> CHR 0x0A \<notin> set (butlast l) \<and> \<not> end_of_data l) ls"
      "end_of_data e" "raw = (out @ unstuff l) @ concat (map unstuff ls)" "inflow c' = concat ls @ e @ inflow d"
      by blast
    with l False show ?thesis by (intro conjI exI [of _ "l # ls"] exI [of _ e]) simp_all
  qed
qed

text \<open>C29: a message that \<open>read_data\<close> returns is within the size limit and is exactly the unstuffed lines
  before the first line that is a lone dot; what follows that line is still to be read. The lone dot may be
  ended by a bare line feed.\<close>

theorem read_data_exact:
  assumes "read_data max_size c = (Inr raw, d)"
  shows "length raw \<le> max_size \<and>
    (\<exists>ls e. list_all (\<lambda>l. l \<noteq> [] \<and> last l = CHR 0x0A \<and> CHR 0x0A \<notin> set (butlast l) \<and> \<not> end_of_data l) ls \<and>
       end_of_data e \<and> raw = concat (map unstuff ls) \<and> inflow c = concat ls @ e @ inflow d)"
  using read_data_from_sound [OF assms [unfolded read_data_def]] by simp

lemma bare_lf_data: "read_data 5 (sample_conn [''a'' @ [CHR 0x0A] @ ''.'' @ [CHR 0x0A] @ ''x'']) =
    (Inr (''a'' @ [CHR 0x0A]), (sample_conn [])\<lparr>rbuf := ''x''\<rparr>)"
  by (simp add: read_data_def read_data_from.simps read_line_bounded_def read_line_from.simps read_byte_def
      sample_conn_def MAX_DATA_LINE_def)

theorem read_data_exact_witness:
  "read_data 5 (sample_conn [''a'' @ [CHR 0x0A] @ ''.'' @ [CHR 0x0A] @ ''x'']) =
     (Inr (''a'' @ [CHR 0x0A]), (sample_conn [])\<lparr>rbuf := ''x''\<rparr>) \<and> length (''a'' @ [CHR 0x0A]) \<le> 5"
  using read_data_exact [OF bare_lf_data] bare_lf_data by simp

lemma read_data_from_remaining:
  "read_data_from max_size out c = (r, d) \<Longrightarrow> remaining d \<le> remaining c \<and> same_writer c d"
proof (induction max_size out c rule: read_data_from.induct)
  case (1 max_size out c)
  obtain x c' where rl: "read_line_bounded MAX_DATA_LINE c = (x, c')" by (cases "read_line_bounded MAX_DATA_LINE c")
  note rem = read_line_remaining(1) [OF rl] read_line_writer [OF rl]
  show ?case
  proof (cases "\<exists>line. x = Line line \<and> \<not> end_of_data line \<and> length out + length (unstuff line) \<le> max_size")
    case True
    then obtain line where x: "x = Line line" and "\<not> end_of_data line"
      "length out + length (unstuff line) \<le> max_size" by blast
    then have "read_data_from max_size (out @ unstuff line) c' = (r, d)"
      using "1.prems" rl by (subst (asm) read_data_from_step) simp
    with "1.IH" [OF rl [symmetric] x _ refl] \<open>\<not> end_of_data line\<close> \<open>length out + _ \<le> max_size\<close>
    have "remaining d \<le> remaining c' \<and> same_writer c' d"
      by (simp add: end_of_data_def unstuff_def)
    with rem same_writer_trans show ?thesis by fastforce
  next
    case False
    with "1.prems" rl have "d = c'"
      by (subst (asm) read_data_from_step) (auto split: line_result.splits if_splits)
    with rem show ?thesis by simp
  qed
qed

lemma read_data_remaining:
  "read_data max_size c = (r, d) \<Longrightarrow> remaining d \<le> remaining c"
  "read_data max_size c = (r, d) \<Longrightarrow> same_writer c d"
  using read_data_from_remaining by (auto simp: read_data_def)

section \<open>Replies\<close>

text \<open>A reply line that a client cannot misread: three digits, a separator, and no line end inside.\<close>

definition clean_text :: "bytes \<Rightarrow> bool" where
  "clean_text t \<longleftrightarrow> list_all (\<lambda>c. c \<noteq> CHR 0x0D \<and> c \<noteq> CHR 0x0A) t"

definition clean_reply :: "bytes \<Rightarrow> bool" where
  "clean_reply l \<longleftrightarrow> 6 \<le> length l \<and> list_all (\<lambda>c. digit_value c \<noteq> None) (take 3 l) \<and>
     (l ! 3 = CHR '' '' \<or> l ! 3 = CHR ''-'') \<and> drop (length l - 2) l = [CHR 0x0D, CHR 0x0A] \<and>
     clean_text (take (length l - 2) l)"

lemma clean_text_simps [simp]:
  "clean_text []" "clean_text (c # t) \<longleftrightarrow> c \<noteq> CHR 0x0D \<and> c \<noteq> CHR 0x0A \<and> clean_text t"
  "clean_text (s @ t) \<longleftrightarrow> clean_text s \<and> clean_text t"
  by (auto simp: clean_text_def)

lemma clean_show_nat [simp]: "clean_text (show_nat n)"
proof -
  have "c \<noteq> CHR 0x0D \<and> c \<noteq> CHR 0x0A" if "c \<in> set (show_nat n)" for c
    using show_nat_digits [OF that] by auto
  then show ?thesis by (simp add: clean_text_def list_all_iff)
qed

lemma show_nat_3:
  assumes "100 \<le> n" and "n < 1000"
  obtains a b c where "show_nat n = [a, b, c]" "digit_value a \<noteq> None" "digit_value b \<noteq> None" "digit_value c \<noteq> None"
proof -
  have "n div 10 div 10 < 10" "\<not> n < 10" "\<not> n div 10 < 10" using assms by auto
  then have "show_nat n = [char_of (48 + n div 10 div 10), char_of (48 + n div 10 mod 10), char_of (48 + n mod 10)]"
    by (simp add: show_nat.simps [of n] show_nat.simps [of "n div 10"] show_nat.simps [of "n div 10 div 10"])
  then show thesis
    by (rule that) (use \<open>n div 10 div 10 < 10\<close> in \<open>simp_all add: digit_value_show\<close>)
qed

lemma clean_reply_line:
  assumes "100 \<le> code" and "code < 1000" and "sep = CHR '' '' \<or> sep = CHR ''-''" and "clean_text text"
  shows "clean_reply (show_nat code @ [sep] @ text @ [CHR 0x0D, CHR 0x0A])"
proof -
  obtain a b c where d: "show_nat code = [a, b, c]" "digit_value a \<noteq> None" "digit_value b \<noteq> None" "digit_value c \<noteq> None"
    using show_nat_3 [OF assms(1,2)] .
  have "clean_text [a, b, c]" using clean_show_nat [of code] d(1) by simp
  with d(2-4) assms(3,4) show ?thesis unfolding d(1) clean_reply_def by auto
qed

text \<open>A write leaves the input alone.\<close>

definition wrote :: "conn \<Rightarrow> conn \<Rightarrow> bool" where
  "wrote c d \<longleftrightarrow> remaining d = remaining c \<and> inflow d = inflow c \<and> rbuf d = rbuf c"

definition clean_sent :: "conn \<Rightarrow> bool" where
  "clean_sent c \<longleftrightarrow> list_all clean_reply (sent c)"

lemma wrote_refl [simp]: "wrote c c"
  by (simp add: wrote_def)

lemma wrote_trans: "wrote c d \<Longrightarrow> wrote d e \<Longrightarrow> wrote c e"
  by (simp add: wrote_def)

lemma write_all_effect:
  assumes "write_all bs c = (r, d)"
  shows "wrote c d" "clean_reply bs \<Longrightarrow> clean_sent c \<Longrightarrow> clean_sent d"
  using assms by (auto simp: write_all_def wrote_def remaining_def inflow_def clean_sent_def split: if_splits)

lemma write_reply_effect:
  assumes "write_reply code text c = (r, d)"
  shows "wrote c d" "100 \<le> code \<Longrightarrow> code < 1000 \<Longrightarrow> clean_text text \<Longrightarrow> clean_sent c \<Longrightarrow> clean_sent d"
  using write_all_effect [OF assms [unfolded write_reply_def]] clean_reply_line [of code "CHR '' ''" "text"] by auto

lemma write_multiline_effect:
  assumes "write_multiline_reply code lines c = (r, d)"
  shows "wrote c d \<and>
    (100 \<le> code \<longrightarrow> code < 1000 \<longrightarrow> list_all clean_text lines \<longrightarrow> clean_sent c \<longrightarrow> clean_sent d)"
  using assms
proof (induction code lines c rule: write_multiline_reply.induct)
  case (2 code msg lines c)
  define sep where "sep = (if lines = [] then CHR '' '' else CHR ''-'')"
  obtain ok e where w: "write_all (show_nat code @ [sep] @ msg @ [CHR 0x0D, CHR 0x0A]) c = (ok, e)"
    by (cases "write_all (show_nat code @ [sep] @ msg @ [CHR 0x0D, CHR 0x0A]) c")
  have e: "100 \<le> code \<Longrightarrow> code < 1000 \<Longrightarrow> clean_text msg \<Longrightarrow> clean_sent c \<Longrightarrow> clean_sent e"
    using write_all_effect(2) [OF w] clean_reply_line [of code sep msg] by (simp add: sep_def)
  show ?case
  proof (cases ok)
    case True
    with "2.prems" w have "write_multiline_reply code lines e = (r, d)" by (simp add: sep_def)
    with "2.IH" [OF sep_def w [symmetric]] True e write_all_effect(1) [OF w] wrote_trans show ?thesis by auto
  next
    case False
    with "2.prems" w have "d = e" by (simp add: sep_def)
    with e write_all_effect(1) [OF w] show ?thesis by simp
  qed
qed simp

section \<open>Commands\<close>

lemma trim_start_less: "trim_start (CHR ''<'' # s) = CHR ''<'' # s"
proof -
  have "\<not> ws_char ''<''" by (simp add: ws_char_def is_whitespace_def)
  then show ?thesis by (simp add: trim_start_def utf8_chars_ascii_Cons)
qed

lemma parse_addr_param_angle:
  assumes "eq_ignore_ascii_case p prefix" and "CHR ''>'' \<notin> set a" and "trim rest = p @ ''<'' @ a @ ''>'' @ t"
  shows "parse_addr_param rest prefix = Returned (Some a)"
proof -
  have n: "length prefix = length p" using eq_ignore_ascii_case_length [OF assms(1)] by simp
  have "is_char_boundary (p @ ''<'' @ a @ ''>'' @ t) (length p)"
    by (simp add: is_char_boundary_def is_cont_def byte_at_def nth_append)
  with assms n show ?thesis
    by (simp add: parse_addr_param_def Let_def slice_to_def slice_from_def trim_start_less split_once_append)
qed

text \<open>C30: \<open>parse_addr_param\<close> extracts the address of \<open>PREFIX<address>...\<close>, whatever the case of the prefix
  and whatever follows the bracket. It panics exactly when the argument is long enough and the length of
  the prefix falls inside a character of it.\<close>

theorem parse_addr_param_spec:
  "(parse_addr_param rest prefix = Panicked \<longleftrightarrow>
      length prefix \<le> length (trim rest) \<and> \<not> is_char_boundary (trim rest) (length prefix)) \<and>
   (eq_ignore_ascii_case p prefix \<and> CHR ''>'' \<notin> set a \<and> trim rest = p @ ''<'' @ a @ ''>'' @ t \<longrightarrow>
      parse_addr_param rest prefix = Returned (Some a))"
proof (intro conjI impI)
  show "parse_addr_param rest prefix = Panicked \<longleftrightarrow>
      length prefix \<le> length (trim rest) \<and> \<not> is_char_boundary (trim rest) (length prefix)"
    by (auto simp: parse_addr_param_def Let_def slice_to_def slice_from_def)
next
  assume "eq_ignore_ascii_case p prefix \<and> CHR ''>'' \<notin> set a \<and> trim rest = p @ ''<'' @ a @ ''>'' @ t"
  then show "parse_addr_param rest prefix = Returned (Some a)" using parse_addr_param_angle by blast
qed

theorem parse_addr_param_spec_witness:
  "parse_addr_param ''from:<a@b> X'' ''FROM:'' = Returned (Some ''a@b'') \<and>
   parse_addr_param [CHR ''a'', CHR ''b'', CHR ''c'', CHR ''d'', CHR 0xC3, CHR 0xA9] ''FROM:'' = Panicked"
proof -
  have 1: "trim ''from:<a@b> X'' = ''from:<a@b> X''"
    by (simp add: trim_def trim_start_ascii trim_end_ascii is_whitespace_def)
  have 2: "eq_ignore_ascii_case ''from:'' ''FROM:''"
    by (simp add: eq_ignore_ascii_case_def to_ascii_lowercase_def ascii_lower_def char_of_def bit_Suc_0_iff)
  let ?s = "[CHR ''a'', CHR ''b'', CHR ''c'', CHR ''d'', CHR 0xC3, CHR 0xA9]"
  have c: "utf8_chars ?s = [''a'', ''b'', ''c'', ''d'', [CHR 0xC3, CHR 0xA9]]"
    by (simp add: utf8_chars.simps utf8_scan_def byte_at_def is_cont_def Let_def)
  have w: "\<not> ws_char ''a''" "\<not> ws_char [CHR 0xC3, CHR 0xA9]"
    by (simp_all add: ws_char_def code_point_def byte_at_def is_whitespace_def)
  have "trim_start ?s = ?s" "trim_end ?s = ?s" unfolding trim_start_def trim_end_def c using w by simp_all
  then have "trim ?s = ?s" by (simp add: trim_def)
  then show ?thesis
    using parse_addr_param_spec [of "''from:<a@b> X''" "''FROM:''" "''from:''" "''a@b''" "'' X''"]
      parse_addr_param_spec [of ?s "''FROM:''" "[]" "[]" "[]"] 1 2
    by (simp add: is_char_boundary_def is_cont_def byte_at_def)
qed

section \<open>Text that needs no trimming\<close>

lemma dropWhile_first: "x = [] \<or> \<not> P (hd x) \<Longrightarrow> dropWhile P x = x"
  by (cases x) auto

lemma trim_tight:
  assumes "is_ascii s" and "s \<noteq> []" and "\<not> is_whitespace (of_char (hd s))" and "\<not> is_whitespace (of_char (last s))"
  shows "trim s = s"
proof -
  have "trim_start s = s" using assms(1-3) by (simp add: trim_start_ascii dropWhile_first)
  moreover have "trim_end s = s" using assms(1,2,4) by (simp add: trim_end_ascii dropWhile_first hd_rev)
  ultimately show ?thesis by (simp add: trim_def)
qed

lemma split_command_arg:
  assumes "CHR '' '' \<notin> set verb" and "trim arg = arg"
  shows "split_command (verb @ '' '' @ arg) = (verb, arg)"
  using assms split_once_append [of "CHR '' ''" verb arg] by (simp add: split_command_def)

lemma line_text_ascii:
  assumes "is_ascii k" and "CHR 0x0D \<notin> set k" and "CHR 0x0A \<notin> set k"
  shows "line_text (k @ [CHR 0x0D, CHR 0x0A]) = k"
proof -
  have "from_utf8_lossy (k @ [CHR 0x0D, CHR 0x0A]) = k @ [CHR 0x0D, CHR 0x0A]"
    by (rule from_utf8_lossy_valid [OF utf8_valid_ascii]) (use assms(1) in simp)
  moreover have "dropWhile (\<lambda>c. c = CHR 0x0D \<or> c = CHR 0x0A) (rev k) = rev k"
    using assms(2,3) by (cases k rule: rev_cases) auto
  ultimately show ?thesis by (simp add: line_text_def trim_end_matches_def)
qed

end
