(* ===== verification/Auth_Store.thy ===== *)
theory Auth_Store
  imports Sealing Input_Validation "HOL-Library.List_Lexorder"
begin

text \<open>
  The \<open>auth\<close> crate: the account table, provisioning, lookup by address, unlocking with the primary
  password or an app password, and the app-password lifecycle (\<open>auth/src/store.rs\<close>, \<open>account.rs\<close>,
  \<open>app_password.rs\<close>).

  The values a call draws at random are records of arguments; \<open>hex::encode\<close> is an argument. A row whose salt
  or public key has the wrong length panics in \<open>row_to_account\<close> (\<open>copy_from_slice\<close>), so lookups are procedures
  that may panic; the invariant \<open>auth_ok\<close> excludes such rows and every operation keeps it.
\<close>

section \<open>Accounts and app passwords\<close>

record account =
  acc_id :: int
  acc_local_part :: string
  acc_domain :: string
  acc_key_id :: "16 word"
  acc_salt :: bytes
  acc_wrapped_amk :: bytes
  acc_pub :: bytes
  acc_wrapped_priv :: bytes
  acc_created_at :: int

definition address :: "account \<Rightarrow> string" where
  "address a = acc_local_part a @ ''@'' @ acc_domain a"

text \<open>A row of \<open>accounts\<close>: the key id is a SQLite integer there.\<close>

record account_row =
  ar_id :: int
  ar_local_part :: string
  ar_domain :: string
  ar_key_id :: int
  ar_salt :: bytes
  ar_wrapped_amk :: bytes
  ar_pub :: bytes
  ar_wrapped_priv :: bytes
  ar_created_at :: int
  ar_signature :: "bytes option"

datatype app_password_scope = ScopeFull | ScopeSubmission

fun scope_as_str :: "app_password_scope \<Rightarrow> string" where
  "scope_as_str ScopeFull = ''full''"
| "scope_as_str ScopeSubmission = ''submission''"

definition scope_parse :: "string \<Rightarrow> app_password_scope option" where
  "scope_parse s =
     (if s = ''full'' then Some ScopeFull else if s = ''submission'' then Some ScopeSubmission else None)"

lemma scope_parse_as_str [simp]: "scope_parse (scope_as_str s) = Some s"
  by (cases s) (simp_all add: scope_parse_def)

definition scope_or_full :: "string \<Rightarrow> app_password_scope" where
  "scope_or_full s = (case scope_parse s of Some sc \<Rightarrow> sc | None \<Rightarrow> ScopeFull)"

record app_password_summary =
  aps_id :: int
  aps_label :: string
  aps_scope :: app_password_scope
  aps_created_at :: int
  aps_last_used_at :: "int option"

record app_password =
  ap_id :: int
  ap_account_id :: int
  ap_label :: string
  ap_scope :: string
  ap_key_id :: int
  ap_salt :: bytes
  ap_wrapped_amk :: bytes
  ap_created_at :: int
  ap_last_used_at :: "int option"

record auth_tables =
  accounts :: "account_row list"
  app_passwords :: "app_password list"

type_synonym auth_db = "auth_tables db"

interpretation account_tbl: rowid_table ar_id "\<lambda>i r. r\<lparr>ar_id := i\<rparr>"
  by unfold_locales simp

interpretation app_password_tbl: rowid_table ap_id "\<lambda>i r. r\<lparr>ap_id := i\<rparr>"
  by unfold_locales simp

definition SALT_LEN :: nat where "SALT_LEN = 16"

definition KEY_LEN :: nat where "KEY_LEN = 32"

definition row_to_account :: "account_row \<Rightarrow> account pan" where
  "row_to_account r =
     (if length (ar_salt r) \<noteq> SALT_LEN then Panicked
      else if length (ar_pub r) \<noteq> KEY_LEN then Panicked
      else Returned \<lparr>acc_id = ar_id r, acc_local_part = ar_local_part r, acc_domain = ar_domain r,
        acc_key_id = word_of_int (ar_key_id r), acc_salt = ar_salt r, acc_wrapped_amk = ar_wrapped_amk r,
        acc_pub = ar_pub r, acc_wrapped_priv = ar_wrapped_priv r, acc_created_at = ar_created_at r\<rparr>)"

section \<open>Provisioning and lookup\<close>

record provision_random =
  pr_salt :: bytes
  pr_amk :: bytes
  pr_amk_nonce :: bytes
  pr_keypair :: bytes
  pr_priv_nonce :: bytes

definition insert_account :: "account_row \<Rightarrow> auth_db \<Rightarrow> int result \<times> auth_db" where
  "insert_account row = db_stmt (\<lambda>t.
     if \<exists>r \<in> set (accounts t). ar_local_part r = ar_local_part row \<and> ar_domain r = ar_domain row
     then (Inl (Storage ''UNIQUE constraint failed: accounts.local_part, accounts.domain''), t)
     else let (i, rows) = tbl_insert ar_id (\<lambda>i r. r\<lparr>ar_id := i\<rparr>) row (accounts t)
          in (Inr i, t\<lparr>accounts := rows\<rparr>))"

definition provision ::
    "crypto_lib \<Rightarrow> provision_random \<Rightarrow> int \<Rightarrow> string \<Rightarrow> string \<Rightarrow> bytes \<Rightarrow> argon2_config \<Rightarrow> (account, auth_db) proc" where
  "provision L rnd now local_part domain0 password config =
     (if \<not> valid_local_part local_part \<or> \<not> valid_domain_name domain0
      then proc_return (Inl (Config ''invalid mailbox address''))
      else let domain = to_ascii_lowercase domain0; salt = pr_salt rnd in
        proc_bind (proc_return (crypto_err (derive_pk L password salt config))) (\<lambda>pk.
        proc_bind (proc_pan (wrap_amk L (pr_amk_nonce rnd) pk 1 (pr_amk rnd))) (\<lambda>wrapped_amk.
        let (private, public) = gen_keypair L (pr_keypair rnd) in
        proc_bind (proc_pan (wrap_priv_key L (pr_priv_nonce rnd) (pr_amk rnd) 1 private)) (\<lambda>wrapped_priv.
        proc_bind (lift_op (insert_account
            \<lparr>ar_id = 0, ar_local_part = local_part, ar_domain = domain, ar_key_id = 1, ar_salt = salt,
             ar_wrapped_amk = wrapped_amk, ar_pub = public, ar_wrapped_priv = wrapped_priv,
             ar_created_at = now, ar_signature = None\<rparr>)) (\<lambda>i.
        proc_return (Inr \<lparr>acc_id = i, acc_local_part = local_part, acc_domain = domain, acc_key_id = 1,
            acc_salt = salt, acc_wrapped_amk = wrapped_amk, acc_pub = public,
            acc_wrapped_priv = wrapped_priv, acc_created_at = now\<rparr>))))))"

definition query_account :: "(auth_tables \<Rightarrow> account_row option) \<Rightarrow> (account option, auth_db) proc" where
  "query_account q =
     proc_bind (lift_op (db_query q)) (\<lambda>r.
       case r of
         None \<Rightarrow> proc_return (Inr None)
       | Some row \<Rightarrow> proc_bind (proc_pan (row_to_account row)) (\<lambda>a. proc_return (Inr (Some a))))"

definition find_by_address :: "string \<Rightarrow> string \<Rightarrow> (account option, auth_db) proc" where
  "find_by_address local_part domain0 =
     (let domain = to_ascii_lowercase domain0 in
      query_account (\<lambda>t. find (\<lambda>r. ar_local_part r = local_part \<and> ar_domain r = domain) (accounts t)))"

definition find_by_id :: "int \<Rightarrow> (account option, auth_db) proc" where
  "find_by_id i = query_account (\<lambda>t. tbl_get ar_id i (accounts t))"

definition query_accounts :: "(auth_tables \<Rightarrow> account_row list) \<Rightarrow> (account list, auth_db) proc" where
  "query_accounts q = proc_bind (lift_op (db_query q)) (\<lambda>rows. proc_pan (pan_map row_to_account rows))"

definition list_accounts :: "(account list, auth_db) proc" where
  "list_accounts = query_accounts (\<lambda>t. sort_key (\<lambda>r. - ar_created_at r) (accounts t))"

text \<open>SQLite compares \<open>TEXT\<close> bytewise.\<close>

definition bytes_key :: "string \<Rightarrow> nat list" where
  "bytes_key = map of_char"

definition list_accounts_for_domain :: "string \<Rightarrow> (account list, auth_db) proc" where
  "list_accounts_for_domain domain =
     query_accounts (\<lambda>t. sort_key (\<lambda>r. bytes_key (ar_local_part r)) (filter (\<lambda>r. ar_domain r = domain) (accounts t)))"

definition delete_account :: "int \<Rightarrow> auth_db \<Rightarrow> unit result \<times> auth_db" where
  "delete_account i = db_stmt (\<lambda>t. (Inr (), t\<lparr>accounts := filter (\<lambda>r. ar_id r \<noteq> i) (accounts t)\<rparr>))"

section \<open>Unlocking\<close>

record unlocked_account =
  ul_amk :: bytes
  ul_priv :: bytes

definition finish_unlock :: "crypto_lib \<Rightarrow> bytes \<Rightarrow> bytes \<Rightarrow> unlocked_account result pan" where
  "finish_unlock L amk wrapped_priv =
     pr_bind (Returned (crypto_err (unwrap_priv_key L amk wrapped_priv))) (\<lambda>priv_bytes.
       if length priv_bytes \<noteq> KEY_LEN then Panicked
       else Returned (Inr \<lparr>ul_amk = amk, ul_priv = priv_bytes\<rparr>))"

definition unlock :: "crypto_lib \<Rightarrow> account \<Rightarrow> bytes \<Rightarrow> argon2_config \<Rightarrow> unlocked_account result pan" where
  "unlock L a password config =
     pr_bind (Returned (crypto_err (derive_pk L password (acc_salt a) config))) (\<lambda>pk.
     pr_bind (pan_bind (unwrap_amk L pk (acc_wrapped_amk a)) (\<lambda>r. Returned (crypto_err r))) (\<lambda>amk.
       finish_unlock L amk (acc_wrapped_priv a)))"

definition touch_app_password :: "int \<Rightarrow> int \<Rightarrow> auth_db \<Rightarrow> unit result \<times> auth_db" where
  "touch_app_password now i = db_stmt (\<lambda>t. (Inr (),
     t\<lparr>app_passwords := update_where (\<lambda>p. ap_id p = i) (\<lambda>p. p\<lparr>ap_last_used_at := Some now\<rparr>) (app_passwords t)\<rparr>))"

fun try_candidates ::
    "crypto_lib \<Rightarrow> int \<Rightarrow> account \<Rightarrow> bytes \<Rightarrow> argon2_config \<Rightarrow> app_password list \<Rightarrow>
     (unlocked_account \<times> app_password_scope, auth_db) proc" where
  "try_candidates L now a credential config [] = proc_return (Inl (Crypto ''no matching credential''))"
| "try_candidates L now a credential config (c # cs) =
     (if length (ap_salt c) \<noteq> SALT_LEN then try_candidates L now a credential config cs
      else proc_bind (proc_return (crypto_err (derive_pk L credential (ap_salt c) config))) (\<lambda>pk.
        case unwrap_amk L pk (ap_wrapped_amk c) of
          Panicked \<Rightarrow> proc_result Panicked
        | Returned (Inl _) \<Rightarrow> try_candidates L now a credential config cs
        | Returned (Inr amk) \<Rightarrow>
            proc_bind (proc_result (finish_unlock L amk (acc_wrapped_priv a))) (\<lambda>unlocked.
            proc_bind (lift_op (touch_app_password now (ap_id c))) (\<lambda>_.
            proc_return (Inr (unlocked, scope_or_full (ap_scope c)))))))"

definition unlock_any ::
    "crypto_lib \<Rightarrow> int \<Rightarrow> account \<Rightarrow> bytes \<Rightarrow> argon2_config \<Rightarrow>
     (unlocked_account \<times> app_password_scope, auth_db) proc" where
  "unlock_any L now a credential config =
     (case unlock L a credential config of
        Panicked \<Rightarrow> proc_result Panicked
      | Returned (Inr unlocked) \<Rightarrow> proc_return (Inr (unlocked, ScopeFull))
      | Returned (Inl _) \<Rightarrow>
          proc_bind (lift_op (db_query (\<lambda>t. filter (\<lambda>p. ap_account_id p = acc_id a) (app_passwords t))))
            (try_candidates L now a credential config))"

section \<open>App passwords\<close>

record app_password_random =
  apr_secret :: bytes
  apr_salt :: bytes
  apr_nonce :: bytes

definition create_app_password ::
    "crypto_lib \<Rightarrow> (bytes \<Rightarrow> string) \<Rightarrow> app_password_random \<Rightarrow> int \<Rightarrow> int \<Rightarrow> bytes \<Rightarrow> string \<Rightarrow> app_password_scope \<Rightarrow>
     argon2_config \<Rightarrow> (app_password_summary \<times> string, auth_db) proc" where
  "create_app_password L hex rnd now account amk label scope config =
     (let plaintext = hex (apr_secret rnd) in
      proc_bind (proc_return (crypto_err (derive_pk L plaintext (apr_salt rnd) config))) (\<lambda>pk.
      proc_bind (proc_pan (wrap_amk L (apr_nonce rnd) pk 1 amk)) (\<lambda>wrapped_amk.
      proc_bind (lift_op (db_stmt (\<lambda>t.
         let (i, rows) = tbl_insert ap_id (\<lambda>i r. r\<lparr>ap_id := i\<rparr>)
               \<lparr>ap_id = 0, ap_account_id = account, ap_label = label, ap_scope = scope_as_str scope,
                ap_key_id = 1, ap_salt = apr_salt rnd, ap_wrapped_amk = wrapped_amk, ap_created_at = now,
                ap_last_used_at = None\<rparr> (app_passwords t)
         in (Inr i, t\<lparr>app_passwords := rows\<rparr>)))) (\<lambda>i.
      proc_return (Inr (\<lparr>aps_id = i, aps_label = label, aps_scope = scope, aps_created_at = now,
                         aps_last_used_at = None\<rparr>, plaintext))))))"

definition summary_of :: "app_password \<Rightarrow> app_password_summary" where
  "summary_of p = \<lparr>aps_id = ap_id p, aps_label = ap_label p, aps_scope = scope_or_full (ap_scope p),
     aps_created_at = ap_created_at p, aps_last_used_at = ap_last_used_at p\<rparr>"

definition list_app_passwords :: "int \<Rightarrow> auth_db \<Rightarrow> app_password_summary list result \<times> auth_db" where
  "list_app_passwords account = db_query (\<lambda>t.
     map summary_of (sort_key (\<lambda>p. - ap_created_at p) (filter (\<lambda>p. ap_account_id p = account) (app_passwords t))))"

definition revoke_app_password :: "int \<Rightarrow> int \<Rightarrow> auth_db \<Rightarrow> unit result \<times> auth_db" where
  "revoke_app_password account i = db_stmt (\<lambda>t. (Inr (),
     t\<lparr>app_passwords := filter (\<lambda>p. \<not> (ap_id p = i \<and> ap_account_id p = account)) (app_passwords t)\<rparr>))"

definition get_signature_sealed :: "int \<Rightarrow> auth_db \<Rightarrow> bytes option result \<times> auth_db" where
  "get_signature_sealed account = db_query (\<lambda>t.
     case tbl_get ar_id account (accounts t) of None \<Rightarrow> None | Some r \<Rightarrow> ar_signature r)"

definition set_signature_sealed :: "int \<Rightarrow> bytes option \<Rightarrow> auth_db \<Rightarrow> unit result \<times> auth_db" where
  "set_signature_sealed account sealed = db_stmt (\<lambda>t. (Inr (),
     t\<lparr>accounts := update_where (\<lambda>r. ar_id r = account) (\<lambda>r. r\<lparr>ar_signature := sealed\<rparr>) (accounts t)\<rparr>))"

section \<open>Invariant\<close>

definition row_ok :: "account_row \<Rightarrow> bool" where
  "row_ok r \<longleftrightarrow> length (ar_salt r) = 16 \<and> length (ar_pub r) = 32 \<and> valid_local_part (ar_local_part r) \<and>
     valid_domain_name (ar_domain r) \<and> to_ascii_lowercase (ar_domain r) = ar_domain r"

definition auth_ok :: "auth_tables \<Rightarrow> bool" where
  "auth_ok t \<longleftrightarrow> distinct (map ar_id (accounts t)) \<and>
     distinct (map (\<lambda>r. (ar_local_part r, ar_domain r)) (accounts t)) \<and> list_all row_ok (accounts t) \<and>
     distinct (map ap_id (app_passwords t))"

definition account_of :: "account_row \<Rightarrow> account" where
  "account_of r = \<lparr>acc_id = ar_id r, acc_local_part = ar_local_part r, acc_domain = ar_domain r,
     acc_key_id = word_of_int (ar_key_id r), acc_salt = ar_salt r, acc_wrapped_amk = ar_wrapped_amk r,
     acc_pub = ar_pub r, acc_wrapped_priv = ar_wrapped_priv r, acc_created_at = ar_created_at r\<rparr>"

lemma row_to_account_ok: "row_ok r \<Longrightarrow> row_to_account r = Returned (account_of r)"
  by (simp add: row_ok_def row_to_account_def account_of_def SALT_LEN_def KEY_LEN_def)

lemma auth_ok_row: "auth_ok t \<Longrightarrow> r \<in> set (accounts t) \<Longrightarrow> row_ok r"
  by (auto simp: auth_ok_def list_all_iff)

text \<open>A lookup changes no table, and on tables that satisfy the invariant it does not panic.\<close>

lemma query_account_run:
  assumes "query_account q s = (r, s')" and "\<And>row. q (tables s) = Some row \<Longrightarrow> row_ok row"
  shows "tables s' = tables s" and "r \<noteq> Panicked"
    and "r = Returned (Inr x) \<Longrightarrow> x = map_option account_of (q (tables s))"
proof -
  have "tables s' = tables s \<and> r \<noteq> Panicked \<and> (r = Returned (Inr x) \<longrightarrow> x = map_option account_of (q (tables s)))"
    using assms(1) unfolding query_account_def
  proof (cases rule: proc_bind_cases)
    case (step a s1)
    then have a: "a = q (tables s)" "tables s1 = tables s" using db_query_Inr [of q s a s1] by auto
    show ?thesis
    proof (cases "q (tables s)")
      case None
      with step a show ?thesis by simp
    next
      case (Some row)
      with step(2) a assms(2) [OF Some] have "(r, s') = (Returned (Inr (Some (account_of row))), s1)"
        by (simp add: proc_bind_def proc_pan_def proc_return_def row_to_account_ok)
      with Some a show ?thesis by simp
    qed
  qed (auto dest: db_query_tables)
  then show "tables s' = tables s" "r \<noteq> Panicked"
    "r = Returned (Inr x) \<Longrightarrow> x = map_option account_of (q (tables s))" by blast+
qed

lemma query_account_no_faults:
  assumes "faults s = []" and "\<And>row. q (tables s) = Some row \<Longrightarrow> row_ok row"
  shows "query_account q s = (Returned (Inr (map_option account_of (q (tables s)))), s)"
  using assms by (cases "q (tables s)")
    (auto simp: query_account_def proc_bind_def lift_op_def proc_return_def proc_pan_def row_to_account_ok)

lemma find_by_address_run:
  assumes "find_by_address lp dn s = (r, s')" and "auth_ok (tables s)"
  shows "tables s' = tables s" and "r \<noteq> Panicked"
    and "r = Returned (Inr (Some a)) \<Longrightarrow>
      \<exists>row \<in> set (accounts (tables s)). a = account_of row \<and> ar_local_part row = lp \<and>
        ar_domain row = to_ascii_lowercase dn"
proof -
  note run = query_account_run [OF assms(1) [unfolded find_by_address_def Let_def]]
  have ok: "find (\<lambda>r. ar_local_part r = lp \<and> ar_domain r = to_ascii_lowercase dn) (accounts (tables s)) = Some row \<Longrightarrow> row_ok row"
    for row using assms(2) by (auto simp: find_Some_iff intro: auth_ok_row)
  show "tables s' = tables s" "r \<noteq> Panicked" using run(1,2) ok by blast+
  assume "r = Returned (Inr (Some a))"
  from run(3) [OF ok this] obtain row where
    "find (\<lambda>r. ar_local_part r = lp \<and> ar_domain r = to_ascii_lowercase dn) (accounts (tables s)) = Some row"
    "a = account_of row" by (metis (no_types, lifting) map_option_eq_Some)
  then show "\<exists>row \<in> set (accounts (tables s)). a = account_of row \<and> ar_local_part row = lp \<and>
      ar_domain row = to_ascii_lowercase dn"
    by (auto simp: find_Some_iff)
qed

text \<open>Two rows with one address are one row.\<close>

lemma find_address:
  assumes "auth_ok t" and "row \<in> set (accounts t)"
  shows "find (\<lambda>r. ar_local_part r = ar_local_part row \<and> ar_domain r = ar_domain row) (accounts t) = Some row"
proof -
  have "distinct (map (\<lambda>r. (ar_local_part r, ar_domain r)) (accounts t))" using assms(1) by (simp add: auth_ok_def)
  then show ?thesis using assms(2) by (rule find_unique) auto
qed

lemma insert_account_cases:
  assumes "insert_account row s = (r, s')"
  obtains (failed) e where "r = Inl e" "tables s' = tables s"
    | (inserted) i where "r = Inr i" "i = next_rowid ar_id (accounts (tables s))"
      "tables s' = (tables s)\<lparr>accounts := accounts (tables s) @ [row\<lparr>ar_id := i\<rparr>]\<rparr>"
      "\<And>x. x \<in> set (accounts (tables s)) \<Longrightarrow> (ar_local_part x, ar_domain x) \<noteq> (ar_local_part row, ar_domain row)"
  using assms unfolding insert_account_def
proof (cases rule: db_stmt_cases)
  case ran
  show thesis
  proof (cases "\<exists>x \<in> set (accounts (tables s)). ar_local_part x = ar_local_part row \<and> ar_domain x = ar_domain row")
    case True
    with ran failed show thesis by auto
  next
    case False
    let ?i = "next_rowid ar_id (accounts (tables s))"
    have "r = Inr ?i" "tables s' = (tables s)\<lparr>accounts := accounts (tables s) @ [row\<lparr>ar_id := ?i\<rparr>]\<rparr>"
      using ran False by (simp_all add: tbl_insert_def Let_def)
    with False show thesis by (intro inserted [of ?i]) auto
  qed
qed (use failed in auto)

lemma auth_ok_append:
  assumes "auth_ok t" and "row_ok row"
    and "\<And>x. x \<in> set (accounts t) \<Longrightarrow> (ar_local_part x, ar_domain x) \<noteq> (ar_local_part row, ar_domain row)"
  shows "auth_ok (t\<lparr>accounts := accounts t @ [row\<lparr>ar_id := next_rowid ar_id (accounts t)\<rparr>]\<rparr>)"
proof -
  have "distinct (map ar_id (accounts t @ [row\<lparr>ar_id := next_rowid ar_id (accounts t)\<rparr>]))"
    using account_tbl.insert_distinct [of "accounts t" row] assms(1)
    by (simp add: auth_ok_def tbl_insert_def Let_def)
  moreover have "row_ok (row\<lparr>ar_id := i\<rparr>)" for i using assms(2) by (simp add: row_ok_def)
  moreover have "(ar_local_part row, ar_domain row) \<notin> (\<lambda>r. (ar_local_part r, ar_domain r)) ` set (accounts t)"
    using assms(3) by fastforce
  ultimately show ?thesis using assms(1,2) by (simp add: auth_ok_def)
qed

text \<open>The successful runs of \<open>provision\<close>.\<close>

lemma provision_Inr:
  assumes "provision L rnd now lp dn pw config s = (Returned (Inr a), s')"
  obtains pk wamk sk pub wpriv i where "valid_local_part lp" "valid_domain_name dn"
    "derive_pk L pw (pr_salt rnd) config = Inr pk"
    "wrap_amk L (pr_amk_nonce rnd) pk 1 (pr_amk rnd) = Returned wamk"
    "gen_keypair L (pr_keypair rnd) = (sk, pub)"
    "wrap_priv_key L (pr_priv_nonce rnd) (pr_amk rnd) 1 sk = Returned wpriv"
    "insert_account \<lparr>ar_id = 0, ar_local_part = lp, ar_domain = to_ascii_lowercase dn, ar_key_id = 1,
       ar_salt = pr_salt rnd, ar_wrapped_amk = wamk, ar_pub = pub, ar_wrapped_priv = wpriv,
       ar_created_at = now, ar_signature = None\<rparr> s = (Inr i, s')"
    "a = \<lparr>acc_id = i, acc_local_part = lp, acc_domain = to_ascii_lowercase dn, acc_key_id = 1,
       acc_salt = pr_salt rnd, acc_wrapped_amk = wamk, acc_pub = pub, acc_wrapped_priv = wpriv,
       acc_created_at = now\<rparr>"
proof -
  obtain sk pub where kp: "gen_keypair L (pr_keypair rnd) = (sk, pub)" by fastforce
  show thesis
    using assms that kp unfolding provision_def Let_def
    by (auto simp: proc_bind_Inr split: if_splits)
qed

lemma provision_fails:
  assumes "provision L rnd now lp dn pw config s = (r, s')" and "\<And>a. r \<noteq> Returned (Inr a)"
  shows "tables s' = tables s"
proof -
  obtain sk pub where kp: "gen_keypair L (pr_keypair rnd) = (sk, pub)" by fastforce
  show ?thesis
  proof (cases "\<not> valid_local_part lp \<or> \<not> valid_domain_name dn")
    case True
    with assms(1) show ?thesis by (auto simp: provision_def)
  next
    case False
    note run = assms(1) [unfolded provision_def Let_def kp prod.case]
    have no: "tables s'' = tables s" if "insert_account row s = (Inl e, s'')" for row e s''
      using that by (cases rule: insert_account_cases) auto
    from run False show ?thesis
      using assms(2) no by (auto elim!: proc_bind_cases)
  qed
qed

text \<open>Every way a stored account and its lookup can be spelled.\<close>

lemma provisioned_row:
  assumes "provision L rnd now lp dn pw config s = (Returned (Inr a), s')"
    and "hpke_correct L" and "length (pr_salt rnd) = 16"
  obtains row where "a = account_of row" "row_ok row" "ar_local_part row = lp"
    "ar_domain row = to_ascii_lowercase dn" "tables s' = (tables s)\<lparr>accounts := accounts (tables s) @ [row]\<rparr>"
    "ar_id row = next_rowid ar_id (accounts (tables s))"
    "auth_ok (tables s) \<longrightarrow> auth_ok (tables s')"
proof -
  from assms(1) obtain pk wamk sk pub wpriv i where v: "valid_local_part lp" "valid_domain_name dn"
    and kp: "gen_keypair L (pr_keypair rnd) = (sk, pub)"
    and ins: "insert_account \<lparr>ar_id = 0, ar_local_part = lp, ar_domain = to_ascii_lowercase dn, ar_key_id = 1,
       ar_salt = pr_salt rnd, ar_wrapped_amk = wamk, ar_pub = pub, ar_wrapped_priv = wpriv,
       ar_created_at = now, ar_signature = None\<rparr> s = (Inr i, s')"
    and a: "a = \<lparr>acc_id = i, acc_local_part = lp, acc_domain = to_ascii_lowercase dn, acc_key_id = 1,
       acc_salt = pr_salt rnd, acc_wrapped_amk = wamk, acc_pub = pub, acc_wrapped_priv = wpriv,
       acc_created_at = now\<rparr>"
    by (rule provision_Inr)
  define row where "row = \<lparr>ar_id = 0, ar_local_part = lp, ar_domain = to_ascii_lowercase dn, ar_key_id = 1,
       ar_salt = pr_salt rnd, ar_wrapped_amk = wamk, ar_pub = pub, ar_wrapped_priv = wpriv,
       ar_created_at = now, ar_signature = None\<rparr>"
  have "length pub = 32" using assms(2) kp by (simp add: hpke_correct_def)
  then have ok: "row_ok row"
    using v valid_domain_name_lower assms(3) by (simp add: row_ok_def row_def)
  from ins [folded row_def] show thesis
  proof (cases rule: insert_account_cases)
    case (inserted j)
    have "auth_ok (tables s')" if "auth_ok (tables s)"
      using auth_ok_append [OF that ok] inserted by simp
    then show thesis
      using inserted ok a by (intro that [of "row\<lparr>ar_id := i\<rparr>"]) (auto simp: account_of_def row_def row_ok_def)
  qed simp
qed

lemma provisioned_found:
  assumes "provision L rnd now lp dn pw config s = (Returned (Inr a), s')" and "hpke_correct L" and "length (pr_salt rnd) = 16"
    and "auth_ok (tables s)" and "faults s' = []" and "eq_ignore_ascii_case dn' dn"
  shows "find_by_address lp dn' s' = (Returned (Inr (Some a)), s')" and "auth_ok (tables s')"
    and "set (accounts (tables s)) \<subseteq> set (accounts (tables s'))"
proof -
  obtain row where row: "a = account_of row" "row_ok row" "ar_local_part row = lp"
    "ar_domain row = to_ascii_lowercase dn" "tables s' = (tables s)\<lparr>accounts := accounts (tables s) @ [row]\<rparr>"
    "auth_ok (tables s) \<longrightarrow> auth_ok (tables s')"
    by (rule provisioned_row [OF assms(1-3)]) blast
  show ok: "auth_ok (tables s')" by (rule row(6) [rule_format, OF assms(4)])
  have dn: "to_ascii_lowercase dn' = ar_domain row" using assms(6) row(4) by (simp add: eq_ignore_ascii_case_def)
  have "find (\<lambda>r. ar_local_part r = lp \<and> ar_domain r = to_ascii_lowercase dn') (accounts (tables s')) = Some row"
    using find_address [OF ok, of row] row(3,5) dn by simp
  then show "find_by_address lp dn' s' = (Returned (Inr (Some a)), s')"
    unfolding find_by_address_def Let_def by (subst query_account_no_faults [OF assms(5)]) (use row in auto)
  show "set (accounts (tables s)) \<subseteq> set (accounts (tables s'))" using row(5) by auto
qed

lemma provisioned_unlocks:
  assumes "provision L rnd now lp dn pw config s = (Returned (Inr a), s')" and "aead_correct L" and "hpke_correct L"
    and "length (pr_amk rnd) = 32" and "length (pr_amk_nonce rnd) = 24" and "length (pr_priv_nonce rnd) = 24"
  shows "unlock L a pw config = Returned (Inr \<lparr>ul_amk = pr_amk rnd, ul_priv = fst (gen_keypair L (pr_keypair rnd))\<rparr>)"
    and "acc_pub a = snd (gen_keypair L (pr_keypair rnd))"
proof -
  from assms(1) obtain pk wamk sk pub wpriv where d: "derive_pk L pw (pr_salt rnd) config = Inr pk"
    and w: "wrap_amk L (pr_amk_nonce rnd) pk 1 (pr_amk rnd) = Returned wamk"
    and kp: "gen_keypair L (pr_keypair rnd) = (sk, pub)"
    and p: "wrap_priv_key L (pr_priv_nonce rnd) (pr_amk rnd) 1 sk = Returned wpriv"
    and a: "acc_salt a = pr_salt rnd" "acc_wrapped_amk a = wamk" "acc_wrapped_priv a = wpriv" "acc_pub a = pub"
    by (rule provision_Inr) simp
  have "unwrap_amk L pk wamk = Returned (Inr (pr_amk rnd))"
    by (rule unwrap_wrap_amk [OF assms(2) _ _ w]) (simp_all add: assms(4,5) NONCE_LEN_def AMK_LEN_def)
  moreover have "unwrap_priv_key L (pr_amk rnd) wpriv = Inr sk"
    by (rule unwrap_wrap_priv_key [OF assms(2) _ p]) (simp add: assms(6) NONCE_LEN_def)
  moreover have "length sk = 32" using assms(3) kp by (simp add: hpke_correct_def)
  ultimately show "unlock L a pw config = Returned (Inr \<lparr>ul_amk = pr_amk rnd, ul_priv = fst (gen_keypair L (pr_keypair rnd))\<rparr>)"
    "acc_pub a = snd (gen_keypair L (pr_keypair rnd))"
    using a d kp by (auto simp: unlock_def finish_unlock_def KEY_LEN_def)
qed

text \<open>C31: provisioning an account with a password, then looking the address up (in any case of its domain)
  gives that account, and unlocking it with the password gives the master key and the private key that
  were drawn for it. The store keeps its invariant and every other account.\<close>

theorem provision_then_unlock:
  assumes "aead_correct L" and "hpke_correct L" and "auth_ok (tables s)" and "faults s' = []"
    and "length (pr_salt rnd) = 16" and "length (pr_amk rnd) = 32"
    and "length (pr_amk_nonce rnd) = 24" and "length (pr_priv_nonce rnd) = 24"
    and "provision L rnd now lp dn pw config s = (Returned (Inr a), s')"
    and "eq_ignore_ascii_case dn' dn"
  shows "find_by_address lp dn' s' = (Returned (Inr (Some a)), s') \<and>
    unlock L a pw config =
      Returned (Inr \<lparr>ul_amk = pr_amk rnd, ul_priv = fst (gen_keypair L (pr_keypair rnd))\<rparr>) \<and>
    acc_pub a = snd (gen_keypair L (pr_keypair rnd)) \<and>
    auth_ok (tables s') \<and> set (accounts (tables s)) \<subseteq> set (accounts (tables s'))"
  using provisioned_found [OF assms(9,2,5,3,4,10)] provisioned_unlocks [OF assms(9,1,2,6-8)] by blast

section \<open>Reachable stores\<close>

text \<open>The tables that a sequence of operations, each of which may fail at any statement, can leave.\<close>

inductive auth_reach :: "crypto_lib \<Rightarrow> auth_tables \<Rightarrow> bool" for L where
  opened: "auth_reach L \<lparr>accounts = [], app_passwords = []\<rparr>"
| provisioned: "auth_reach L (tables s) \<Longrightarrow> length (pr_salt rnd) = 16 \<Longrightarrow>
    provision L rnd now lp dn pw config s = (r, s') \<Longrightarrow> auth_reach L (tables s')"
| deleted: "auth_reach L (tables s) \<Longrightarrow> delete_account i s = (r, s') \<Longrightarrow> auth_reach L (tables s')"
| unlocked: "auth_reach L (tables s) \<Longrightarrow> unlock_any L now a credential config s = (r, s') \<Longrightarrow>
    auth_reach L (tables s')"
| created: "auth_reach L (tables s) \<Longrightarrow>
    create_app_password L hex rnd now i amk label scope config s = (r, s') \<Longrightarrow> auth_reach L (tables s')"
| revoked: "auth_reach L (tables s) \<Longrightarrow> revoke_app_password i j s = (r, s') \<Longrightarrow> auth_reach L (tables s')"
| signed: "auth_reach L (tables s) \<Longrightarrow> set_signature_sealed i sealed s = (r, s') \<Longrightarrow> auth_reach L (tables s')"

lemma touch_ok: "touch_app_password now i s = (r, s') \<Longrightarrow> auth_ok (tables s) \<Longrightarrow> auth_ok (tables s')"
  unfolding touch_app_password_def
  by (erule db_stmt_tables_inv) (auto simp: auth_ok_def update_where_keys)

lemma try_candidates_keeps:
  "try_candidates L now a credential config cs s = (r, s') \<Longrightarrow> auth_ok (tables s) \<Longrightarrow> auth_ok (tables s')"
proof (induction cs)
  case (Cons c cs)
  show ?case
  proof (cases "length (ap_salt c) = SALT_LEN")
    case True
    have "proc_bind (proc_return (crypto_err (derive_pk L credential (ap_salt c) config))) (\<lambda>pk.
        case unwrap_amk L pk (ap_wrapped_amk c) of
          Panicked \<Rightarrow> proc_result Panicked
        | Returned (Inl _) \<Rightarrow> try_candidates L now a credential config cs
        | Returned (Inr amk) \<Rightarrow>
            proc_bind (proc_result (finish_unlock L amk (acc_wrapped_priv a))) (\<lambda>unlocked.
            proc_bind (lift_op (touch_app_password now (ap_id c))) (\<lambda>_.
            proc_return (Inr (unlocked, scope_or_full (ap_scope c)))))) s = (r, s')"
      using Cons.prems(1) True by simp
    then show ?thesis
    proof (cases rule: proc_bind_cases)
      case (step pk s1)
      then have s1: "s1 = s" by simp
      show ?thesis
      proof (cases "unwrap_amk L pk (ap_wrapped_amk c)")
        case (Returned x)
        show ?thesis
        proof (cases x)
          case (Inl e)
          with step Returned s1 Cons show ?thesis by simp
        next
          case (Inr amk)
          from step(2) [unfolded Returned Inr s1, simplified] show ?thesis
            by (elim proc_bind_cases) (use Cons.prems(2) touch_ok in auto)
        qed
      qed (use step s1 Cons.prems in simp)
    qed (use Cons.prems in auto)
  next
    case False
    with Cons show ?thesis by simp
  qed
qed simp

lemma unlock_any_keeps:
  assumes "unlock_any L now a credential config s = (r, s')" and "auth_ok (tables s)"
  shows "auth_ok (tables s')"
proof (cases "unlock L a credential config")
  case (Returned x)
  show ?thesis
  proof (cases x)
    case (Inl e)
    from assms(1) [unfolded unlock_any_def Returned Inl, simplified] show ?thesis
      by (elim proc_bind_cases) (use assms(2) try_candidates_keeps db_query_tables in \<open>fastforce+\<close>)
  qed (use assms Returned in \<open>auto simp: unlock_any_def\<close>)
qed (use assms in \<open>auto simp: unlock_any_def\<close>)

lemma create_app_password_keeps:
  assumes "create_app_password L hex rnd now i amk label scope config s = (r, s')" and "auth_ok (tables s)"
  shows "auth_ok (tables s')"
proof -
  have "auth_ok (tables s'')" if "db_stmt (\<lambda>t. let (i, rows) = tbl_insert ap_id (\<lambda>i r. r\<lparr>ap_id := i\<rparr>) row (app_passwords t)
      in (Inr i, t\<lparr>app_passwords := rows\<rparr>)) s = (x, s'')" for x s'' row
    using that assms(2)
  proof (rule db_stmt_tables_inv)
    fix x :: "int result" and t assume "(let (i, rows) = tbl_insert ap_id (\<lambda>i r. r\<lparr>ap_id := i\<rparr>) row (app_passwords (tables s))
        in (Inr i, (tables s)\<lparr>app_passwords := rows\<rparr>)) = (x, t)"
    then have "t = (tables s)\<lparr>app_passwords := snd (tbl_insert ap_id (\<lambda>i r. r\<lparr>ap_id := i\<rparr>) row (app_passwords (tables s)))\<rparr>"
      by (auto split: prod.splits)
    with assms(2) app_password_tbl.insert_distinct [of "app_passwords (tables s)" row]
    show "auth_ok t" by (simp add: auth_ok_def)
  qed
  with assms show ?thesis unfolding create_app_password_def Let_def
    by (elim proc_bind_cases) (auto simp: Let_def)
qed

lemma auth_reach_ok:
  assumes "auth_reach L t" and "hpke_correct L"
  shows "auth_ok t"
  using assms(1)
proof (induction rule: auth_reach.induct)
  case opened
  then show ?case by (simp add: auth_ok_def)
next
  case (provisioned s rnd now lp dn pw config r s')
  show ?case
  proof (cases "\<exists>a. r = Returned (Inr a)")
    case True
    then obtain a where "provision L rnd now lp dn pw config s = (Returned (Inr a), s')" using provisioned by blast
    then show ?thesis using assms(2) provisioned(2)
      by (rule provisioned_row) (use provisioned(4) in blast)
  next
    case False
    then have "tables s' = tables s" using provision_fails [OF provisioned(3)] by blast
    with provisioned show ?thesis by simp
  qed
next
  case (deleted s i r s')
  from deleted(2,3) show ?case unfolding delete_account_def
    by (elim db_stmt_tables_inv) (auto simp: auth_ok_def list_all_iff distinct_map intro: inj_on_subset)
next
  case (revoked s i j r s')
  from revoked(2,3) show ?case unfolding revoke_app_password_def
    by (elim db_stmt_tables_inv) (auto simp: auth_ok_def distinct_map intro: inj_on_subset)
next
  case (signed s i sealed r s')
  from signed(2,3) show ?case unfolding set_signature_sealed_def
    by (elim db_stmt_tables_inv) (auto simp: auth_ok_def update_where_keys list_all_iff set_update_where row_ok_def)
qed (auto intro: unlock_any_keeps create_app_password_keeps)

text \<open>C33: in every store that operations on an empty one can leave, whatever fails, identifiers and addresses
  are unique, every address is valid with a lower-case domain, and looking an address up never panics.\<close>

theorem auth_store_invariant:
  assumes "auth_reach L (tables s)" and "hpke_correct L" and "find_by_address lp dn s = (r, s')"
  shows "auth_ok (tables s) \<and> r \<noteq> Panicked \<and> tables s' = tables s"
  using auth_reach_ok [OF assms(1,2)] find_by_address_run [OF assms(3)] by blast

section \<open>App passwords\<close>

text \<open>What a candidate row does with a credential.\<close>

definition accepts :: "crypto_lib \<Rightarrow> argon2_config \<Rightarrow> bytes \<Rightarrow> app_password \<Rightarrow> bytes \<Rightarrow> bool" where
  "accepts L config credential c amk \<longleftrightarrow> length (ap_salt c) = 16 \<and>
     (\<exists>pk. derive_pk L credential (ap_salt c) config = Inr pk \<and>
           unwrap_amk L pk (ap_wrapped_amk c) = Returned (Inr amk))"

definition declines :: "crypto_lib \<Rightarrow> argon2_config \<Rightarrow> bytes \<Rightarrow> app_password \<Rightarrow> bool" where
  "declines L config credential c \<longleftrightarrow> length (ap_salt c) \<noteq> 16 \<or>
     (\<exists>pk e. derive_pk L credential (ap_salt c) config = Inr pk \<and>
             unwrap_amk L pk (ap_wrapped_amk c) = Returned (Inl e))"

lemma try_candidates_skip:
  "list_all (declines L config credential) cs \<Longrightarrow>
     try_candidates L now a credential config (cs @ ds) s = try_candidates L now a credential config ds s"
proof (induction cs)
  case (Cons c cs)
  then have c: "declines L config credential c" by simp
  show ?case
  proof (cases "length (ap_salt c) = 16")
    case True
    with c obtain pk e where "derive_pk L credential (ap_salt c) config = Inr pk"
      "unwrap_amk L pk (ap_wrapped_amk c) = Returned (Inl e)" by (auto simp: declines_def)
    with Cons True show ?thesis by (simp add: SALT_LEN_def proc_bind_def proc_return_def)
  next
    case False
    with Cons show ?thesis by (simp add: SALT_LEN_def)
  qed
qed simp

lemma try_candidates_accept:
  assumes "accepts L config credential c amk"
    and "finish_unlock L amk (acc_wrapped_priv a) = Returned (Inr u)" and "faults s = []"
  shows "try_candidates L now a credential config (c # cs) s =
    (Returned (Inr (u, scope_or_full (ap_scope c))), snd (touch_app_password now (ap_id c) s))"
proof -
  from assms(1) obtain pk where "length (ap_salt c) = 16" "derive_pk L credential (ap_salt c) config = Inr pk"
    "unwrap_amk L pk (ap_wrapped_amk c) = Returned (Inr amk)" by (auto simp: accepts_def)
  with assms(2,3) show ?thesis
    by (simp add: SALT_LEN_def proc_bind_def proc_return_def proc_result_def lift_op_def touch_app_password_def)
qed

lemma try_candidates_sound:
  assumes "try_candidates L now a credential config cs s = (Returned (Inr (u, sc)), s')"
  shows "\<exists>c \<in> set cs. \<exists>amk. accepts L config credential c amk \<and>
    finish_unlock L amk (acc_wrapped_priv a) = Returned (Inr u) \<and> sc = scope_or_full (ap_scope c)"
  using assms
proof (induction cs)
  case (Cons c cs)
  show ?case
  proof (cases "length (ap_salt c) = 16")
    case True
    with Cons.prems obtain pk where pk: "derive_pk L credential (ap_salt c) config = Inr pk"
      by (auto simp: SALT_LEN_def proc_bind_Inr)
    show ?thesis
    proof (cases "unwrap_amk L pk (ap_wrapped_amk c)")
      case Panicked
      with Cons.prems True pk show ?thesis by (simp add: SALT_LEN_def proc_bind_def proc_return_def proc_result_def)
    next
      case (Returned r)
      show ?thesis
      proof (cases r)
        case (Inl e)
        with Cons.prems True pk Returned have "try_candidates L now a credential config cs s = (Returned (Inr (u, sc)), s')"
          by (simp add: SALT_LEN_def proc_bind_def proc_return_def)
        with Cons.IH show ?thesis by auto
      next
        case (Inr amk)
        with True pk Returned have "accepts L config credential c amk" by (simp add: accepts_def)
        moreover from Cons.prems True pk Returned Inr
        have "proc_bind (proc_result (finish_unlock L amk (acc_wrapped_priv a))) (\<lambda>unlocked.
            proc_bind (lift_op (touch_app_password now (ap_id c))) (\<lambda>_.
            proc_return (Inr (unlocked, scope_or_full (ap_scope c))))) s = (Returned (Inr (u, sc)), s')"
          by (simp add: SALT_LEN_def proc_bind_ok [of "proc_return (Inr pk)" s pk s] proc_return_def)
        then have "finish_unlock L amk (acc_wrapped_priv a) = Returned (Inr u)" "sc = scope_or_full (ap_scope c)"
          by (auto simp: proc_bind_Inr)
        ultimately show ?thesis by auto
      qed
    qed
  next
    case False
    with Cons.prems have "try_candidates L now a credential config cs s = (Returned (Inr (u, sc)), s')"
      by (simp add: SALT_LEN_def)
    with Cons.IH show ?thesis by auto
  qed
qed simp

text \<open>C32: a credential that unlocks an account is its password, with full scope, or the secret of an app
  password of that very account, with the scope stored for it; either way the private key was
  unwrapped with the master key the credential gave.\<close>

theorem unlock_any_sound:
  assumes "unlock_any L now a credential config s = (Returned (Inr (u, sc)), s')"
  shows "(unlock L a credential config = Returned (Inr u) \<and> sc = ScopeFull \<and> s' = s) \<or>
    (\<exists>c \<in> set (app_passwords (tables s)). \<exists>amk. ap_account_id c = acc_id a \<and> accepts L config credential c amk \<and>
       finish_unlock L amk (acc_wrapped_priv a) = Returned (Inr u) \<and> sc = scope_or_full (ap_scope c))"
proof (cases "unlock L a credential config")
  case Panicked
  with assms show ?thesis by (simp add: unlock_any_def)
next
  case (Returned r)
  show ?thesis
  proof (cases r)
    case (Inr v)
    with assms Returned show ?thesis by (simp add: unlock_any_def)
  next
    case (Inl e)
    with assms Returned obtain cs s1 where
      q: "db_query (\<lambda>t. filter (\<lambda>p. ap_account_id p = acc_id a) (app_passwords t)) s = (Inr cs, s1)"
      and t: "try_candidates L now a credential config cs s1 = (Returned (Inr (u, sc)), s')"
      by (auto simp: unlock_any_def proc_bind_Inr)
    with try_candidates_sound [OF t] db_query_Inr [OF q] show ?thesis by auto
  qed
qed

lemma unlock_any_candidates:
  assumes "unlock L a credential config = Returned (Inl e)" and "faults s = []"
  shows "unlock_any L now a credential config s =
    try_candidates L now a credential config (filter (\<lambda>p. ap_account_id p = acc_id a) (app_passwords (tables s))) s"
  using assms by (simp add: unlock_any_def proc_bind_def lift_op_def)

text \<open>an app password that was just created unlocks the account with its scope, and no longer does once
  it is revoked; a revocation in the name of another account does nothing.\<close>

theorem app_password_lifecycle:
  assumes "aead_correct L" and "faults s = []" and "length (apr_salt rnd) = 16" and "length (apr_nonce rnd) = 24"
    and "length amk = 32" and "finish_unlock L amk (acc_wrapped_priv a) = Returned (Inr u)"
    and "unlock L a (hex (apr_secret rnd)) config = Returned (Inl e)"
    and "list_all (\<lambda>p. ap_account_id p = acc_id a \<longrightarrow> declines L config (hex (apr_secret rnd)) p) (app_passwords (tables s))"
    and "create_app_password L hex rnd now (acc_id a) amk label scope config s = (Returned (Inr (sm, secret)), s1)"
    and "revoke_app_password (acc_id a) (aps_id sm) s1 = (r, s2)" and "b \<noteq> acc_id a"
  shows "fst (unlock_any L later a secret config s1) = Returned (Inr (u, scope)) \<and>
    fst (unlock_any L later a secret config s2) = Returned (Inl (Crypto ''no matching credential'')) \<and>
    tables s2 = tables s \<and> tables (snd (revoke_app_password b (aps_id sm) s1)) = tables s1"
proof -
  let ?mine = "filter (\<lambda>p. ap_account_id p = acc_id a)"
  let ?i = "next_rowid ap_id (app_passwords (tables s))"
  from assms(9) obtain pk w where pk: "derive_pk L (hex (apr_secret rnd)) (apr_salt rnd) config = Inr pk"
    and w: "wrap_amk L (apr_nonce rnd) pk 1 amk = Returned w"
    by (auto simp: create_app_password_def Let_def proc_bind_Inr)
  define c where "c = \<lparr>ap_id = ?i, ap_account_id = acc_id a, ap_label = label, ap_scope = scope_as_str scope,
      ap_key_id = 1, ap_salt = apr_salt rnd, ap_wrapped_amk = w, ap_created_at = now, ap_last_used_at = None\<rparr>"
  have s1: "s1 = s\<lparr>tables := (tables s)\<lparr>app_passwords := app_passwords (tables s) @ [c]\<rparr>\<rparr>"
    and sm: "aps_id sm = ?i" "secret = hex (apr_secret rnd)"
    using assms(2,9) pk w
    by (auto simp: create_app_password_def Let_def proc_bind_def proc_return_def proc_pan_def lift_op_def
        tbl_insert_def c_def)
  have f1: "faults s1 = []" using s1 assms(2) by simp
  have acc: "accepts L config secret c amk"
    using unwrap_wrap_amk [OF assms(1) _ _ w] pk assms(3-5) sm by (simp add: accepts_def c_def NONCE_LEN_def AMK_LEN_def)
  have dec: "list_all (declines L config secret) (?mine (app_passwords (tables s)))"
    using assms(8) sm(2) by (auto simp: list_all_iff)
  have mine: "?mine (app_passwords (tables s1)) = ?mine (app_passwords (tables s)) @ [c]"
    by (simp add: s1 c_def)
  have "fst (unlock_any L later a secret config s1) = Returned (Inr (u, scope))"
    using unlock_any_candidates [OF assms(7) f1] try_candidates_skip [OF dec] try_candidates_accept [OF acc assms(6) f1]
    by (simp add: mine sm(2) [symmetric] c_def scope_or_full_def)
  moreover have fresh: "\<And>p. p \<in> set (app_passwords (tables s)) \<Longrightarrow> ap_id p \<noteq> ?i" by (simp add: next_rowid_notin)
  have s2: "s2 = s"
    using assms(2,10) f1 sm(1) fresh by (auto simp: revoke_app_password_def s1 c_def filter_id_conv)
  have "fst (unlock_any L later a secret config s) = Returned (Inl (Crypto ''no matching credential''))"
    using unlock_any_candidates [OF assms(7,2)] try_candidates_skip [OF dec, where ds = "[]"]
    by (simp add: sm(2) [symmetric] proc_return_def)
  moreover have "tables (snd (revoke_app_password b (aps_id sm) s1)) = tables s1"
    using f1 sm(1) fresh assms(11) by (auto simp: revoke_app_password_def s1 c_def filter_id_conv)
  ultimately show ?thesis by (simp add: s2)
qed

section \<open>Samples\<close>

definition sample_config :: argon2_config where
  "sample_config = \<lparr>m_cost_kib = 65536, t_cost = 3, p_cost = 4\<rparr>"

definition sample_provision :: provision_random where
  "sample_provision = \<lparr>pr_salt = replicate 16 (CHR ''s''), pr_amk = replicate 32 (CHR ''a''), pr_amk_nonce = sample_nonce,
     pr_keypair = [], pr_priv_nonce = sample_nonce\<rparr>"

definition sample_app_random :: app_password_random where
  "sample_app_random = \<lparr>apr_secret = ''q'', apr_salt = replicate 16 (CHR ''t''), apr_nonce = sample_nonce\<rparr>"

definition empty_auth :: auth_db where
  "empty_auth = \<lparr>tables = \<lparr>accounts = [], app_passwords = []\<rparr>, faults = []\<rparr>"

lemma sample_lengths [simp]:
  "length (pr_salt sample_provision) = 16" "length (pr_amk sample_provision) = 32"
  "length (pr_amk_nonce sample_provision) = 24" "length (pr_priv_nonce sample_provision) = 24"
  "length (apr_salt sample_app_random) = 16" "length (apr_nonce sample_app_random) = 24"
  by (simp_all add: sample_provision_def sample_app_random_def sample_nonce_def)

lemma empty_auth_simps [simp]: "auth_ok (tables empty_auth)" "faults empty_auth = []" "app_passwords (tables empty_auth) = []"
  by (simp_all add: empty_auth_def auth_ok_def)

lemma sample_local_part: "valid_local_part ''alice''" "valid_domain_name ''Example.com''"
  by (simp_all add: valid_local_part_def input_eval)

lemma sample_provision_run:
  "\<exists>a s'. provision sample_lib sample_provision 7 ''alice'' ''Example.com'' ''pw'' sample_config empty_auth =
     (Returned (Inr a), s') \<and> faults s' = []"
  using sample_local_part
  by (simp add: provision_def Let_def proc_bind_def proc_return_def proc_pan_def lift_op_def derive_pk_def
      sample_lib_def wrap_amk_def committing_seal_def wrap_priv_key_def aead_seal_def insert_account_def
      tbl_insert_def empty_auth_def)

theorem auth_store_invariant_witness:
  "\<exists>s r s'. s \<noteq> empty_auth \<and> auth_reach sample_lib (tables s) \<and>
     find_by_address ''alice'' ''example.com'' s = (r, s') \<and> r \<noteq> Panicked \<and> auth_ok (tables s)"
proof -
  obtain a s where run: "provision sample_lib sample_provision 7 ''alice'' ''Example.com'' ''pw'' sample_config empty_auth =
       (Returned (Inr a), s)" using sample_provision_run by blast
  then have "accounts (tables s) \<noteq> []" by (elim provision_Inr insert_account_cases) auto
  then have ne: "s \<noteq> empty_auth" by (auto simp: empty_auth_def)
  have "auth_reach sample_lib (tables empty_auth)" using auth_reach.opened by (simp add: empty_auth_def)
  then have reach: "auth_reach sample_lib (tables s)" using sample_lengths(1) run by (rule auth_reach.provisioned)
  obtain r s' where f: "find_by_address ''alice'' ''example.com'' s = (r, s')" by fastforce
  from auth_store_invariant [OF reach sample_lib_correct(2) f] ne reach f show ?thesis by blast
qed

theorem provision_then_unlock_witness:
  "\<exists>a s'. provision sample_lib sample_provision 7 ''alice'' ''Example.com'' ''pw'' sample_config empty_auth =
       (Returned (Inr a), s') \<and>
     find_by_address ''alice'' ''EXAMPLE.COM'' s' = (Returned (Inr (Some a)), s') \<and>
     unlock sample_lib a ''pw'' sample_config = Returned (Inr \<lparr>ul_amk = pr_amk sample_provision,
       ul_priv = fst (gen_keypair sample_lib (pr_keypair sample_provision))\<rparr>)"
proof -
  obtain a s' where run: "provision sample_lib sample_provision 7 ''alice'' ''Example.com'' ''pw'' sample_config empty_auth =
       (Returned (Inr a), s')" "faults s' = []" using sample_provision_run by blast
  have "eq_ignore_ascii_case ''EXAMPLE.COM'' ''Example.com''"
    by (simp add: eq_ignore_ascii_case_def to_ascii_lowercase_def ascii_lower_def char_of_def bit_Suc_0_iff)
  with provision_then_unlock [OF sample_lib_correct(1,2) empty_auth_simps(1) run(2) sample_lengths(1-4) run(1)]
  show ?thesis using run(1) by blast
qed

text \<open>In the sample library a key that differs from the wrapping key opens nothing.\<close>

lemma sample_unwrap_wrong:
  assumes "wrap_amk sample_lib n k' kid amk = Returned w" and "length n = 24" and "length k = length k'" and "k \<noteq> k'"
  shows "unwrap_amk sample_lib k w = Returned (Inl OpenFailed)"
proof -
  have w: "w = header_encode (header_new CommittingWrapXChaCha20Poly1305 kid n) @ k' @ n @ zero_prefix @ amk"
    using assms(1) by (simp add: wrap_amk_def committing_seal_def sample_lib_def)
  have "strip_prefix (k @ n) (k' @ n @ zero_prefix @ amk) = None"
    using assms(3,4) by (metis (no_types, lifting) append_assoc append_eq_append_conv not_None_eq strip_prefix_Some)
  with assms(2) show ?thesis
    by (simp add: unwrap_amk_def committing_open_def w NONCE_LEN_def sample_lib_def)
qed

lemma sample_unlock_wrong:
  assumes "provision sample_lib sample_provision 7 ''alice'' ''Example.com'' ''pw'' sample_config empty_auth =
       (Returned (Inr a), s')"
  shows "unlock sample_lib a ''x'' sample_config = Returned (Inl (Crypto (crypto_error_to_string OpenFailed)))"
proof -
  from assms obtain pk wamk where d: "derive_pk sample_lib ''pw'' (pr_salt sample_provision) sample_config = Inr pk"
    and w: "wrap_amk sample_lib (pr_amk_nonce sample_provision) pk 1 (pr_amk sample_provision) = Returned wamk"
    and a: "acc_salt a = pr_salt sample_provision" "acc_wrapped_amk a = wamk"
    by (rule provision_Inr) simp
  obtain k where k: "derive_pk sample_lib ''x'' (pr_salt sample_provision) sample_config = Inr k"
    by (simp add: derive_pk_def sample_lib_def)
  have "length k = length pk" "k \<noteq> pk"
    using d k by (auto simp: derive_pk_def sample_lib_def sample_provision_def numeral_eq_Suc)
  with sample_unwrap_wrong [OF w sample_lengths(3)] a k show ?thesis by (simp add: unlock_def)
qed

theorem unlock_any_sound_witness:
  "\<exists>a s' u sc. unlock_any sample_lib 8 a ''pw'' sample_config s' = (Returned (Inr (u, sc)), s') \<and>
     unlock sample_lib a ''pw'' sample_config = Returned (Inr u) \<and> sc = ScopeFull"
proof -
  obtain a s' where run: "provision sample_lib sample_provision 7 ''alice'' ''Example.com'' ''pw'' sample_config empty_auth =
       (Returned (Inr a), s')" "faults s' = []" using sample_provision_run by blast
  then obtain pk wamk sk pub wpriv where d: "derive_pk sample_lib ''pw'' (pr_salt sample_provision) sample_config = Inr pk"
    and w: "wrap_amk sample_lib (pr_amk_nonce sample_provision) pk 1 (pr_amk sample_provision) = Returned wamk"
    and p: "wrap_priv_key sample_lib (pr_priv_nonce sample_provision) (pr_amk sample_provision) 1 sk = Returned wpriv"
    and kp: "gen_keypair sample_lib (pr_keypair sample_provision) = (sk, pub)"
    and a: "acc_salt a = pr_salt sample_provision" "acc_wrapped_amk a = wamk" "acc_wrapped_priv a = wpriv"
    and apps: "app_passwords (tables s') = []"
    by (elim provision_Inr insert_account_cases) auto
  have "unlock sample_lib a ''pw'' sample_config = Returned (Inr \<lparr>ul_amk = pr_amk sample_provision, ul_priv = sk\<rparr>)"
    using unwrap_wrap_amk [OF sample_lib_correct(1) _ _ w] unwrap_wrap_priv_key [OF sample_lib_correct(1) _ p]
      sample_lib_correct(2) kp a d
    by (simp add: unlock_def finish_unlock_def NONCE_LEN_def AMK_LEN_def KEY_LEN_def hpke_correct_def)
  then have "unlock_any sample_lib 8 a ''pw'' sample_config s' =
      (Returned (Inr (\<lparr>ul_amk = pr_amk sample_provision, ul_priv = sk\<rparr>, ScopeFull)), s')"
    by (simp add: unlock_any_def proc_return_def)
  with unlock_any_sound [OF this] apps show ?thesis by auto
qed

theorem app_password_lifecycle_witness:
  "\<exists>a u i s1 s2. fst (unlock_any sample_lib 9 a ''x'' sample_config s1) = Returned (Inr (u, ScopeSubmission)) \<and>
     revoke_app_password (acc_id a) i s1 = (Inr (), s2) \<and>
     fst (unlock_any sample_lib 9 a ''x'' sample_config s2) = Returned (Inl (Crypto ''no matching credential''))"
proof -
  let ?hex = "\<lambda>_. ''x'' :: string"
  obtain a s' where run: "provision sample_lib sample_provision 7 ''alice'' ''Example.com'' ''pw'' sample_config empty_auth =
       (Returned (Inr a), s')" using sample_provision_run by blast
  obtain sk pub where kp: "gen_keypair sample_lib [] = (sk, pub)" by fastforce
  from run obtain wpriv where p: "wrap_priv_key sample_lib (pr_priv_nonce sample_provision) (pr_amk sample_provision) 1 sk = Returned wpriv"
    and a: "acc_wrapped_priv a = wpriv"
    by (rule provision_Inr) (use kp in \<open>simp add: sample_provision_def\<close>)
  have fin: "finish_unlock sample_lib (pr_amk sample_provision) (acc_wrapped_priv a) =
      Returned (Inr \<lparr>ul_amk = pr_amk sample_provision, ul_priv = sk\<rparr>)"
    using unwrap_wrap_priv_key [OF sample_lib_correct(1) _ p] sample_lib_correct(2) kp a
    by (simp add: finish_unlock_def NONCE_LEN_def KEY_LEN_def hpke_correct_def)
  obtain sm secret s1 where c: "create_app_password sample_lib ?hex sample_app_random 8 (acc_id a) (pr_amk sample_provision)
      ''phone'' ScopeSubmission sample_config empty_auth = (Returned (Inr (sm, secret)), s1)"
    and s1: "secret = ''x''" "faults s1 = []"
    by (auto simp: create_app_password_def Let_def proc_bind_def proc_return_def proc_pan_def lift_op_def derive_pk_def
      sample_lib_def wrap_amk_def committing_seal_def tbl_insert_def)
  obtain s2 where r: "revoke_app_password (acc_id a) (aps_id sm) s1 = (Inr (), s2)"
    using s1(2) by (simp add: revoke_app_password_def)
  have l: "list_all (\<lambda>p. ap_account_id p = acc_id a \<longrightarrow> declines sample_lib sample_config (?hex (apr_secret sample_app_random)) p)
      (app_passwords (tables empty_auth))" by simp
  have b: "acc_id a + 1 \<noteq> acc_id a" by simp
  note th = app_password_lifecycle [OF sample_lib_correct(1) empty_auth_simps(2) sample_lengths(5,6,2) fin
      sample_unlock_wrong [OF run] l c r b, of 9]
  have "fst (unlock_any sample_lib 9 a ''x'' sample_config s1) =
      Returned (Inr (\<lparr>ul_amk = pr_amk sample_provision, ul_priv = sk\<rparr>, ScopeSubmission))"
    "fst (unlock_any sample_lib 9 a ''x'' sample_config s2) = Returned (Inl (Crypto ''no matching credential''))"
    using th s1(1) by simp_all
  then show ?thesis using r by blast
qed

end
