(* ===== verification/Audit_Log.thy ===== *)
theory Audit_Log
  imports Sealing
begin

text \<open>
  The \<open>audit\<close> crate: the hash-chained log whose details are sealed to the operator's key
  (\<open>audit/src/store.rs\<close>).

  The tables are the key row, the log in order of its \<open>AUTOINCREMENT\<close> sequence number, and the head
  signatures. Fixed-size arrays are filled with \<open>copy_from_slice\<close>, which panics on a column of another
  length. The choice among head signatures of the same second is an argument. The key id only ever holds
  the 16-bit values the code writes.
\<close>

section \<open>Definitions\<close>

record audit_entry =
  ae_seq :: int
  ae_at :: int
  ae_action :: string
  ae_detail :: string

record audit_keys =
  ak_pub :: bytes
  ak_wrapped_priv :: bytes
  ak_key_id :: "16 word"
  ak_chain_key :: bytes
  ak_sign_pub :: bytes
  ak_sign_priv :: bytes
  ak_created_at :: int

record log_row =
  lr_seq :: int
  lr_at :: int
  lr_action :: string
  lr_commitment :: bytes
  lr_prev_hash :: bytes
  lr_hash :: bytes
  lr_sealed :: bytes

record head_signature =
  hs_seq :: int
  hs_hash :: bytes
  hs_signature :: bytes
  hs_signed_at :: int

record audit_tables =
  keys_row :: "audit_keys option"
  audit_log :: "log_row list"
  last_seq :: int
  head_signatures :: "head_signature list"

type_synonym audit_db = "audit_tables db"

definition HPKE_INFO :: bytes where "HPKE_INFO = ''litterae/audit-entry-v1''"

definition SIGN_INTERVAL :: int where "SIGN_INTERVAL = 20"

definition HASH_LEN :: nat where "HASH_LEN = 32"

definition genesis_hash :: bytes where "genesis_hash = replicate HASH_LEN (CHR 0x00)"

definition copy_array :: "nat \<Rightarrow> bytes \<Rightarrow> bytes pan" where
  "copy_array n b = (if length b = n then Returned b else Panicked)"

definition has_keys :: "audit_db \<Rightarrow> bool result \<times> audit_db" where
  "has_keys = db_query (\<lambda>t. keys_row t \<noteq> None)"

record key_random =
  kr_audit :: bytes
  kr_sign :: bytes
  kr_chain :: bytes
  kr_nonce :: bytes

definition bootstrap_keys :: "crypto_lib \<Rightarrow> key_random \<Rightarrow> int \<Rightarrow> bytes \<Rightarrow> (unit, audit_db) proc" where
  "bootstrap_keys L rnd now wrap_key =
     proc_bind (lift_op has_keys) (\<lambda>has.
       if has then proc_return (Inr ())
       else
         let (private, public) = gen_keypair L (kr_audit rnd);
             sign_kp = keypair_generate L (kr_sign rnd)
         in proc_bind (proc_pan (copy_array 32 (kr_chain rnd))) (\<lambda>chain_key.
            proc_bind (proc_pan (committing_seal L (kr_nonce rnd) wrap_key 1 private)) (\<lambda>wrapped.
            lift_op (db_stmt (\<lambda>t.
              if keys_row t \<noteq> None then (Inl (Storage ''UNIQUE constraint failed: audit_keys.id''), t)
              else (Inr (), t\<lparr>keys_row := Some \<lparr>ak_pub = public, ak_wrapped_priv = wrapped, ak_key_id = 1,
                ak_chain_key = chain_key, ak_sign_pub = sig_public sign_kp, ak_sign_priv = sig_private sign_kp,
                ak_created_at = now\<rparr>\<rparr>))))))"

definition rewrap_audit_key :: "crypto_lib \<Rightarrow> bytes \<Rightarrow> bytes \<Rightarrow> bytes \<Rightarrow> (unit, audit_db) proc" where
  "rewrap_audit_key L nonce_bytes old_wrap_key new_wrap_key =
     proc_bind (lift_op (db_stmt (\<lambda>t. (case keys_row t of
         None \<Rightarrow> Inl (Storage ''Query returned no rows'')
       | Some k \<Rightarrow> Inr (ak_wrapped_priv k, ak_key_id k), t)))) (\<lambda>(wrapped, kid).
     proc_bind (proc_return (crypto_err (committing_open L old_wrap_key wrapped))) (\<lambda>priv_bytes.
     proc_bind (proc_pan (committing_seal L nonce_bytes new_wrap_key (kid + 1) priv_bytes)) (\<lambda>rewrapped.
     lift_op (db_stmt (\<lambda>t. (Inr (),
       t\<lparr>keys_row := map_option (\<lambda>k. k\<lparr>ak_wrapped_priv := rewrapped, ak_key_id := kid + 1\<rparr>) (keys_row t)\<rparr>))))))"

definition load_keys :: "(audit_keys, audit_db) proc" where
  "load_keys =
     proc_bind (lift_op (db_query keys_row)) (\<lambda>row.
       case row of
         None \<Rightarrow> proc_return (Inl (Storage ''audit keys not bootstrapped''))
       | Some k \<Rightarrow>
           proc_bind (proc_pan (copy_array 32 (ak_pub k))) (\<lambda>_.
           proc_bind (proc_pan (copy_array 32 (ak_chain_key k))) (\<lambda>_.
           proc_bind (proc_pan (copy_array 32 (ak_sign_pub k))) (\<lambda>_.
           proc_bind (proc_pan (copy_array 32 (ak_sign_priv k))) (\<lambda>_.
           proc_return (Inr k))))))"

text \<open>\<open>to_be_bytes\<close> of an \<open>i64\<close>.\<close>

definition i64_be_bytes :: "int \<Rightarrow> bytes" where
  "i64_be_bytes i = map (\<lambda>k. char_of (nat (i div 256 ^ k mod 256))) [7, 6, 5, 4, 3, 2, 1, 0]"

definition head_message :: "int \<Rightarrow> bytes \<Rightarrow> bytes" where
  "head_message seq hash = i64_be_bytes seq @ hash"

definition sign_head_locked :: "crypto_lib \<Rightarrow> int \<Rightarrow> audit_keys \<Rightarrow> int \<Rightarrow> bytes \<Rightarrow> audit_db \<Rightarrow> unit result \<times> audit_db" where
  "sign_head_locked L now keys seq hash =
     (let sign_kp = keypair_from_private L (ak_sign_priv keys);
          signature = sign L sign_kp (head_message seq hash)
      in db_stmt (\<lambda>t. (Inr (), t\<lparr>head_signatures := head_signatures t @
           [\<lparr>hs_seq = seq, hs_hash = hash, hs_signature = signature, hs_signed_at = now\<rparr>]\<rparr>)))"

text \<open>\<open>ORDER BY seq DESC LIMIT 1\<close>: the rows are kept in the order of their sequence numbers.\<close>

definition last_row :: "audit_tables \<Rightarrow> log_row option" where
  "last_row t = (if audit_log t = [] then None else Some (last (audit_log t)))"

definition insert_log :: "int \<Rightarrow> string \<Rightarrow> bytes \<Rightarrow> bytes \<Rightarrow> bytes \<Rightarrow> bytes \<Rightarrow> audit_db \<Rightarrow> int result \<times> audit_db" where
  "insert_log now action commitment prev hash sealed = db_stmt (\<lambda>t.
     let seq = last_seq t + 1 in
     (Inr seq, t\<lparr>last_seq := seq, audit_log := audit_log t @
        [\<lparr>lr_seq = seq, lr_at = now, lr_action = action, lr_commitment = commitment, lr_prev_hash = prev,
          lr_hash = hash, lr_sealed = sealed\<rparr>]\<rparr>))"

definition log_entry :: "crypto_lib \<Rightarrow> bytes \<Rightarrow> int \<Rightarrow> string \<Rightarrow> string \<Rightarrow> (unit, audit_db) proc" where
  "log_entry L rnd now action detail =
     proc_bind load_keys (\<lambda>keys.
     proc_bind (lift_op (db_query (\<lambda>t. map_option lr_hash (last_row t)))) (\<lambda>h.
     proc_bind (proc_pan (case h of None \<Rightarrow> Returned genesis_hash | Some b \<Rightarrow> copy_array HASH_LEN b)) (\<lambda>prev_hash.
     let commitment = keyed_hash L (ak_chain_key keys) detail;
         hash = keyed_hash L (ak_chain_key keys) (prev_hash @ commitment)
     in
     proc_bind (proc_return (crypto_err (hpke_seal L rnd (ak_pub keys) (ak_key_id keys) HPKE_INFO detail))) (\<lambda>sealed.
     proc_bind (lift_op (insert_log now action commitment prev_hash hash sealed)) (\<lambda>seq.
       if seq mod SIGN_INTERVAL = 0 then lift_op (sign_head_locked L now keys seq hash)
       else proc_return (Inr ()))))))"

definition sign_head_now :: "crypto_lib \<Rightarrow> int \<Rightarrow> (unit, audit_db) proc" where
  "sign_head_now L now =
     proc_bind load_keys (\<lambda>keys.
     proc_bind (lift_op (db_query last_row)) (\<lambda>latest.
       case latest of
         None \<Rightarrow> proc_return (Inr ())
       | Some r \<Rightarrow> proc_bind (proc_pan (copy_array HASH_LEN (lr_hash r))) (\<lambda>hash.
           lift_op (sign_head_locked L now keys (lr_seq r) hash))))"

fun chain_from :: "crypto_lib \<Rightarrow> bytes \<Rightarrow> bytes \<Rightarrow> log_row list \<Rightarrow> bool" where
  "chain_from L chain_key expected_prev [] = True"
| "chain_from L chain_key expected_prev (r # rs) =
     (if lr_prev_hash r \<noteq> expected_prev then False
      else let expected_hash = keyed_hash L chain_key (expected_prev @ lr_commitment r) in
        if expected_hash \<noteq> lr_hash r then False else chain_from L chain_key expected_hash rs)"

definition verify_chain :: "crypto_lib \<Rightarrow> (bool, audit_db) proc" where
  "verify_chain L =
     proc_bind load_keys (\<lambda>keys.
     proc_bind (lift_op (db_query audit_log)) (\<lambda>rows.
     proc_return (Inr (chain_from L (ak_chain_key keys) genesis_hash rows))))"

definition latest_signatures :: "audit_tables \<Rightarrow> head_signature list" where
  "latest_signatures t =
     filter (\<lambda>h. list_all (\<lambda>g. hs_signed_at g \<le> hs_signed_at h) (head_signatures t)) (head_signatures t)"

definition verify_latest_signature ::
    "crypto_lib \<Rightarrow> (head_signature list \<Rightarrow> head_signature option) \<Rightarrow> (bool option, audit_db) proc" where
  "verify_latest_signature L pick =
     proc_bind load_keys (\<lambda>keys.
     proc_bind (lift_op (db_query (\<lambda>t. pick (latest_signatures t)))) (\<lambda>row.
       case row of
         None \<Rightarrow> proc_return (Inr None)
       | Some h \<Rightarrow>
           proc_bind (proc_pan (copy_array HASH_LEN (hs_hash h))) (\<lambda>hash.
           proc_bind (proc_pan (copy_array 64 (hs_signature h))) (\<lambda>signature.
           proc_return (Inr (Some (verify L (ak_sign_pub keys) (head_message (hs_seq h) hash) signature)))))))"

fun open_entries :: "crypto_lib \<Rightarrow> bytes \<Rightarrow> log_row list \<Rightarrow> audit_entry list result" where
  "open_entries L priv [] = Inr []"
| "open_entries L priv (r # rs) =
     (case crypto_err (hpke_open L priv HPKE_INFO (lr_sealed r)) of
        Inl e \<Rightarrow> Inl e
      | Inr detail \<Rightarrow>
          if \<not> utf8_valid detail then Inl (Storage (''non-utf8 audit detail: '' @ utf8_error 0 detail))
          else (case open_entries L priv rs of
                  Inl e \<Rightarrow> Inl e
                | Inr es \<Rightarrow> Inr (\<lparr>ae_seq = lr_seq r, ae_at = lr_at r, ae_action = lr_action r, ae_detail = detail\<rparr> # es)))"

text \<open>A negative \<open>LIMIT\<close> is no limit.\<close>

definition sql_limit :: "int \<Rightarrow> 'a list \<Rightarrow> 'a list" where
  "sql_limit n xs = (if n < 0 then xs else take (nat n) xs)"

definition read_recent :: "crypto_lib \<Rightarrow> bytes \<Rightarrow> int \<Rightarrow> (audit_entry list, audit_db) proc" where
  "read_recent L wrap_key limit =
     proc_bind load_keys (\<lambda>keys.
     proc_bind (proc_return (crypto_err (committing_open L wrap_key (ak_wrapped_priv keys)))) (\<lambda>priv_bytes.
     proc_bind (proc_pan (copy_array 32 priv_bytes)) (\<lambda>priv.
     proc_bind (lift_op (db_query (\<lambda>t. sql_limit limit (rev (audit_log t))))) (\<lambda>rows.
     proc_return (open_entries L priv rows)))))"

section \<open>The chain\<close>

definition hash_correct :: "crypto_lib \<Rightarrow> bool" where
  "hash_correct L \<longleftrightarrow> (\<forall>k d. length (hmac_sha256 L k d) = 32)"

lemma keyed_hash_length: "hash_correct L \<Longrightarrow> length (keyed_hash L k d) = HASH_LEN"
  by (simp add: hash_correct_def keyed_hash_def HASH_LEN_def)

fun chain_head :: "bytes \<Rightarrow> log_row list \<Rightarrow> bytes" where
  "chain_head p [] = p"
| "chain_head p (r # rs) = chain_head (lr_hash r) rs"

lemma chain_head_append [simp]: "chain_head p (rs @ [r]) = lr_hash r"
  by (induction rs arbitrary: p) auto

lemma chain_head_last: "chain_head p rs = (if rs = [] then p else lr_hash (last rs))"
  by (cases rs rule: rev_cases) auto

lemma chain_from_append:
  "chain_from L k p (rs @ [r]) \<longleftrightarrow> chain_from L k p rs \<and> lr_prev_hash r = chain_head p rs \<and>
     lr_hash r = keyed_hash L k (chain_head p rs @ lr_commitment r)"
  by (induction rs arbitrary: p) (auto simp: Let_def)

lemma chain_from_map:
  assumes "\<And>r. lr_prev_hash (f r) = lr_prev_hash r \<and> lr_commitment (f r) = lr_commitment r \<and> lr_hash (f r) = lr_hash r"
  shows "chain_from L k p (map f rs) = chain_from L k p rs"
  using assms by (induction rs arbitrary: p) (auto simp: Let_def)

section \<open>Invariant\<close>

definition keys_ok :: "audit_keys \<Rightarrow> bool" where
  "keys_ok k \<longleftrightarrow> length (ak_pub k) = 32 \<and> length (ak_chain_key k) = 32 \<and> length (ak_sign_pub k) = 32 \<and>
     length (ak_sign_priv k) = 32"

definition audit_ok :: "crypto_lib \<Rightarrow> audit_tables \<Rightarrow> bool" where
  "audit_ok L t \<longleftrightarrow>
     (case keys_row t of
        None \<Rightarrow> audit_log t = []
      | Some k \<Rightarrow> keys_ok k \<and> chain_from L (ak_chain_key k) genesis_hash (audit_log t)) \<and>
     list_all (\<lambda>r. length (lr_hash r) = HASH_LEN) (audit_log t) \<and>
     last_seq t = int (length (audit_log t)) \<and>
     map lr_seq (audit_log t) = map (\<lambda>i. int i + 1) [0 ..< length (audit_log t)]"

lemma load_keys_run:
  assumes "load_keys s = (r, s')" and "\<And>k. keys_row (tables s) = Some k \<Longrightarrow> keys_ok k"
  shows "tables s' = tables s" and "r \<noteq> Panicked" and "r = Returned (Inr k) \<Longrightarrow> keys_row (tables s) = Some k"
proof -
  have "tables s' = tables s \<and> r \<noteq> Panicked \<and> (r = Returned (Inr k) \<longrightarrow> keys_row (tables s) = Some k)"
    using assms(1) unfolding load_keys_def
  proof (cases rule: proc_bind_cases)
    case (step row s1)
    then have row: "row = keys_row (tables s)" "tables s1 = tables s" using db_query_Inr [of keys_row s row s1] by auto
    show ?thesis
    proof (cases "keys_row (tables s)")
      case None
      with step row show ?thesis by simp
    next
      case (Some k')
      with step(2) row assms(2) [OF Some] have "(r, s') = (Returned (Inr k'), s1)"
        by (simp add: proc_bind_def proc_pan_def proc_return_def copy_array_def keys_ok_def)
      with Some row show ?thesis by simp
    qed
  qed (auto dest: db_query_tables)
  then show "tables s' = tables s" "r \<noteq> Panicked" "r = Returned (Inr k) \<Longrightarrow> keys_row (tables s) = Some k" by blast+
qed

lemma load_keys_no_faults:
  assumes "faults s = []" and "keys_row (tables s) = Some k" and "keys_ok k"
  shows "load_keys s = (Returned (Inr k), s)"
  using assms by (simp add: load_keys_def proc_bind_def proc_pan_def proc_return_def lift_op_def copy_array_def keys_ok_def)

lemma audit_ok_keys: "audit_ok L t \<Longrightarrow> keys_row t = Some k \<Longrightarrow> keys_ok k"
  by (simp add: audit_ok_def)

text \<open>The signatures a table may hold after a step: those before it, and perhaps one of the head \<open>seq\<close>, \<open>h\<close>.\<close>

definition signs_head :: "crypto_lib \<Rightarrow> audit_keys \<Rightarrow> int \<Rightarrow> bytes \<Rightarrow> head_signature list \<Rightarrow> head_signature list \<Rightarrow> bool" where
  "signs_head L k seq h old new \<longleftrightarrow> new = old \<or>
     (\<exists>now. new = old @ [\<lparr>hs_seq = seq, hs_hash = h,
        hs_signature = sign L (keypair_from_private L (ak_sign_priv k)) (head_message seq h), hs_signed_at = now\<rparr>])"

lemma sign_head_effect:
  assumes "sign_head_locked L now k seq h s = (x, s')"
  shows "\<exists>sigs. tables s' = (tables s)\<lparr>head_signatures := sigs\<rparr> \<and> signs_head L k seq h (head_signatures (tables s)) sigs"
  using assms unfolding sign_head_locked_def Let_def
proof (cases rule: db_stmt_cases)
  case (failed msg)
  then have "tables s' = (tables s)\<lparr>head_signatures := head_signatures (tables s)\<rparr>" by simp
  then show ?thesis by (intro exI [of _ "head_signatures (tables s)"]) (simp add: signs_head_def)
next
  case ran
  then have "tables s' = (tables s)\<lparr>head_signatures := head_signatures (tables s) @ [\<lparr>hs_seq = seq, hs_hash = h,
      hs_signature = sign L (keypair_from_private L (ak_sign_priv k)) (head_message seq h), hs_signed_at = now\<rparr>]\<rparr>"
    by simp
  then show ?thesis unfolding signs_head_def by blast
qed

text \<open>Every run of \<open>log\<close>: nothing is appended, or one entry that continues the chain.\<close>

lemma log_entry_cases:
  assumes "log_entry L rnd now action detail s = (r, s')" and "audit_ok L (tables s)"
  obtains (kept) "tables s' = tables s" "r \<noteq> Panicked" "r \<noteq> Returned (Inr ())"
    | (appended) k row sigs sealed where "keys_row (tables s) = Some k" "r \<noteq> Panicked"
      "row = \<lparr>lr_seq = last_seq (tables s) + 1, lr_at = now, lr_action = action,
        lr_commitment = keyed_hash L (ak_chain_key k) detail,
        lr_prev_hash = chain_head genesis_hash (audit_log (tables s)),
        lr_hash = keyed_hash L (ak_chain_key k) (chain_head genesis_hash (audit_log (tables s)) @ keyed_hash L (ak_chain_key k) detail),
        lr_sealed = sealed\<rparr>"
      "hpke_seal L rnd (ak_pub k) (ak_key_id k) HPKE_INFO detail = Inr sealed"
      "tables s' = (tables s)\<lparr>last_seq := last_seq (tables s) + 1, audit_log := audit_log (tables s) @ [row],
        head_signatures := sigs\<rparr>"
      "signs_head L k (lr_seq row) (lr_hash row) (head_signatures (tables s)) sigs"
proof -
  let ?t = "tables s"
  have kok: "\<And>k. keys_row ?t = Some k \<Longrightarrow> keys_ok k" using assms(2) by (rule audit_ok_keys)
  from assms(1) show thesis unfolding log_entry_def
  proof (cases rule: proc_bind_cases)
    case panic
    with load_keys_run(2) [OF panic(1)] kok show thesis by simp
  next
    case (error e)
    have "tables s' = ?t" using load_keys_run(1) [OF error(1)] kok by simp
    with error(2) show thesis by (intro kept) simp_all
  next
    case (step k s1)
    have k: "keys_row ?t = Some k" "tables s1 = ?t"
      by (rule load_keys_run(3) [OF step(1) kok refl], assumption) (rule load_keys_run(1) [OF step(1) kok])
    from step(2) show thesis
    proof (cases rule: proc_bind_cases)
      case panic
      then show thesis by simp
    next
      case (error e)
      then have "tables s' = ?t" using db_query_tables k(2) by (metis lift_op_Inr)
      with error(2) show thesis by (intro kept) simp_all
    next
      case (step h s2)
      then have h: "h = map_option lr_hash (last_row ?t)" "tables s2 = ?t"
        using db_query_Inr [of _ s1 h s2] k(2) by auto
      define prev where "prev = chain_head genesis_hash (audit_log ?t)"
      have "list_all (\<lambda>r. length (lr_hash r) = HASH_LEN) (audit_log ?t)" using assms(2) by (simp add: audit_ok_def)
      then have prev: "(case h of None \<Rightarrow> Returned genesis_hash | Some b \<Rightarrow> copy_array HASH_LEN b) = Returned prev"
        unfolding h(1) last_row_def prev_def chain_head_last by (simp add: copy_array_def list_all_iff)
      define com where "com = keyed_hash L (ak_chain_key k) detail"
      define hsh where "hsh = keyed_hash L (ak_chain_key k) (prev @ com)"
      have run: "proc_bind (proc_return (crypto_err (hpke_seal L rnd (ak_pub k) (ak_key_id k) HPKE_INFO detail))) (\<lambda>sealed.
         proc_bind (lift_op (insert_log now action com prev hsh sealed)) (\<lambda>seq.
           if seq mod SIGN_INTERVAL = 0 then lift_op (sign_head_locked L now k seq hsh)
           else proc_return (Inr ()))) s2 = (r, s')"
        using step(2) unfolding prev proc_pan_def pan.case Let_def com_def hsh_def by (simp add: proc_bind_def)
      from run show thesis
      proof (cases rule: proc_bind_cases)
        case (error e)
        with h(2) show thesis by (intro kept) simp_all
      next
        case (step sealed s3)
        then have sealed: "hpke_seal L rnd (ak_pub k) (ak_key_id k) HPKE_INFO detail = Inr sealed" "s3 = s2" by auto
        from step(2) show thesis
        proof (cases rule: proc_bind_cases)
          case (error e)
          then have "tables s' = tables s3"
            unfolding insert_log_def lift_op_Inr by (elim db_stmt_cases) (auto simp: Let_def)
          with error h(2) sealed(2) show thesis by (intro kept) simp_all
        next
          case (step seq s4)
          let ?row = "\<lparr>lr_seq = last_seq ?t + 1, lr_at = now, lr_action = action, lr_commitment = com,
            lr_prev_hash = prev, lr_hash = hsh, lr_sealed = sealed\<rparr>"
          have s4: "tables s4 = ?t\<lparr>last_seq := last_seq ?t + 1, audit_log := audit_log ?t @ [?row]\<rparr>" "seq = last_seq ?t + 1"
            using step(1) h(2) sealed(2) unfolding insert_log_def lift_op_Inr
            by (elim db_stmt_cases; auto simp: Let_def)+
          have "r \<noteq> Panicked \<and> (\<exists>sigs. tables s' = (tables s4)\<lparr>head_signatures := sigs\<rparr> \<and>
              signs_head L k seq hsh (head_signatures (tables s4)) sigs)"
          proof (cases "seq mod SIGN_INTERVAL = 0")
            case True
            from step(2) True obtain x where "sign_head_locked L now k seq hsh s4 = (x, s')" "r = Returned x"
              by (auto simp: lift_op_def split: prod.splits)
            with sign_head_effect show ?thesis by fastforce
          next
            case False
            with step(2) show ?thesis by (auto simp: signs_head_def intro: exI [of _ "head_signatures (tables s4)"])
          qed
          then obtain sigs where "r \<noteq> Panicked" "tables s' = (tables s4)\<lparr>head_signatures := sigs\<rparr>"
            "signs_head L k seq hsh (head_signatures (tables s4)) sigs" by blast
          with k(1) sealed(1) s4 show thesis
            by (intro appended [of k ?row sealed sigs]) (simp_all add: com_def hsh_def prev_def)
        qed simp
      qed simp
    qed
  qed
qed

section \<open>Reachable logs\<close>

definition sign_sizes :: "crypto_lib \<Rightarrow> bool" where
  "sign_sizes L \<longleftrightarrow> (\<forall>sk. length sk = 32 \<longrightarrow> length (ed25519_public L sk) = 32)"

text \<open>The tables that the operations, each of which may fail at any statement, can leave.\<close>

inductive audit_reach :: "crypto_lib \<Rightarrow> audit_tables \<Rightarrow> bool" for L where
  opened: "audit_reach L \<lparr>keys_row = None, audit_log = [], last_seq = 0, head_signatures = []\<rparr>"
| bootstrapped: "audit_reach L (tables s) \<Longrightarrow> length (kr_sign rnd) = 32 \<Longrightarrow>
    bootstrap_keys L rnd now wrap s = (r, s') \<Longrightarrow> audit_reach L (tables s')"
| rewrapped: "audit_reach L (tables s) \<Longrightarrow> rewrap_audit_key L n old new s = (r, s') \<Longrightarrow> audit_reach L (tables s')"
| logged: "audit_reach L (tables s) \<Longrightarrow> log_entry L rnd now action detail s = (r, s') \<Longrightarrow> audit_reach L (tables s')"
| signed: "audit_reach L (tables s) \<Longrightarrow> sign_head_now L now s = (r, s') \<Longrightarrow> audit_reach L (tables s')"

lemma bootstrap_keys_cases:
  assumes "bootstrap_keys L rnd now wrap s = (r, s')"
  obtains (kept) "tables s' = tables s"
    | (installed) sk pub w where "keys_row (tables s) = None" "gen_keypair L (kr_audit rnd) = (sk, pub)"
      "length (kr_chain rnd) = 32" "committing_seal L (kr_nonce rnd) wrap 1 sk = Returned w"
      "tables s' = (tables s)\<lparr>keys_row := Some \<lparr>ak_pub = pub, ak_wrapped_priv = w, ak_key_id = 1,
         ak_chain_key = kr_chain rnd, ak_sign_pub = ed25519_public L (kr_sign rnd), ak_sign_priv = kr_sign rnd,
         ak_created_at = now\<rparr>\<rparr>"
proof -
  obtain sk pub where kp: "gen_keypair L (kr_audit rnd) = (sk, pub)" by fastforce
  from assms show thesis unfolding bootstrap_keys_def
  proof (cases rule: proc_bind_cases)
    case (error e)
    then have "tables s' = tables s" by (auto simp: has_keys_def dest: db_query_tables)
    then show thesis by (rule kept)
  next
    case (step has s1)
    then have s1: "tables s1 = tables s" "has \<longleftrightarrow> keys_row (tables s) \<noteq> None"
      using db_query_Inr [of _ s has s1] by (auto simp: has_keys_def)
    show thesis
    proof (cases has)
      case True
      with step s1 have "tables s' = tables s" by simp
      then show thesis by (rule kept)
    next
      case False
      note run = step(2) [unfolded kp Let_def prod.case, simplified False if_False]
      from run show thesis
      proof (cases rule: proc_bind_cases)
        case (step ck s2)
        then have ck: "ck = kr_chain rnd" "length (kr_chain rnd) = 32" "s2 = s1"
          by (auto simp: copy_array_def split: if_splits)
        from step(2) show thesis
        proof (cases rule: proc_bind_cases)
          case (step w s3)
          then have w: "committing_seal L (kr_nonce rnd) wrap 1 sk = Returned w" "s3 = s2" by auto
          obtain x where "db_stmt (\<lambda>t. if keys_row t \<noteq> None then (Inl (Storage ''UNIQUE constraint failed: audit_keys.id''), t)
              else (Inr (), t\<lparr>keys_row := Some \<lparr>ak_pub = pub, ak_wrapped_priv = w, ak_key_id = 1,
                ak_chain_key = ck, ak_sign_pub = sig_public (keypair_generate L (kr_sign rnd)),
                ak_sign_priv = sig_private (keypair_generate L (kr_sign rnd)), ak_created_at = now\<rparr>\<rparr>)) s3 = (x, s')"
            using step(2) by (auto simp: lift_op_def split: prod.splits)
          then show thesis
          proof (cases rule: db_stmt_cases)
            case (failed msg)
            with s1 ck w have "tables s' = tables s" by simp
            then show thesis by (rule kept)
          next
            case ran
            with s1 ck w False have t: "tables s' = (tables s)\<lparr>keys_row := Some \<lparr>ak_pub = pub, ak_wrapped_priv = w, ak_key_id = 1,
                ak_chain_key = kr_chain rnd, ak_sign_pub = ed25519_public L (kr_sign rnd), ak_sign_priv = kr_sign rnd,
                ak_created_at = now\<rparr>\<rparr>" by (simp add: keypair_generate_def)
            have n: "keys_row (tables s) = None" using s1(2) False by simp
            show thesis by (rule installed [OF n kp ck(2) w(1) t])
          qed
        next
          case panic
          with s1 ck have "tables s' = tables s" by simp
          then show thesis by (rule kept)
        qed simp
      next
        case panic
        with s1 have "tables s' = tables s" by simp
        then show thesis by (rule kept)
      qed simp
    qed
  qed simp
qed

lemma rewrap_audit_key_cases:
  assumes "rewrap_audit_key L n old new s = (r, s')"
  obtains (kept) "tables s' = tables s" "r \<noteq> Returned (Inr ())"
    | (rewrapped) k priv w where "r = Returned (Inr ())" "keys_row (tables s) = Some k"
      "committing_open L old (ak_wrapped_priv k) = Inr priv"
      "committing_seal L n new (ak_key_id k + 1) priv = Returned w"
      "tables s' = (tables s)\<lparr>keys_row := Some (k\<lparr>ak_wrapped_priv := w, ak_key_id := ak_key_id k + 1\<rparr>)\<rparr>"
proof -
  from assms show thesis unfolding rewrap_audit_key_def
  proof (cases rule: proc_bind_cases)
    case (error e)
    then have "tables s' = tables s" unfolding lift_op_Inr by (auto elim!: db_stmt_cases)
    with error(2) show thesis by (intro kept) simp_all
  next
    case (step p s1)
    have "\<exists>k. keys_row (tables s) = Some k \<and> p = (ak_wrapped_priv k, ak_key_id k) \<and> tables s1 = tables s"
      using step(1) unfolding lift_op_Inr
    proof (cases rule: db_stmt_cases)
      case ran
      then show ?thesis by (cases "keys_row (tables s)") simp_all
    qed simp
    then obtain k where k: "keys_row (tables s) = Some k" "p = (ak_wrapped_priv k, ak_key_id k)" "tables s1 = tables s"
      by blast
    from step(2) [unfolded k(2) prod.case] show thesis
    proof (cases rule: proc_bind_cases)
      case (error e)
      with k(3) show thesis by (intro kept) simp_all
    next
      case (step priv s2)
      then have priv: "committing_open L old (ak_wrapped_priv k) = Inr priv" "s2 = s1" by auto
      from step(2) show thesis
      proof (cases rule: proc_bind_cases)
        case panic
        with k(3) priv show thesis by (intro kept) simp_all
      next
        case (step w s3)
        then have w: "committing_seal L n new (ak_key_id k + 1) priv = Returned w" "s3 = s2" by auto
        obtain x where x: "db_stmt (\<lambda>t. (Inr (), t\<lparr>keys_row := map_option (\<lambda>q. q\<lparr>ak_wrapped_priv := w,
            ak_key_id := ak_key_id k + 1\<rparr>) (keys_row t)\<rparr>)) s3 = (x, s')" "r = Returned x"
          using step(2) by (auto simp: lift_op_def split: prod.splits)
        from x(1) show thesis
        proof (cases rule: db_stmt_cases)
          case (failed msg)
          with x(2) k(3) priv(2) w(2) show thesis by (intro kept) simp_all
        next
          case ran
          have "tables s3 = tables s" using k(3) priv(2) w(2) by simp
          with ran x(2) k priv(1) w(1) show thesis by (intro rewrapped [of k priv w]) auto
        qed
      qed simp
    qed simp
  qed simp
qed

lemma audit_ok_append:
  assumes "audit_ok L t" and "keys_row t = Some k" and "hash_correct L"
    and "row = \<lparr>lr_seq = last_seq t + 1, lr_at = now, lr_action = action, lr_commitment = com,
        lr_prev_hash = chain_head genesis_hash (audit_log t),
        lr_hash = keyed_hash L (ak_chain_key k) (chain_head genesis_hash (audit_log t) @ com), lr_sealed = sealed\<rparr>"
  shows "audit_ok L (t\<lparr>last_seq := last_seq t + 1, audit_log := audit_log t @ [row], head_signatures := sigs\<rparr>)"
  using assms keyed_hash_length [OF assms(3)] by (simp add: audit_ok_def chain_from_append)

lemma log_entry_ok:
  assumes "log_entry L rnd now action detail s = (r, s')" and "audit_ok L (tables s)" and "hash_correct L"
  shows "audit_ok L (tables s')"
  using assms(1,2)
proof (cases rule: log_entry_cases)
  case (appended k row sigs sealed)
  show ?thesis unfolding appended(5) by (rule audit_ok_append [OF assms(2) appended(1) assms(3) appended(3)])
qed (use assms(2) in simp)

lemma bootstrap_keys_ok:
  assumes "bootstrap_keys L rnd now wrap s = (r, s')" and "audit_ok L (tables s)"
    and "hpke_correct L" and "sign_sizes L" and "length (kr_sign rnd) = 32"
  shows "audit_ok L (tables s')"
  using assms(1)
proof (cases rule: bootstrap_keys_cases)
  case (installed sk pub w)
  have "length pub = 32" using assms(3) installed(2) by (simp add: hpke_correct_def)
  moreover have "length (ed25519_public L (kr_sign rnd)) = 32" using assms(4,5) by (simp add: sign_sizes_def)
  ultimately show ?thesis
    using assms(2,5) installed(1,3) unfolding installed(5) by (simp add: audit_ok_def keys_ok_def)
qed (use assms(2) in simp)

lemma rewrap_audit_key_ok:
  assumes "rewrap_audit_key L n old new s = (r, s')" and "audit_ok L (tables s)"
  shows "audit_ok L (tables s')"
  using assms(1)
proof (cases rule: rewrap_audit_key_cases)
  case (rewrapped k priv w)
  show ?thesis using assms(2) rewrapped(2) unfolding rewrapped(5) by (simp add: audit_ok_def keys_ok_def)
qed (use assms(2) in simp)

text \<open>A run of \<open>sign_head_now\<close> adds at most a signature of the newest entry.\<close>

lemma sign_head_now_cases:
  assumes "sign_head_now L now s = (r, s')" and "audit_ok L (tables s)"
  obtains (kept) "tables s' = tables s"
    | (signed) k sigs where "keys_row (tables s) = Some k" "audit_log (tables s) \<noteq> []"
      "tables s' = (tables s)\<lparr>head_signatures := sigs\<rparr>"
      "signs_head L k (lr_seq (last (audit_log (tables s)))) (lr_hash (last (audit_log (tables s))))
        (head_signatures (tables s)) sigs"
proof -
  have kok: "\<And>k. keys_row (tables s) = Some k \<Longrightarrow> keys_ok k" using assms(2) by (rule audit_ok_keys)
  from assms(1) show thesis unfolding sign_head_now_def
  proof (cases rule: proc_bind_cases)
    case panic
    show thesis by (rule kept, rule load_keys_run(1) [OF panic(1) kok])
  next
    case (error e)
    show thesis by (rule kept, rule load_keys_run(1) [OF error(1) kok])
  next
    case (step k s1)
    have k: "keys_row (tables s) = Some k" "tables s1 = tables s"
      by (rule load_keys_run(3) [OF step(1) kok refl], assumption) (rule load_keys_run(1) [OF step(1) kok])
    from step(2) show thesis
    proof (cases rule: proc_bind_cases)
      case (error e)
      then have "tables s' = tables s" using db_query_tables k(2) by (metis lift_op_Inr)
      then show thesis by (rule kept)
    next
      case (step latest s2)
      then have s2: "tables s2 = tables s" "latest = last_row (tables s)"
        using db_query_Inr [of last_row s1 latest s2] k(2) by auto
      show thesis
      proof (cases latest)
        case None
        with step s2 show thesis by (intro kept) simp
      next
        case (Some row)
        then have row: "audit_log (tables s) \<noteq> []" "row = last (audit_log (tables s))"
          using s2(2) by (auto simp: last_row_def split: if_splits)
        from step(2) [unfolded Some option.case] show thesis
        proof (cases rule: proc_bind_cases)
          case (step hash s3)
          then have hash: "hash = lr_hash row" "s3 = s2" by (auto simp: copy_array_def split: if_splits)
          from step obtain x where "sign_head_locked L now k (lr_seq row) hash s3 = (x, s')"
            by (auto simp: lift_op_def split: prod.splits)
          from sign_head_effect [OF this] show thesis using signed [OF k(1) row(1)] hash s2(1) row(2) by auto
        qed (use s2 kept in simp_all)
      qed
    qed simp
  qed
qed

lemma sign_head_now_ok:
  assumes "sign_head_now L now s = (r, s')" and "audit_ok L (tables s)"
  shows "audit_ok L (tables s')"
  using assms
proof (cases rule: sign_head_now_cases)
  case (signed k sigs)
  with assms(2) show ?thesis by (simp add: audit_ok_def split: option.splits)
qed (use assms(2) in simp)

lemma audit_reach_ok:
  assumes "audit_reach L t" and "hash_correct L" and "hpke_correct L" and "sign_sizes L"
  shows "audit_ok L t"
  using assms(1)
proof (induction rule: audit_reach.induct)
  case opened
  show ?case by (simp add: audit_ok_def)
next
  case (bootstrapped s rnd now wrap r s')
  show ?case by (rule bootstrap_keys_ok [OF bootstrapped(3,4) assms(3,4) bootstrapped(2)])
next
  case (rewrapped s n old new r s')
  show ?case by (rule rewrap_audit_key_ok [OF rewrapped(2,3)])
next
  case (logged s rnd now action detail r s')
  show ?case by (rule log_entry_ok [OF logged(2,3) assms(2)])
next
  case (signed s now r s')
  show ?case by (rule sign_head_now_ok [OF signed(2,3)])
qed

lemma verify_chain_run:
  assumes "faults s = []" and "keys_row (tables s) = Some k" and "keys_ok k"
  shows "verify_chain L s = (Returned (Inr (chain_from L (ak_chain_key k) genesis_hash (audit_log (tables s)))), s)"
  using load_keys_no_faults [OF assms] assms(1)
  by (simp add: verify_chain_def proc_bind_def lift_op_def proc_return_def)

section \<open>Head signatures\<close>

text \<open>Every stored signature is one of the signing key, over the number and the hash of an entry of the log; the
  public signing key belongs to the private one.\<close>

definition covers :: "crypto_lib \<Rightarrow> audit_keys \<Rightarrow> log_row list \<Rightarrow> head_signature \<Rightarrow> bool" where
  "covers L k rs h \<longleftrightarrow>
     hs_signature h = sign L (keypair_from_private L (ak_sign_priv k)) (head_message (hs_seq h) (hs_hash h)) \<and>
     (hs_seq h, hs_hash h) \<in> (\<lambda>r. (lr_seq r, lr_hash r)) ` set rs"

definition sigs_ok :: "crypto_lib \<Rightarrow> audit_tables \<Rightarrow> bool" where
  "sigs_ok L t \<longleftrightarrow>
     (case keys_row t of
        None \<Rightarrow> head_signatures t = []
      | Some k \<Rightarrow> ak_sign_pub k = ed25519_public L (ak_sign_priv k) \<and>
          (\<forall>h \<in> set (head_signatures t). covers L k (audit_log t) h))"

lemma covers_mono: "covers L k rs h \<Longrightarrow> set rs \<subseteq> set rs' \<Longrightarrow> covers L k rs' h"
  by (auto simp: covers_def)

lemma sigs_ok_signs:
  assumes "sigs_ok L t" and "keys_row t = Some k" and "signs_head L k (lr_seq row) (lr_hash row) (head_signatures t) sigs"
    and "row \<in> set rs" and "set (audit_log t) \<subseteq> set rs"
  shows "\<forall>h \<in> set sigs. covers L k rs h"
  using assms covers_mono [OF _ assms(5)] by (auto simp: sigs_ok_def signs_head_def covers_def)

lemma audit_reach_sigs:
  assumes "audit_reach L t" and "hash_correct L" and "hpke_correct L" and "sign_sizes L"
  shows "sigs_ok L t"
  using assms(1)
proof (induction rule: audit_reach.induct)
  case opened
  show ?case by (simp add: sigs_ok_def)
next
  case (bootstrapped s rnd now wrap r s')
  from bootstrapped(3) show ?case
  proof (cases rule: bootstrap_keys_cases)
    case (installed sk pub w)
    with bootstrapped(4) show ?thesis by (simp add: sigs_ok_def)
  qed (use bootstrapped(4) in simp)
next
  case (rewrapped s n old new r s')
  from rewrapped(2) show ?case
  proof (cases rule: rewrap_audit_key_cases)
    case (rewrapped k priv w)
    with \<open>sigs_ok L (tables s)\<close> show ?thesis by (simp add: sigs_ok_def covers_def)
  qed (use rewrapped(3) in simp)
next
  case (logged s rnd now action detail r s')
  from logged(2) audit_reach_ok [OF logged(1) assms(2-4)] show ?case
  proof (cases rule: log_entry_cases)
    case (appended k row sigs sealed)
    have "\<forall>h \<in> set sigs. covers L k (audit_log (tables s) @ [row]) h"
      by (rule sigs_ok_signs [OF logged(3) appended(1,6)]) auto
    with logged(3) appended(1) show ?thesis unfolding appended(5) by (simp add: sigs_ok_def)
  qed (use logged(3) in simp)
next
  case (signed s now r s')
  from signed(2) audit_reach_ok [OF signed(1) assms(2-4)] show ?case
  proof (cases rule: sign_head_now_cases)
    case (signed k sigs)
    note old = \<open>sigs_ok L (tables s)\<close>
    have "\<forall>h \<in> set sigs. covers L k (audit_log (tables s)) h"
      by (rule sigs_ok_signs [OF old signed(1,4)]) (simp_all add: signed(2))
    with old signed(1) show ?thesis unfolding signed(3) by (simp add: sigs_ok_def)
  qed (use signed(3) in simp)
qed

lemma latest_signatures_nonempty:
  assumes "head_signatures t \<noteq> []"
  shows "latest_signatures t \<noteq> []"
proof -
  let ?S = "hs_signed_at ` set (head_signatures t)"
  have "Max ?S \<in> ?S" using assms by (intro Max_in) auto
  then obtain h where "h \<in> set (head_signatures t)" "hs_signed_at h = Max ?S" by auto
  then have "h \<in> set (latest_signatures t)" by (simp add: latest_signatures_def list_all_iff)
  then show ?thesis by auto
qed

text \<open>The query returns one of the newest rows, and nothing only when there is none.\<close>

definition picks :: "(head_signature list \<Rightarrow> head_signature option) \<Rightarrow> bool" where
  "picks pick \<longleftrightarrow> pick [] = None \<and> (\<forall>hs. hs \<noteq> [] \<longrightarrow> pick hs \<in> Some ` set hs)"

lemma verify_latest_signature_run:
  assumes "faults s = []" and "keys_row (tables s) = Some k" and "audit_ok L (tables s)" and "sigs_ok L (tables s)"
    and "sign_correct L" and "picks pick"
  shows "verify_latest_signature L pick s =
    (Returned (Inr (if head_signatures (tables s) = [] then None else Some True)), s)"
proof (cases "head_signatures (tables s) = []")
  case True
  then have "pick (latest_signatures (tables s)) = None" using assms(6) by (simp add: latest_signatures_def picks_def)
  with True load_keys_no_faults [OF assms(1,2) audit_ok_keys [OF assms(3,2)]] assms(1) show ?thesis
    by (simp add: verify_latest_signature_def proc_bind_def lift_op_def proc_return_def)
next
  case False
  obtain h where h: "pick (latest_signatures (tables s)) = Some h" "h \<in> set (head_signatures (tables s))"
    using latest_signatures_nonempty [OF False] assms(6) by (auto simp: picks_def latest_signatures_def)
  have c: "covers L k (audit_log (tables s)) h" "ak_sign_pub k = ed25519_public L (ak_sign_priv k)"
    using assms(2,4) h(2) by (auto simp: sigs_ok_def)
  have "length (hs_hash h) = HASH_LEN" "length (hs_signature h) = 64"
    using c assms(3,5) by (auto simp: covers_def audit_ok_def list_all_iff sign_def sign_correct_def)
  moreover have "verify L (ak_sign_pub k) (head_message (hs_seq h) (hs_hash h)) (hs_signature h)"
    using c sign_verifies [OF assms(5)] by (simp add: covers_def)
  ultimately show ?thesis using load_keys_no_faults [OF assms(1,2) audit_ok_keys [OF assms(3,2)]] assms(1) h(1) False
    by (simp add: verify_latest_signature_def proc_bind_def lift_op_def proc_return_def proc_pan_def copy_array_def)
qed

text \<open>C34: in every log that the operations can leave, whatever failed on the way, the sequence numbers are
  consecutive from 1; every stored head signature is over the number and the hash of an entry of the log; and once
  there are keys, on a connection that works, the chain verifies and so does the newest head signature, when one
  was ever stored. Appending an entry never panics.\<close>

theorem audit_chain_verifies:
  assumes "audit_reach L (tables s)" and "hash_correct L" and "hpke_correct L" and "sign_sizes L"
    and "sign_correct L" and "picks pick"
  shows "map lr_seq (audit_log (tables s)) = map (\<lambda>i. int i + 1) [0 ..< length (audit_log (tables s))] \<and>
    (\<lambda>h. (hs_seq h, hs_hash h)) ` set (head_signatures (tables s)) \<subseteq> (\<lambda>r. (lr_seq r, lr_hash r)) ` set (audit_log (tables s)) \<and>
    (faults s = [] \<and> keys_row (tables s) \<noteq> None \<longrightarrow>
       verify_chain L s = (Returned (Inr True), s) \<and>
       verify_latest_signature L pick s =
         (Returned (Inr (if head_signatures (tables s) = [] then None else Some True)), s)) \<and>
    fst (log_entry L rnd now action detail s) \<noteq> Panicked"
proof (intro conjI impI)
  have ok: "audit_ok L (tables s)" by (rule audit_reach_ok [OF assms(1-4)])
  have sigs: "sigs_ok L (tables s)" by (rule audit_reach_sigs [OF assms(1-4)])
  from ok show "map lr_seq (audit_log (tables s)) = map (\<lambda>i. int i + 1) [0 ..< length (audit_log (tables s))]"
    by (simp add: audit_ok_def)
  show "(\<lambda>h. (hs_seq h, hs_hash h)) ` set (head_signatures (tables s)) \<subseteq>
      (\<lambda>r. (lr_seq r, lr_hash r)) ` set (audit_log (tables s))"
    using sigs by (cases "keys_row (tables s)") (auto simp: sigs_ok_def covers_def)
  show "verify_chain L s = (Returned (Inr True), s)"
    and "verify_latest_signature L pick s =
      (Returned (Inr (if head_signatures (tables s) = [] then None else Some True)), s)"
    if live: "faults s = [] \<and> keys_row (tables s) \<noteq> None"
  proof -
    obtain k where k: "keys_row (tables s) = Some k" "keys_ok k" using live audit_ok_keys [OF ok] by auto
    from verify_chain_run [of s k L] live ok k show "verify_chain L s = (Returned (Inr True), s)" by (simp add: audit_ok_def)
    from live k(1) ok sigs assms(5,6) show "verify_latest_signature L pick s =
      (Returned (Inr (if head_signatures (tables s) = [] then None else Some True)), s)"
      by (intro verify_latest_signature_run) simp_all
  qed
  obtain r s' where "log_entry L rnd now action detail s = (r, s')" by fastforce
  from this ok show "fst (log_entry L rnd now action detail s) \<noteq> Panicked"
    by (cases rule: log_entry_cases) (simp_all add: \<open>log_entry L rnd now action detail s = (r, s')\<close>)
qed

section \<open>Tampering\<close>

definition chain_inputs :: "log_row list \<Rightarrow> bytes list" where
  "chain_inputs rs = map (\<lambda>r. lr_prev_hash r @ lr_commitment r) rs"

text \<open>The chain hash tells the inputs of the two logs apart and never yields the genesis value.\<close>

definition collision_free :: "crypto_lib \<Rightarrow> bytes \<Rightarrow> bytes list \<Rightarrow> bool" where
  "collision_free L k xs \<longleftrightarrow>
     list_all (\<lambda>x. keyed_hash L k x \<noteq> genesis_hash \<and> list_all (\<lambda>y. keyed_hash L k x = keyed_hash L k y \<longrightarrow> x = y) xs) xs"

lemma collision_freeD:
  assumes "collision_free L k xs" and "x \<in> set xs"
  shows "keyed_hash L k x \<noteq> genesis_hash" and "y \<in> set xs \<Longrightarrow> keyed_hash L k x = keyed_hash L k y \<Longrightarrow> x = y"
  using assms by (auto simp: collision_free_def list_all_iff)

lemma chain_head_length:
  assumes "chain_from L k genesis_hash rs" and "hash_correct L"
  shows "length (chain_head genesis_hash rs) = HASH_LEN"
  using assms(1) keyed_hash_length [OF assms(2)]
  by (cases rs rule: rev_cases) (simp_all add: chain_from_append genesis_hash_def)

lemma chain_determined:
  assumes "chain_from L k genesis_hash rs" and "chain_from L k genesis_hash rs'" and "hash_correct L"
    and "chain_head genesis_hash rs = chain_head genesis_hash rs'"
    and "collision_free L k xs" and "set (chain_inputs rs) \<union> set (chain_inputs rs') \<subseteq> set xs"
  shows "map lr_commitment rs = map lr_commitment rs'"
  using assms(1,2,4,6)
proof (induction rs arbitrary: rs' rule: rev_induct)
  case Nil
  show ?case
  proof (cases rs' rule: rev_cases)
    case (snoc qs q)
    with Nil(2,3) have "keyed_hash L k (lr_prev_hash q @ lr_commitment q) = genesis_hash" by (simp add: chain_from_append)
    moreover have "lr_prev_hash q @ lr_commitment q \<in> set xs" using Nil(4) snoc by (auto simp: chain_inputs_def)
    ultimately show ?thesis using collision_freeD(1) [OF assms(5)] by blast
  qed simp
next
  case (snoc r rs)
  have r: "chain_from L k genesis_hash rs" "lr_prev_hash r = chain_head genesis_hash rs"
    "lr_hash r = keyed_hash L k (lr_prev_hash r @ lr_commitment r)" "lr_prev_hash r @ lr_commitment r \<in> set xs"
    using snoc.prems(1,4) by (auto simp: chain_from_append chain_inputs_def)
  show ?case
  proof (cases rs' rule: rev_cases)
    case Nil
    with snoc.prems(3) r(3) have "keyed_hash L k (lr_prev_hash r @ lr_commitment r) = genesis_hash" by simp
    with collision_freeD(1) [OF assms(5) r(4)] show ?thesis by blast
  next
    case (snoc qs q)
    have q: "chain_from L k genesis_hash qs" "lr_prev_hash q = chain_head genesis_hash qs"
      "lr_hash q = keyed_hash L k (lr_prev_hash q @ lr_commitment q)" "lr_prev_hash q @ lr_commitment q \<in> set xs"
      using snoc.prems(2,4) snoc by (auto simp: chain_from_append chain_inputs_def)
    have "lr_prev_hash r @ lr_commitment r = lr_prev_hash q @ lr_commitment q"
      using collision_freeD(2) [OF assms(5) r(4) q(4)] snoc.prems(3) snoc r(3) q(3) by simp
    moreover have "length (lr_prev_hash r) = HASH_LEN" "length (lr_prev_hash q) = HASH_LEN"
      using chain_head_length [OF r(1)] chain_head_length [OF q(1)] assms(3) r(2) q(2) by simp_all
    ultimately have eq: "lr_prev_hash r = lr_prev_hash q" "lr_commitment r = lr_commitment q" by auto
    have "map lr_commitment rs = map lr_commitment qs"
      by (rule snoc.IH [OF r(1) q(1)]) (use eq r(2) q(2) snoc.prems(4) snoc in \<open>auto simp: chain_inputs_def\<close>)
    with eq snoc show ?thesis by simp
  qed
qed

lemma verify_chain_True:
  assumes "verify_chain L s = (Returned (Inr True), u)" and "keys_row (tables s) = Some k" and "keys_ok k"
  shows "chain_from L (ak_chain_key k) genesis_hash (audit_log (tables s))"
proof -
  from assms(1) obtain k' s1 rows s2 where lk: "load_keys s = (Returned (Inr k'), s1)"
    and q: "db_query audit_log s1 = (Inr rows, s2)" and c: "chain_from L (ak_chain_key k') genesis_hash rows"
    by (auto simp: verify_chain_def proc_bind_Inr)
  have kok: "\<And>k. keys_row (tables s) = Some k \<Longrightarrow> keys_ok k" using assms(2,3) by simp
  have "keys_row (tables s) = Some k'" by (rule load_keys_run(3) [OF lk kok refl])
  moreover have "tables s1 = tables s" by (rule load_keys_run(1) [OF lk kok])
  ultimately show ?thesis using db_query_Inr [OF q] c assms(2) by simp
qed

lemma chain_same_links:
  "chain_from L k p rs \<Longrightarrow> chain_from L k p rs' \<Longrightarrow> map lr_commitment rs = map lr_commitment rs' \<Longrightarrow>
     map (\<lambda>r. (lr_prev_hash r, lr_commitment r, lr_hash r)) rs = map (\<lambda>r. (lr_prev_hash r, lr_commitment r, lr_hash r)) rs'"
proof (induction rs arbitrary: rs' p)
  case (Cons r rs)
  then obtain q qs where q: "rs' = q # qs" "lr_commitment q = lr_commitment r" "map lr_commitment rs = map lr_commitment qs"
    by (cases rs') auto
  have "chain_from L k (lr_hash r) rs" "chain_from L k (lr_hash r) qs" "lr_prev_hash q = lr_prev_hash r" "lr_hash q = lr_hash r"
    using Cons.prems(1,2) q(1,2) by (auto simp: Let_def split: if_splits)
  with Cons.IH [OF this(1,2) q(3)] q(1,2) show ?case by simp
qed simp

text \<open>two logs under one chain key that both verify and end in the same head hash have the same links:
  no entry's commitment can be edited, dropped, inserted or reordered without breaking the chain or changing
  its head (as long as the hash does not collide on the links involved).\<close>

theorem tampering_changes_head:
  assumes "verify_chain L s = (Returned (Inr True), u)" and "verify_chain L s' = (Returned (Inr True), u')"
    and "keys_row (tables s) = Some k" and "keys_row (tables s') = Some k'" and "keys_ok k" and "keys_ok k'"
    and "ak_chain_key k' = ak_chain_key k" and "hash_correct L"
    and "collision_free L (ak_chain_key k) (chain_inputs (audit_log (tables s)) @ chain_inputs (audit_log (tables s')))"
    and "map_option lr_hash (last_row (tables s)) = map_option lr_hash (last_row (tables s'))"
  shows "map (\<lambda>r. (lr_prev_hash r, lr_commitment r, lr_hash r)) (audit_log (tables s)) =
    map (\<lambda>r. (lr_prev_hash r, lr_commitment r, lr_hash r)) (audit_log (tables s'))"
proof -
  note c = verify_chain_True [OF assms(1,3,5)]
  have c': "chain_from L (ak_chain_key k) genesis_hash (audit_log (tables s'))"
    using verify_chain_True [OF assms(2,4,6)] assms(7) by simp
  have h: "chain_head genesis_hash (audit_log (tables s)) = chain_head genesis_hash (audit_log (tables s'))"
    using assms(10) by (auto simp: chain_head_last last_row_def split: if_splits)
  have "map lr_commitment (audit_log (tables s)) = map lr_commitment (audit_log (tables s'))"
    by (rule chain_determined [OF c c' assms(8) h assms(9)]) simp
  then show ?thesis by (rule chain_same_links [OF c c'])
qed

text \<open>C35: what the chain does not protect: the time, the action label and the sealed detail of every entry can be
  replaced, and the newest entry can be removed, without \<open>verify_chain\<close> noticing.\<close>

theorem verify_chain_blind_spots:
  assumes "verify_chain L s = (Returned (Inr True), u)" and "keys_row (tables s) = Some k" and "keys_ok k" and "faults s' = []"
    and "tables s' = (tables s)\<lparr>audit_log :=
       map (\<lambda>r. r\<lparr>lr_at := later, lr_action := action, lr_sealed := sealed\<rparr>) (butlast (audit_log (tables s)))\<rparr>"
  shows "verify_chain L s' = (Returned (Inr True), s')"
proof -
  note c = verify_chain_True [OF assms(1-3)]
  have "chain_from L (ak_chain_key k) genesis_hash (butlast (audit_log (tables s)))"
    using c by (cases "audit_log (tables s)" rule: rev_cases) (simp_all add: chain_from_append)
  then have "chain_from L (ak_chain_key k) genesis_hash (audit_log (tables s'))"
    unfolding assms(5) by (simp add: chain_from_map)
  moreover have "keys_row (tables s') = Some k" using assms(2,5) by simp
  ultimately show ?thesis using verify_chain_run [OF assms(4) _ assms(3)] by simp
qed

section \<open>Reading back\<close>

text \<open>The operator's key opens the log's private key.\<close>

definition readable_by :: "crypto_lib \<Rightarrow> bytes \<Rightarrow> audit_tables \<Rightarrow> bool" where
  "readable_by L wrap t \<longleftrightarrow> (\<exists>k seed sk. keys_row t = Some k \<and> keys_ok k \<and> gen_keypair L seed = (sk, ak_pub k) \<and>
     committing_open L wrap (ak_wrapped_priv k) = Inr sk)"

lemma bootstrap_readable:
  assumes "bootstrap_keys L rnd now wrap s = (r, s')" and "keys_row (tables s) = None" and "keys_row (tables s') \<noteq> None"
    and "aead_correct L" and "hpke_correct L" and "sign_sizes L" and "length (kr_sign rnd) = 32" and "length (kr_nonce rnd) = 24"
  shows "readable_by L wrap (tables s')"
  using assms(1)
proof (cases rule: bootstrap_keys_cases)
  case (installed sk pub w)
  have "committing_open L wrap w = Inr sk"
    by (rule committing_open_seal [OF assms(4) _ installed(4)]) (simp add: assms(8) NONCE_LEN_def)
  moreover have "length pub = 32" using assms(5) installed(2) by (simp add: hpke_correct_def)
  moreover have "length (ed25519_public L (kr_sign rnd)) = 32" using assms(6,7) by (simp add: sign_sizes_def)
  ultimately show ?thesis
    using installed(2,3) assms(7) unfolding readable_by_def installed(5)
    by (intro exI [of _ "kr_audit rnd"] exI) (auto simp: keys_ok_def)
qed (use assms(2,3) in simp)

lemma rewrap_readable:
  assumes "rewrap_audit_key L n old new s = (Returned (Inr ()), s')" and "readable_by L old (tables s)"
    and "aead_correct L" and "length n = 24"
  shows "readable_by L new (tables s')"
  using assms(1)
proof (cases rule: rewrap_audit_key_cases)
  case (rewrapped k priv w)
  from assms(2) obtain seed sk where k: "keys_ok k" "gen_keypair L seed = (sk, ak_pub k)" "priv = sk"
    using rewrapped(2,3) by (auto simp: readable_by_def)
  have "committing_open L new w = Inr priv"
    by (rule committing_open_seal [OF assms(3) _ rewrapped(4)]) (simp add: assms(4) NONCE_LEN_def)
  with k show ?thesis unfolding readable_by_def rewrapped(5)
    by (intro exI [of _ seed] exI) (auto simp: keys_ok_def)
qed simp

lemma read_recent_single:
  assumes "hpke_correct L" and "faults s = []" and "keys_row (tables s) = Some k" and "keys_ok k" and "gen_keypair L seed = (sk, ak_pub k)"
    and "committing_open L wrap (ak_wrapped_priv k) = Inr sk" and "sql_limit limit (rev (audit_log (tables s))) = [row]"
    and "hpke_seal L rnd (ak_pub k) (ak_key_id k) HPKE_INFO detail = Inr (lr_sealed row)" and "utf8_valid detail"
  shows "read_recent L wrap limit s =
    (Returned (Inr [\<lparr>ae_seq = lr_seq row, ae_at = lr_at row, ae_action = lr_action row, ae_detail = detail\<rparr>]), s)"
proof -
  have "length sk = 32" using assms(1,5) by (simp add: hpke_correct_def)
  moreover have "hpke_open L sk HPKE_INFO (lr_sealed row) = Inr detail" by (rule hpke_open_seal [OF assms(1,5,8)])
  ultimately show ?thesis using load_keys_no_faults [OF assms(2-4)] assms(2,6,7,9)
    by (simp add: read_recent_def proc_bind_def proc_return_def proc_pan_def lift_op_def copy_array_def)
qed

text \<open>after the operator's key was changed, a new entry is logged and reads back as the newest one under the
  new key, with its number, time, action and detail.\<close>

theorem log_then_read:
  assumes "aead_correct L" and "hpke_correct L" and "hash_correct L" and "audit_ok L (tables s)" and "readable_by L old (tables s)"
    and "length n = 24" and "utf8_valid detail"
    and "rewrap_audit_key L n old new s = (Returned (Inr ()), s1)"
    and "log_entry L rnd now action detail s1 = (Returned (Inr ()), s2)" and "faults s2 = []"
  shows "read_recent L new 1 s2 = (Returned (Inr
    [\<lparr>ae_seq = int (length (audit_log (tables s))) + 1, ae_at = now, ae_action = action, ae_detail = detail\<rparr>]), s2)"
proof -
  have ok1: "audit_ok L (tables s1)" by (rule rewrap_audit_key_ok [OF assms(8,4)])
  have log1: "audit_log (tables s1) = audit_log (tables s)" using assms(8) by (cases rule: rewrap_audit_key_cases) auto
  obtain k seed sk where k: "keys_row (tables s1) = Some k" "keys_ok k" "gen_keypair L seed = (sk, ak_pub k)"
    "committing_open L new (ak_wrapped_priv k) = Inr sk"
    using rewrap_readable [OF assms(8,5,1,6)] by (auto simp: readable_by_def)
  from assms(9) ok1 obtain row sealed where row: "lr_seq row = int (length (audit_log (tables s))) + 1" "lr_at row = now"
      "lr_action row = action" "lr_sealed row = sealed"
      and seal: "hpke_seal L rnd (ak_pub k) (ak_key_id k) HPKE_INFO detail = Inr sealed"
      and t2: "audit_log (tables s2) = audit_log (tables s) @ [row]" "keys_row (tables s2) = Some k"
  proof (cases rule: log_entry_cases)
    case (appended k' row sigs sealed)
    show thesis
      by (rule that [of row sealed]) (use appended k(1) ok1 log1 in \<open>simp_all add: audit_ok_def\<close>)
  qed simp
  have "sql_limit 1 (rev (audit_log (tables s2))) = [row]" by (simp add: t2(1) sql_limit_def)
  from read_recent_single [OF assms(2,10) t2(2) k(2-4) this seal [folded row(4)] assms(7)] row show ?thesis by simp
qed

section \<open>Samples\<close>

lemma log_entry_no_faults:
  assumes "faults s = []" and "audit_ok L (tables s)" and "keys_row (tables s) = Some k"
    and "hpke_seal L rnd (ak_pub k) (ak_key_id k) HPKE_INFO detail = Inr sealed"
  shows "\<exists>s'. log_entry L rnd now action detail s = (Returned (Inr ()), s') \<and> faults s' = []"
proof -
  have prev: "(case map_option lr_hash (last_row (tables s)) of None \<Rightarrow> Returned genesis_hash | Some b \<Rightarrow> copy_array HASH_LEN b) =
      Returned (chain_head genesis_hash (audit_log (tables s)))"
    using assms(2) unfolding last_row_def chain_head_last by (simp add: copy_array_def list_all_iff audit_ok_def)
  show ?thesis
    using load_keys_no_faults [OF assms(1,3) audit_ok_keys [OF assms(2,3)]] assms(1,4) prev
    by (simp add: log_entry_def proc_bind_def proc_return_def proc_pan_def lift_op_def insert_log_def
        sign_head_locked_def Let_def)
qed

definition audit_lib :: crypto_lib where
  "audit_lib = sample_lib\<lparr>hmac_sha256 := (\<lambda>k d. take 32 (rev d @ replicate 32 (CHR ''h'')))\<rparr>"

definition sample_keys :: key_random where
  "sample_keys = \<lparr>kr_audit = [], kr_sign = replicate 32 (CHR ''s''), kr_chain = replicate 32 (CHR ''c''), kr_nonce = sample_nonce\<rparr>"

definition empty_audit :: audit_db where
  "empty_audit = \<lparr>tables = \<lparr>keys_row = None, audit_log = [], last_seq = 0, head_signatures = []\<rparr>, faults = []\<rparr>"

lemma audit_lib_correct: "aead_correct audit_lib" "hpke_correct audit_lib" "hash_correct audit_lib" "sign_sizes audit_lib"
    "sign_correct audit_lib"
  by (auto simp: aead_correct_def hpke_correct_def hash_correct_def sign_sizes_def sign_correct_def audit_lib_def sample_lib_def strip_prefix_Some)

lemma sample_key_lengths [simp]: "length (kr_sign sample_keys) = 32" "length (kr_nonce sample_keys) = 24"
  by (simp_all add: sample_keys_def sample_nonce_def)

lemma sample_bootstrap:
  "\<exists>s k. bootstrap_keys audit_lib sample_keys 1 wrap empty_audit = (Returned (Inr ()), s) \<and> faults s = [] \<and>
     keys_row (tables s) = Some k \<and> audit_reach audit_lib (tables s) \<and> audit_ok audit_lib (tables s) \<and>
     readable_by audit_lib wrap (tables s) \<and> audit_log (tables s) = []"
proof -
  obtain s k where s: "bootstrap_keys audit_lib sample_keys 1 wrap empty_audit = (Returned (Inr ()), s)" "faults s = []"
    "keys_row (tables s) = Some k" "audit_log (tables s) = []"
  proof -
    obtain sk pub where kp: "gen_keypair audit_lib (kr_audit sample_keys) = (sk, pub)" by fastforce
    obtain w where w: "committing_seal audit_lib (kr_nonce sample_keys) wrap 1 sk = Returned w"
      by (simp add: committing_seal_def audit_lib_def sample_lib_def)
    have "length (kr_chain sample_keys) = 32" by (simp add: sample_keys_def)
    with kp w that show thesis
      by (simp add: bootstrap_keys_def has_keys_def proc_bind_def lift_op_def proc_pan_def copy_array_def Let_def empty_audit_def)
  qed
  have e: "audit_reach audit_lib (tables empty_audit)" using audit_reach.opened by (simp add: empty_audit_def)
  have "audit_reach audit_lib (tables s)" by (rule audit_reach.bootstrapped [OF e sample_key_lengths(1) s(1)])
  moreover have "readable_by audit_lib wrap (tables s)"
    by (rule bootstrap_readable [OF s(1) _ _ audit_lib_correct(1,2,4) sample_key_lengths]) (simp_all add: empty_audit_def s(3))
  ultimately show ?thesis using s audit_reach_ok [OF _ audit_lib_correct(3,2,4)] by blast
qed

lemma sample_logged:
  "\<exists>(s :: audit_db) k. keys_row (tables s) = Some k \<and> keys_ok k \<and> faults s = [] \<and> audit_reach audit_lib (tables s) \<and>
     (\<exists>row. audit_log (tables s) = [row] \<and>
        lr_prev_hash row = genesis_hash \<and> lr_commitment row = keyed_hash audit_lib (ak_chain_key k) ''d'') \<and>
     verify_chain audit_lib s = (Returned (Inr True), s)"
proof -
  obtain s :: audit_db and k where s: "faults s = []" "keys_row (tables s) = Some k" "audit_reach audit_lib (tables s)"
    "audit_ok audit_lib (tables s)" "audit_log (tables s) = []" using sample_bootstrap [of "''old''"] by blast
  obtain sealed where "hpke_seal audit_lib [] (ak_pub k) (ak_key_id k) HPKE_INFO ''d'' = Inr sealed"
    by (simp add: hpke_seal_def audit_lib_def sample_lib_def)
  then obtain s' where s': "log_entry audit_lib [] 2 ''a'' ''d'' s = (Returned (Inr ()), s')" "faults s' = []"
    using log_entry_no_faults [OF s(1,4,2)] by blast
  have reach: "audit_reach audit_lib (tables s')" by (rule audit_reach.logged [OF s(3) s'(1)])
  note ok = audit_reach_ok [OF reach audit_lib_correct(3,2,4)]
  from s'(1) s(4) have row: "keys_row (tables s') = Some k \<and> (\<exists>row. audit_log (tables s') = [row] \<and>
      lr_prev_hash row = genesis_hash \<and> lr_commitment row = keyed_hash audit_lib (ak_chain_key k) ''d'')"
    by (cases rule: log_entry_cases) (use s(2,5) in simp_all)
  have "verify_chain audit_lib s' = (Returned (Inr True), s')"
    using verify_chain_run [OF s'(2) _ audit_ok_keys [OF ok]] row ok by (auto simp: audit_ok_def)
  with s'(2) reach row audit_ok_keys [OF ok] show ?thesis by blast
qed

lemma sample_signed:
  "\<exists>s :: audit_db. faults s = [] \<and> keys_row (tables s) \<noteq> None \<and> audit_reach audit_lib (tables s) \<and>
     length (audit_log (tables s)) = 1 \<and> head_signatures (tables s) \<noteq> []"
proof -
  obtain s :: audit_db and k row where s: "keys_row (tables s) = Some k" "faults s = []" "audit_reach audit_lib (tables s)"
    "audit_log (tables s) = [row]" using sample_logged by blast
  note ok = audit_reach_ok [OF s(3) audit_lib_correct(3,2,4)]
  have "length (lr_hash row) = HASH_LEN" using ok s(4) by (simp add: audit_ok_def)
  then obtain s' where s': "sign_head_now audit_lib 3 s = (Returned (Inr ()), s')" "faults s' = []"
    "tables s' = (tables s)\<lparr>head_signatures := head_signatures (tables s')\<rparr>" "head_signatures (tables s') \<noteq> []"
    using load_keys_no_faults [OF s(2,1) audit_ok_keys [OF ok s(1)]] s(2,4)
    by (auto simp: sign_head_now_def proc_bind_def lift_op_def proc_return_def proc_pan_def copy_array_def last_row_def
        sign_head_locked_def Let_def)
  have "audit_log (tables s') = [row]" "keys_row (tables s') = Some k" by (subst s'(3), simp add: s)+
  with s' audit_reach.signed [OF s(3) s'(1)] show ?thesis by (intro exI [of _ s']) simp
qed

theorem audit_chain_verifies_witness:
  "\<exists>s. audit_log (tables s) \<noteq> [] \<and> verify_chain audit_lib s = (Returned (Inr True), s) \<and>
     verify_latest_signature audit_lib (\<lambda>hs. if hs = [] then None else Some (hd hs)) s = (Returned (Inr (Some True)), s) \<and>
     fst (log_entry audit_lib [] 3 ''b'' ''e'' s) \<noteq> Panicked"
proof -
  obtain s :: audit_db where s: "faults s = []" "keys_row (tables s) \<noteq> None" "audit_reach audit_lib (tables s)"
    "length (audit_log (tables s)) = 1" "head_signatures (tables s) \<noteq> []" using sample_signed by blast
  have "picks (\<lambda>hs. if hs = [] then None else Some (hd hs))" by (simp add: picks_def)
  from audit_chain_verifies [OF s(3) audit_lib_correct(3,2,4,5) this, of "[]" 3 "''b''" "''e''"] s show ?thesis
    by (intro exI [of _ s]) auto
qed

theorem tampering_changes_head_witness:
  "\<exists>s. length (audit_log (tables s)) = 1 \<and> verify_chain audit_lib s = (Returned (Inr True), s) \<and>
     map (\<lambda>r. (lr_prev_hash r, lr_commitment r, lr_hash r)) (audit_log (tables s)) =
     map (\<lambda>r. (lr_prev_hash r, lr_commitment r, lr_hash r)) (audit_log (tables s))"
proof -
  obtain s :: audit_db and k row where s: "keys_row (tables s) = Some k" "keys_ok k" "audit_log (tables s) = [row]"
    "lr_prev_hash row = genesis_hash" "lr_commitment row = keyed_hash audit_lib (ak_chain_key k) ''d''"
    "verify_chain audit_lib s = (Returned (Inr True), s)" using sample_logged by blast
  have "collision_free audit_lib (ak_chain_key k) (chain_inputs (audit_log (tables s)) @ chain_inputs (audit_log (tables s)))"
    by (simp add: s(3-5) collision_free_def chain_inputs_def keyed_hash_def audit_lib_def genesis_hash_def HASH_LEN_def numeral_eq_Suc)
  from tampering_changes_head [OF s(6,6,1,1,2,2) refl audit_lib_correct(3) this refl] s(3,6) show ?thesis
    by (intro exI [of _ s]) simp
qed

theorem verify_chain_blind_spots_witness:
  "\<exists>s s'. verify_chain audit_lib s = (Returned (Inr True), s) \<and> length (audit_log (tables s)) = 1 \<and>
     audit_log (tables s') = [] \<and> verify_chain audit_lib s' = (Returned (Inr True), s')"
proof -
  obtain s :: audit_db and k row where s: "keys_row (tables s) = Some k" "keys_ok k" "faults s = []" "audit_log (tables s) = [row]"
    "verify_chain audit_lib s = (Returned (Inr True), s)" using sample_logged by blast
  define s' where "s' = s\<lparr>tables := (tables s)\<lparr>audit_log :=
       map (\<lambda>r. r\<lparr>lr_at := 0, lr_action := ''x'', lr_sealed := []\<rparr>) (butlast (audit_log (tables s)))\<rparr>\<rparr>"
  have "verify_chain audit_lib s' = (Returned (Inr True), s')"
    by (rule verify_chain_blind_spots [OF s(5,1,2), where later = 0 and action = "''x''" and sealed = "[]"])
      (simp_all add: s'_def s(3))
  moreover have "audit_log (tables s') = []" by (simp add: s'_def s(4))
  ultimately show ?thesis using s(4,5) by (intro exI [of _ s] exI [of _ s']) simp
qed

theorem log_then_read_witness:
  "\<exists>s. read_recent audit_lib ''new'' 1 s =
     (Returned (Inr [\<lparr>ae_seq = 1, ae_at = 9, ae_action = ''auth.login'', ae_detail = ''alice''\<rparr>]), s)"
proof -
  obtain s :: audit_db and k where s: "faults s = []" "keys_row (tables s) = Some k" "audit_ok audit_lib (tables s)"
    "readable_by audit_lib ''old'' (tables s)" "audit_log (tables s) = []" using sample_bootstrap [of "''old''"] by blast
  from s(4) obtain sk where sk: "committing_open audit_lib ''old'' (ak_wrapped_priv k) = Inr sk"
    using s(2) by (auto simp: readable_by_def)
  obtain s1 where s1: "rewrap_audit_key audit_lib sample_nonce ''old'' ''new'' s = (Returned (Inr ()), s1)" "faults s1 = []"
    using s(1,2) sk by (simp add: rewrap_audit_key_def proc_bind_def proc_return_def proc_pan_def lift_op_def
        committing_seal_def audit_lib_def sample_lib_def)
  have ok1: "audit_ok audit_lib (tables s1)" by (rule rewrap_audit_key_ok [OF s1(1) s(3)])
  obtain k1 where k1: "keys_row (tables s1) = Some k1" using s1(1) by (cases rule: rewrap_audit_key_cases) auto
  obtain sealed where "hpke_seal audit_lib [] (ak_pub k1) (ak_key_id k1) HPKE_INFO ''alice'' = Inr sealed"
    by (simp add: hpke_seal_def audit_lib_def sample_lib_def)
  then obtain s2 where s2: "log_entry audit_lib [] 9 ''auth.login'' ''alice'' s1 = (Returned (Inr ()), s2)" "faults s2 = []"
    using log_entry_no_faults [OF s1(2) ok1 k1] by blast
  have n: "length sample_nonce = 24" by (simp add: sample_nonce_def)
  have u: "utf8_valid ''alice''" by (simp add: utf8_valid_ascii)
  from log_then_read [OF audit_lib_correct(1-3) s(3,4) n u s1(1) s2] s(5) show ?thesis by (intro exI [of _ s2]) simp
qed

end
