(* ===== verification/Scanner.thy ===== *)
theory Scanner
  imports Rust_Str
begin

text \<open>
  The \<open>scan\<close> crate: the clamd \<open>INSTREAM\<close> and rspamd \<open>checkv2\<close> clients and the combination of their verdicts
  (\<open>scan/src/lib.rs\<close>, \<open>clamav.rs\<close>, \<open>rspamd.rs\<close>, \<open>endpoint.rs\<close>).

  The two daemons are arguments: what a daemon at an endpoint does with the bytes it is sent (an answer, an
  I/O error or no answer in time). So are the JSON parser, the display of an IP address, the \<open>{:?}\<close> form of
  a string and the one-decimal form of a score, gathered in \<open>scan_lib\<close>.
\<close>

section \<open>Definitions\<close>

datatype endpoint = Unix string | Tcp string

definition endpoint_parse :: "string \<Rightarrow> endpoint" where
  "endpoint_parse s = (if take 1 s = ''/'' then Unix s else Tcp s)"

datatype backend_answer = TimedOut | IoFailed string | Answer bytes

record raw_response =
  rr_score :: real
  rr_required_score :: real
  rr_action :: string

record scan_lib =
  sl_daemon :: "endpoint \<Rightarrow> bytes \<Rightarrow> backend_answer"
  sl_json :: "bytes \<Rightarrow> string + raw_response"
  sl_debug :: "string \<Rightarrow> string"
  sl_fixed1 :: "real \<Rightarrow> string"

subsection \<open>clamd\<close>

definition CHUNK_SIZE :: nat where "CHUNK_SIZE = 256 * 1024"

datatype clamav_verdict = ClamClean | Found string

function chunks :: "nat \<Rightarrow> bytes \<Rightarrow> bytes list" where
  "chunks n xs = (if xs = [] \<or> n = 0 then [] else take n xs # chunks n (drop n xs))"
  by pat_completeness auto
termination
  by (relation "measure (\<lambda>(n, xs). length xs)") auto

declare chunks.simps [simp del]

definition u32_be_bytes :: "32 word \<Rightarrow> bytes" where
  "u32_be_bytes w = map (\<lambda>k. char_of (unat w div 256 ^ k mod 256)) [3, 2, 1, 0]"

definition instream :: "bytes \<Rightarrow> bytes" where
  "instream raw_message =
     ''zINSTREAM'' @ [CHR 0x00] @
     concat (map (\<lambda>chunk. u32_be_bytes (of_nat (length chunk)) @ chunk) (chunks CHUNK_SIZE raw_message)) @
     u32_be_bytes 0"

definition parse_stream_reply :: "scan_lib \<Rightarrow> string \<Rightarrow> clamav_verdict result" where
  "parse_stream_reply sl line =
     (case strip_prefix ''stream:'' (trim line) of
        None \<Rightarrow> Inl (Network (''malformed clamd reply: '' @ sl_debug sl line))
      | Some after \<Rightarrow>
          let rest = trim after in
          if rest = ''OK'' then Inr ClamClean
          else case strip_suffix ''FOUND'' rest of
            Some sig \<Rightarrow> Inr (Found (trim sig))
          | None \<Rightarrow> Inl (Network (''unrecognized clamd reply: '' @ sl_debug sl line)))"

definition clamav_scan :: "scan_lib \<Rightarrow> endpoint \<Rightarrow> bytes \<Rightarrow> clamav_verdict result" where
  "clamav_scan sl ep raw_message =
     (case sl_daemon sl ep (instream raw_message) of
        TimedOut \<Rightarrow> Inl (Network ''clamd scan timed out'')
      | IoFailed e \<Rightarrow> Inl (Io e)
      | Answer reply \<Rightarrow> parse_stream_reply sl (from_utf8_lossy (takeWhile (\<lambda>b. b \<noteq> CHR 0x00) reply)))"

subsection \<open>rspamd\<close>

datatype rspamd_action = NoAction | AddHeader | RewriteSubject | SoftReject | RspamdReject | Greylist | Unknown string

definition action_parse :: "string \<Rightarrow> rspamd_action" where
  "action_parse s =
     (if s = ''no action'' then NoAction
      else if s = ''add header'' then AddHeader
      else if s = ''rewrite subject'' then RewriteSubject
      else if s = ''soft reject'' then SoftReject
      else if s = ''reject'' then RspamdReject
      else if s = ''greylist'' then Greylist
      else Unknown s)"

fun action_debug :: "scan_lib \<Rightarrow> rspamd_action \<Rightarrow> string" where
  "action_debug sl NoAction = ''NoAction''"
| "action_debug sl AddHeader = ''AddHeader''"
| "action_debug sl RewriteSubject = ''RewriteSubject''"
| "action_debug sl SoftReject = ''SoftReject''"
| "action_debug sl RspamdReject = ''Reject''"
| "action_debug sl Greylist = ''Greylist''"
| "action_debug sl (Unknown s) = ''Unknown('' @ sl_debug sl s @ '')''"

record rspamd_verdict =
  rv_action :: rspamd_action
  rv_score :: real
  rv_required_score :: real

record scan_request =
  sq_remote_ip :: string
  sq_helo :: string
  sq_mail_from :: string
  sq_rcpt_to :: "string list"
  sq_raw_message :: bytes

definition crlf :: bytes where "crlf = [CHR 0x0D, CHR 0x0A]"

definition check_head :: "scan_request \<Rightarrow> bytes" where
  "check_head req =
     ''POST /checkv2 HTTP/1.0'' @ crlf @ ''Content-Length: '' @ show_nat (length (sq_raw_message req)) @ crlf @
     ''IP: '' @ sq_remote_ip req @ crlf @ ''Helo: '' @ sq_helo req @ crlf @ ''From: '' @ sq_mail_from req @ crlf @
     concat (map (\<lambda>rcpt. ''Rcpt: '' @ rcpt @ crlf) (sq_rcpt_to req)) @ crlf"

fun find_separator :: "bytes \<Rightarrow> bytes \<Rightarrow> bytes option" where
  "find_separator sep [] = None"
| "find_separator sep (x # xs) =
     (case strip_prefix sep (x # xs) of Some body \<Rightarrow> Some body | None \<Rightarrow> find_separator sep xs)"

definition parse_response :: "scan_lib \<Rightarrow> bytes \<Rightarrow> rspamd_verdict result" where
  "parse_response sl response =
     (case find_separator (crlf @ crlf) response of
        None \<Rightarrow> Inl (Network ''malformed rspamd response: no header/body separator'')
      | Some body \<Rightarrow>
          (case sl_json sl body of
             Inl e \<Rightarrow> Inl (Network (''malformed rspamd JSON response: '' @ e))
           | Inr raw \<Rightarrow> Inr \<lparr>rv_action = action_parse (rr_action raw), rv_score = rr_score raw,
                            rv_required_score = rr_required_score raw\<rparr>))"

definition rspamd_check :: "scan_lib \<Rightarrow> endpoint \<Rightarrow> scan_request \<Rightarrow> rspamd_verdict result" where
  "rspamd_check sl ep req =
     (case sl_daemon sl ep (check_head req @ sq_raw_message req) of
        TimedOut \<Rightarrow> Inl (Network ''rspamd check timed out'')
      | IoFailed e \<Rightarrow> Inl (Io e)
      | Answer response \<Rightarrow> parse_response sl response)"

subsection \<open>Combination\<close>

record scanner =
  sc_rspamd :: "endpoint option"
  sc_clamav :: "endpoint option"

definition scanner_from_config :: "string option \<Rightarrow> string option \<Rightarrow> scanner" where
  "scanner_from_config antispam antivirus =
     \<lparr>sc_rspamd = map_option endpoint_parse antispam, sc_clamav = map_option endpoint_parse antivirus\<rparr>"

datatype verdict = Clean | Spam string | Defer string | Reject string

record scan_result =
  sr_verdict :: verdict
  sr_warnings :: "string list"
  sr_spam_score :: "real option"
  sr_av_clean :: "bool option"

definition run_rspamd :: "scan_lib \<Rightarrow> scanner \<Rightarrow> scan_request \<Rightarrow> rspamd_verdict result option" where
  "run_rspamd sl sc req = map_option (\<lambda>ep. rspamd_check sl ep req) (sc_rspamd sc)"

definition run_clamav :: "scan_lib \<Rightarrow> scanner \<Rightarrow> bytes \<Rightarrow> clamav_verdict result option" where
  "run_clamav sl sc raw = map_option (\<lambda>ep. clamav_scan sl ep raw) (sc_clamav sc)"

definition score_text :: "scan_lib \<Rightarrow> rspamd_verdict \<Rightarrow> string" where
  "score_text sl v = '' (score '' @ sl_fixed1 sl (rv_score v) @ ''/'' @ sl_fixed1 sl (rv_required_score v) @ '')''"

definition rspamd_outcome :: "scan_lib \<Rightarrow> rspamd_verdict \<Rightarrow> verdict \<times> string list" where
  "rspamd_outcome sl v =
     (case rv_action v of
        RspamdReject \<Rightarrow> (Reject (''rspamd reject'' @ score_text sl v), [])
      | SoftReject \<Rightarrow> (Defer (''rspamd '' @ action_debug sl (rv_action v) @ score_text sl v), [])
      | Greylist \<Rightarrow> (Defer (''rspamd '' @ action_debug sl (rv_action v) @ score_text sl v), [])
      | AddHeader \<Rightarrow> (Spam (''rspamd '' @ action_debug sl (rv_action v) @ score_text sl v), [])
      | RewriteSubject \<Rightarrow> (Spam (''rspamd '' @ action_debug sl (rv_action v) @ score_text sl v), [])
      | NoAction \<Rightarrow> (Clean, [])
      | Unknown s \<Rightarrow> (Clean, [''rspamd: unrecognized action '' @ sl_debug sl s @ '', treating as no action'']))"

definition scan :: "scan_lib \<Rightarrow> scanner \<Rightarrow> scan_request \<Rightarrow> scan_result" where
  "scan sl sc req =
     (let rspamd_result = run_rspamd sl sc req;
          clamav_result = run_clamav sl sc (sq_raw_message req);
          (av_clean, warnings) =
            (case clamav_result of
               Some (Inr ClamClean) \<Rightarrow> (Some True, [])
             | Some (Inr (Found _)) \<Rightarrow> (Some False, [])
             | Some (Inl e) \<Rightarrow> (None, [''clamav unreachable: '' @ error_to_string e])
             | None \<Rightarrow> (None, []))
      in
      case clamav_result of
        Some (Inr (Found sig)) \<Rightarrow>
          \<lparr>sr_verdict = Reject (''malware detected: '' @ sig), sr_warnings = warnings, sr_spam_score = None,
           sr_av_clean = av_clean\<rparr>
      | _ \<Rightarrow>
          (case rspamd_result of
             Some (Inr v) \<Rightarrow>
               (let (verd, more) = rspamd_outcome sl v in
                \<lparr>sr_verdict = verd, sr_warnings = warnings @ more, sr_spam_score = Some (rv_score v), sr_av_clean = av_clean\<rparr>)
           | Some (Inl e) \<Rightarrow>
               \<lparr>sr_verdict = Clean, sr_warnings = warnings @ [''rspamd unreachable: '' @ error_to_string e],
                sr_spam_score = None, sr_av_clean = av_clean\<rparr>
           | None \<Rightarrow>
               \<lparr>sr_verdict = Clean, sr_warnings = warnings, sr_spam_score = None, sr_av_clean = av_clean\<rparr>))"

section \<open>Verdicts\<close>

definition unreachable :: "'a result option \<Rightarrow> bool" where
  "unreachable r \<longleftrightarrow> (case r of Some (Inl _) \<Rightarrow> True | _ \<Rightarrow> False)"

text \<open>C36: malware found by clamd is always rejected, whatever rspamd says; in every other case a message is
  rejected or deferred only on rspamd's own decision, an unreachable daemon never stops a message and always
  leaves a warning, and a message is spam exactly when rspamd asks for a header or a new subject.\<close>

theorem scan_verdict_policy:
  "(case run_clamav sl sc (sq_raw_message req) of
      Some (Inr (Found sig)) \<Rightarrow> sr_verdict (scan sl sc req) = Reject (''malware detected: '' @ sig) \<and>
        sr_av_clean (scan sl sc req) = Some False
    | r \<Rightarrow>
        ((\<exists>m. sr_verdict (scan sl sc req) = Reject m) \<longleftrightarrow>
           (\<exists>v. run_rspamd sl sc req = Some (Inr v) \<and> rv_action v = RspamdReject)) \<and>
        ((\<exists>m. sr_verdict (scan sl sc req) = Defer m) \<longleftrightarrow>
           (\<exists>v. run_rspamd sl sc req = Some (Inr v) \<and> rv_action v \<in> {SoftReject, Greylist})) \<and>
        ((\<exists>m. sr_verdict (scan sl sc req) = Spam m) \<longleftrightarrow>
           (\<exists>v. run_rspamd sl sc req = Some (Inr v) \<and> rv_action v \<in> {AddHeader, RewriteSubject})) \<and>
        (sr_av_clean (scan sl sc req) = Some True \<longleftrightarrow> r = Some (Inr ClamClean)) \<and>
        (sr_warnings (scan sl sc req) = [] \<longleftrightarrow> \<not> unreachable r \<and> \<not> unreachable (run_rspamd sl sc req) \<and>
           \<not> (\<exists>v s. run_rspamd sl sc req = Some (Inr v) \<and> rv_action v = Unknown s)))"
  by (auto simp: scan_def Let_def rspamd_outcome_def unreachable_def
      split: option.splits sum.splits clamav_verdict.splits rspamd_action.splits)

section \<open>Framing\<close>

text \<open>The reader of a clamd stream: big-endian lengths, each followed by that many bytes, up to a zero length.\<close>

definition be_value :: "bytes \<Rightarrow> nat" where
  "be_value bs = fold (\<lambda>b acc. 256 * acc + of_char b) bs 0"

function unframe :: "bytes \<Rightarrow> (bytes \<times> bytes) option" where
  "unframe s =
     (if length s < 4 then None
      else let n = be_value (take 4 s) in
        if n = 0 then Some ([], drop 4 s)
        else if length s < 4 + n then None
        else map_option (\<lambda>(raw, rest). (take n (drop 4 s) @ raw, rest)) (unframe (drop (4 + n) s)))"
  by pat_completeness auto
termination
  by (relation "measure length") auto

declare unframe.simps [simp del]

lemma length_u32 [simp]: "length (u32_be_bytes w) = 4"
  by (simp add: u32_be_bytes_def)

lemma be_value_u32: "n < 2 ^ 32 \<Longrightarrow> be_value (u32_be_bytes (of_nat n)) = n"
proof -
  assume n: "n < 2 ^ 32"
  have u: "unat (of_nat n :: 32 word) = n" using n by (simp add: unsigned_of_nat take_bit_nat_eq_self)
  have "256 * (256 * (256 * (n div 256 ^ 3 mod 256) + n div 256 ^ 2 mod 256) + n div 256 ^ 1 mod 256) + n div 256 ^ 0 mod 256 = n"
  proof -
    have "n div 16777216 < 256" using n by simp
    moreover have "n = 256 * (n div 256) + n mod 256" by simp
    moreover have "n div 256 = 256 * (n div 65536) + n div 256 mod 256"
      using div_mult_mod_eq [of "n div 256" 256] by (simp add: div_mult2_eq [symmetric])
    moreover have "n div 65536 = 256 * (n div 16777216) + n div 65536 mod 256"
      using div_mult_mod_eq [of "n div 65536" 256] by (simp add: div_mult2_eq [symmetric])
    ultimately show ?thesis by simp
  qed
  with n show ?thesis by (simp add: be_value_def u32_be_bytes_def u of_char_of)
qed

lemma chunks_append: "0 < n \<Longrightarrow> concat (chunks n xs) = xs"
  by (induction n xs rule: chunks.induct) (subst chunks.simps, simp)

lemma chunks_bounds: "c \<in> set (chunks n xs) \<Longrightarrow> 0 < n \<Longrightarrow> c \<noteq> [] \<and> length c \<le> n"
proof (induction n xs rule: chunks.induct)
  case (1 n xs)
  show ?case
  proof (cases "xs = []")
    case True
    with 1 show ?thesis by (simp add: chunks.simps)
  next
    case False
    with "1.prems" have "c = take n xs \<or> c \<in> set (chunks n (drop n xs))" by (subst (asm) chunks.simps) simp
    with "1.IH" "1.prems" False show ?thesis by auto
  qed
qed

lemma unframe_chunks:
  assumes "list_all (\<lambda>c. c \<noteq> [] \<and> length c < 2 ^ 32) cs"
  shows "unframe (concat (map (\<lambda>c. u32_be_bytes (of_nat (length c)) @ c) cs) @ u32_be_bytes 0 @ rest) = Some (concat cs, rest)"
  using assms
proof (induction cs)
  case Nil
  have "be_value (u32_be_bytes 0) = 0" using be_value_u32 [of 0] by simp
  then show ?case by (subst unframe.simps) (simp add: Let_def)
next
  case (Cons c cs)
  then have c: "c \<noteq> []" "be_value (u32_be_bytes (of_nat (length c))) = length c" by (simp_all add: be_value_u32)
  let ?tl = "concat (map (\<lambda>c. u32_be_bytes (of_nat (length c)) @ c) cs) @ u32_be_bytes 0 @ rest"
  have "unframe (u32_be_bytes (of_nat (length c)) @ c @ ?tl) = map_option (\<lambda>(raw, rest). (c @ raw, rest)) (unframe ?tl)"
    using c by (subst unframe.simps) (simp add: Let_def)
  with Cons show ?case by simp
qed

text \<open>the bytes sent to clamd are the command and then a stream of non-empty chunks of at most 256 KiB that a
  reader of the protocol puts back together to exactly the message, whatever its size, with nothing left over.\<close>

theorem instream_roundtrip:
  "\<exists>body. instream raw = ''zINSTREAM'' @ [CHR 0x00] @ body \<and> unframe body = Some (raw, []) \<and>
     list_all (\<lambda>c. c \<noteq> [] \<and> length c \<le> 262144) (chunks CHUNK_SIZE raw)"
proof -
  have b: "list_all (\<lambda>c. c \<noteq> [] \<and> length c \<le> CHUNK_SIZE) (chunks CHUNK_SIZE raw)"
    using chunks_bounds [of _ CHUNK_SIZE raw] by (auto simp: list_all_iff CHUNK_SIZE_def)
  then have "list_all (\<lambda>c. c \<noteq> [] \<and> length c < 2 ^ 32) (chunks CHUNK_SIZE raw)"
    by (auto simp: list_all_iff CHUNK_SIZE_def)
  from unframe_chunks [OF this, of "[]"] chunks_append [of CHUNK_SIZE raw] b show ?thesis
    by (simp add: instream_def CHUNK_SIZE_def)
qed

end
