(* ===== verification/Admin_Store.thy ===== *)
theory Admin_Store
  imports Auth_Store
begin

text \<open>
  The \<open>admin\<close> crate's storage (\<open>admin/src/store.rs\<close>, \<open>types.rs\<close>): the administrators with their password hash and
  second factor, the hosted domains, and the column migrations that run when the database is opened.

  \<open>must_change_password\<close> and \<open>totp_enabled\<close> are written as 0 or 1 only and read as \<open>!= 0\<close>, so they are booleans here.
  JSON and hexadecimal encoding are arguments. A domain row written before the verification feature has a NULL
  token; reading one is an error of \<open>row_to_domain\<close>, and the migration fills it in.
\<close>

section \<open>Tables\<close>

record admin =
  adm_id :: int
  adm_username :: string
  adm_must_change :: bool
  adm_created_at :: int
  adm_totp_enabled :: bool

record domain =
  dom_id :: int
  dom_name :: string
  dom_catch_all :: "string option"
  dom_token :: string
  dom_verified_at :: "int option"
  dom_created_at :: int

record admin_row =
  aw_id :: int
  aw_username :: string
  aw_salt :: bytes
  aw_derived_key :: bytes
  aw_must_change :: bool
  aw_created_at :: int
  aw_totp_secret :: "bytes option"
  aw_totp_key_id :: "int option"
  aw_totp_enabled :: bool
  aw_recovery :: "string option"

record domain_row =
  dw_id :: int
  dw_name :: string
  dw_catch_all :: "string option"
  dw_token :: "string option"
  dw_verified_at :: "int option"
  dw_created_at :: int

record admin_tables =
  admins :: "admin_row list"
  domains :: "domain_row list"
  admin_columns :: "string list"
  domain_columns :: "string list"

type_synonym admin_db = "admin_tables db"

interpretation admin_tbl: rowid_table aw_id "\<lambda>i r. r\<lparr>aw_id := i\<rparr>"
  by unfold_locales simp

interpretation domain_tbl: rowid_table dw_id "\<lambda>i r. r\<lparr>dw_id := i\<rparr>"
  by unfold_locales simp

definition query_row :: "('t \<Rightarrow> 'a option) \<Rightarrow> 't db \<Rightarrow> 'a result \<times> 't db" where
  "query_row q = db_stmt (\<lambda>t.
     (case q t of None \<Rightarrow> Inl (Storage ''Query returned no rows'') | Some a \<Rightarrow> Inr a, t))"

definition admin_by_id :: "int \<Rightarrow> admin_tables \<Rightarrow> admin_row option" where
  "admin_by_id i t = tbl_get aw_id i (admins t)"

definition update_admin :: "int \<Rightarrow> (admin_row \<Rightarrow> admin_row) \<Rightarrow> admin_db \<Rightarrow> unit result \<times> admin_db" where
  "update_admin i f = db_stmt (\<lambda>t. (Inr (), t\<lparr>admins := update_where (\<lambda>r. aw_id r = i) f (admins t)\<rparr>))"

definition update_domain :: "int \<Rightarrow> (domain_row \<Rightarrow> domain_row) \<Rightarrow> admin_db \<Rightarrow> unit result \<times> admin_db" where
  "update_domain i f = db_stmt (\<lambda>t. (Inr (), t\<lparr>domains := update_where (\<lambda>r. dw_id r = i) f (domains t)\<rparr>))"

section \<open>Opening the database\<close>

definition generate_verification_token :: "(bytes \<Rightarrow> string) \<Rightarrow> bytes \<Rightarrow> string" where
  "generate_verification_token hex rnd = hex rnd"

definition add_column ::
    "(admin_tables \<Rightarrow> string list) \<Rightarrow> ((string list \<Rightarrow> string list) \<Rightarrow> admin_tables \<Rightarrow> admin_tables) \<Rightarrow>
     string list \<Rightarrow> string \<Rightarrow> admin_db \<Rightarrow> unit result \<times> admin_db" where
  "add_column cols upd existing c =
     (if c \<notin> set existing
      then db_stmt (\<lambda>t. if c \<in> set (cols t) then (Inl (Storage (''duplicate column name: '' @ c)), t)
                        else (Inr (), upd (\<lambda>cs. cs @ [c]) t))
      else (\<lambda>d. (Inr (), d)))"

fun backfill_tokens :: "(bytes \<Rightarrow> string) \<Rightarrow> (nat \<Rightarrow> bytes) \<Rightarrow> nat \<Rightarrow> int list \<Rightarrow> admin_db \<Rightarrow> unit result \<times> admin_db" where
  "backfill_tokens hex rnd k [] = (\<lambda>d. (Inr (), d))"
| "backfill_tokens hex rnd k (i # is) =
     op_bind (update_domain i (\<lambda>r. r\<lparr>dw_token := Some (generate_verification_token hex (rnd k))\<rparr>))
       (\<lambda>_. backfill_tokens hex rnd (Suc k) is)"

definition migrate_domains_columns :: "(bytes \<Rightarrow> string) \<Rightarrow> (nat \<Rightarrow> bytes) \<Rightarrow> admin_db \<Rightarrow> unit result \<times> admin_db" where
  "migrate_domains_columns hex rnd =
     op_bind (db_query domain_columns) (\<lambda>existing.
     op_bind (add_column domain_columns domain_columns_update existing ''verification_token'') (\<lambda>_.
     op_bind (add_column domain_columns domain_columns_update existing ''verified_at'') (\<lambda>_.
     op_bind (db_query (\<lambda>t. map dw_id (filter (\<lambda>r. dw_token r = None) (domains t)))) (\<lambda>ids_needing_token.
     backfill_tokens hex rnd 0 ids_needing_token))))"

definition migrate_admins_columns :: "admin_db \<Rightarrow> unit result \<times> admin_db" where
  "migrate_admins_columns =
     op_bind (db_query admin_columns) (\<lambda>existing.
     op_bind (add_column admin_columns admin_columns_update existing ''totp_wrapped_secret'') (\<lambda>_.
     op_bind (add_column admin_columns admin_columns_update existing ''totp_key_id'') (\<lambda>_.
     op_bind (add_column admin_columns admin_columns_update existing ''totp_enabled'') (\<lambda>_.
     add_column admin_columns admin_columns_update existing ''totp_recovery_codes''))))"

section \<open>Administrators\<close>

definition has_admin :: "admin_db \<Rightarrow> bool result \<times> admin_db" where
  "has_admin = db_query (\<lambda>t. 0 < length (admins t))"

definition op_result :: "'a result \<Rightarrow> 's \<Rightarrow> 'a result \<times> 's" where
  "op_result r s = (r, s)"

definition insert_admin :: "admin_row \<Rightarrow> admin_db \<Rightarrow> int result \<times> admin_db" where
  "insert_admin row = db_stmt (\<lambda>t.
     if \<exists>r \<in> set (admins t). aw_username r = aw_username row
     then (Inl (Storage ''UNIQUE constraint failed: admins.username''), t)
     else let (i, rows) = tbl_insert aw_id (\<lambda>i r. r\<lparr>aw_id := i\<rparr>) row (admins t)
          in (Inr i, t\<lparr>admins := rows\<rparr>))"

definition bootstrap ::
    "crypto_lib \<Rightarrow> bytes \<Rightarrow> int \<Rightarrow> string \<Rightarrow> bytes \<Rightarrow> argon2_config \<Rightarrow> admin_db \<Rightarrow> bytes option result \<times> admin_db" where
  "bootstrap L salt now username password config =
     op_bind has_admin (\<lambda>has.
       if has then op_result (Inr None)
       else op_bind (op_result (crypto_err (derive_pk L password salt config))) (\<lambda>pk.
         op_bind (insert_admin \<lparr>aw_id = 0, aw_username = username, aw_salt = salt, aw_derived_key = pk,
             aw_must_change = True, aw_created_at = now, aw_totp_secret = None, aw_totp_key_id = None,
             aw_totp_enabled = False, aw_recovery = None\<rparr>) (\<lambda>_.
         op_result (Inr (Some pk)))))"

definition verify_login ::
    "crypto_lib \<Rightarrow> string \<Rightarrow> bytes \<Rightarrow> argon2_config \<Rightarrow> admin_db \<Rightarrow> (admin \<times> bytes) option result \<times> admin_db" where
  "verify_login L username password config =
     op_bind (db_query (\<lambda>t. find (\<lambda>r. aw_username r = username) (admins t))) (\<lambda>row.
       case row of
         None \<Rightarrow> op_result (Inr None)
       | Some r \<Rightarrow>
           if length (aw_salt r) \<noteq> SALT_LEN then op_result (Inr None)
           else op_bind (op_result (crypto_err (derive_pk L password (aw_salt r) config))) (\<lambda>pk.
             if pk \<noteq> aw_derived_key r then op_result (Inr None)
             else op_result (Inr (Some (\<lparr>adm_id = aw_id r, adm_username = username, adm_must_change = aw_must_change r,
                    adm_created_at = aw_created_at r, adm_totp_enabled = aw_totp_enabled r\<rparr>, pk)))))"

definition username_for_id :: "int \<Rightarrow> admin_db \<Rightarrow> string option result \<times> admin_db" where
  "username_for_id i = db_query (\<lambda>t. map_option aw_username (admin_by_id i t))"

definition change_password ::
    "crypto_lib \<Rightarrow> bytes \<Rightarrow> int \<Rightarrow> bytes \<Rightarrow> argon2_config \<Rightarrow> admin_db \<Rightarrow> bytes result \<times> admin_db" where
  "change_password L salt i new_password config =
     op_bind (op_result (crypto_err (derive_pk L new_password salt config))) (\<lambda>pk.
     op_bind (update_admin i (\<lambda>r. r\<lparr>aw_salt := salt, aw_derived_key := pk, aw_must_change := False\<rparr>)) (\<lambda>_.
     op_result (Inr pk)))"

section \<open>Second factor\<close>

definition is_totp_enabled :: "int \<Rightarrow> admin_db \<Rightarrow> bool result \<times> admin_db" where
  "is_totp_enabled i = query_row (\<lambda>t. map_option aw_totp_enabled (admin_by_id i t))"

definition set_pending_totp :: "crypto_lib \<Rightarrow> bytes \<Rightarrow> int \<Rightarrow> bytes \<Rightarrow> bytes \<Rightarrow> (unit, admin_db) proc" where
  "set_pending_totp L nonce_bytes i wrap_key secret =
     proc_bind (proc_pan (committing_seal L nonce_bytes wrap_key 1 secret)) (\<lambda>wrapped.
     lift_op (update_admin i (\<lambda>r. r\<lparr>aw_totp_secret := Some wrapped, aw_totp_key_id := Some 1,
       aw_totp_enabled := False, aw_recovery := None\<rparr>)))"

definition totp_secret :: "crypto_lib \<Rightarrow> int \<Rightarrow> bytes \<Rightarrow> admin_db \<Rightarrow> bytes option result \<times> admin_db" where
  "totp_secret L i wrap_key =
     op_bind (query_row (\<lambda>t. map_option aw_totp_secret (admin_by_id i t))) (\<lambda>wrapped.
       case wrapped of
         None \<Rightarrow> op_result (Inr None)
       | Some w \<Rightarrow> op_bind (op_result (crypto_err (committing_open L wrap_key w))) (\<lambda>secret.
           op_result (Inr (Some secret))))"

definition confirm_totp :: "(string list \<Rightarrow> string) \<Rightarrow> int \<Rightarrow> string list \<Rightarrow> admin_db \<Rightarrow> unit result \<times> admin_db" where
  "confirm_totp json i hashed_recovery_codes =
     update_admin i (\<lambda>r. r\<lparr>aw_totp_enabled := True, aw_recovery := Some (json hashed_recovery_codes)\<rparr>)"

definition disable_totp :: "int \<Rightarrow> admin_db \<Rightarrow> unit result \<times> admin_db" where
  "disable_totp i = update_admin i (\<lambda>r. r\<lparr>aw_totp_secret := None, aw_totp_key_id := None,
     aw_totp_enabled := False, aw_recovery := None\<rparr>)"

definition recovery_codes :: "(string \<Rightarrow> string list option) \<Rightarrow> int \<Rightarrow> admin_db \<Rightarrow> string list result \<times> admin_db" where
  "recovery_codes unjson i =
     op_bind (query_row (\<lambda>t. map_option aw_recovery (admin_by_id i t))) (\<lambda>codes_json.
       op_result (Inr (case codes_json of
           None \<Rightarrow> []
         | Some js \<Rightarrow> (case unjson js of None \<Rightarrow> [] | Some codes \<Rightarrow> codes))))"

definition set_recovery_codes :: "(string list \<Rightarrow> string) \<Rightarrow> int \<Rightarrow> string list \<Rightarrow> admin_db \<Rightarrow> unit result \<times> admin_db" where
  "set_recovery_codes json i codes = update_admin i (\<lambda>r. r\<lparr>aw_recovery := Some (json codes)\<rparr>)"

definition rewrap_totp_secret :: "crypto_lib \<Rightarrow> bytes \<Rightarrow> int \<Rightarrow> bytes \<Rightarrow> bytes \<Rightarrow> (unit, admin_db) proc" where
  "rewrap_totp_secret L nonce_bytes i old_wrap_key new_wrap_key =
     proc_bind (lift_op (query_row (\<lambda>t. map_option (\<lambda>r. (aw_totp_secret r, aw_totp_key_id r)) (admin_by_id i t)))) (\<lambda>row.
       case row of
         (Some wrapped, Some kid) \<Rightarrow>
           proc_bind (proc_return (crypto_err (committing_open L old_wrap_key wrapped))) (\<lambda>secret.
           let new_key_id = kid + 1 in
           proc_bind (proc_pan (committing_seal L nonce_bytes new_wrap_key (word_of_int new_key_id) secret)) (\<lambda>rewrapped.
           lift_op (update_admin i (\<lambda>r. r\<lparr>aw_totp_secret := Some rewrapped, aw_totp_key_id := Some new_key_id\<rparr>))))
       | _ \<Rightarrow> proc_return (Inr ()))"

section \<open>Domains\<close>

definition row_to_domain :: "domain_row \<Rightarrow> domain result" where
  "row_to_domain r =
     (case dw_token r of
        None \<Rightarrow> Inl (Storage ''Invalid column type Null at index: 3, name: verification_token'')
      | Some tok \<Rightarrow> Inr \<lparr>dom_id = dw_id r, dom_name = dw_name r, dom_catch_all = dw_catch_all r,
          dom_token = tok, dom_verified_at = dw_verified_at r, dom_created_at = dw_created_at r\<rparr>)"

fun collect_rows :: "('r \<Rightarrow> 'a result) \<Rightarrow> 'r list \<Rightarrow> 'a list result" where
  "collect_rows f [] = Inr []"
| "collect_rows f (r # rs) =
     (case f r of
        Inl e \<Rightarrow> Inl e
      | Inr a \<Rightarrow> (case collect_rows f rs of Inl e \<Rightarrow> Inl e | Inr as \<Rightarrow> Inr (a # as)))"

definition query_domain :: "(domain_row \<Rightarrow> bool) \<Rightarrow> admin_db \<Rightarrow> domain option result \<times> admin_db" where
  "query_domain p = db_stmt (\<lambda>t.
     (case find p (domains t) of
        None \<Rightarrow> Inr None
      | Some r \<Rightarrow> (case row_to_domain r of Inl e \<Rightarrow> Inl e | Inr d \<Rightarrow> Inr (Some d)), t))"

definition list_domains :: "admin_db \<Rightarrow> domain list result \<times> admin_db" where
  "list_domains = db_stmt (\<lambda>t. (collect_rows row_to_domain (sort_key (\<lambda>r. bytes_key (dw_name r)) (domains t)), t))"

definition get_domain :: "int \<Rightarrow> admin_db \<Rightarrow> domain option result \<times> admin_db" where
  "get_domain i = query_domain (\<lambda>r. dw_id r = i)"

definition get_domain_by_name :: "string \<Rightarrow> admin_db \<Rightarrow> domain option result \<times> admin_db" where
  "get_domain_by_name name0 = (let name = to_ascii_lowercase name0 in query_domain (\<lambda>r. dw_name r = name))"

definition insert_domain :: "domain_row \<Rightarrow> admin_db \<Rightarrow> int result \<times> admin_db" where
  "insert_domain row = db_stmt (\<lambda>t.
     if \<exists>r \<in> set (domains t). dw_name r = dw_name row
     then (Inl (Storage ''UNIQUE constraint failed: domains.name''), t)
     else let (i, rows) = tbl_insert dw_id (\<lambda>i r. r\<lparr>dw_id := i\<rparr>) row (domains t)
          in (Inr i, t\<lparr>domains := rows\<rparr>))"

definition create_domain ::
    "(bytes \<Rightarrow> string) \<Rightarrow> bytes \<Rightarrow> int \<Rightarrow> string \<Rightarrow> string option \<Rightarrow> admin_db \<Rightarrow> domain result \<times> admin_db" where
  "create_domain hex rnd now name0 catch_all =
     (if \<not> valid_domain_name name0 then op_result (Inl (Config ''invalid domain name''))
      else let name = to_ascii_lowercase name0; token = generate_verification_token hex rnd in
        op_bind (insert_domain \<lparr>dw_id = 0, dw_name = name, dw_catch_all = catch_all, dw_token = Some token,
            dw_verified_at = None, dw_created_at = now\<rparr>) (\<lambda>i.
        op_result (Inr \<lparr>dom_id = i, dom_name = name, dom_catch_all = catch_all, dom_token = token,
          dom_verified_at = None, dom_created_at = now\<rparr>)))"

definition set_catch_all :: "int \<Rightarrow> string option \<Rightarrow> admin_db \<Rightarrow> unit result \<times> admin_db" where
  "set_catch_all i catch_all = update_domain i (\<lambda>r. r\<lparr>dw_catch_all := catch_all\<rparr>)"

definition mark_domain_verified :: "int \<Rightarrow> int \<Rightarrow> admin_db \<Rightarrow> unit result \<times> admin_db" where
  "mark_domain_verified i verified_at = update_domain i (\<lambda>r. r\<lparr>dw_verified_at := Some verified_at\<rparr>)"

definition delete_domain :: "int \<Rightarrow> admin_db \<Rightarrow> unit result \<times> admin_db" where
  "delete_domain i = db_stmt (\<lambda>t. (Inr (), t\<lparr>domains := filter (\<lambda>r. dw_id r \<noteq> i) (domains t)\<rparr>))"

section \<open>Behaviour\<close>

definition admin_ok :: "admin_tables \<Rightarrow> bool" where
  "admin_ok t \<longleftrightarrow> distinct (map aw_id (admins t)) \<and> distinct (map aw_username (admins t)) \<and>
     distinct (map dw_id (domains t)) \<and> distinct (map dw_name (domains t)) \<and>
     list_all (\<lambda>r. valid_domain_name (dw_name r) \<and> to_ascii_lowercase (dw_name r) = dw_name r \<and> dw_token r \<noteq> None) (domains t)"

definition domain_of :: "domain_row \<Rightarrow> domain" where
  "domain_of r = \<lparr>dom_id = dw_id r, dom_name = dw_name r, dom_catch_all = dw_catch_all r,
     dom_token = the (dw_token r), dom_verified_at = dw_verified_at r, dom_created_at = dw_created_at r\<rparr>"

lemma row_to_domain_ok: "dw_token r \<noteq> None \<Longrightarrow> row_to_domain r = Inr (domain_of r)"
  by (auto simp: row_to_domain_def domain_of_def)

lemma op_result_simp [simp]: "op_result r s = (r', s') \<longleftrightarrow> r' = r \<and> s' = s"
  by (auto simp: op_result_def)

lemma query_row_run:
  assumes "query_row q s = (r, s')"
  shows "tables s' = tables s" and "r = Inr a \<Longrightarrow> q (tables s) = Some a"
  using assms unfolding query_row_def by (auto elim!: db_stmt_cases split: option.splits)

lemma query_row_no_faults [simp]:
  "faults s = [] \<Longrightarrow> query_row q s =
     (case q (tables s) of None \<Rightarrow> Inl (Storage ''Query returned no rows'') | Some a \<Rightarrow> Inr a, s)"
  by (simp add: query_row_def split: option.splits)

lemma query_domain_run:
  assumes "query_domain p s = (r, s')"
  shows "tables s' = tables s"
    and "r = Inr (Some d) \<Longrightarrow> \<exists>row. find p (domains (tables s)) = Some row \<and> d = domain_of row"
  using assms unfolding query_domain_def
  by (auto elim!: db_stmt_cases split: option.splits sum.splits simp: row_to_domain_def domain_of_def)

lemma query_domain_no_faults:
  assumes "faults s = []" and "admin_ok (tables s)"
  shows "query_domain p s = (Inr (map_option domain_of (find p (domains (tables s)))), s)"
proof (cases "find p (domains (tables s))")
  case (Some row)
  then have "dw_token row \<noteq> None" using assms(2) by (auto simp: admin_ok_def list_all_iff find_Some_iff)
  with Some assms(1) show ?thesis by (simp add: query_domain_def row_to_domain_ok)
qed (use assms(1) in \<open>simp add: query_domain_def\<close>)

lemma get_domain_by_name_run:
  assumes "get_domain_by_name name s = (r, s')"
  shows "tables s' = tables s"
    and "r = Inr (Some d) \<Longrightarrow> \<exists>row \<in> set (domains (tables s)). d = domain_of row \<and> dw_name row = to_ascii_lowercase name"
proof -
  note run = query_domain_run [OF assms [unfolded get_domain_by_name_def Let_def]]
  show "tables s' = tables s" by (rule run(1))
  assume "r = Inr (Some d)"
  from run(2) [OF this] show "\<exists>row \<in> set (domains (tables s)). d = domain_of row \<and> dw_name row = to_ascii_lowercase name"
    by (auto simp: find_Some_iff)
qed

lemma create_domain_cases:
  assumes "create_domain hex rnd now name ca s = (r, s')"
  obtains (kept) e where "r = Inl e" "tables s' = tables s"
    | (created) row where "r = Inr (domain_of row)" "valid_domain_name name" "dw_name row = to_ascii_lowercase name"
      "dw_catch_all row = ca" "dw_token row = Some (hex rnd)" "dw_verified_at row = None"
      "dw_id row = next_rowid dw_id (domains (tables s))"
      "\<forall>x \<in> set (domains (tables s)). dw_name x \<noteq> to_ascii_lowercase name"
      "tables s' = (tables s)\<lparr>domains := domains (tables s) @ [row]\<rparr>"
proof (cases "valid_domain_name name")
  case False
  with assms show thesis by (intro kept) (auto simp: create_domain_def)
next
  case True
  define row where "row = \<lparr>dw_id = 0, dw_name = to_ascii_lowercase name, dw_catch_all = ca,
    dw_token = Some (generate_verification_token hex rnd), dw_verified_at = None, dw_created_at = now\<rparr>"
  obtain q s1 where st: "insert_domain row s = (q, s1)" by fastforce
  have run: "(r, s') = (case q of Inl e \<Rightarrow> (Inl e, s1) | Inr i \<Rightarrow>
     (Inr \<lparr>dom_id = i, dom_name = to_ascii_lowercase name, dom_catch_all = ca,
        dom_token = generate_verification_token hex rnd, dom_verified_at = None, dom_created_at = now\<rparr>, s1))"
    using assms True st by (simp add: create_domain_def op_bind_def op_result_def row_def Let_def split: sum.splits)
  from st show thesis unfolding insert_domain_def
  proof (cases rule: db_stmt_cases)
    case (failed msg)
    with run show thesis by (intro kept) simp_all
  next
    case ran
    show thesis
    proof (cases "\<exists>x \<in> set (domains (tables s)). dw_name x = to_ascii_lowercase name")
      case True
      with ran run show thesis by (intro kept) (auto simp: row_def)
    next
      case False
      with ran have "q = Inr (next_rowid dw_id (domains (tables s)))"
        "tables s1 = (tables s)\<lparr>domains := domains (tables s) @ [row\<lparr>dw_id := next_rowid dw_id (domains (tables s))\<rparr>]\<rparr>"
        by (auto simp: row_def tbl_insert_def Let_def)
      with run False True show thesis
        by (intro created [of "row\<lparr>dw_id := next_rowid dw_id (domains (tables s))\<rparr>"])
          (auto simp: row_def domain_of_def generate_verification_token_def)
    qed
  qed
qed

lemma update_admin_run:
  assumes "update_admin i f s = (r, s')"
  shows "tables s' = (if is_ok r then (tables s)\<lparr>admins := update_where (\<lambda>r. aw_id r = i) f (admins (tables s))\<rparr> else tables s)"
  using assms unfolding update_admin_def by (auto elim!: db_stmt_cases)

lemma update_admin_no_faults [simp]:
  "faults s = [] \<Longrightarrow> update_admin i f s =
     (Inr (), s\<lparr>tables := (tables s)\<lparr>admins := update_where (\<lambda>r. aw_id r = i) f (admins (tables s))\<rparr>\<rparr>)"
  by (simp add: update_admin_def)

text \<open>Creating, relabelling and deleting domains keeps the invariant, whichever statement fails.\<close>

lemma update_domain_run:
  assumes "update_domain i f s = (r, s')"
  shows "tables s' = (if is_ok r then (tables s)\<lparr>domains := update_where (\<lambda>r. dw_id r = i) f (domains (tables s))\<rparr> else tables s)"
  using assms unfolding update_domain_def by (auto elim!: db_stmt_cases)

lemma admin_ok_create:
  assumes "create_domain hex rnd now name ca s = (r, s')" and "admin_ok (tables s)"
  shows "admin_ok (tables s')"
  using assms(1)
proof (cases rule: create_domain_cases)
  case (created row)
  have "dw_id row \<notin> dw_id ` set (domains (tables s))" "dw_name row \<notin> dw_name ` set (domains (tables s))"
    using created(3,7,8) next_rowid_notin [of _ "domains (tables s)" dw_id] by force+
  with created assms(2) valid_domain_name_lower [OF created(2)] show ?thesis
    by (simp add: admin_ok_def)
qed (use assms(2) in simp)

lemma admin_ok_update_domain:
  assumes "update_domain i f s = (r, s')" and "admin_ok (tables s)"
    and "\<And>r. dw_id (f r) = dw_id r" "\<And>r. dw_name (f r) = dw_name r" "\<And>r y. dw_token r = Some y \<Longrightarrow> \<exists>z. dw_token (f r) = Some z"
  shows "admin_ok (tables s')"
proof (cases "is_ok r")
  case True
  have "map dw_id (update_where (\<lambda>r. dw_id r = i) f (domains (tables s))) = map dw_id (domains (tables s))"
    "map dw_name (update_where (\<lambda>r. dw_id r = i) f (domains (tables s))) = map dw_name (domains (tables s))"
    by (rule update_where_keys, rule assms(3), rule update_where_keys, rule assms(4))
  moreover have "dw_token (if dw_id x = i then f x else x) \<noteq> None" if "x \<in> set (domains (tables s))" for x
    using that assms(2,5) by (auto simp: admin_ok_def list_all_iff)
  ultimately show ?thesis using assms(2) update_domain_run [OF assms(1)] True
    by (auto simp: admin_ok_def list_all_iff set_update_where assms(4))
qed (use assms(2) update_domain_run [OF assms(1)] in simp)

lemma admin_ok_delete_domain:
  assumes "delete_domain i s = (r, s')" and "admin_ok (tables s)"
  shows "admin_ok (tables s')"
  using assms(1) unfolding delete_domain_def
proof (cases rule: db_stmt_cases)
  case ran
  then have "tables s' = (tables s)\<lparr>domains := filter (\<lambda>r. dw_id r \<noteq> i) (domains (tables s))\<rparr>" by simp
  with assms(2) show ?thesis by (simp add: admin_ok_def distinct_map_filter list_all_iff)
qed (use assms(2) in simp)

text \<open>a domain that was created is found under every ASCII case spelling of its name with the catch-all it
  was given; every domain that was hosted before is found as before; and creating it a second time, in whatever
  spelling, fails and changes nothing.\<close>

theorem hosted_domain_lookup:
  assumes "admin_ok (tables s)" and "create_domain hex rnd now name ca s = (Inr d, s')" and "faults s' = []"
    and "to_ascii_lowercase other = to_ascii_lowercase name"
  shows "get_domain_by_name other s' = (Inr (Some d), s') \<and> dom_catch_all d = ca \<and>
    (\<forall>n row. find (\<lambda>r. dw_name r = n) (domains (tables s)) = Some row \<longrightarrow>
       get_domain_by_name n s' = (Inr (Some (domain_of row)), s')) \<and>
    (\<exists>e. create_domain hex rnd' now' other ca' s' = (Inl e, s'))"
proof (intro conjI allI impI)
  from assms(2) obtain row where row: "d = domain_of row" "dw_name row = to_ascii_lowercase name" "dw_catch_all row = ca"
    and fresh: "\<forall>x \<in> set (domains (tables s)). dw_name x \<noteq> to_ascii_lowercase name"
    and t: "domains (tables s') = domains (tables s) @ [row]"
    by (cases rule: create_domain_cases) auto
  have ok: "admin_ok (tables s')" by (rule admin_ok_create [OF assms(2,1)])
  note lookup = query_domain_no_faults [OF assms(3) ok]
  have "find (\<lambda>r. dw_name r = to_ascii_lowercase name) (domains (tables s)) = None"
    using fresh by (auto simp: find_None_iff)
  then show "get_domain_by_name other s' = (Inr (Some d), s')"
    using row by (simp add: get_domain_by_name_def lookup t find_append assms(4))
  show "dom_catch_all d = ca" using row by (simp add: domain_of_def)
  show "get_domain_by_name n s' = (Inr (Some (domain_of row0)), s')"
    if found: "find (\<lambda>r. dw_name r = n) (domains (tables s)) = Some row0" for n row0
  proof -
    have "to_ascii_lowercase n = n" using found assms(1) by (auto simp: find_Some_iff admin_ok_def list_all_iff)
    with found show ?thesis by (simp add: get_domain_by_name_def lookup t find_append)
  qed
  show "\<exists>e. create_domain hex rnd' now' other ca' s' = (Inl e, s')"
    using assms(3,4) t row(2) by (simp add: create_domain_def insert_domain_def op_bind_def op_result_def Let_def)
qed

definition hex_sample :: "bytes \<Rightarrow> string" where "hex_sample b = b"

definition empty_admin :: admin_db where
  "empty_admin = \<lparr>tables = \<lparr>admins = [], domains = [], admin_columns = [''totp_enabled''], domain_columns = []\<rparr>, faults = []\<rparr>"

lemma valid_domain_sample: "valid_domain_name ''a.org''" "valid_domain_name ''A.org''"
  by (simp_all add: input_eval)

theorem hosted_domain_lookup_witness:
  "\<exists>s d. create_domain hex_sample ''t'' 5 ''a.org'' (Some ''all'') empty_admin = (Inr d, s) \<and>
     get_domain_by_name ''A.org'' s = (Inr (Some d), s) \<and> dom_catch_all d = Some ''all'' \<and>
     (\<exists>e. create_domain hex_sample ''u'' 6 ''A.org'' None s = (Inl e, s))"
proof -
  obtain d s where c: "create_domain hex_sample ''t'' 5 ''a.org'' (Some ''all'') empty_admin = (Inr d, s)" "faults s = []"
    using valid_domain_sample(1)
    by (simp add: create_domain_def insert_domain_def op_bind_def op_result_def empty_admin_def Let_def tbl_insert_def)
  have ok: "admin_ok (tables empty_admin)" by (simp add: admin_ok_def empty_admin_def)
  have "to_ascii_lowercase ''A.org'' = to_ascii_lowercase ''a.org''"
    by (simp add: to_ascii_lowercase_def ascii_lower_def char_of_def bit_Suc_0_iff)
  from hosted_domain_lookup [OF ok c this, of "''u''" 6 None] c show ?thesis by blast
qed

section \<open>Migration\<close>

text \<open>What the backfill does to one row: only the token may change, and only where it was asked to.\<close>

definition token_filled :: "int set \<Rightarrow> domain_row \<Rightarrow> domain_row \<Rightarrow> bool" where
  "token_filled ids r0 r \<longleftrightarrow> r = r0\<lparr>dw_token := dw_token r\<rparr> \<and> (dw_id r0 \<in> ids \<longrightarrow> dw_token r \<noteq> None) \<and>
     (dw_id r0 \<notin> ids \<longrightarrow> dw_token r = dw_token r0)"

lemma backfill_tokens_run:
  assumes "faults d = []"
  shows "\<exists>rows. backfill_tokens hex rnd k is d = (Inr (), d\<lparr>tables := (tables d)\<lparr>domains := rows\<rparr>\<rparr>) \<and>
    list_all2 (token_filled (set is)) (domains (tables d)) rows"
  using assms
proof (induction "is" arbitrary: d k)
  case Nil
  show ?case
    by (intro exI [of _ "domains (tables d)"]) (simp add: token_filled_def list.rel_refl_strong)
next
  case (Cons i "is")
  define mid where "mid = update_where (\<lambda>r. dw_id r = i) (\<lambda>r. r\<lparr>dw_token := Some (generate_verification_token hex (rnd k))\<rparr>) (domains (tables d))"
  let ?d = "d\<lparr>tables := (tables d)\<lparr>domains := mid\<rparr>\<rparr>"
  have "update_domain i (\<lambda>r. r\<lparr>dw_token := Some (generate_verification_token hex (rnd k))\<rparr>) d = (Inr (), ?d)"
    using Cons.prems by (simp add: update_domain_def mid_def)
  moreover obtain rows where "backfill_tokens hex rnd (Suc k) is ?d = (Inr (), ?d\<lparr>tables := (tables ?d)\<lparr>domains := rows\<rparr>\<rparr>)"
    and rel: "list_all2 (token_filled (set is)) mid rows" using Cons.IH [of ?d "Suc k"] Cons.prems by auto
  moreover have "list_all2 (token_filled (set (i # is))) (domains (tables d)) rows"
    using rel unfolding mid_def update_where_def list.rel_map
    by (rule list_all2_mono) (auto simp: token_filled_def split: if_splits)
  ultimately show ?case by (intro exI [of _ rows]) (simp add: op_bind_def)
qed

lemma add_column_no_faults:
  assumes "faults d = []" and "c \<in> set (cols (tables d)) \<longrightarrow> c \<in> set existing"
  shows "add_column cols upd existing c d =
    (Inr (), if c \<in> set existing then d else d\<lparr>tables := upd (\<lambda>cs. cs @ [c]) (tables d)\<rparr>)"
  using assms by (auto simp: add_column_def)

lemma collect_rows_ok: "list_all (\<lambda>r. f r = Inr (g r)) rows \<Longrightarrow> collect_rows f rows = Inr (map g rows)"
  by (induction rows) auto

lemma migrate_domains_run:
  assumes "faults d = []"
  shows "\<exists>rows cols. migrate_domains_columns hex rnd d = (Inr (), d\<lparr>tables := (tables d)\<lparr>domains := rows, domain_columns := cols\<rparr>\<rparr>) \<and>
    set cols = set (domain_columns (tables d)) \<union> {''verification_token'', ''verified_at''} \<and>
    list_all2 (token_filled (dw_id ` set (filter (\<lambda>r. dw_token r = None) (domains (tables d))))) (domains (tables d)) rows"
proof -
  let ?e = "domain_columns (tables d)"
  define cols where "cols = ?e @ (if ''verification_token'' \<in> set ?e then [] else [''verification_token'']) @
    (if ''verified_at'' \<in> set ?e then [] else [''verified_at''])"
  let ?d = "d\<lparr>tables := (tables d)\<lparr>domain_columns := cols\<rparr>\<rparr>"
  let ?ids = "map dw_id (filter (\<lambda>r. dw_token r = None) (domains (tables d)))"
  obtain rows where rows: "backfill_tokens hex rnd 0 ?ids ?d = (Inr (), ?d\<lparr>tables := (tables ?d)\<lparr>domains := rows\<rparr>\<rparr>)"
    "list_all2 (token_filled (set ?ids)) (domains (tables ?d)) rows"
    using backfill_tokens_run [of ?d hex rnd 0 ?ids] assms by auto
  have "op_bind (add_column domain_columns domain_columns_update ?e ''verification_token'') (\<lambda>_.
     add_column domain_columns domain_columns_update ?e ''verified_at'') d = (Inr (), ?d)"
    using assms by (simp add: op_bind_def add_column_no_faults cols_def)
  then obtain d1 where "add_column domain_columns domain_columns_update ?e ''verification_token'' d = (Inr (), d1)"
    "add_column domain_columns domain_columns_update ?e ''verified_at'' d1 = (Inr (), ?d)"
    by (auto simp: op_bind_Inr)
  with rows(1) assms have "migrate_domains_columns hex rnd d = (Inr (), ?d\<lparr>tables := (tables ?d)\<lparr>domains := rows\<rparr>\<rparr>)"
    by (simp add: migrate_domains_columns_def op_bind_def)
  moreover have "set cols = set ?e \<union> {''verification_token'', ''verified_at''}" by (auto simp: cols_def)
  ultimately show ?thesis using rows(2) by (intro exI [of _ rows] exI [of _ cols]) simp
qed

lemma migrate_domains_done:
  assumes "faults d = []" and "{''verification_token'', ''verified_at''} \<subseteq> set (domain_columns (tables d))"
    and "list_all (\<lambda>r. dw_token r \<noteq> None) (domains (tables d))"
  shows "migrate_domains_columns hex rnd d = (Inr (), d)"
proof -
  have "filter (\<lambda>r. dw_token r = None) (domains (tables d)) = []" using assms(3) by (auto simp: filter_empty_conv list_all_iff)
  with assms(1,2) show ?thesis by (simp add: migrate_domains_columns_def op_bind_def add_column_no_faults)
qed

text \<open>opening a database of any earlier release gives every domain a verification token and changes nothing
  else: tokens that were there stay, so do the names and catch-alls, all domains can be listed afterwards, and
  opening the database again changes nothing.\<close>

theorem migration_repairs_domains:
  assumes "faults d = []" and "distinct (map dw_id (domains (tables d)))"
  shows "\<exists>d'. migrate_domains_columns hex rnd d = (Inr (), d') \<and> admins (tables d') = admins (tables d) \<and>
    list_all2 (\<lambda>r0 r. r = r0\<lparr>dw_token := dw_token r\<rparr> \<and> dw_token r \<noteq> None \<and> (dw_token r0 \<noteq> None \<longrightarrow> dw_token r = dw_token r0))
      (domains (tables d)) (domains (tables d')) \<and>
    (\<exists>ds. list_domains d' = (Inr ds, d') \<and> length ds = length (domains (tables d))) \<and>
    migrate_domains_columns hex' rnd' d' = (Inr (), d')"
proof -
  obtain rows cols where run: "migrate_domains_columns hex rnd d = (Inr (), d\<lparr>tables := (tables d)\<lparr>domains := rows, domain_columns := cols\<rparr>\<rparr>)"
    and cols: "set cols = set (domain_columns (tables d)) \<union> {''verification_token'', ''verified_at''}"
    and rel: "list_all2 (token_filled (dw_id ` set (filter (\<lambda>r. dw_token r = None) (domains (tables d))))) (domains (tables d)) rows"
    using migrate_domains_run [OF assms(1)] by blast
  let ?d = "d\<lparr>tables := (tables d)\<lparr>domains := rows, domain_columns := cols\<rparr>\<rparr>"
  have mono: "r = r0\<lparr>dw_token := dw_token r\<rparr> \<and> dw_token r \<noteq> None \<and> (dw_token r0 \<noteq> None \<longrightarrow> dw_token r = dw_token r0)"
    if "token_filled (dw_id ` set (filter (\<lambda>r. dw_token r = None) (domains (tables d)))) r0 r" "r0 \<in> set (domains (tables d))" for r0 r
  proof (cases "dw_token r0 = None")
    case False
    then have "dw_id r0 \<notin> dw_id ` set (filter (\<lambda>r. dw_token r = None) (domains (tables d)))"
      using that(2) assms(2) by (auto simp: distinct_map dest!: inj_onD [of dw_id])
    with that(1) False show ?thesis unfolding token_filled_def by force
  qed (use that in \<open>auto simp: token_filled_def\<close>)
  have rel': "list_all2 (\<lambda>r0 r. r = r0\<lparr>dw_token := dw_token r\<rparr> \<and> dw_token r \<noteq> None \<and> (dw_token r0 \<noteq> None \<longrightarrow> dw_token r = dw_token r0))
      (domains (tables d)) rows"
    using rel by (rule list.rel_mono_strong) (rule mono)
  then have tok: "list_all (\<lambda>r. dw_token r \<noteq> None) rows"
    by (auto simp: list_all2_conv_all_nth list_all_length)
  have "collect_rows row_to_domain (sort_key (\<lambda>r. bytes_key (dw_name r)) rows) =
      Inr (map domain_of (sort_key (\<lambda>r. bytes_key (dw_name r)) rows))"
    by (rule collect_rows_ok) (use tok in \<open>auto simp: list_all_iff intro!: row_to_domain_ok\<close>)
  moreover have "migrate_domains_columns hex' rnd' ?d = (Inr (), ?d)"
    by (rule migrate_domains_done) (use assms(1) cols tok in simp_all)
  ultimately show ?thesis using run rel' assms(1) list_all2_lengthD [OF rel']
    by (intro exI [of _ ?d]) (simp add: list_domains_def)
qed

definition old_admin :: admin_db where
  "old_admin = \<lparr>tables = \<lparr>admins = [], domains =
     [\<lparr>dw_id = 1, dw_name = ''b.org'', dw_catch_all = None, dw_token = None, dw_verified_at = None, dw_created_at = 0\<rparr>,
      \<lparr>dw_id = 2, dw_name = ''a.org'', dw_catch_all = None, dw_token = Some ''t'', dw_verified_at = None, dw_created_at = 0\<rparr>],
     admin_columns = [], domain_columns = [''id'']\<rparr>, faults = []\<rparr>"

theorem migration_repairs_domains_witness:
  "\<not> is_ok (fst (list_domains old_admin)) \<and>
   (\<exists>d ds. migrate_domains_columns hex_sample (\<lambda>_. ''new'') old_admin = (Inr (), d) \<and> list_domains d = (Inr ds, d) \<and>
      length ds = 2)"
proof -
  have "\<not> is_ok (fst (list_domains old_admin))"
    by (simp add: list_domains_def old_admin_def bytes_key_def row_to_domain_def)
  moreover have old: "faults old_admin = []" "distinct (map dw_id (domains (tables old_admin)))" "length (domains (tables old_admin)) = 2"
    by (simp_all add: old_admin_def)
  ultimately show ?thesis
    using migration_repairs_domains [OF old(1,2), of hex_sample "\<lambda>_. ''new''" hex_sample "\<lambda>_. []"] old(3) by auto
qed

end
