(* ===== verification/Admin_Session.thy ===== *)
theory Admin_Session
  imports Litterae_Prelude
begin

text \<open>
  Second-factor codes and session tokens of the administrators (\<open>admin/src/mfa.rs\<close>, \<open>admin/src/session.rs\<close>).

  TOTP, SHA-256 and hexadecimal encoding come from crates and are fields of \<open>mfa_lib\<close>; \<open>TOTP::new\<close> refuses some
  arguments, which \<open>totp_for\<close> turns into a panic. Instants are natural numbers; a session that has been idle for
  longer than the timeout is dropped by the next call that touches it.
\<close>

section \<open>Codes\<close>

record mfa_lib =
  totp_accepts :: "bytes \<Rightarrow> string \<Rightarrow> string \<Rightarrow> bool"
  totp_check :: "bytes \<Rightarrow> string \<Rightarrow> bool option"
  totp_url :: "bytes \<Rightarrow> string \<Rightarrow> string \<Rightarrow> string"
  totp_base32 :: "bytes \<Rightarrow> string"
  sha256 :: "bytes \<Rightarrow> bytes"
  hex_encode :: "bytes \<Rightarrow> string"

definition RECOVERY_CODE_COUNT :: nat where "RECOVERY_CODE_COUNT = 8"

definition totp_for :: "mfa_lib \<Rightarrow> bytes \<Rightarrow> string \<Rightarrow> string \<Rightarrow> bytes pan" where
  "totp_for M secret issuer username = (if totp_accepts M secret issuer username then Returned secret else Panicked)"

definition provisioning_uri :: "mfa_lib \<Rightarrow> bytes \<Rightarrow> string \<Rightarrow> string \<Rightarrow> string pan" where
  "provisioning_uri M secret issuer username =
     pan_bind (totp_for M secret issuer username) (\<lambda>t. Returned (totp_url M t issuer username))"

definition secret_base32 :: "mfa_lib \<Rightarrow> bytes \<Rightarrow> string \<Rightarrow> string \<Rightarrow> string pan" where
  "secret_base32 M secret issuer username =
     pan_bind (totp_for M secret issuer username) (\<lambda>t. Returned (totp_base32 M t))"

definition check_code :: "mfa_lib \<Rightarrow> bytes \<Rightarrow> string \<Rightarrow> string \<Rightarrow> string \<Rightarrow> bool pan" where
  "check_code M secret issuer username code =
     pan_bind (totp_for M secret issuer username) (\<lambda>t.
       Returned (case totp_check M t code of Some b \<Rightarrow> b | None \<Rightarrow> False))"

definition hash_recovery_code :: "mfa_lib \<Rightarrow> string \<Rightarrow> string" where
  "hash_recovery_code M code = hex_encode M (sha256 M code)"

definition generate_recovery_codes :: "mfa_lib \<Rightarrow> (nat \<Rightarrow> bytes) \<Rightarrow> string list \<times> string list" where
  "generate_recovery_codes M raw =
     (let plaintext = map (\<lambda>k. hex_encode M (raw k)) [0..<RECOVERY_CODE_COUNT]
      in (plaintext, map (hash_recovery_code M) plaintext))"

fun position :: "('a \<Rightarrow> bool) \<Rightarrow> 'a list \<Rightarrow> nat option" where
  "position p [] = None"
| "position p (x # xs) = (if p x then Some 0 else map_option Suc (position p xs))"

definition match_recovery_code :: "mfa_lib \<Rightarrow> string \<Rightarrow> string list \<Rightarrow> nat option" where
  "match_recovery_code M candidate hashed =
     (let candidate_hash = hash_recovery_code M candidate in position (\<lambda>stored. stored = candidate_hash) hashed)"

text \<open>\<open>Vec::remove\<close> of a valid index.\<close>

definition vec_remove :: "nat \<Rightarrow> 'a list \<Rightarrow> 'a list" where
  "vec_remove i xs = take i xs @ drop (Suc i) xs"

lemma position_Some: "position p xs = Some i \<longleftrightarrow> i < length xs \<and> p (xs ! i) \<and> (\<forall>j < i. \<not> p (xs ! j))"
proof (induction xs arbitrary: i)
  case (Cons x xs)
  show ?case by (cases i) (auto simp: Cons.IH less_Suc_eq_0_disj)
qed simp

lemma position_None: "position p xs = None \<longleftrightarrow> list_all (\<lambda>x. \<not> p x) xs"
  by (induction xs) auto

lemma vec_remove_count:
  assumes "position (\<lambda>x. x = a) xs = Some i"
  shows "count_list (vec_remove i xs) b = (if b = a then count_list xs a - 1 else count_list xs b)" and "0 < count_list xs a"
proof -
  have i: "i < length xs" "xs ! i = a" using assms by (auto simp: position_Some)
  then have xs: "xs = take i xs @ a # drop (Suc i) xs" by (metis id_take_nth_drop)
  show "count_list (vec_remove i xs) b = (if b = a then count_list xs a - 1 else count_list xs b)"
    unfolding vec_remove_def by (subst (3 4) xs) simp
  show "0 < count_list xs a" by (subst xs) simp
qed

section \<open>Sessions\<close>

record admin_session =
  as_admin_id :: int
  as_wrap_key :: bytes
  as_must_change :: bool
  as_mfa_pending :: bool
  as_last_seen :: nat

record session_registry =
  sessions :: "string \<rightharpoonup> admin_session"
  idle_timeout :: nat

definition registry_new :: "nat \<Rightarrow> session_registry" where
  "registry_new idle = \<lparr>sessions = Map.empty, idle_timeout = idle\<rparr>"

definition session_create ::
    "(bytes \<Rightarrow> string) \<Rightarrow> bytes \<Rightarrow> nat \<Rightarrow> int \<Rightarrow> bytes \<Rightarrow> bool \<Rightarrow> bool \<Rightarrow> session_registry \<Rightarrow> string \<times> session_registry" where
  "session_create hex rnd now admin wrap must_change pending reg =
     (let token = hex rnd in
      (token, reg\<lparr>sessions := (sessions reg)(token \<mapsto>
         \<lparr>as_admin_id = admin, as_wrap_key = wrap, as_must_change = must_change, as_mfa_pending = pending,
          as_last_seen = now\<rparr>)\<rparr>))"

definition touch :: "nat \<Rightarrow> string \<Rightarrow> session_registry \<Rightarrow> admin_session option \<times> session_registry" where
  "touch now token reg =
     (case sessions reg token of
        None \<Rightarrow> (None, reg)
      | Some s \<Rightarrow>
          if idle_timeout reg < now - as_last_seen s
          then (None, reg\<lparr>sessions := (sessions reg)(token := None)\<rparr>)
          else let s' = s\<lparr>as_last_seen := now\<rparr> in (Some s', reg\<lparr>sessions := (sessions reg)(token \<mapsto> s')\<rparr>))"

definition session_admin_id :: "nat \<Rightarrow> string \<Rightarrow> session_registry \<Rightarrow> int option \<times> session_registry" where
  "session_admin_id now token reg = (let (s, reg') = touch now token reg in (map_option as_admin_id s, reg'))"

definition session_wrap_key :: "nat \<Rightarrow> string \<Rightarrow> session_registry \<Rightarrow> bytes option \<times> session_registry" where
  "session_wrap_key now token reg = (let (s, reg') = touch now token reg in (map_option as_wrap_key s, reg'))"

definition password_change_required :: "nat \<Rightarrow> string \<Rightarrow> session_registry \<Rightarrow> bool option \<times> session_registry" where
  "password_change_required now token reg = (let (s, reg') = touch now token reg in (map_option as_must_change s, reg'))"

definition mfa_pending :: "nat \<Rightarrow> string \<Rightarrow> session_registry \<Rightarrow> bool option \<times> session_registry" where
  "mfa_pending now token reg = (let (s, reg') = touch now token reg in (map_option as_mfa_pending s, reg'))"

definition complete_password_change :: "nat \<Rightarrow> string \<Rightarrow> int \<Rightarrow> bytes \<Rightarrow> session_registry \<Rightarrow> bool \<times> session_registry" where
  "complete_password_change now token admin new_wrap_key reg =
     (case sessions reg token of
        None \<Rightarrow> (False, reg)
      | Some s \<Rightarrow>
          if as_admin_id s \<noteq> admin then (False, reg)
          else (True, reg\<lparr>sessions := (\<lambda>candidate. if candidate = token
                 then Some (s\<lparr>as_wrap_key := new_wrap_key, as_must_change := False, as_last_seen := now\<rparr>) else None)\<rparr>))"

definition complete_mfa :: "nat \<Rightarrow> string \<Rightarrow> int \<Rightarrow> session_registry \<Rightarrow> bool \<times> session_registry" where
  "complete_mfa now token admin reg =
     (case sessions reg token of
        None \<Rightarrow> (False, reg)
      | Some s \<Rightarrow>
          if as_admin_id s \<noteq> admin then (False, reg)
          else (True, reg\<lparr>sessions := (sessions reg)(token \<mapsto> s\<lparr>as_mfa_pending := False, as_last_seen := now\<rparr>)\<rparr>))"

definition session_remove :: "string \<Rightarrow> session_registry \<Rightarrow> session_registry" where
  "session_remove token reg = reg\<lparr>sessions := (sessions reg)(token := None)\<rparr>"

section \<open>Live sessions\<close>

text \<open>The session a token stands for at an instant.\<close>

definition live_session :: "nat \<Rightarrow> string \<Rightarrow> session_registry \<Rightarrow> admin_session option" where
  "live_session now token reg =
     (case sessions reg token of
        Some s \<Rightarrow> if now - as_last_seen s \<le> idle_timeout reg then Some s else None
      | None \<Rightarrow> None)"

definition touched :: "nat \<Rightarrow> string \<Rightarrow> session_registry \<Rightarrow> session_registry" where
  "touched now token reg = snd (touch now token reg)"

lemma touch_live:
  "touch now token reg = (map_option (\<lambda>s. s\<lparr>as_last_seen := now\<rparr>) (live_session now token reg), touched now token reg)"
  by (auto simp: touched_def touch_def live_session_def Let_def split: option.splits)

lemma live_touched [simp]:
  "live_session now token (touched now token reg) =
     map_option (\<lambda>s. s\<lparr>as_last_seen := now\<rparr>) (live_session now token reg)"
  by (auto simp: touched_def touch_def live_session_def Let_def split: option.splits)

lemma touched_touched [simp]: "touched now token (touched now token reg) = touched now token reg"
  by (auto simp: touched_def touch_def Let_def split: option.splits)

lemma touched_session:
  "sessions (touched now token reg) token = map_option (\<lambda>s. s\<lparr>as_last_seen := now\<rparr>) (live_session now token reg)"
  by (auto simp: touched_def touch_def live_session_def Let_def split: option.splits)

lemma touched_other [simp]: "other \<noteq> token \<Longrightarrow> sessions (touched now token reg) other = sessions reg other"
  by (auto simp: touched_def touch_def Let_def split: option.splits)

lemma touched_idle [simp]: "idle_timeout (touched now token reg) = idle_timeout reg"
  by (auto simp: touched_def touch_def Let_def split: option.splits)

lemma registry_reads:
  "session_admin_id now token reg = (map_option as_admin_id (live_session now token reg), touched now token reg)"
  "session_wrap_key now token reg = (map_option as_wrap_key (live_session now token reg), touched now token reg)"
  "password_change_required now token reg = (map_option as_must_change (live_session now token reg), touched now token reg)"
  "mfa_pending now token reg = (map_option as_mfa_pending (live_session now token reg), touched now token reg)"
  by (simp_all add: session_admin_id_def session_wrap_key_def password_change_required_def mfa_pending_def touch_live
      option.map_comp comp_def)

lemma complete_password_change_True:
  assumes "complete_password_change now token admin key reg = (True, reg')"
  shows "\<exists>sess'. sessions reg' = [token \<mapsto> sess'] \<and> as_wrap_key sess' = key \<and> as_admin_id sess' = admin"
  using assms by (auto simp: complete_password_change_def fun_eq_iff split: option.splits if_splits)

end
