(* ===== verification/Admin_Api.thy ===== *)
theory Admin_Api
  imports Admin_Store Admin_Session Audit_Log Login_Throttle
begin

text \<open>
  The administration API (\<open>admin/src/handlers.rs\<close>, routes of \<open>admin/src/router.rs\<close>) over the administrator, account
  and audit stores, the session registry and the login throttle, and the creation of the first administrator at
  start-up (\<open>server/src/main.rs\<close>).

  A handler runs at one instant, against the whole application state; its randomness and the answers of the
  libraries are fields of \<open>admin_env\<close>. The request carries the text of its \<open>Authorization\<close> header, if there is one
  and it is visible ASCII. A handler answers with a status or a body, or panics; every effect it had before is
  kept. \<open>domain_dkim\<close>, \<open>queue_status\<close> and \<open>logs\<close> belong to other components and are left out.
\<close>

section \<open>State and sequencing\<close>

datatype status_code =
    UNAUTHORIZED | FORBIDDEN | TOO_MANY_REQUESTS | INTERNAL_SERVER_ERROR
  | UNPROCESSABLE_ENTITY | CONFLICT | BAD_REQUEST | NOT_FOUND

record admin_env =
  ev_crypto :: crypto_lib
  ev_mfa :: mfa_lib
  ev_json :: "string list \<Rightarrow> string"
  ev_unjson :: "string \<Rightarrow> string list option"
  ev_txt :: "string \<Rightarrow> string list"
  ev_argon2 :: argon2_config
  ev_server_domain :: string
  ev_now :: nat
  ev_unix :: int
  ev_random :: bytes
  ev_random2 :: bytes
  ev_log_random :: bytes
  ev_raw_codes :: "nat \<Rightarrow> bytes"
  ev_salt :: bytes
  ev_provision :: provision_random

record app_state =
  st_admin :: admin_db
  st_auth :: auth_db
  st_audit :: audit_db
  st_sessions :: session_registry
  st_throttle :: login_throttle

type_synonym 'a handler = "app_state \<Rightarrow> (status_code + 'a) pan \<times> app_state"

definition h_return :: "'a \<Rightarrow> 'a handler" where
  "h_return a s = (Returned (Inr a), s)"

definition h_fail :: "status_code \<Rightarrow> 'a handler" where
  "h_fail c s = (Returned (Inl c), s)"

definition h_bind :: "'a handler \<Rightarrow> ('a \<Rightarrow> 'b handler) \<Rightarrow> 'b handler" where
  "h_bind m f s =
     (case m s of
        (Panicked, s') \<Rightarrow> (Panicked, s')
      | (Returned (Inl c), s') \<Rightarrow> (Returned (Inl c), s')
      | (Returned (Inr a), s') \<Rightarrow> f a s')"

definition h_some :: "status_code \<Rightarrow> 'a option \<Rightarrow> 'a handler" where
  "h_some c x = (case x of None \<Rightarrow> h_fail c | Some a \<Rightarrow> h_return a)"

definition h_pan :: "'a pan \<Rightarrow> 'a handler" where
  "h_pan p s = (case p of Panicked \<Rightarrow> (Panicked, s) | Returned a \<Rightarrow> (Returned (Inr a), s))"

definition h_sessions :: "(session_registry \<Rightarrow> 'a \<times> session_registry) \<Rightarrow> 'a handler" where
  "h_sessions f s = (let (a, reg) = f (st_sessions s) in (Returned (Inr a), s\<lparr>st_sessions := reg\<rparr>))"

definition h_throttle :: "(login_throttle \<Rightarrow> login_throttle) \<Rightarrow> unit handler" where
  "h_throttle f s = (Returned (Inr ()), s\<lparr>st_throttle := f (st_throttle s)\<rparr>)"

fun map_status :: "status_code \<Rightarrow> 'a result \<Rightarrow> status_code + 'a" where
  "map_status c (Inl e) = Inl c"
| "map_status c (Inr a) = Inr a"

fun pan_status :: "status_code \<Rightarrow> 'a result pan \<Rightarrow> (status_code + 'a) pan" where
  "pan_status c Panicked = Panicked"
| "pan_status c (Returned r) = Returned (map_status c r)"

definition h_admin :: "status_code \<Rightarrow> ('a, admin_db) proc \<Rightarrow> 'a handler" where
  "h_admin c f s = (let (r, d) = f (st_admin s) in (pan_status c r, s\<lparr>st_admin := d\<rparr>))"

definition h_auth :: "status_code \<Rightarrow> ('a, auth_db) proc \<Rightarrow> 'a handler" where
  "h_auth c f s = (let (r, d) = f (st_auth s) in (pan_status c r, s\<lparr>st_auth := d\<rparr>))"

definition h_audit :: "status_code \<Rightarrow> ('a, audit_db) proc \<Rightarrow> 'a handler" where
  "h_audit c f s = (let (r, d) = f (st_audit s) in (pan_status c r, s\<lparr>st_audit := d\<rparr>))"

text \<open>\<open>let _ = state.audit_store.log(action, detail)\<close>: its error is dropped.\<close>

definition h_log :: "admin_env \<Rightarrow> string \<Rightarrow> string \<Rightarrow> unit handler" where
  "h_log ev action detail s =
     (case log_entry (ev_crypto ev) (ev_log_random ev) (ev_unix ev) action detail (st_audit s) of
        (Panicked, d) \<Rightarrow> (Panicked, s\<lparr>st_audit := d\<rparr>)
      | (Returned r, d) \<Rightarrow> (Returned (Inr ()), s\<lparr>st_audit := d\<rparr>))"

section \<open>Authentication\<close>

definition bearer_token :: "string option \<Rightarrow> string option" where
  "bearer_token header = Option.bind header (strip_prefix ''Bearer '')"

definition require_admin :: "admin_env \<Rightarrow> string option \<Rightarrow> int handler" where
  "require_admin ev header =
     h_bind (h_some UNAUTHORIZED (bearer_token header)) (\<lambda>token.
     h_bind (h_sessions (session_admin_id (ev_now ev) token)) (\<lambda>found.
     h_bind (h_some UNAUTHORIZED found) (\<lambda>admin.
     h_bind (h_sessions (mfa_pending (ev_now ev) token)) (\<lambda>pending.
       if pending \<noteq> Some False then h_fail FORBIDDEN
       else h_bind (h_sessions (password_change_required (ev_now ev) token)) (\<lambda>required.
         if required \<noteq> Some False then h_fail FORBIDDEN
         else h_return admin)))))"

datatype admin_response =
    RStatus bool int int
  | RLogin string bool bool
  | RNoContent
  | RMfaVerify bool
  | RMfaEnroll string string
  | RRecoveryCodes "string list"
  | RDomain domain bool
  | RDomains "(domain \<times> bool) list"
  | RVerifyDomain bool string string
  | RAccount int string int
  | RAccounts "(int \<times> string \<times> int) list"
  | RAudit "audit_entry list"

definition status_handler :: "admin_response handler" where
  "status_handler =
     h_bind (h_admin INTERNAL_SERVER_ERROR (lift_op has_admin)) (\<lambda>has.
     h_bind (h_admin INTERNAL_SERVER_ERROR (lift_op list_domains)) (\<lambda>ds.
     h_bind (h_auth INTERNAL_SERVER_ERROR list_accounts) (\<lambda>as.
     h_return (RStatus has (int (length ds)) (int (length as))))))"

definition login_handler :: "admin_env \<Rightarrow> string \<Rightarrow> string \<Rightarrow> admin_response handler" where
  "login_handler ev username password s =
     (case throttle_check (ev_now ev) username (st_throttle s) of
        Inl _ \<Rightarrow> h_fail TOO_MANY_REQUESTS s
      | Inr _ \<Rightarrow>
          h_bind (h_admin INTERNAL_SERVER_ERROR (lift_op (verify_login (ev_crypto ev) username password (ev_argon2 ev)))) (\<lambda>outcome.
            case outcome of
              None \<Rightarrow>
                h_bind (h_throttle (record_failure (ev_now ev) (ev_now ev) username)) (\<lambda>_.
                h_bind (h_log ev ''auth.login_failed'' username) (\<lambda>_.
                h_fail UNAUTHORIZED))
            | Some (a, wrap_key) \<Rightarrow>
                h_bind (h_throttle (record_success username)) (\<lambda>_.
                h_bind (h_sessions (session_create (hex_encode (ev_mfa ev)) (ev_random ev) (ev_now ev) (adm_id a) wrap_key
                         (adm_must_change a) (adm_totp_enabled a))) (\<lambda>token.
                h_bind (h_log ev ''auth.login'' (adm_username a)) (\<lambda>_.
                h_return (RLogin token (adm_must_change a) (adm_totp_enabled a)))))) s)"

definition logout_handler :: "admin_env \<Rightarrow> string option \<Rightarrow> admin_response handler" where
  "logout_handler ev header =
     (case bearer_token header of
        None \<Rightarrow> h_return RNoContent
      | Some token \<Rightarrow>
          h_bind (h_sessions (session_admin_id (ev_now ev) token)) (\<lambda>found.
          h_bind (case found of
                    Some admin \<Rightarrow> h_log ev ''session.close'' (show_int admin)
                  | None \<Rightarrow> h_return ()) (\<lambda>_.
          h_bind (h_sessions (\<lambda>reg. ((), session_remove token reg))) (\<lambda>_.
          h_return RNoContent))))"

definition rekey ::
    "admin_env \<Rightarrow> int \<Rightarrow> string \<Rightarrow> string \<Rightarrow> string \<Rightarrow> admin_db \<Rightarrow> (bytes \<times> bytes) option result \<times> admin_db" where
  "rekey ev admin username current new =
     op_bind (verify_login (ev_crypto ev) username current (ev_argon2 ev)) (\<lambda>outcome.
       case outcome of
         None \<Rightarrow> op_result (Inr None)
       | Some (_, old_wrap_key) \<Rightarrow>
           op_bind (change_password (ev_crypto ev) (ev_salt ev) admin new (ev_argon2 ev)) (\<lambda>new_wrap_key.
           op_result (Inr (Some (old_wrap_key, new_wrap_key)))))"

definition adopt_wrap_key :: "admin_env \<Rightarrow> string \<Rightarrow> int \<Rightarrow> string \<Rightarrow> bytes \<times> bytes \<Rightarrow> admin_response handler" where
  "adopt_wrap_key ev token admin username =
     (\<lambda>(old_wrap_key, new_wrap_key).
        h_bind (h_audit INTERNAL_SERVER_ERROR (rewrap_audit_key (ev_crypto ev) (ev_random ev) old_wrap_key new_wrap_key)) (\<lambda>_.
        h_bind (h_admin INTERNAL_SERVER_ERROR (rewrap_totp_secret (ev_crypto ev) (ev_random2 ev) admin old_wrap_key new_wrap_key)) (\<lambda>_.
        h_bind (h_sessions (complete_password_change (ev_now ev) token admin new_wrap_key)) (\<lambda>completed.
        if \<not> completed then h_fail UNAUTHORIZED
        else h_bind (h_log ev ''admin.password_change'' username) (\<lambda>_. h_return RNoContent)))))"

definition apply_password_change :: "admin_env \<Rightarrow> string \<Rightarrow> int \<Rightarrow> string \<Rightarrow> string \<Rightarrow> admin_response handler" where
  "apply_password_change ev token admin current new =
     h_bind (h_admin INTERNAL_SERVER_ERROR (lift_op (username_for_id admin))) (\<lambda>name.
     h_bind (h_some UNAUTHORIZED name) (\<lambda>username.
     h_bind (h_admin INTERNAL_SERVER_ERROR (lift_op (rekey ev admin username current new))) (\<lambda>keys.
     h_bind (h_some UNAUTHORIZED keys) (adopt_wrap_key ev token admin username))))"

definition change_password_handler :: "admin_env \<Rightarrow> string option \<Rightarrow> string \<Rightarrow> string \<Rightarrow> admin_response handler" where
  "change_password_handler ev header current new =
     (if length new < 12 then h_fail UNPROCESSABLE_ENTITY
      else
        h_bind (h_some UNAUTHORIZED (bearer_token header)) (\<lambda>token.
        h_bind (h_sessions (session_admin_id (ev_now ev) token)) (\<lambda>found.
        h_bind (h_some UNAUTHORIZED found) (\<lambda>admin.
        h_bind (h_sessions (mfa_pending (ev_now ev) token)) (\<lambda>pending.
        if pending \<noteq> Some False then h_fail FORBIDDEN
        else apply_password_change ev token admin current new)))))"

section \<open>Second factor\<close>

definition second_factor :: "admin_env \<Rightarrow> int \<Rightarrow> bytes \<Rightarrow> string \<Rightarrow> string \<Rightarrow> (bool \<times> bool) handler" where
  "second_factor ev admin wrap_key username code =
     h_bind (h_admin INTERNAL_SERVER_ERROR (lift_op (totp_secret (ev_crypto ev) admin wrap_key))) (\<lambda>secret.
     h_bind (case secret of
               None \<Rightarrow> h_return False
             | Some sec \<Rightarrow> h_pan (check_code (ev_mfa ev) sec (ev_server_domain ev) username code)) (\<lambda>verified.
     if verified then h_return (True, False)
     else
       h_bind (h_admin INTERNAL_SERVER_ERROR (lift_op (recovery_codes (ev_unjson ev) admin))) (\<lambda>codes.
       case match_recovery_code (ev_mfa ev) code codes of
         None \<Rightarrow> h_return (False, False)
       | Some idx \<Rightarrow>
           h_bind (h_admin INTERNAL_SERVER_ERROR (lift_op (set_recovery_codes (ev_json ev) admin (vec_remove idx codes)))) (\<lambda>_.
           h_return (True, True)))))"

definition mfa_throttle_key :: "int \<Rightarrow> string" where
  "mfa_throttle_key admin = ''mfa:'' @ show_int admin"

definition finish_mfa :: "admin_env \<Rightarrow> string \<Rightarrow> int \<Rightarrow> string \<Rightarrow> string \<Rightarrow> bool \<times> bool \<Rightarrow> admin_response handler" where
  "finish_mfa ev token admin username throttle_key =
     (\<lambda>(verified, used_recovery_code).
        if \<not> verified then
          h_bind (h_throttle (record_failure (ev_now ev) (ev_now ev) throttle_key)) (\<lambda>_.
          h_bind (h_log ev ''auth.mfa_failed'' username) (\<lambda>_.
          h_fail UNAUTHORIZED))
        else
          h_bind (h_throttle (record_success throttle_key)) (\<lambda>_.
          h_bind (h_sessions (password_change_required (ev_now ev) token)) (\<lambda>required.
          h_bind (h_sessions (complete_mfa (ev_now ev) token admin)) (\<lambda>done.
          if \<not> done then h_fail UNAUTHORIZED
          else
            h_bind (h_log ev (if used_recovery_code then ''auth.mfa_recovery_used'' else ''auth.mfa_verified'') username) (\<lambda>_.
            h_return (RMfaVerify (case required of Some b \<Rightarrow> b | None \<Rightarrow> False)))))))"

definition mfa_verify_handler :: "admin_env \<Rightarrow> string option \<Rightarrow> string \<Rightarrow> admin_response handler" where
  "mfa_verify_handler ev header code =
     h_bind (h_some UNAUTHORIZED (bearer_token header)) (\<lambda>token.
     h_bind (h_sessions (session_admin_id (ev_now ev) token)) (\<lambda>found.
     h_bind (h_some UNAUTHORIZED found) (\<lambda>admin.
     h_bind (h_sessions (mfa_pending (ev_now ev) token)) (\<lambda>pending.
     if pending \<noteq> Some True then h_fail BAD_REQUEST
     else
       h_bind (h_sessions (session_wrap_key (ev_now ev) token)) (\<lambda>wrap.
       h_bind (h_some UNAUTHORIZED wrap) (\<lambda>wrap_key.
       h_bind (h_admin INTERNAL_SERVER_ERROR (lift_op (username_for_id admin))) (\<lambda>name.
       h_bind (h_some UNAUTHORIZED name) (\<lambda>username.
       let throttle_key = mfa_throttle_key admin in
       (\<lambda>s. case throttle_check (ev_now ev) throttle_key (st_throttle s) of
          Inl _ \<Rightarrow> h_fail TOO_MANY_REQUESTS s
        | Inr _ \<Rightarrow>
            h_bind (second_factor ev admin wrap_key username code) (finish_mfa ev token admin username throttle_key) s)))))))))"

text \<open>The wrap key and the name behind an admitted request, as every enrolment handler reads them.\<close>

definition session_identity :: "admin_env \<Rightarrow> string option \<Rightarrow> int \<Rightarrow> (bytes \<times> string) handler" where
  "session_identity ev header admin =
     h_bind (h_some UNAUTHORIZED (bearer_token header)) (\<lambda>token.
     h_bind (h_sessions (session_wrap_key (ev_now ev) token)) (\<lambda>wrap.
     h_bind (h_some UNAUTHORIZED wrap) (\<lambda>wrap_key.
     h_bind (h_admin INTERNAL_SERVER_ERROR (lift_op (username_for_id admin))) (\<lambda>name.
     h_bind (h_some UNAUTHORIZED name) (\<lambda>username.
     h_return (wrap_key, username))))))"

definition mfa_enroll_handler :: "admin_env \<Rightarrow> string option \<Rightarrow> admin_response handler" where
  "mfa_enroll_handler ev header =
     h_bind (require_admin ev header) (\<lambda>admin.
     h_bind (h_admin INTERNAL_SERVER_ERROR (lift_op (is_totp_enabled admin))) (\<lambda>enabled.
     if enabled then h_fail CONFLICT
     else
       h_bind (session_identity ev header admin) (\<lambda>(wrap_key, username).
       let secret = ev_random ev in
       h_bind (h_admin INTERNAL_SERVER_ERROR (set_pending_totp (ev_crypto ev) (ev_random2 ev) admin wrap_key secret)) (\<lambda>_.
       h_bind (h_pan (secret_base32 (ev_mfa ev) secret (ev_server_domain ev) username)) (\<lambda>base32.
       h_bind (h_pan (provisioning_uri (ev_mfa ev) secret (ev_server_domain ev) username)) (\<lambda>uri.
       h_bind (h_log ev ''admin.mfa_enroll_started'' username) (\<lambda>_.
       h_return (RMfaEnroll base32 uri))))))))"

definition mfa_confirm_handler :: "admin_env \<Rightarrow> string option \<Rightarrow> string \<Rightarrow> admin_response handler" where
  "mfa_confirm_handler ev header code =
     h_bind (require_admin ev header) (\<lambda>admin.
     h_bind (session_identity ev header admin) (\<lambda>(wrap_key, username).
     h_bind (h_admin INTERNAL_SERVER_ERROR (lift_op (totp_secret (ev_crypto ev) admin wrap_key))) (\<lambda>found.
     h_bind (h_some CONFLICT found) (\<lambda>secret.
     h_bind (h_pan (check_code (ev_mfa ev) secret (ev_server_domain ev) username code)) (\<lambda>correct.
     if \<not> correct then h_fail UNAUTHORIZED
     else
       let (plaintext_codes, hashed_codes) = generate_recovery_codes (ev_mfa ev) (ev_raw_codes ev) in
       h_bind (h_admin INTERNAL_SERVER_ERROR (lift_op (confirm_totp (ev_json ev) admin hashed_codes))) (\<lambda>_.
       h_bind (h_log ev ''admin.mfa_enabled'' username) (\<lambda>_.
       h_return (RRecoveryCodes plaintext_codes))))))))"

definition mfa_disable_handler :: "admin_env \<Rightarrow> string option \<Rightarrow> string \<Rightarrow> admin_response handler" where
  "mfa_disable_handler ev header password =
     h_bind (require_admin ev header) (\<lambda>admin.
     h_bind (h_admin INTERNAL_SERVER_ERROR (lift_op (username_for_id admin))) (\<lambda>name.
     h_bind (h_some UNAUTHORIZED name) (\<lambda>username.
     h_bind (h_admin INTERNAL_SERVER_ERROR (lift_op (verify_login (ev_crypto ev) username password (ev_argon2 ev)))) (\<lambda>outcome.
     if outcome = None then h_fail UNAUTHORIZED
     else
       h_bind (h_admin INTERNAL_SERVER_ERROR (lift_op (disable_totp admin))) (\<lambda>_.
       h_bind (h_log ev ''admin.mfa_disabled'' username) (\<lambda>_.
       h_return RNoContent))))))"

section \<open>Domains and accounts\<close>

definition domain_response :: "domain \<Rightarrow> domain \<times> bool" where
  "domain_response d = (d, dom_verified_at d \<noteq> None)"

definition list_domains_handler :: "admin_env \<Rightarrow> string option \<Rightarrow> admin_response handler" where
  "list_domains_handler ev header =
     h_bind (require_admin ev header) (\<lambda>_.
     h_bind (h_admin INTERNAL_SERVER_ERROR (lift_op list_domains)) (\<lambda>ds.
     h_return (RDomains (map domain_response ds))))"

fun valid_catch_all :: "string option \<Rightarrow> bool" where
  "valid_catch_all None = True"
| "valid_catch_all (Some v) = valid_local_part v"

definition create_domain_handler :: "admin_env \<Rightarrow> string option \<Rightarrow> string \<Rightarrow> string option \<Rightarrow> admin_response handler" where
  "create_domain_handler ev header name catch_all =
     h_bind (require_admin ev header) (\<lambda>_.
     if \<not> valid_domain_name name \<or> \<not> valid_catch_all catch_all then h_fail UNPROCESSABLE_ENTITY
     else
       h_bind (h_admin CONFLICT (lift_op (create_domain (hex_encode (ev_mfa ev)) (ev_random ev) (ev_unix ev) name catch_all))) (\<lambda>d.
       h_bind (h_log ev ''admin.domain_create'' (dom_name d)) (\<lambda>_.
       h_return (RDomain d (dom_verified_at d \<noteq> None)))))"

definition update_domain_handler :: "admin_env \<Rightarrow> string option \<Rightarrow> int \<Rightarrow> string option \<Rightarrow> admin_response handler" where
  "update_domain_handler ev header i catch_all =
     h_bind (require_admin ev header) (\<lambda>_.
     if \<not> valid_catch_all catch_all then h_fail UNPROCESSABLE_ENTITY
     else
       h_bind (h_admin INTERNAL_SERVER_ERROR (lift_op (set_catch_all i catch_all))) (\<lambda>_.
       h_bind (h_log ev ''admin.domain_update'' (show_int i)) (\<lambda>_.
       h_return RNoContent)))"

definition delete_domain_handler :: "admin_env \<Rightarrow> string option \<Rightarrow> int \<Rightarrow> admin_response handler" where
  "delete_domain_handler ev header i =
     h_bind (require_admin ev header) (\<lambda>_.
     h_bind (h_admin INTERNAL_SERVER_ERROR (lift_op (delete_domain i))) (\<lambda>_.
     h_bind (h_log ev ''admin.domain_delete'' (show_int i)) (\<lambda>_.
     h_return RNoContent)))"

definition VERIFICATION_LABEL :: string where "VERIFICATION_LABEL = ''_litterae-challenge''"

definition verify_domain_handler :: "admin_env \<Rightarrow> string option \<Rightarrow> int \<Rightarrow> admin_response handler" where
  "verify_domain_handler ev header i =
     h_bind (require_admin ev header) (\<lambda>_.
     h_bind (h_admin INTERNAL_SERVER_ERROR (lift_op (get_domain i))) (\<lambda>found.
     h_bind (h_some NOT_FOUND found) (\<lambda>d.
     let record_name = VERIFICATION_LABEL @ ''.'' @ dom_name d;
         expected = ''litterae-verify='' @ dom_token d;
         verified = list_ex (\<lambda>r. trim r = expected) (ev_txt ev record_name)
     in
     h_bind (if verified then
               h_bind (h_admin INTERNAL_SERVER_ERROR (lift_op (mark_domain_verified i (ev_unix ev)))) (\<lambda>_.
               h_log ev ''admin.domain_verified'' (dom_name d))
             else h_return ()) (\<lambda>_.
     h_return (RVerifyDomain verified record_name expected)))))"

definition list_accounts_handler :: "admin_env \<Rightarrow> string option \<Rightarrow> admin_response handler" where
  "list_accounts_handler ev header =
     h_bind (require_admin ev header) (\<lambda>_.
     h_bind (h_auth INTERNAL_SERVER_ERROR list_accounts) (\<lambda>as.
     h_return (RAccounts (map (\<lambda>a. (acc_id a, address a, acc_created_at a)) as))))"

definition create_account_handler :: "admin_env \<Rightarrow> string option \<Rightarrow> string \<Rightarrow> string \<Rightarrow> string \<Rightarrow> admin_response handler" where
  "create_account_handler ev header local_part dn password =
     h_bind (require_admin ev header) (\<lambda>_.
     if \<not> valid_local_part local_part \<or> \<not> valid_domain_name dn \<or> length password < 12
     then h_fail UNPROCESSABLE_ENTITY
     else
       h_bind (h_admin INTERNAL_SERVER_ERROR (lift_op (get_domain_by_name dn))) (\<lambda>domain_known.
       if domain_known = None then h_fail UNPROCESSABLE_ENTITY
       else
         h_bind (h_auth CONFLICT (provision (ev_crypto ev) (ev_provision ev) (ev_unix ev) local_part dn password (ev_argon2 ev))) (\<lambda>a.
         h_bind (h_log ev ''admin.account_create'' (address a)) (\<lambda>_.
         h_return (RAccount (acc_id a) (address a) (acc_created_at a))))))"

definition delete_account_handler :: "admin_env \<Rightarrow> string option \<Rightarrow> int \<Rightarrow> admin_response handler" where
  "delete_account_handler ev header i =
     h_bind (require_admin ev header) (\<lambda>_.
     h_bind (h_auth INTERNAL_SERVER_ERROR (lift_op (delete_account i))) (\<lambda>_.
     h_bind (h_log ev ''admin.account_delete'' (show_int i)) (\<lambda>_.
     h_return RNoContent)))"

definition audit_log_handler :: "admin_env \<Rightarrow> string option \<Rightarrow> admin_response handler" where
  "audit_log_handler ev header =
     h_bind (h_some UNAUTHORIZED (bearer_token header)) (\<lambda>token.
     h_bind (h_sessions (session_admin_id (ev_now ev) token)) (\<lambda>found.
     h_bind (h_some UNAUTHORIZED found) (\<lambda>_.
     h_bind (h_sessions (session_wrap_key (ev_now ev) token)) (\<lambda>wrap.
     h_bind (h_some UNAUTHORIZED wrap) (\<lambda>wrap_key.
     h_bind (h_audit INTERNAL_SERVER_ERROR (read_recent (ev_crypto ev) wrap_key 100)) (\<lambda>entries.
     h_return (RAudit entries)))))))"

section \<open>Routes\<close>

datatype admin_request =
    ReqStatus
  | ReqLogin string string
  | ReqLogout
  | ReqChangePassword string string
  | ReqMfaVerify string
  | ReqMfaEnroll
  | ReqMfaConfirm string
  | ReqMfaDisable string
  | ReqListDomains
  | ReqCreateDomain string "string option"
  | ReqUpdateDomain int "string option"
  | ReqDeleteDomain int
  | ReqVerifyDomain int
  | ReqListAccounts
  | ReqCreateAccount string string string
  | ReqDeleteAccount int
  | ReqAuditLog

fun route :: "admin_env \<Rightarrow> string option \<Rightarrow> admin_request \<Rightarrow> admin_response handler" where
  "route ev header ReqStatus = status_handler"
| "route ev header (ReqLogin username password) = login_handler ev username password"
| "route ev header ReqLogout = logout_handler ev header"
| "route ev header (ReqChangePassword current new) = change_password_handler ev header current new"
| "route ev header (ReqMfaVerify code) = mfa_verify_handler ev header code"
| "route ev header ReqMfaEnroll = mfa_enroll_handler ev header"
| "route ev header (ReqMfaConfirm code) = mfa_confirm_handler ev header code"
| "route ev header (ReqMfaDisable password) = mfa_disable_handler ev header password"
| "route ev header ReqListDomains = list_domains_handler ev header"
| "route ev header (ReqCreateDomain name catch_all) = create_domain_handler ev header name catch_all"
| "route ev header (ReqUpdateDomain i catch_all) = update_domain_handler ev header i catch_all"
| "route ev header (ReqDeleteDomain i) = delete_domain_handler ev header i"
| "route ev header (ReqVerifyDomain i) = verify_domain_handler ev header i"
| "route ev header ReqListAccounts = list_accounts_handler ev header"
| "route ev header (ReqCreateAccount lp dn pw) = create_account_handler ev header lp dn pw"
| "route ev header (ReqDeleteAccount i) = delete_account_handler ev header i"
| "route ev header ReqAuditLog = audit_log_handler ev header"

text \<open>The requests that are meant for an administrator in full standing.\<close>

fun gated :: "admin_request \<Rightarrow> bool" where
  "gated ReqStatus = False"
| "gated (ReqLogin _ _) = False"
| "gated ReqLogout = False"
| "gated (ReqChangePassword _ _) = False"
| "gated (ReqMfaVerify _) = False"
| "gated ReqAuditLog = False"
| "gated _ = True"

section \<open>The gate\<close>

lemma h_bind_ok: "m s = (Returned (Inr a), s') \<Longrightarrow> h_bind m f s = f a s'"
  by (simp add: h_bind_def)

lemma h_bind_fail: "m s = (Returned (Inl c), s') \<Longrightarrow> h_bind m f s = (Returned (Inl c), s')"
  by (simp add: h_bind_def)

lemma h_bind_cases:
  assumes "h_bind m f s = (r, s'')"
  obtains (panic) "m s = (Panicked, s'')" "r = Panicked"
    | (fail) c where "m s = (Returned (Inl c), s'')" "r = Returned (Inl c)"
    | (step) a s' where "m s = (Returned (Inr a), s')" "f a s' = (r, s'')"
  using assms by (auto simp: h_bind_def split: prod.splits pan.splits sum.splits)

lemma h_some_simps [simp]: "h_some c None = h_fail c" "h_some c (Some a) = h_return a"
  by (simp_all add: h_some_def)

lemma h_bind_return [simp]: "h_bind (h_return a) f = f a"
  by (rule ext) (simp add: h_bind_def h_return_def)

lemma h_bind_h_fail [simp]: "h_bind (h_fail c) f = h_fail c"
  by (rule ext) (simp add: h_bind_def h_fail_def)

lemma h_bind_sessions:
  "f (st_sessions s) = (a, reg) \<Longrightarrow> h_bind (h_sessions f) g s = g a (s\<lparr>st_sessions := reg\<rparr>)"
  by (simp add: h_bind_def h_sessions_def)

lemma h_bind_admin: "f (st_admin s) = (Returned (Inr a), d) \<Longrightarrow> h_bind (h_admin c f) g s = g a (s\<lparr>st_admin := d\<rparr>)"
  by (simp add: h_bind_def h_admin_def)

lemma h_bind_audit: "f (st_audit s) = (Returned (Inr a), d) \<Longrightarrow> h_bind (h_audit c f) g s = g a (s\<lparr>st_audit := d\<rparr>)"
  by (simp add: h_bind_def h_audit_def)

lemma h_bind_audit_fail:
  "f (st_audit s) = (Returned (Inl e), d) \<Longrightarrow> h_bind (h_audit c f) g s = (Returned (Inl c), s\<lparr>st_audit := d\<rparr>)"
  by (simp add: h_bind_def h_audit_def)

lemma h_bind_log:
  "log_entry (ev_crypto ev) (ev_log_random ev) (ev_unix ev) action detail (st_audit s) = (Returned r, d) \<Longrightarrow>
     h_bind (h_log ev action detail) g s = g () (s\<lparr>st_audit := d\<rparr>)"
  by (simp add: h_bind_def h_log_def)

definition admitted :: "admin_env \<Rightarrow> string option \<Rightarrow> app_state \<Rightarrow> status_code + int" where
  "admitted ev header s =
     (case bearer_token header of
        None \<Rightarrow> Inl UNAUTHORIZED
      | Some token \<Rightarrow>
          (case live_session (ev_now ev) token (st_sessions s) of
             None \<Rightarrow> Inl UNAUTHORIZED
           | Some sess \<Rightarrow> if as_mfa_pending sess \<or> as_must_change sess then Inl FORBIDDEN else Inr (as_admin_id sess)))"

definition touch_state :: "admin_env \<Rightarrow> string option \<Rightarrow> app_state \<Rightarrow> app_state" where
  "touch_state ev header s =
     (case bearer_token header of
        None \<Rightarrow> s
      | Some token \<Rightarrow> s\<lparr>st_sessions := touched (ev_now ev) token (st_sessions s)\<rparr>)"

lemma require_admin_run: "require_admin ev header s = (Returned (admitted ev header s), touch_state ev header s)"
proof (cases "bearer_token header")
  case None
  then show ?thesis by (simp add: require_admin_def admitted_def touch_state_def h_fail_def)
next
  case (Some token)
  show ?thesis
    by (cases "live_session (ev_now ev) token (st_sessions s)")
      (auto simp: Some require_admin_def admitted_def touch_state_def h_bind_sessions [OF registry_reads(1)]
        h_bind_sessions [OF registry_reads(3)] h_bind_sessions [OF registry_reads(4)] h_fail_def h_return_def)
qed

lemma gated_requires_admin:
  "gated req \<Longrightarrow> \<exists>f. route ev header req = h_bind (require_admin ev header) f"
  by (cases req) (auto simp: mfa_enroll_handler_def mfa_confirm_handler_def mfa_disable_handler_def
      list_domains_handler_def create_domain_handler_def update_domain_handler_def delete_domain_handler_def
      verify_domain_handler_def list_accounts_handler_def create_account_handler_def delete_account_handler_def)

text \<open>C37: every modelled request that manages domains, accounts or the second factor is refused unless its token
  stands for a live session that has passed the second factor and owes no password change. Without a token the
  answer is 401 and nothing changes. With an unknown one it is 401 and nothing changes either; with the token of
  an idle session it is 401 and that session is gone; with a live session in one of the two interim states it is
  403, and of that session only the time of its last use is new. Every other session and all the rest of the
  state, the three stores and the throttle, are as they were.\<close>

theorem admin_gate:
  assumes "gated req"
    and "\<forall>token sess. bearer_token header = Some token \<longrightarrow>
      live_session (ev_now ev) token (st_sessions s) = Some sess \<longrightarrow> as_mfa_pending sess \<or> as_must_change sess"
  shows "case bearer_token header of
      None \<Rightarrow> route ev header req s = (Returned (Inl UNAUTHORIZED), s)
    | Some token \<Rightarrow>
        (case sessions (st_sessions s) token of
           None \<Rightarrow> route ev header req s = (Returned (Inl UNAUTHORIZED), s)
         | Some sess \<Rightarrow>
             if idle_timeout (st_sessions s) < ev_now ev - as_last_seen sess
             then route ev header req s = (Returned (Inl UNAUTHORIZED),
               s\<lparr>st_sessions := (st_sessions s)\<lparr>sessions := (sessions (st_sessions s))(token := None)\<rparr>\<rparr>)
             else route ev header req s = (Returned (Inl FORBIDDEN),
               s\<lparr>st_sessions := (st_sessions s)\<lparr>sessions := (sessions (st_sessions s))
                  (token \<mapsto> sess\<lparr>as_last_seen := ev_now ev\<rparr>)\<rparr>\<rparr>))"
proof -
  obtain f where f: "route ev header req = h_bind (require_admin ev header) f" using gated_requires_admin [OF assms(1)] by blast
  have gate: "route ev header req s = (Returned (Inl c), touch_state ev header s)" if "admitted ev header s = Inl c" for c
    using require_admin_run [of ev header s] that by (simp add: f h_bind_fail)
  show ?thesis
  proof (cases "bearer_token header")
    case None
    then show ?thesis using gate [of UNAUTHORIZED] by (simp add: admitted_def touch_state_def)
  next
    case (Some token)
    note live = assms(2) [rule_format, OF Some]
    show ?thesis
    proof (cases "sessions (st_sessions s) token")
      case None
      with Some show ?thesis
        using gate [of UNAUTHORIZED] by (simp add: admitted_def touch_state_def live_session_def touched_def touch_def)
    next
      case (Some sess)
      show ?thesis
        using \<open>bearer_token header = Some token\<close> Some live [of sess] gate [of UNAUTHORIZED] gate [of FORBIDDEN]
        by (cases "idle_timeout (st_sessions s) < ev_now ev - as_last_seen sess")
          (simp_all add: admitted_def touch_state_def live_session_def touched_def touch_def Let_def)
    qed
  qed
qed

text \<open>C40: the audit log does not go through that gate: a session whose second factor is still pending, or whose
  password change is still due, is answered with the decrypted entries, while every gated request of the same
  session is refused with 403.\<close>

theorem audit_log_skips_gate:
  assumes "bearer_token header = Some token" and "live_session (ev_now ev) token (st_sessions s) = Some sess"
    and "as_mfa_pending sess \<or> as_must_change sess"
    and "read_recent (ev_crypto ev) (as_wrap_key sess) 100 (st_audit s) = (Returned (Inr es), d)"
  shows "route ev header ReqAuditLog s = (Returned (Inr (RAudit es)), (touch_state ev header s)\<lparr>st_audit := d\<rparr>) \<and>
    (\<forall>req. gated req \<longrightarrow> fst (route ev header req s) = Returned (Inl FORBIDDEN))"
proof (intro conjI allI impI)
  show "route ev header ReqAuditLog s = (Returned (Inr (RAudit es)), (touch_state ev header s)\<lparr>st_audit := d\<rparr>)"
    using assms by (simp add: audit_log_handler_def h_bind_sessions [OF registry_reads(1)] h_bind_sessions [OF registry_reads(2)]
        h_bind_audit h_return_def touch_state_def)
  fix req assume "gated req"
  then obtain f where "route ev header req = h_bind (require_admin ev header) f" using gated_requires_admin by blast
  moreover have "admitted ev header s = Inl FORBIDDEN" using assms(1-3) by (simp add: admitted_def)
  ultimately show "fst (route ev header req s) = Returned (Inl FORBIDDEN)"
    using require_admin_run [of ev header s] by (simp add: h_bind_fail)
qed

section \<open>Who can clear the second factor\<close>

text \<open>Sessions that appear in the new registry, the given tokens apart, were there before with the same pending flag.\<close>

definition flags_kept :: "string set \<Rightarrow> session_registry \<Rightarrow> session_registry \<Rightarrow> bool" where
  "flags_kept X reg reg' \<longleftrightarrow> (\<forall>token sess'. token \<notin> X \<longrightarrow> sessions reg' token = Some sess' \<longrightarrow>
     (\<exists>sess. sessions reg token = Some sess \<and> as_mfa_pending sess' = as_mfa_pending sess))"

definition keeps_flags :: "string set \<Rightarrow> 'a handler \<Rightarrow> bool" where
  "keeps_flags X m \<longleftrightarrow> (\<forall>s. flags_kept X (st_sessions s) (st_sessions (snd (m s))))"

named_theorems flag_intros \<open>handlers that leave the pending flags alone\<close>

lemma flags_kept_refl [simp]: "flags_kept X reg reg"
  by (simp add: flags_kept_def)

lemma flags_kept_trans: "flags_kept X a b \<Longrightarrow> flags_kept X b c \<Longrightarrow> flags_kept X a c"
  unfolding flags_kept_def by metis

lemma touched_flags: "flags_kept X reg (touched now token reg)"
  unfolding flags_kept_def
proof (intro allI impI)
  fix t sess'
  assume "sessions (touched now token reg) t = Some sess'"
  then show "\<exists>sess. sessions reg t = Some sess \<and> as_mfa_pending sess' = as_mfa_pending sess"
    by (cases "t = token") (auto simp: touched_session live_session_def split: option.splits if_splits)
qed

lemma keeps_flags_bind [flag_intros]:
  assumes "keeps_flags X m" and "\<And>a. keeps_flags X (f a)"
  shows "keeps_flags X (h_bind m f)"
  unfolding keeps_flags_def
proof
  fix s
  show "flags_kept X (st_sessions s) (st_sessions (snd (h_bind m f s)))"
  proof (cases "m s")
    case (Pair r s')
    have m: "flags_kept X (st_sessions s) (st_sessions s')" using assms(1) Pair by (metis keeps_flags_def snd_conv)
    have f: "flags_kept X (st_sessions s') (st_sessions (snd (f a s')))" for a using assms(2) by (simp add: keeps_flags_def)
    show ?thesis using m flags_kept_trans [OF m f] by (simp add: h_bind_def Pair split: pan.splits sum.splits)
  qed
qed

lemma keeps_flags_simple [flag_intros]:
  "keeps_flags X (h_return a)" "keeps_flags X (h_fail c)" "keeps_flags X (h_some c x)" "keeps_flags X (h_pan p)"
  "keeps_flags X (h_throttle g)" "keeps_flags X (h_admin c fa)" "keeps_flags X (h_auth c fb)" "keeps_flags X (h_audit c fc)"
  "keeps_flags X (h_log ev action detail)"
  by (auto simp: keeps_flags_def h_return_def h_fail_def h_some_def h_pan_def h_throttle_def h_admin_def h_auth_def
      h_audit_def h_log_def split: option.splits pan.splits prod.splits)

lemma keeps_flags_sessions [flag_intros]:
  "keeps_flags X (h_sessions (session_admin_id now token))" "keeps_flags X (h_sessions (session_wrap_key now token))"
  "keeps_flags X (h_sessions (password_change_required now token))" "keeps_flags X (h_sessions (mfa_pending now token))"
  by (simp_all add: keeps_flags_def h_sessions_def registry_reads touched_flags)

lemma keeps_flags_remove [flag_intros]: "keeps_flags X (h_sessions (\<lambda>reg. ((), session_remove token reg)))"
  by (simp add: keeps_flags_def h_sessions_def flags_kept_def session_remove_def)

lemma keeps_flags_password [flag_intros]: "keeps_flags X (h_sessions (complete_password_change now token admin key))"
  by (auto simp: keeps_flags_def h_sessions_def flags_kept_def complete_password_change_def split: option.splits if_splits)

lemma keeps_flags_if [flag_intros]: "keeps_flags X m \<Longrightarrow> keeps_flags X n \<Longrightarrow> keeps_flags X (if b then m else n)"
  by simp

lemma keeps_flags_case_option [flag_intros]:
  "keeps_flags X m \<Longrightarrow> (\<And>a. keeps_flags X (f a)) \<Longrightarrow> keeps_flags X (case x of None \<Rightarrow> m | Some a \<Rightarrow> f a)"
  by (cases x) auto

lemma keeps_flags_case_prod [flag_intros]: "(\<And>a b. keeps_flags X (f a b)) \<Longrightarrow> keeps_flags X (case p of (a, b) \<Rightarrow> f a b)"
  by (cases p) auto

lemma keeps_flags_require [flag_intros]: "keeps_flags X (require_admin ev header)"
  unfolding require_admin_def by (intro flag_intros)

lemma keeps_flags_identity [flag_intros]: "keeps_flags X (session_identity ev header admin)"
  unfolding session_identity_def by (intro flag_intros)

lemma keeps_flags_factor [flag_intros]: "keeps_flags X (second_factor ev admin key username code)"
  unfolding second_factor_def by (intro flag_intros)

lemmas handler_defs =
  status_handler_def logout_handler_def change_password_handler_def apply_password_change_def adopt_wrap_key_def mfa_enroll_handler_def mfa_confirm_handler_def
  mfa_disable_handler_def list_domains_handler_def create_domain_handler_def update_domain_handler_def
  delete_domain_handler_def verify_domain_handler_def list_accounts_handler_def create_account_handler_def
  delete_account_handler_def audit_log_handler_def

lemma handlers_keep_flags:
  "keeps_flags X status_handler" "keeps_flags X (logout_handler ev header)" "keeps_flags X (change_password_handler ev header cur new)"
  "keeps_flags X (mfa_enroll_handler ev header)" "keeps_flags X (mfa_confirm_handler ev header code)"
  "keeps_flags X (mfa_disable_handler ev header pw)" "keeps_flags X (list_domains_handler ev header)"
  "keeps_flags X (create_domain_handler ev header name ca)" "keeps_flags X (update_domain_handler ev header i ca)"
  "keeps_flags X (delete_domain_handler ev header i)" "keeps_flags X (verify_domain_handler ev header i)"
  "keeps_flags X (list_accounts_handler ev header)" "keeps_flags X (create_account_handler ev header lp dn pw)"
  "keeps_flags X (delete_account_handler ev header i)" "keeps_flags X (audit_log_handler ev header)"
  unfolding handler_defs Let_def by (intro flag_intros)+

lemma route_keeps_flags:
  assumes "\<And>u p. req \<noteq> ReqLogin u p" and "\<And>c. req \<noteq> ReqMfaVerify c"
  shows "keeps_flags X (route ev header req)"
proof (cases req)
  case (ReqLogin u p)
  with assms(1) show ?thesis by blast
next
  case (ReqMfaVerify c)
  with assms(2) show ?thesis by blast
qed (simp_all add: handlers_keep_flags)

lemma keeps_flags_create [flag_intros]:
  "hex rnd \<in> X \<Longrightarrow> keeps_flags X (h_sessions (session_create hex rnd now admin key must pending))"
  by (auto simp: keeps_flags_def h_sessions_def flags_kept_def session_create_def Let_def)

lemma keeps_flags_complete [flag_intros]: "token \<in> X \<Longrightarrow> keeps_flags X (h_sessions (complete_mfa now token admin))"
  by (auto simp: keeps_flags_def h_sessions_def flags_kept_def complete_mfa_def split: option.splits if_splits)

lemma keeps_flags_throttled [flag_intros]:
  assumes "keeps_flags X m" and "keeps_flags X n"
  shows "keeps_flags X (\<lambda>s. case throttle_check now key (st_throttle s) of Inl _ \<Rightarrow> m s | Inr _ \<Rightarrow> n s)"
  using assms by (auto simp: keeps_flags_def split: sum.splits)

lemma login_keeps_flags: "keeps_flags {hex_encode (ev_mfa ev) (ev_random ev)} (login_handler ev u p)"
proof -
  have eta: "login_handler ev u p = (\<lambda>s. login_handler ev u p s)" by simp
  show ?thesis by (subst eta) (unfold login_handler_def, intro flag_intros, simp)
qed

text \<open>What the second factor accepts.\<close>

definition proves_second_factor :: "admin_env \<Rightarrow> admin_row \<Rightarrow> bytes \<Rightarrow> string \<Rightarrow> bool" where
  "proves_second_factor ev row wrap_key code \<longleftrightarrow>
     (\<exists>w secret. aw_totp_secret row = Some w \<and> committing_open (ev_crypto ev) wrap_key w = Inr secret \<and>
        check_code (ev_mfa ev) secret (ev_server_domain ev) (aw_username row) code = Returned True) \<or>
     (\<exists>js codes. aw_recovery row = Some js \<and> ev_unjson ev js = Some codes \<and>
        hash_recovery_code (ev_mfa ev) code \<in> set codes)"

lemma totp_secret_run:
  assumes "totp_secret L i key s = (r, s')"
  shows "tables s' = tables s" and "r = Inr x \<Longrightarrow> \<exists>row. admin_by_id i (tables s) = Some row \<and>
    (case x of None \<Rightarrow> aw_totp_secret row = None
     | Some secret \<Rightarrow> \<exists>w. aw_totp_secret row = Some w \<and> committing_open L key w = Inr secret)"
proof -
  obtain q s1 where q: "query_row (\<lambda>t. map_option aw_totp_secret (admin_by_id i t)) s = (q, s1)" by fastforce
  note run = query_row_run [OF q]
  have "s' = s1" using assms q by (auto simp: totp_secret_def op_bind_def op_result_def split: sum.splits option.splits)
  with run(1) show "tables s' = tables s" by simp
  assume r: "r = Inr x"
  with assms q obtain w where w: "q = Inr w"
    by (auto simp: totp_secret_def op_bind_def split: sum.splits)
  then obtain row where row: "admin_by_id i (tables s) = Some row" "aw_totp_secret row = w" using run(2) by blast
  with assms q r w show "\<exists>row. admin_by_id i (tables s) = Some row \<and>
    (case x of None \<Rightarrow> aw_totp_secret row = None
     | Some secret \<Rightarrow> \<exists>w. aw_totp_secret row = Some w \<and> committing_open L key w = Inr secret)"
    by (auto simp: totp_secret_def op_bind_def op_result_def split: option.splits sum.splits)
qed

lemma recovery_codes_run:
  assumes "recovery_codes unjson i s = (r, s')"
  shows "tables s' = tables s" and "r = Inr codes \<Longrightarrow> codes \<noteq> [] \<Longrightarrow> \<exists>row js. admin_by_id i (tables s) = Some row \<and>
    aw_recovery row = Some js \<and> unjson js = Some codes"
proof -
  obtain q s1 where q: "query_row (\<lambda>t. map_option aw_recovery (admin_by_id i t)) s = (q, s1)" by fastforce
  note run = query_row_run [OF q]
  have "s' = s1" using assms q by (auto simp: recovery_codes_def op_bind_def op_result_def split: sum.splits)
  with run(1) show "tables s' = tables s" by simp
  assume r: "r = Inr codes" "codes \<noteq> []"
  with assms q obtain w where w: "q = Inr w" by (auto simp: recovery_codes_def op_bind_def split: sum.splits)
  then obtain row where row: "admin_by_id i (tables s) = Some row" "aw_recovery row = w" using run(2) by blast
  with assms q r w show "\<exists>row js. admin_by_id i (tables s) = Some row \<and> aw_recovery row = Some js \<and> unjson js = Some codes"
    by (auto simp: recovery_codes_def op_bind_def op_result_def split: option.splits)
qed

lemma h_admin_cases:
  assumes "h_admin c f s = (r, s')"
  obtains q d where "f (st_admin s) = (q, d)" "s' = s\<lparr>st_admin := d\<rparr>" "r = pan_status c q"
  using assms by (auto simp: h_admin_def split: prod.splits)

lemma pan_status_Inr [simp]: "pan_status c q = Returned (Inr a) \<longleftrightarrow> q = Returned (Inr a)"
  by (cases "(c, q)" rule: pan_status.cases) (auto elim: map_status.elims)

lemma h_admin_op:
  assumes "h_admin c (lift_op f) s = (Returned (Inr a), s')"
  obtains d where "f (st_admin s) = (Inr a, d)" "s' = s\<lparr>st_admin := d\<rparr>"
proof -
  from assms obtain q d where "lift_op f (st_admin s) = (q, d)" "s' = s\<lparr>st_admin := d\<rparr>" "Returned (Inr a) = pan_status c q"
    by (rule h_admin_cases)
  moreover then have "q = Returned (Inr a)" by (metis pan_status_Inr)
  ultimately show thesis using that by simp
qed

lemma second_factor_sound:
  assumes "second_factor ev admin key username code s = (Returned (Inr (True, used)), s')"
  shows "\<exists>row. admin_by_id admin (tables (st_admin s)) = Some row \<and>
    (aw_username row = username \<longrightarrow> proves_second_factor ev row key code)"
  using assms unfolding second_factor_def
proof (cases rule: h_bind_cases)
  case (step secret s1)
  obtain d where d: "totp_secret (ev_crypto ev) admin key (st_admin s) = (Inr secret, d)" "s1 = s\<lparr>st_admin := d\<rparr>"
    by (rule h_admin_op [OF step(1)])
  have td: "tables d = tables (st_admin s)" by (rule totp_secret_run(1) [OF d(1)])
  obtain row where row: "admin_by_id admin (tables (st_admin s)) = Some row"
    "case secret of None \<Rightarrow> aw_totp_secret row = None
     | Some sec \<Rightarrow> \<exists>w. aw_totp_secret row = Some w \<and> committing_open (ev_crypto ev) key w = Inr sec"
    using totp_secret_run(2) [OF d(1) refl] by blast
  from step(2) show ?thesis
  proof (cases rule: h_bind_cases)
    case inner: (step verified s2)
    have s2: "s2 = s1" using inner(1) by (auto simp: h_return_def h_pan_def split: option.splits pan.splits)
    show ?thesis
    proof (cases verified)
      case True
      with inner(1) obtain sec where "secret = Some sec"
        "check_code (ev_mfa ev) sec (ev_server_domain ev) username code = Returned True"
        by (auto simp: h_return_def h_pan_def split: option.splits pan.splits)
      with row show ?thesis by (auto simp: proves_second_factor_def)
    next
      case False
      with inner(2) s2 have "h_bind (h_admin INTERNAL_SERVER_ERROR (lift_op (recovery_codes (ev_unjson ev) admin))) (\<lambda>codes.
         case match_recovery_code (ev_mfa ev) code codes of
           None \<Rightarrow> h_return (False, False)
         | Some idx \<Rightarrow>
             h_bind (h_admin INTERNAL_SERVER_ERROR (lift_op (set_recovery_codes (ev_json ev) admin (vec_remove idx codes)))) (\<lambda>_.
             h_return (True, True))) s1 = (Returned (Inr (True, used)), s')" by simp
      then show ?thesis
      proof (cases rule: h_bind_cases)
        case codes: (step codes s3)
        obtain d' where d': "recovery_codes (ev_unjson ev) admin (st_admin s1) = (Inr codes, d')"
          by (rule h_admin_op [OF codes(1)])
        from codes(2) obtain idx where idx: "match_recovery_code (ev_mfa ev) code codes = Some idx"
          by (cases "match_recovery_code (ev_mfa ev) code codes") (auto simp: h_return_def)
        then have hash: "hash_recovery_code (ev_mfa ev) code \<in> set codes"
          by (auto simp: match_recovery_code_def position_Some in_set_conv_nth)
        then obtain row' js where "admin_by_id admin (tables (st_admin s1)) = Some row'" "aw_recovery row' = Some js"
          "ev_unjson ev js = Some codes" using recovery_codes_run(2) [OF d' refl] by force
        with row td d(2) hash show ?thesis by (auto simp: proves_second_factor_def)
      qed simp_all
    qed
  qed simp_all
qed simp_all

lemma finish_mfa_flags: "\<not> v \<Longrightarrow> keeps_flags X (finish_mfa ev token admin username key (v, u))"
  "token \<in> X \<Longrightarrow> keeps_flags X (finish_mfa ev token admin username key p)"
  unfolding finish_mfa_def by (simp, intro flag_intros) (intro flag_intros; simp)

lemma keeps_flagsD: "keeps_flags X m \<Longrightarrow> m s = (r, s') \<Longrightarrow> flags_kept X (st_sessions s) (st_sessions s')"
  by (metis keeps_flags_def snd_conv)

lemma h_some_cases:
  assumes "h_bind (h_some c x) f s = (r, s')"
  obtains (missing) "x = None" "r = Returned (Inl c)" "s' = s" | (present) a where "x = Some a" "f a s = (r, s')"
  using assms by (cases x) (auto simp: h_fail_def)

text \<open>Until the second factor is proved, the handler leaves every pending flag alone.\<close>

lemma mfa_verify_flags:
  assumes "mfa_verify_handler ev header code s = (r, s')"
  shows "flags_kept {} (st_sessions s) (st_sessions s') \<or>
    (\<exists>token sess row. bearer_token header = Some token \<and> live_session (ev_now ev) token (st_sessions s) = Some sess \<and>
       admin_by_id (as_admin_id sess) (tables (st_admin s)) = Some row \<and>
       proves_second_factor ev row (as_wrap_key sess) code)"
  using assms unfolding mfa_verify_handler_def
proof (cases rule: h_some_cases)
  case (present token)
  note reads = h_bind_sessions [OF registry_reads(1)] h_bind_sessions [OF registry_reads(2)] h_bind_sessions [OF registry_reads(4)]
  let ?s1 = "s\<lparr>st_sessions := touched (ev_now ev) token (st_sessions s)\<rparr>"
  have s1: "flags_kept {} (st_sessions s) (st_sessions ?s1)" by (simp add: touched_flags)
  show ?thesis
  proof (cases "\<exists>sess. live_session (ev_now ev) token (st_sessions s) = Some sess \<and> as_mfa_pending sess")
    case False
    with present(2) have "s' = ?s1"
      by (cases "live_session (ev_now ev) token (st_sessions s)") (auto simp: reads h_fail_def)
    with s1 show ?thesis by simp
  next
    case True
    then obtain sess where sess: "live_session (ev_now ev) token (st_sessions s) = Some sess" "as_mfa_pending sess" by blast
    let ?key = "mfa_throttle_key (as_admin_id sess)"
    from present(2) sess have "h_bind (h_admin INTERNAL_SERVER_ERROR (lift_op (username_for_id (as_admin_id sess)))) (\<lambda>name.
       h_bind (h_some UNAUTHORIZED name) (\<lambda>username s. case throttle_check (ev_now ev) ?key (st_throttle s) of
          Inl _ \<Rightarrow> h_fail TOO_MANY_REQUESTS s
        | Inr _ \<Rightarrow> h_bind (second_factor ev (as_admin_id sess) (as_wrap_key sess) username code)
            (finish_mfa ev token (as_admin_id sess) username ?key) s)) ?s1 = (r, s')"
      by (simp add: reads Let_def)
    then show ?thesis
    proof (cases rule: h_bind_cases)
      case (step name s2)
      obtain d where d: "username_for_id (as_admin_id sess) (st_admin ?s1) = (Inr name, d)" "s2 = ?s1\<lparr>st_admin := d\<rparr>"
        by (rule h_admin_op [OF step(1)])
      then have name: "name = map_option aw_username (admin_by_id (as_admin_id sess) (tables (st_admin s)))"
        "tables d = tables (st_admin s)" using db_query_Inr unfolding username_for_id_def by fastforce+
      have s2: "flags_kept {} (st_sessions s) (st_sessions s2)" using s1 d(2) by simp
      from step(2) show ?thesis
      proof (cases rule: h_some_cases)
        case (present username)
        then consider "s' = s2" | "h_bind (second_factor ev (as_admin_id sess) (as_wrap_key sess) username code)
            (finish_mfa ev token (as_admin_id sess) username ?key) s2 = (r, s')"
          by (auto simp: h_fail_def split: sum.splits)
        then show ?thesis
        proof cases
          case 2
          then show ?thesis
          proof (cases rule: h_bind_cases)
            case factor: (step p s3)
            obtain v u where p: "p = (v, u)" by (cases p)
            have s3: "flags_kept {} (st_sessions s) (st_sessions s3)"
              by (rule flags_kept_trans [OF s2 keeps_flagsD [OF keeps_flags_factor factor(1)]])
            show ?thesis
            proof (cases v)
              case True
              with second_factor_sound [of ev "as_admin_id sess" "as_wrap_key sess" username code s2 u s3] factor(1) p d(2) name present(1)
              show ?thesis using \<open>bearer_token header = Some token\<close> sess(1) by auto
            next
              case False
              with factor(2) p flags_kept_trans [OF s3 keeps_flagsD [OF finish_mfa_flags(1)]] show ?thesis by blast
            qed
          qed (use flags_kept_trans [OF s2 keeps_flagsD [OF keeps_flags_factor]] in blast)+
        qed (use s2 in simp)
      qed (use s2 in simp)
    qed (use flags_kept_trans [OF s1 keeps_flagsD [OF keeps_flags_simple(6)]] in blast)+
  qed
qed simp

lemma mfa_verify_keeps:
  "bearer_token header = Some token \<Longrightarrow> keeps_flags {token} (mfa_verify_handler ev header code)"
  unfolding mfa_verify_handler_def Let_def by (simp, intro flag_intros finish_mfa_flags(2) singletonI)

text \<open>C38: the only request that takes a session out of the state in which the second factor is pending is
  \<open>/admin/mfa/verify\<close> with that session's own token and either a TOTP code that checks against the administrator's
  stored secret or an unused recovery code; whatever fails on the way, no other request does it.\<close>

theorem second_factor_enforced:
  assumes "route ev header req s = (r, s')" and "hex_encode (ev_mfa ev) (ev_random ev) \<noteq> token"
    and "sessions (st_sessions s) token = Some sess" and "as_mfa_pending sess"
    and "sessions (st_sessions s') token = Some sess'" and "\<not> as_mfa_pending sess'"
  shows "\<exists>code row. req = ReqMfaVerify code \<and> bearer_token header = Some token \<and>
    admin_by_id (as_admin_id sess) (tables (st_admin s)) = Some row \<and>
    proves_second_factor ev row (as_wrap_key sess) code"
proof -
  have not: "\<not> flags_kept X (st_sessions s) (st_sessions s')" if "token \<notin> X" for X
    using assms(3-6) that by (auto simp: flags_kept_def)
  obtain code where req: "req = ReqMfaVerify code"
  proof (cases "\<exists>u p. req = ReqLogin u p")
    case True
    then show ?thesis using not [of "{hex_encode (ev_mfa ev) (ev_random ev)}"] keeps_flagsD [OF login_keeps_flags] assms(1,2) by fastforce
  next
    case False
    then show ?thesis using that not [of "{}"] keeps_flagsD [OF route_keeps_flags assms(1)] by blast
  qed
  with assms(1) have run: "mfa_verify_handler ev header code s = (r, s')" by simp
  from mfa_verify_flags [OF this] not [of "{}"] obtain t sess0 row where t: "bearer_token header = Some t"
    "live_session (ev_now ev) t (st_sessions s) = Some sess0" "admin_by_id (as_admin_id sess0) (tables (st_admin s)) = Some row"
    "proves_second_factor ev row (as_wrap_key sess0) code" by blast
  have "t = token" using not [of "{t}"] keeps_flagsD [OF mfa_verify_keeps [OF t(1)] run] by blast
  moreover then have "sess0 = sess" using t(2) assms(3) by (auto simp: live_session_def split: if_splits)
  ultimately show ?thesis using t req by blast
qed

section \<open>Changing the password\<close>

lemma h_bind_Inr:
  "h_bind m f s = (Returned (Inr b), s'') \<longleftrightarrow> (\<exists>a s'. m s = (Returned (Inr a), s') \<and> f a s' = (Returned (Inr b), s''))"
  by (auto simp: h_bind_def split: prod.splits pan.splits sum.splits)

lemma h_admin_Inr: "h_admin c f s = (Returned (Inr a), s') \<longleftrightarrow> (\<exists>d. f (st_admin s) = (Returned (Inr a), d) \<and> s' = s\<lparr>st_admin := d\<rparr>)"
  by (auto simp: h_admin_def split: prod.splits)

lemma h_audit_Inr: "h_audit c f s = (Returned (Inr a), s') \<longleftrightarrow> (\<exists>d. f (st_audit s) = (Returned (Inr a), d) \<and> s' = s\<lparr>st_audit := d\<rparr>)"
  by (auto simp: h_audit_def split: prod.splits)

lemma h_log_run:
  assumes "h_log ev action detail s = (r, s')"
  obtains q d where "log_entry (ev_crypto ev) (ev_log_random ev) (ev_unix ev) action detail (st_audit s) = (q, d)" "s' = s\<lparr>st_audit := d\<rparr>"
  using assms by (auto simp: h_log_def split: prod.splits pan.splits)

lemma verify_login_run:
  assumes "verify_login L username password config s = (r, s')"
  shows "tables s' = tables s"
    and "r = Inr (Some (a, key)) \<Longrightarrow> \<exists>row. find (\<lambda>r. aw_username r = username) (admins (tables s)) = Some row \<and>
      adm_id a = aw_id row \<and> key = aw_derived_key row \<and> derive_pk L password (aw_salt row) config = Inr key \<and>
      adm_must_change a = aw_must_change row \<and> adm_totp_enabled a = aw_totp_enabled row \<and> adm_username a = username"
proof -
  let ?q = "\<lambda>t. find (\<lambda>r. aw_username r = username) (admins t)"
  obtain q s1 where q: "db_query ?q s = (q, s1)" by fastforce
  note t = db_query_tables [OF q]
  have "s' = s1" using assms q
    by (auto simp: verify_login_def op_bind_def op_result_def split: sum.splits option.splits if_splits)
  with t show "tables s' = tables s" by simp
  assume r: "r = Inr (Some (a, key))"
  with assms q obtain row where row: "q = Inr (Some row)"
    by (auto simp: verify_login_def op_bind_def op_result_def split: sum.splits option.splits)
  then have "find (\<lambda>r. aw_username r = username) (admins (tables s)) = Some row" using db_query_Inr [of ?q s] q by metis
  with assms q r row show "\<exists>row. find (\<lambda>r. aw_username r = username) (admins (tables s)) = Some row \<and>
      adm_id a = aw_id row \<and> key = aw_derived_key row \<and> derive_pk L password (aw_salt row) config = Inr key \<and>
      adm_must_change a = aw_must_change row \<and> adm_totp_enabled a = aw_totp_enabled row \<and> adm_username a = username"
    by (auto simp: verify_login_def op_bind_def op_result_def split: sum.splits if_splits)
qed

lemma change_password_run:
  assumes "change_password L salt i new config s = (Inr key, s')"
  shows "derive_pk L new salt config = Inr key"
    and "tables s' = (tables s)\<lparr>admins := update_where (\<lambda>r. aw_id r = i)
      (\<lambda>r. r\<lparr>aw_salt := salt, aw_derived_key := key, aw_must_change := False\<rparr>) (admins (tables s))\<rparr>"
proof -
  from assms obtain pk s1 where pk: "derive_pk L new salt config = Inr pk"
    and u: "update_admin i (\<lambda>r. r\<lparr>aw_salt := salt, aw_derived_key := pk, aw_must_change := False\<rparr>) s = (Inr (), s1)"
    and e: "key = pk" "s' = s1"
    unfolding change_password_def by (auto simp: op_bind_Inr)
  show "derive_pk L new salt config = Inr key" using pk e by simp
  show "tables s' = (tables s)\<lparr>admins := update_where (\<lambda>r. aw_id r = i)
      (\<lambda>r. r\<lparr>aw_salt := salt, aw_derived_key := key, aw_must_change := False\<rparr>) (admins (tables s))\<rparr>"
    using update_admin_run [OF u] e by simp
qed

lemma admin_by_id_update:
  assumes "\<And>r. aw_id (f r) = aw_id r"
  shows "admin_by_id i (t\<lparr>admins := update_where (\<lambda>r. aw_id r = i) f (admins t)\<rparr>) = map_option f (admin_by_id i t)"
proof -
  have "tbl_get aw_id i (admins t) = Some r \<Longrightarrow> aw_id r = i" for r by (drule tbl_get_Some_in) simp
  then show ?thesis unfolding admin_by_id_def
    by (cases "tbl_get aw_id i (admins t)") (auto simp: find_update_where assms)
qed

lemma rewrap_totp_run:
  assumes "rewrap_totp_secret L nonce_bytes i old new s = (Returned (Inr ()), s')"
    and "aead_correct L" and "length nonce_bytes = 24" and "admin_by_id i (tables s) = Some row"
  shows "\<exists>w kid. admin_by_id i (tables s') = Some (row\<lparr>aw_totp_secret := w, aw_totp_key_id := kid\<rparr>) \<and>
    (aw_totp_secret row = None \<longrightarrow> w = None) \<and>
    (\<forall>w0 k0. aw_totp_secret row = Some w0 \<longrightarrow> aw_totp_key_id row = Some k0 \<longrightarrow>
       (\<exists>w1 secret. w = Some w1 \<and> committing_open L old w0 = Inr secret \<and> committing_open L new w1 = Inr secret))"
proof -
  let ?q = "\<lambda>t. map_option (\<lambda>r. (aw_totp_secret r, aw_totp_key_id r)) (admin_by_id i t)"
  from assms(1) obtain p s1 where q: "query_row ?q s = (Inr p, s1)"
    and rest: "(case p of (Some wrapped, Some kid) \<Rightarrow>
           proc_bind (proc_return (crypto_err (committing_open L old wrapped))) (\<lambda>secret.
           let new_key_id = kid + 1 in
           proc_bind (proc_pan (committing_seal L nonce_bytes new (word_of_int new_key_id) secret)) (\<lambda>rewrapped.
           lift_op (update_admin i (\<lambda>r. r\<lparr>aw_totp_secret := Some rewrapped, aw_totp_key_id := Some new_key_id\<rparr>))))
       | _ \<Rightarrow> proc_return (Inr ())) s1 = (Returned (Inr ()), s')"
    unfolding rewrap_totp_secret_def by (auto simp: proc_bind_Inr)
  have p: "p = (aw_totp_secret row, aw_totp_key_id row)" and s1: "tables s1 = tables s"
    using query_row_run [OF q] assms(4) by auto
  show ?thesis
  proof (cases "aw_totp_secret row = None \<or> aw_totp_key_id row = None")
    case True
    then have "s' = s1" using rest p by (auto split: option.splits)
    then show ?thesis using s1 assms(4) True
      by (intro exI [of _ "aw_totp_secret row"] exI [of _ "aw_totp_key_id row"]) auto
  next
    case False
    then obtain w0 k0 where w0: "aw_totp_secret row = Some w0" "aw_totp_key_id row = Some k0" by auto
    with rest p obtain secret w1 where o: "committing_open L old w0 = Inr secret"
      "committing_seal L nonce_bytes new (word_of_int (k0 + 1)) secret = Returned w1"
      and u: "update_admin i (\<lambda>r. r\<lparr>aw_totp_secret := Some w1, aw_totp_key_id := Some (k0 + 1)\<rparr>) s1 = (Inr (), s')"
      by (auto simp: proc_bind_Inr Let_def)
    have "committing_open L new w1 = Inr secret"
      by (rule committing_open_seal [OF assms(2) _ o(2)]) (simp add: assms(3) NONCE_LEN_def)
    with o(1) w0 update_admin_run [OF u] s1 assms(4) show ?thesis
      by (intro exI [of _ "Some w1"] exI [of _ "Some (k0 + 1)"]) (simp add: admin_by_id_update)
  qed
qed

lemma h_sessions_Inr: "h_sessions f s = (Returned (Inr a), s') \<longleftrightarrow> (\<exists>reg. f (st_sessions s) = (a, reg) \<and> s' = s\<lparr>st_sessions := reg\<rparr>)"
  by (auto simp: h_sessions_def split: prod.splits)

lemma h_some_Inr: "h_some c x s = (Returned (Inr a), s') \<longleftrightarrow> x = Some a \<and> s' = s"
  by (cases x) (auto simp: h_fail_def h_return_def)

text \<open>The steps of a password change that was answered with success.\<close>

lemma change_password_steps:
  assumes "change_password_handler ev header current new s = (Returned (Inr resp), s')"
  obtains token sess username d1 old_key new_key d2 au d3 reg where "12 \<le> length new" "bearer_token header = Some token"
    "live_session (ev_now ev) token (st_sessions s) = Some sess" "\<not> as_mfa_pending sess"
    "username_for_id (as_admin_id sess) (st_admin s) = (Inr (Some username), d1)"
    "rekey ev (as_admin_id sess) username current new d1 = (Inr (Some (old_key, new_key)), d2)"
    "rewrap_audit_key (ev_crypto ev) (ev_random ev) old_key new_key (st_audit s) = (Returned (Inr ()), au)"
    "rewrap_totp_secret (ev_crypto ev) (ev_random2 ev) (as_admin_id sess) old_key new_key d2 = (Returned (Inr ()), d3)"
    "complete_password_change (ev_now ev) token (as_admin_id sess) new_key (touched (ev_now ev) token (st_sessions s)) = (True, reg)"
    "st_admin s' = d3" "st_sessions s' = reg"
    "st_audit s' = snd (log_entry (ev_crypto ev) (ev_log_random ev) (ev_unix ev) ''admin.password_change'' username au)"
proof -
  note reads = h_bind_sessions [OF registry_reads(1)] h_bind_sessions [OF registry_reads(4)]
  have len: "12 \<le> length new" using assms by (auto simp: change_password_handler_def h_fail_def not_less split: if_splits)
  obtain token where token: "bearer_token header = Some token"
    using assms len by (cases "bearer_token header") (auto simp: change_password_handler_def h_fail_def)
  let ?s1 = "s\<lparr>st_sessions := touched (ev_now ev) token (st_sessions s)\<rparr>"
  obtain sess where sess: "live_session (ev_now ev) token (st_sessions s) = Some sess" "\<not> as_mfa_pending sess"
    and run: "apply_password_change ev token (as_admin_id sess) current new ?s1 = (Returned (Inr resp), s')"
    using assms len token
    by (cases "live_session (ev_now ev) token (st_sessions s)")
      (auto simp: change_password_handler_def h_fail_def reads split: if_splits)
  let ?i = "as_admin_id sess"
  from run obtain username keys d1 d2 where n: "username_for_id ?i (st_admin s) = (Inr (Some username), d1)"
    and k: "rekey ev ?i username current new d1 = (Inr (Some keys), d2)"
    and run: "adopt_wrap_key ev token ?i username keys (?s1\<lparr>st_admin := d2\<rparr>) = (Returned (Inr resp), s')"
    by (auto simp: apply_password_change_def h_bind_Inr h_admin_Inr h_some_Inr)
  from run obtain old_key new_key au d3 fin reg where k': "keys = (old_key, new_key)"
    and a: "rewrap_audit_key (ev_crypto ev) (ev_random ev) old_key new_key (st_audit s) = (Returned (Inr ()), au)"
    and t: "rewrap_totp_secret (ev_crypto ev) (ev_random2 ev) ?i old_key new_key d2 = (Returned (Inr ()), d3)"
    and c: "complete_password_change (ev_now ev) token ?i new_key (touched (ev_now ev) token (st_sessions s)) = (fin, reg)"
    and run: "(if \<not> fin then h_fail UNAUTHORIZED
      else h_bind (h_log ev ''admin.password_change'' username) (\<lambda>_. h_return RNoContent))
      (s\<lparr>st_audit := au, st_admin := d3, st_sessions := reg\<rparr>) = (Returned (Inr resp), s')"
    by (cases keys) (auto simp: adopt_wrap_key_def h_bind_Inr h_audit_Inr h_admin_Inr h_sessions_Inr)
  from run have fin: "fin" by (cases fin) (auto simp: h_fail_def)
  with run have "st_admin s' = d3 \<and> st_sessions s' = reg \<and>
     st_audit s' = snd (log_entry (ev_crypto ev) (ev_log_random ev) (ev_unix ev) ''admin.password_change'' username au)"
    by (auto simp: h_bind_Inr h_return_def h_log_def split: prod.splits pan.splits)
  then show thesis
    by (intro that [OF len token sess n _ a t]) (use k k' c fin in simp_all)
qed

lemma log_entry_keys:
  assumes "log_entry L rnd now action detail s = (r, s')" and "audit_ok L (tables s)"
  shows "keys_row (tables s') = keys_row (tables s)"
  using assms by (cases rule: log_entry_cases) simp_all

text \<open>C39: a password change that is answered with success carries everything over: the current password was
  checked, the new one is at least twelve bytes long and is the one that logs in from now on, only the session that
  made the change survives and it holds the new key, the audit log that was readable with the old key is readable
  with the new one, and the TOTP secret is the same under the new key.\<close>

theorem password_change_complete:
  assumes "change_password_handler ev header current new s = (Returned (Inr resp), s')"
    and "admin_ok (tables (st_admin s))" and "audit_ok (ev_crypto ev) (tables (st_audit s))" and "aead_correct (ev_crypto ev)"
    and "length (ev_random ev) = 24" and "length (ev_random2 ev) = 24"
  shows "\<exists>token sess sess' row row'. bearer_token header = Some token \<and> 12 \<le> length new \<and>
    live_session (ev_now ev) token (st_sessions s) = Some sess \<and> \<not> as_mfa_pending sess \<and>
    admin_by_id (as_admin_id sess) (tables (st_admin s)) = Some row \<and>
    admin_by_id (as_admin_id sess) (tables (st_admin s')) = Some row' \<and>
    derive_pk (ev_crypto ev) current (aw_salt row) (ev_argon2 ev) = Inr (aw_derived_key row) \<and>
    derive_pk (ev_crypto ev) new (aw_salt row') (ev_argon2 ev) = Inr (aw_derived_key row') \<and>
    \<not> aw_must_change row' \<and> aw_username row' = aw_username row \<and> aw_totp_enabled row' = aw_totp_enabled row \<and>
    sessions (st_sessions s') = [token \<mapsto> sess'] \<and> as_wrap_key sess' = aw_derived_key row' \<and>
    (readable_by (ev_crypto ev) (aw_derived_key row) (tables (st_audit s)) \<longrightarrow>
       readable_by (ev_crypto ev) (aw_derived_key row') (tables (st_audit s'))) \<and>
    (\<forall>w k. aw_totp_secret row = Some w \<longrightarrow> aw_totp_key_id row = Some k \<longrightarrow>
       (\<exists>w' secret. committing_open (ev_crypto ev) (aw_derived_key row) w = Inr secret \<and>
          aw_totp_secret row' = Some w' \<and> committing_open (ev_crypto ev) (aw_derived_key row') w' = Inr secret))"
  using assms(1)
proof (cases rule: change_password_steps)
  case (1 token sess username d1 old_key new_key d2 au d3 reg)
  let ?L = "ev_crypto ev" and ?i = "as_admin_id sess"
  obtain row where row: "admin_by_id ?i (tables (st_admin s)) = Some row" "aw_username row = username" and d1: "tables d1 = tables (st_admin s)"
    using db_query_Inr [OF 1(5) [unfolded username_for_id_def]]
    by (cases "admin_by_id ?i (tables (st_admin s))") auto
  from 1(6) obtain a d' where vl: "verify_login ?L username current (ev_argon2 ev) d1 = (Inr (Some (a, old_key)), d')"
    and cp: "change_password ?L (ev_salt ev) ?i new (ev_argon2 ev) d' = (Inr new_key, d2)"
    unfolding rekey_def by (auto simp: op_bind_Inr split: option.splits)
  have d': "tables d' = tables (st_admin s)" using verify_login_run(1) [OF vl] d1 by simp
  obtain row0 where row0: "find (\<lambda>r. aw_username r = username) (admins (tables (st_admin s))) = Some row0"
    "old_key = aw_derived_key row0" "derive_pk ?L current (aw_salt row0) (ev_argon2 ev) = Inr old_key"
    using verify_login_run(2) [OF vl refl] d1 by auto
  have "row \<in> set (admins (tables (st_admin s)))" using row(1) tbl_get_Some_in unfolding admin_by_id_def by fastforce
  then have same: "row0 = row" using row0(1) row(2) find_unique [of aw_username "admins (tables (st_admin s))" row] assms(2)
    by (simp add: admin_ok_def)
  note cp' = change_password_run [OF cp]
  let ?row1 = "row\<lparr>aw_salt := ev_salt ev, aw_derived_key := new_key, aw_must_change := False\<rparr>"
  have "admin_by_id ?i (tables d2) = Some ?row1" using cp'(2) d' row(1) by (simp add: admin_by_id_update)
  from rewrap_totp_run [OF 1(8) assms(4,6) this] obtain w kid where
    row': "admin_by_id ?i (tables d3) = Some (?row1\<lparr>aw_totp_secret := w, aw_totp_key_id := kid\<rparr>)"
    and sec: "\<forall>w0 k0. aw_totp_secret ?row1 = Some w0 \<longrightarrow> aw_totp_key_id ?row1 = Some k0 \<longrightarrow>
       (\<exists>w1 secret. w = Some w1 \<and> committing_open ?L old_key w0 = Inr secret \<and> committing_open ?L new_key w1 = Inr secret)"
    by (elim exE conjE)
  have au: "audit_ok ?L (tables au)" by (rule rewrap_audit_key_ok [OF 1(7) assms(3)])
  have keys: "keys_row (tables (st_audit s')) = keys_row (tables au)"
    using log_entry_keys [OF _ au] 1(12) by (metis prod.collapse)
  have readable: "readable_by ?L new_key (tables (st_audit s'))" if "readable_by ?L (aw_derived_key row) (tables (st_audit s))"
    using rewrap_readable [OF 1(7)] that assms(4,5) row0(2) same keys by (simp add: readable_by_def)
  obtain sess' where sess': "sessions (st_sessions s') = [token \<mapsto> sess']" "as_wrap_key sess' = new_key"
    using complete_password_change_True [OF 1(9)] 1(11) by blast
  show ?thesis
    using 1(1-4,10) row row0(2,3) same row' cp'(1) sess' readable sec
    by (intro exI [of _ token] exI [of _ sess] exI [of _ sess'] exI [of _ row]
        exI [of _ "?row1\<lparr>aw_totp_secret := w, aw_totp_key_id := kid\<rparr>"]) auto
qed

text \<open>a password change is not atomic: when the audit store refuses the rewrap, the answer is 500 but the new
  password is already in force, while the audit key stays wrapped under the old one, which no password derives any
  more (unless the old password and salt come back).\<close>

theorem password_change_not_atomic:
  assumes "12 \<le> length new" and "bearer_token header = Some token"
    and "live_session (ev_now ev) token (st_sessions s) = Some sess" and "\<not> as_mfa_pending sess"
    and "username_for_id (as_admin_id sess) (st_admin s) = (Inr (Some username), d1)"
    and "rekey ev (as_admin_id sess) username current new d1 = (Inr (Some (old_key, new_key)), d2)"
    and "rewrap_audit_key (ev_crypto ev) (ev_random ev) old_key new_key (st_audit s) = (Returned (Inl e), au)"
  shows "\<exists>s'. change_password_handler ev header current new s = (Returned (Inl INTERNAL_SERVER_ERROR), s') \<and>
    derive_pk (ev_crypto ev) new (ev_salt ev) (ev_argon2 ev) = Inr new_key \<and>
    (\<forall>row. admin_by_id (as_admin_id sess) (tables (st_admin s)) = Some row \<longrightarrow>
       admin_by_id (as_admin_id sess) (tables (st_admin s')) =
         Some (row\<lparr>aw_salt := ev_salt ev, aw_derived_key := new_key, aw_must_change := False\<rparr>)) \<and>
    tables (st_audit s') = tables (st_audit s)"
proof -
  note reads = h_bind_sessions [OF registry_reads(1)] h_bind_sessions [OF registry_reads(4)]
  let ?i = "as_admin_id sess"
  let ?s' = "s\<lparr>st_sessions := touched (ev_now ev) token (st_sessions s), st_admin := d2, st_audit := au\<rparr>"
  have "change_password_handler ev header current new s = (Returned (Inl INTERNAL_SERVER_ERROR), ?s')"
    using assms
    by (simp add: change_password_handler_def reads apply_password_change_def adopt_wrap_key_def h_bind_admin
        h_bind_audit_fail lift_op_def)
  moreover have "tables au = tables (st_audit s)"
    using assms(7) by (cases rule: rewrap_audit_key_cases) simp_all
  moreover from assms(6) obtain a d' where vl: "verify_login (ev_crypto ev) username current (ev_argon2 ev) d1 = (Inr (Some (a, old_key)), d')"
    and cp: "change_password (ev_crypto ev) (ev_salt ev) ?i new (ev_argon2 ev) d' = (Inr new_key, d2)"
    unfolding rekey_def by (auto simp: op_bind_Inr split: option.splits)
  moreover have "tables d' = tables (st_admin s)"
    using verify_login_run(1) [OF vl] db_query_Inr [OF assms(5) [unfolded username_for_id_def]] by simp
  ultimately show ?thesis
    using change_password_run [OF cp] by (intro exI [of _ ?s']) (simp add: admin_by_id_update)
qed

section \<open>The first administrator\<close>

definition insecure_bootstrap_password :: "string \<Rightarrow> bool" where
  "insecure_bootstrap_password password \<longleftrightarrow>
     password = ''change-me-please'' \<or> password = ''REPLACE_WITH_A_STRONG_UNIQUE_PASSWORD'' \<or> length password < 12"

text \<open>The bootstrap block of \<open>main\<close>: the process exits on an insecure password and goes on after every error.\<close>

datatype startup = Continued | Exited

definition admin_bootstrap ::
    "admin_env \<Rightarrow> key_random \<Rightarrow> (string \<times> string) option \<Rightarrow> app_state \<Rightarrow> startup pan \<times> app_state" where
  "admin_bootstrap ev krnd credentials s =
     (case credentials of
        None \<Rightarrow> (Returned Continued, s)
      | Some (username, password) \<Rightarrow>
          (case has_admin (st_admin s) of
             (Inl e, d) \<Rightarrow> (Returned Continued, s\<lparr>st_admin := d\<rparr>)
           | (Inr True, d) \<Rightarrow> (Returned Continued, s\<lparr>st_admin := d\<rparr>)
           | (Inr False, d) \<Rightarrow>
               if insecure_bootstrap_password password then (Returned Exited, s\<lparr>st_admin := d\<rparr>)
               else
                 (case bootstrap (ev_crypto ev) (ev_salt ev) (ev_unix ev) username password (ev_argon2 ev) d of
                    (Inr (Some pk), d') \<Rightarrow>
                      (case bootstrap_keys (ev_crypto ev) krnd (ev_unix ev) pk (st_audit s) of
                         (Panicked, au) \<Rightarrow> (Panicked, s\<lparr>st_admin := d', st_audit := au\<rparr>)
                       | (Returned _, au) \<Rightarrow> (Returned Continued, s\<lparr>st_admin := d', st_audit := au\<rparr>))
                  | (_, d') \<Rightarrow> (Returned Continued, s\<lparr>st_admin := d'\<rparr>))))"

lemma bootstrap_created:
  assumes "bootstrap L salt now username password config d = (Inr (Some pk), d')"
  shows "derive_pk L password salt config = Inr pk"
    and "\<exists>row. admins (tables d') = [row] \<and> admins (tables d) = [] \<and> aw_username row = username \<and> aw_salt row = salt \<and>
      aw_derived_key row = pk \<and> aw_must_change row \<and> \<not> aw_totp_enabled row"
proof -
  let ?row = "\<lparr>aw_id = 0, aw_username = username, aw_salt = salt, aw_derived_key = pk,
     aw_must_change = True, aw_created_at = now, aw_totp_secret = None, aw_totp_key_id = None,
     aw_totp_enabled = False, aw_recovery = None\<rparr>"
  from assms obtain d1 i d2 where h: "has_admin d = (Inr False, d1)" and pk: "derive_pk L password salt config = Inr pk"
    and ins: "insert_admin ?row d1 = (Inr i, d2)" and d': "d' = d2"
    unfolding bootstrap_def by (auto simp: op_bind_Inr split: if_splits)
  show "derive_pk L password salt config = Inr pk" by (rule pk)
  have e: "admins (tables d) = []" "tables d1 = tables d"
    using db_query_Inr [OF h [unfolded has_admin_def]] by auto
  from db_stmt_Inr(2) [OF ins [unfolded insert_admin_def]] e show "\<exists>row. admins (tables d') = [row] \<and> admins (tables d) = [] \<and> aw_username row = username \<and> aw_salt row = salt \<and>
      aw_derived_key row = pk \<and> aw_must_change row \<and> \<not> aw_totp_enabled row"
    unfolding d' by (simp add: tbl_insert_def)
qed

text \<open>the first start creates exactly one administrator, who must change the password, and audit keys that this
  administrator's password key opens; and that key is itself a column of the database: the stored
  \<open>derived_key\<close> decrypts the audit log, with no password and no session.\<close>

theorem stored_key_opens_audit:
  assumes "admin_bootstrap ev krnd (Some (username, password)) s = (r, s')" and "admins (tables (st_admin s')) \<noteq> admins (tables (st_admin s))"
    and "keys_row (tables (st_audit s)) = None" and "keys_row (tables (st_audit s')) \<noteq> None"
    and "aead_correct (ev_crypto ev)" and "hpke_correct (ev_crypto ev)" and "sign_sizes (ev_crypto ev)"
    and "length (kr_sign krnd) = 32" and "length (kr_nonce krnd) = 24"
  shows "12 \<le> length password \<and> admins (tables (st_admin s)) = [] \<and>
    (\<exists>row. admins (tables (st_admin s')) = [row] \<and> aw_username row = username \<and> aw_must_change row \<and>
       derive_pk (ev_crypto ev) password (aw_salt row) (ev_argon2 ev) = Inr (aw_derived_key row) \<and>
       readable_by (ev_crypto ev) (aw_derived_key row) (tables (st_audit s')))"
proof -
  obtain q d where h: "has_admin (st_admin s) = (q, d)" by fastforce
  then have d: "tables d = tables (st_admin s)" using db_query_tables unfolding has_admin_def by blast
  have q: "q = Inr False" "\<not> insecure_bootstrap_password password"
    using assms(1,2) h d by (auto simp: admin_bootstrap_def split: sum.splits bool.splits if_splits)
  obtain b d' where b: "bootstrap (ev_crypto ev) (ev_salt ev) (ev_unix ev) username password (ev_argon2 ev) d = (b, d')" by fastforce
  obtain rk au where k: "bootstrap_keys (ev_crypto ev) krnd (ev_unix ev) (the (projr b)) (st_audit s) = (rk, au)" by fastforce
  have "\<exists>pk. b = Inr (Some pk)"
    using assms(1,3,4) h q b by (auto simp: admin_bootstrap_def split: sum.splits option.splits)
  then obtain pk where pk: "b = Inr (Some pk)" by blast
  with k assms(1) h q b have s': "st_admin s' = d'" "st_audit s' = au"
    by (auto simp: admin_bootstrap_def split: pan.splits)
  note created = bootstrap_created [OF b [unfolded pk]]
  have "readable_by (ev_crypto ev) pk (tables au)"
    by (rule bootstrap_readable [OF k [unfolded pk sum.sel option.sel]]) (use assms(3-9) s' in simp_all)
  with created d s' q(2) show ?thesis by (auto simp: insecure_bootstrap_password_def not_less)
qed

section \<open>Samples\<close>

definition sample_mfa :: mfa_lib where
  "sample_mfa = \<lparr>totp_accepts = (\<lambda>_ _ _. True), totp_check = (\<lambda>secret code. Some (code = secret)),
     totp_url = (\<lambda>_ _ _. []), totp_base32 = (\<lambda>s. s), sha256 = (\<lambda>b. b), hex_encode = (\<lambda>b. b)\<rparr>"

definition sample_env :: admin_env where
  "sample_env = \<lparr>ev_crypto = audit_lib, ev_mfa = sample_mfa, ev_json = concat, ev_unjson = (\<lambda>js. Some [js]),
     ev_txt = (\<lambda>_. []), ev_argon2 = sample_config, ev_server_domain = ''a.org'', ev_now = 5, ev_unix = 9,
     ev_random = sample_nonce, ev_random2 = sample_nonce, ev_log_random = [], ev_raw_codes = (\<lambda>_. []),
     ev_salt = replicate 16 (CHR ''x''), ev_provision = sample_provision\<rparr>"

definition sample_key :: bytes where
  "sample_key = take 32 (''correct horse'' @ replicate 16 (CHR ''x'') @ replicate 32 (CHR ''k''))"

definition sample_admin :: "bool \<Rightarrow> admin_row" where
  "sample_admin enabled = \<lparr>aw_id = 1, aw_username = ''root'', aw_salt = replicate 16 (CHR ''x''), aw_derived_key = sample_key,
     aw_must_change = False, aw_created_at = 0, aw_totp_secret = None, aw_totp_key_id = None,
     aw_totp_enabled = enabled, aw_recovery = Some ''code''\<rparr>"

definition sample_state :: "bool \<Rightarrow> audit_db \<Rightarrow> app_state" where
  "sample_state pending au = \<lparr>st_admin = \<lparr>tables = \<lparr>admins = [sample_admin pending], domains = [], admin_columns = [], domain_columns = []\<rparr>, faults = []\<rparr>,
     st_auth = empty_auth, st_audit = au,
     st_sessions = \<lparr>sessions = [''tok'' \<mapsto> \<lparr>as_admin_id = 1, as_wrap_key = sample_key, as_must_change = False,
       as_mfa_pending = pending, as_last_seen = 0\<rparr>], idle_timeout = 1800\<rparr>, st_throttle = throttle_new 1 60\<rparr>"

lemma sample_bearer [simp]: "bearer_token (Some ''Bearer tok'') = Some ''tok''"
  by (simp add: bearer_token_def)

lemma sample_live [simp]:
  "live_session (ev_now sample_env) ''tok'' (st_sessions (sample_state pending au)) =
     Some \<lparr>as_admin_id = 1, as_wrap_key = sample_key, as_must_change = False, as_mfa_pending = pending, as_last_seen = 0\<rparr>"
  by (simp add: live_session_def sample_state_def sample_env_def)

lemma sample_fields [simp]: "ev_crypto sample_env = audit_lib" "ev_mfa sample_env = sample_mfa" "ev_random sample_env = sample_nonce"
  "ev_random2 sample_env = sample_nonce" "st_audit (sample_state pending au) = au" "ev_log_random sample_env = []"
  "ev_unix sample_env = 9" "length sample_nonce = 24"
  by (simp_all add: sample_env_def sample_state_def sample_nonce_def)

theorem admin_gate_witness:
  "route sample_env (Some ''Bearer tok'') (ReqDeleteAccount 3) (sample_state True empty_audit) =
     (Returned (Inl FORBIDDEN), (sample_state True empty_audit)\<lparr>st_sessions :=
        (st_sessions (sample_state True empty_audit))\<lparr>sessions := (sessions (st_sessions (sample_state True empty_audit)))
           (''tok'' \<mapsto> \<lparr>as_admin_id = 1, as_wrap_key = sample_key, as_must_change = False, as_mfa_pending = True,
              as_last_seen = ev_now sample_env\<rparr>)\<rparr>\<rparr>)"
proof -
  let ?s = "sample_state True empty_audit"
  have pend: "\<forall>token sess. bearer_token (Some ''Bearer tok'') = Some token \<longrightarrow>
      live_session (ev_now sample_env) token (st_sessions ?s) = Some sess \<longrightarrow> as_mfa_pending sess \<or> as_must_change sess"
    by auto
  have sess: "sessions (st_sessions ?s) ''tok'' = Some \<lparr>as_admin_id = 1, as_wrap_key = sample_key, as_must_change = False,
      as_mfa_pending = True, as_last_seen = 0\<rparr>" "\<not> idle_timeout (st_sessions ?s) < ev_now sample_env"
    by (simp_all add: sample_state_def sample_env_def)
  have g: "gated (ReqDeleteAccount 3)" by simp
  show ?thesis using admin_gate [where header = "Some ''Bearer tok''" and ev = sample_env and s = ?s, OF g pend] sess
    by (simp del: route.simps)
qed

theorem audit_log_skips_gate_witness:
  "\<exists>au e. fst (route sample_env (Some ''Bearer tok'') ReqAuditLog (sample_state True au)) = Returned (Inr (RAudit [e])) \<and>
     ae_detail e = ''alice'' \<and>
     fst (route sample_env (Some ''Bearer tok'') ReqListDomains (sample_state True au)) = Returned (Inl FORBIDDEN)"
proof -
  obtain s :: audit_db and k where s: "faults s = []" "keys_row (tables s) = Some k" "audit_ok audit_lib (tables s)"
    "readable_by audit_lib sample_key (tables s)" "audit_log (tables s) = []" using sample_bootstrap [of sample_key] by blast
  obtain sealed where seal: "hpke_seal audit_lib [] (ak_pub k) (ak_key_id k) HPKE_INFO ''alice'' = Inr sealed"
    by (simp add: hpke_seal_def audit_lib_def sample_lib_def)
  then obtain au where au: "log_entry audit_lib [] 9 ''auth.login'' ''alice'' s = (Returned (Inr ()), au)" "faults au = []"
    using log_entry_no_faults [OF s(1,3,2)] by blast
  obtain row where row: "audit_log (tables au) = [row]" "lr_sealed row = sealed" "keys_row (tables au) = Some k"
    using au(1) s(3) by (cases rule: log_entry_cases) (use s seal in auto)
  obtain seed sk where sk: "keys_ok k" "gen_keypair audit_lib seed = (sk, ak_pub k)" "committing_open audit_lib sample_key (ak_wrapped_priv k) = Inr sk"
    using s(2,4) by (auto simp: readable_by_def)
  have lim: "sql_limit 100 (rev (audit_log (tables au))) = [row]" by (simp add: row(1) sql_limit_def)
  have u: "utf8_valid ''alice''" by (simp add: utf8_valid_ascii)
  let ?e = "\<lparr>ae_seq = lr_seq row, ae_at = lr_at row, ae_action = lr_action row, ae_detail = ''alice''\<rparr>"
  have "read_recent audit_lib sample_key 100 au = (Returned (Inr [?e]), au)"
    by (rule read_recent_single [OF audit_lib_correct(2) au(2) row(3) sk lim seal [folded row(2)] u])
  then have "read_recent (ev_crypto sample_env) (as_wrap_key \<lparr>as_admin_id = 1, as_wrap_key = sample_key, as_must_change = False,
      as_mfa_pending = True, as_last_seen = 0\<rparr>) 100 (st_audit (sample_state True au)) = (Returned (Inr [?e]), au)"
    by simp
  note both = audit_log_skips_gate [OF sample_bearer sample_live _ this]
  have "gated ReqListDomains" by simp
  with both show ?thesis by (intro exI [of _ au] exI [of _ ?e]) (simp del: route.simps)
qed

lemma h_log_no_keys:
  assumes "keys_row (tables (st_audit s)) = None" and "faults (st_audit s) = []"
  shows "h_log ev action detail s = (Returned (Inr ()), s)"
  using assms by (simp add: h_log_def log_entry_def load_keys_def proc_bind_def lift_op_def proc_return_def)

lemma sample_state_simps [simp]:
  "faults (st_admin (sample_state pending au)) = []"
  "admin_by_id 1 (tables (st_admin (sample_state pending au))) = Some (sample_admin pending)"
  "sessions (st_sessions (sample_state pending au)) ''tok'' =
     Some \<lparr>as_admin_id = 1, as_wrap_key = sample_key, as_must_change = False, as_mfa_pending = pending, as_last_seen = 0\<rparr>"
  "throttle_check now key (st_throttle (sample_state pending au)) = Inr ()"
  by (simp_all add: sample_state_def admin_by_id_def tbl_get_def sample_admin_def throttle_check_def throttle_new_def)

theorem second_factor_enforced_witness:
  "\<exists>s' sess'. route sample_env (Some ''Bearer tok'') (ReqMfaVerify ''code'') (sample_state True empty_audit) =
      (Returned (Inr (RMfaVerify False)), s') \<and>
    sessions (st_sessions s') ''tok'' = Some sess' \<and> \<not> as_mfa_pending sess' \<and>
    (\<exists>row. admin_by_id 1 (tables (st_admin (sample_state True empty_audit))) = Some row \<and>
       proves_second_factor sample_env row sample_key ''code'')"
proof -
  let ?s = "sample_state True empty_audit" and ?now = "ev_now sample_env"
  let ?s1 = "?s\<lparr>st_sessions := touched ?now ''tok'' (st_sessions ?s)\<rparr>"
  note reads = h_bind_sessions [OF registry_reads(1)] h_bind_sessions [OF registry_reads(2)]
    h_bind_sessions [OF registry_reads(3)] h_bind_sessions [OF registry_reads(4)]
  have user: "username_for_id 1 (st_admin ?s) = (Inr (Some ''root''), st_admin ?s)"
    by (simp add: username_for_id_def sample_admin_def)
  have secret: "totp_secret audit_lib 1 sample_key (st_admin ?s) = (Inr None, st_admin ?s)"
    by (simp add: totp_secret_def op_bind_def op_result_def sample_admin_def)
  have codes: "recovery_codes (ev_unjson sample_env) 1 (st_admin ?s) = (Inr [''code''], st_admin ?s)"
    by (simp add: recovery_codes_def op_bind_def op_result_def sample_admin_def sample_env_def)
  have found: "match_recovery_code sample_mfa ''code'' [''code''] = Some 0"
    by (simp add: match_recovery_code_def hash_recovery_code_def sample_mfa_def)
  obtain d where d: "set_recovery_codes (ev_json sample_env) 1 [] (st_admin ?s) = (Inr (), d)"
    by (simp add: set_recovery_codes_def)
  have factor: "second_factor sample_env 1 sample_key ''root'' ''code'' ?s1 = (Returned (Inr (True, True)), ?s1\<lparr>st_admin := d\<rparr>)"
    using secret codes found d
    by (simp add: second_factor_def h_bind_def h_admin_def lift_op_def h_return_def vec_remove_def)
  let ?s2 = "?s1\<lparr>st_admin := d, st_throttle := record_success (mfa_throttle_key 1) (st_throttle ?s1)\<rparr>"
  obtain reg where reg: "complete_mfa ?now ''tok'' 1 (st_sessions ?s1) = (True, reg)"
    and fin: "\<exists>se. sessions reg ''tok'' = Some se \<and> \<not> as_mfa_pending se"
    by (simp add: complete_mfa_def touched_session)
  have "finish_mfa sample_env ''tok'' 1 ''root'' (mfa_throttle_key 1) (True, True) (?s1\<lparr>st_admin := d\<rparr>) =
      (Returned (Inr (RMfaVerify False)), ?s2\<lparr>st_sessions := reg\<rparr>)"
    using reg by (simp add: finish_mfa_def h_throttle_def h_bind_ok reads h_bind_sessions h_log_no_keys h_return_def
        empty_audit_def)
  then have run: "route sample_env (Some ''Bearer tok'') (ReqMfaVerify ''code'') ?s =
      (Returned (Inr (RMfaVerify False)), ?s2\<lparr>st_sessions := reg\<rparr>)"
    using user factor
    by (simp add: mfa_verify_handler_def reads Let_def h_bind_admin lift_op_def h_bind_ok)
  obtain se where se: "sessions reg ''tok'' = Some se" "\<not> as_mfa_pending se" using fin by blast
  have "hex_encode (ev_mfa sample_env) (ev_random sample_env) \<noteq> ''tok''"
    by (simp add: sample_env_def sample_mfa_def sample_nonce_def numeral_eq_Suc)
  from second_factor_enforced [OF run this] se run show ?thesis by (fastforce simp del: route.simps)
qed

lemma sample_derive: "derive_pk audit_lib ''correct horse'' (aw_salt (sample_admin b)) (ev_argon2 sample_env) = Inr sample_key"
  by (simp add: derive_pk_def audit_lib_def sample_lib_def sample_admin_def sample_key_def)

lemma sample_verify_login:
  "\<exists>a. verify_login audit_lib ''root'' ''correct horse'' (ev_argon2 sample_env) (st_admin (sample_state False au)) =
     (Inr (Some (a, sample_key)), st_admin (sample_state False au))"
proof -
  have "find (\<lambda>r. aw_username r = ''root'') (admins (tables (st_admin (sample_state False au)))) = Some (sample_admin False)"
    "length (aw_salt (sample_admin False)) = SALT_LEN" "aw_derived_key (sample_admin False) = sample_key"
    by (simp_all add: sample_state_def sample_admin_def SALT_LEN_def)
  then show ?thesis using sample_derive [of False]
    by (simp add: verify_login_def op_bind_def op_result_def)
qed

lemma sample_rekey:
  "\<exists>key d. rekey sample_env 1 ''root'' ''correct horse'' ''battery staple'' (st_admin (sample_state False au)) = (Inr (Some (sample_key, key)), d) \<and>
     faults d = [] \<and> admin_by_id 1 (tables d) =
       Some ((sample_admin False)\<lparr>aw_salt := ev_salt sample_env, aw_derived_key := key, aw_must_change := False\<rparr>)"
proof -
  obtain a where "verify_login audit_lib ''root'' ''correct horse'' (ev_argon2 sample_env) (st_admin (sample_state False au)) =
     (Inr (Some (a, sample_key)), st_admin (sample_state False au))" using sample_verify_login by blast
  moreover obtain key where "derive_pk audit_lib ''battery staple'' (ev_salt sample_env) (ev_argon2 sample_env) = Inr key"
    by (simp add: derive_pk_def audit_lib_def sample_lib_def)
  ultimately show ?thesis
    by (simp add: rekey_def op_bind_def op_result_def change_password_def admin_by_id_update)
qed

theorem password_change_not_atomic_witness:
  "\<exists>s' row. change_password_handler sample_env (Some ''Bearer tok'') ''correct horse'' ''battery staple''
       (sample_state False (empty_audit\<lparr>faults := [Some ''disk I/O error'']\<rparr>)) = (Returned (Inl INTERNAL_SERVER_ERROR), s') \<and>
     admin_by_id 1 (tables (st_admin s')) = Some row \<and>
     derive_pk audit_lib ''battery staple'' (aw_salt row) (ev_argon2 sample_env) = Inr (aw_derived_key row) \<and>
     tables (st_audit s') = tables empty_audit"
proof -
  let ?au = "empty_audit\<lparr>faults := [Some ''disk I/O error'']\<rparr>"
  obtain key d where d: "rekey sample_env 1 ''root'' ''correct horse'' ''battery staple'' (st_admin (sample_state False ?au)) =
     (Inr (Some (sample_key, key)), d)" using sample_rekey by blast
  have user: "username_for_id 1 (st_admin (sample_state False ?au)) = (Inr (Some ''root''), st_admin (sample_state False ?au))"
    by (simp add: username_for_id_def sample_admin_def)
  obtain e au where "rewrap_audit_key audit_lib sample_nonce sample_key key ?au = (Returned (Inl e), au)"
    by (simp add: rewrap_audit_key_def proc_bind_def lift_op_def db_stmt_def empty_audit_def)
  with password_change_not_atomic [OF _ sample_bearer sample_live, of "''battery staple''" False ?au "''root''"
      "st_admin (sample_state False ?au)" "''correct horse''" sample_key key d e au] d user
  show ?thesis by auto
qed

theorem password_change_complete_witness:
  "\<exists>au s' row'. change_password_handler sample_env (Some ''Bearer tok'') ''correct horse'' ''battery staple''
       (sample_state False au) = (Returned (Inr RNoContent), s') \<and>
     admin_by_id 1 (tables (st_admin s')) = Some row' \<and>
     derive_pk audit_lib ''battery staple'' (aw_salt row') (ev_argon2 sample_env) = Inr (aw_derived_key row') \<and>
     readable_by audit_lib (aw_derived_key row') (tables (st_audit s'))"
proof -
  obtain au :: audit_db and k where au: "faults au = []" "keys_row (tables au) = Some k" "audit_ok audit_lib (tables au)"
    "readable_by audit_lib sample_key (tables au)" using sample_bootstrap [of sample_key] by blast
  let ?s = "sample_state False au" and ?now = "ev_now sample_env"
  obtain key d where d: "rekey sample_env 1 ''root'' ''correct horse'' ''battery staple'' (st_admin ?s) = (Inr (Some (sample_key, key)), d)"
    "faults d = []" "admin_by_id 1 (tables d) =
       Some ((sample_admin False)\<lparr>aw_salt := ev_salt sample_env, aw_derived_key := key, aw_must_change := False\<rparr>)"
    using sample_rekey by blast
  have user: "username_for_id 1 (st_admin ?s) = (Inr (Some ''root''), st_admin ?s)"
    by (simp add: username_for_id_def sample_admin_def)
  from au(2,4) obtain sk where sk: "committing_open audit_lib sample_key (ak_wrapped_priv k) = Inr sk" by (auto simp: readable_by_def)
  obtain au1 where au1: "rewrap_audit_key audit_lib sample_nonce sample_key key au = (Returned (Inr ()), au1)" "faults au1 = []"
    using au(1,2) sk by (simp add: rewrap_audit_key_def proc_bind_def proc_return_def proc_pan_def lift_op_def
        committing_seal_def audit_lib_def sample_lib_def)
  have totp: "rewrap_totp_secret audit_lib sample_nonce 1 sample_key key d = (Returned (Inr ()), d)"
    using d(2,3) by (simp add: rewrap_totp_secret_def proc_bind_def lift_op_def sample_admin_def proc_return_def)
  obtain reg where reg: "complete_password_change ?now ''tok'' 1 key (touched ?now ''tok'' (st_sessions ?s)) = (True, reg)"
    by (simp add: complete_password_change_def touched_session)
  have ok1: "audit_ok audit_lib (tables au1)" by (rule rewrap_audit_key_ok [OF au1(1) au(3)])
  obtain k1 where k1: "keys_row (tables au1) = Some k1" using au1(1) by (cases rule: rewrap_audit_key_cases) auto
  obtain sealed where "hpke_seal audit_lib [] (ak_pub k1) (ak_key_id k1) HPKE_INFO ''root'' = Inr sealed"
    by (simp add: hpke_seal_def audit_lib_def sample_lib_def)
  then obtain au2 where au2: "log_entry audit_lib [] 9 ''admin.password_change'' ''root'' au1 = (Returned (Inr ()), au2)"
    using log_entry_no_faults [OF au1(2) ok1 k1] by blast
  note reads = h_bind_sessions [OF registry_reads(1)] h_bind_sessions [OF registry_reads(4)]
  have "\<exists>s'. change_password_handler sample_env (Some ''Bearer tok'') ''correct horse'' ''battery staple'' ?s = (Returned (Inr RNoContent), s')"
    using d(1) user au1(1) totp reg au2
    by (simp add: change_password_handler_def reads apply_password_change_def adopt_wrap_key_def h_bind_admin h_bind_audit
        lift_op_def h_bind_sessions h_bind_log h_return_def)
  then obtain s' where run: "change_password_handler sample_env (Some ''Bearer tok'') ''correct horse'' ''battery staple'' ?s =
    (Returned (Inr RNoContent), s')" by blast
  have "admin_ok (tables (st_admin ?s))" by (simp add: admin_ok_def sample_state_def)
  from password_change_complete [OF run this] au(3,4) audit_lib_correct(1) run show ?thesis
    by (fastforce simp: sample_admin_def)
qed

theorem stored_key_opens_audit_witness:
  "\<exists>s' row. admin_bootstrap sample_env sample_keys (Some (''root'', ''correct horse''))
      \<lparr>st_admin = empty_admin, st_auth = empty_auth, st_audit = empty_audit, st_sessions = registry_new 1800,
       st_throttle = throttle_new 1 60\<rparr> = (Returned Continued, s') \<and>
    admins (tables (st_admin s')) = [row] \<and> readable_by audit_lib (aw_derived_key row) (tables (st_audit s'))"
proof -
  let ?s = "\<lparr>st_admin = empty_admin, st_auth = empty_auth, st_audit = empty_audit, st_sessions = registry_new 1800,
       st_throttle = throttle_new 1 60\<rparr>"
  obtain pk where pk: "derive_pk audit_lib ''correct horse'' (ev_salt sample_env) (ev_argon2 sample_env) = Inr pk"
    by (simp add: derive_pk_def audit_lib_def sample_lib_def)
  obtain d where b: "bootstrap audit_lib (ev_salt sample_env) 9 ''root'' ''correct horse'' (ev_argon2 sample_env) empty_admin = (Inr (Some pk), d)"
    "admins (tables d) \<noteq> []"
    using pk by (simp add: bootstrap_def has_admin_def insert_admin_def op_bind_def op_result_def empty_admin_def tbl_insert_def)
  obtain sk pub where kp: "gen_keypair audit_lib (kr_audit sample_keys) = (sk, pub)" by fastforce
  obtain w where w: "committing_seal audit_lib (kr_nonce sample_keys) pk 1 sk = Returned w"
    by (simp add: committing_seal_def audit_lib_def sample_lib_def)
  have "length (kr_chain sample_keys) = 32" by (simp add: sample_keys_def)
  with kp w obtain au where au: "bootstrap_keys audit_lib sample_keys 9 pk empty_audit = (Returned (Inr ()), au)" "keys_row (tables au) \<noteq> None"
    by (simp add: bootstrap_keys_def has_keys_def proc_bind_def lift_op_def proc_pan_def copy_array_def Let_def empty_audit_def)
  have has: "has_admin empty_admin = (Inr False, empty_admin)" by (simp add: has_admin_def empty_admin_def)
  have run: "admin_bootstrap sample_env sample_keys (Some (''root'', ''correct horse'')) ?s = (Returned Continued, ?s\<lparr>st_admin := d, st_audit := au\<rparr>)"
    using has b(1) au(1) by (simp add: admin_bootstrap_def insecure_bootstrap_password_def)
  from stored_key_opens_audit [OF run] b(2) au(2) audit_lib_correct run show ?thesis
    by (auto simp: empty_admin_def empty_audit_def)
qed

end
