(* ===== verification/Command_Session.thy ===== *)
theory Command_Session
  imports Smtp_Wire
begin

text \<open>
  What the command loops of the two SMTP servers have in common: a loop that reads a command, runs it, and goes
  on, with the outcome of the command deciding whether it goes on. The locale \<open>command_session\<close> is the contract
  of one iteration (it consumes input when it goes on, and it keeps an invariant and a relation to the
  state before it); its lemmas say that the loop ends and what holds then. Both servers interpret it.
\<close>

datatype 'o step = Next | Done 'o

text \<open>The state after a number of commands that all went on.\<close>

fun rounds :: "('w \<Rightarrow> 'o step \<times> 'w) \<Rightarrow> nat \<Rightarrow> 'w \<Rightarrow> 'w option" where
  "rounds step 0 w = Some w"
| "rounds step (Suc n) w = (case step w of (Next, w') \<Rightarrow> rounds step n w' | (Done out, w') \<Rightarrow> None)"

lemma rounds_snoc: "rounds step n w = Some v \<Longrightarrow> step v = (Next, v') \<Longrightarrow> rounds step (Suc n) w = Some v'"
proof (induction n arbitrary: w)
  case (Suc n)
  then obtain u where u: "step w = (Next, u)" "rounds step n u = Some v" by (auto split: prod.splits step.splits)
  from Suc.IH [OF u(2) Suc.prems(2)] u(1) show ?case by simp
qed simp

locale command_session =
  fixes step :: "'w \<Rightarrow> 'o step \<times> 'w"
    and loop :: "'w \<Rightarrow> 'o \<times> 'w"
    and todo :: "'w \<Rightarrow> nat"
    and inv :: "'w \<Rightarrow> bool"
    and rel :: "'w \<Rightarrow> 'w \<Rightarrow> bool"
  assumes loop_unfold: "loop w = (case step w of (Next, w') \<Rightarrow> loop w' | (Done o', w') \<Rightarrow> (o', w'))"
    and step_consumes: "step w = (Next, w') \<Longrightarrow> todo w' < todo w"
    and step_inv: "inv w \<Longrightarrow> step w = (r, w') \<Longrightarrow> inv w'"
    and step_rel: "inv w \<Longrightarrow> step w = (r, w') \<Longrightarrow> rel w w'"
    and rel_refl: "rel w w"
    and rel_trans: "rel u v \<Longrightarrow> rel v w \<Longrightarrow> rel u w"
begin

lemma loop_keeps:
  assumes "inv w" and "loop w = (out, w')"
  shows "inv w' \<and> rel w w'"
  using assms
proof (induction "todo w" arbitrary: w rule: less_induct)
  case less
  obtain r v where st: "step w = (r, v)" by fastforce
  have v: "inv v" "rel w v" using step_inv step_rel less.prems(1) st by blast+
  show ?case
  proof (cases r)
    case Next
    then have "loop v = (out, w')" using less.prems(2) st by (subst (asm) loop_unfold) simp
    from less.hyps [OF step_consumes [OF st [unfolded Next]] v(1) this] v(2) show ?thesis using rel_trans by blast
  next
    case (Done o')
    then have "w' = v" using less.prems(2) st by (subst (asm) loop_unfold) simp
    with v show ?thesis by simp
  qed
qed

text \<open>The loop ends after at most as many commands as there is input, with the outcome of a step taken in a state
  that satisfies the invariant.\<close>

lemma loop_rounds:
  assumes "inv w"
  shows "\<exists>n v out w'. n \<le> todo w \<and> rounds step n w = Some v \<and> inv v \<and> rel w v \<and> step v = (Done out, w') \<and> loop w = (out, w')"
  using assms
proof (induction "todo w" arbitrary: w rule: less_induct)
  case less
  obtain r v where st: "step w = (r, v)" by fastforce
  have v: "inv v" "rel w v" using step_inv step_rel less.prems st by blast+
  show ?case
  proof (cases r)
    case Next
    have lt: "todo v < todo w" by (rule step_consumes [OF st [unfolded Next]])
    obtain n u out w' where u: "n \<le> todo v" "rounds step n v = Some u" "inv u" "rel v u" "step u = (Done out, w')" "loop v = (out, w')"
      using less.hyps [OF lt v(1)] by blast
    have "loop w = (out, w')" by (subst loop_unfold) (simp add: st Next u(6))
    moreover have "rounds step (Suc n) w = Some u" "Suc n \<le> todo w" using st Next u(1,2) lt by simp_all
    ultimately show ?thesis using u(3,5) rel_trans [OF v(2) u(4)] by blast
  next
    case (Done out)
    have "loop w = (out, v)" by (subst loop_unfold) (simp add: st Done)
    moreover have "rounds step 0 w = Some w" by simp
    ultimately show ?thesis using st Done less.prems rel_refl by blast
  qed
qed

text \<open>What every command of this very run keeps, the loop keeps: the commands may be judged by the states of the run
  they are taken in.\<close>

lemma loop_traced:
  assumes "loop w = (out, w')" and "P w"
    and "\<And>n v r v'. rounds step n w = Some v \<Longrightarrow> P v \<Longrightarrow> step v = (r, v') \<Longrightarrow> P v'"
  shows "P w'"
proof -
  have "P w'" if "rounds step n w = Some v" "P v" "loop v = (out, w')" for n v
    using that
  proof (induction "todo v" arbitrary: v n rule: less_induct)
    case less
    obtain r u where st: "step v = (r, u)" by fastforce
    have u: "P u" by (rule assms(3) [OF less.prems(1,2) st])
    show ?case
    proof (cases r)
      case Next
      have "loop u = (out, w')" using less.prems(3) st Next by (subst (asm) loop_unfold) simp
      with less.hyps [OF step_consumes [OF st [unfolded Next]] rounds_snoc [OF less.prems(1) st [unfolded Next]] u] show ?thesis .
    next
      case (Done o')
      then have "w' = u" using less.prems(3) st by (subst (asm) loop_unfold) simp
      with u show ?thesis by simp
    qed
  qed
  from this [of 0 w] assms(1,2) show ?thesis by simp
qed

lemma rounds_keep:
  assumes "inv w" and "rounds step n w = Some v"
  shows "inv v \<and> rel w v"
  using assms
proof (induction n arbitrary: w)
  case (Suc n)
  then obtain u where u: "step w = (Next, u)" "rounds step n u = Some v" by (auto split: prod.splits step.splits)
  have "inv u" "rel w u" using step_inv step_rel Suc.prems(1) u(1) by blast+
  with Suc.IH [OF _ u(2)] rel_trans show ?case by blast
qed (simp add: rel_refl)

end

end
