(* ===== verification/Smtp_In.thy ===== *)
theory Smtp_In
  imports Change_Notifier Delivery Audit_Log Admin_Store Scanner Command_Session "HOL-Library.Sublist"
begin

text \<open>
  The inbound SMTP session (\<open>smtp-in/src/session.rs\<close>): greeting, EHLO, STARTTLS, MAIL, RCPT, DATA and the rest,
  over a connection with arbitrary segmentation and failures, the account, domain, mail and audit stores, the
  content scanner and the change notifier.

  \<open>smtp_deps\<close> holds what a session does not change: the configuration and the libraries. The clock, the random
  values and the answers of the scanner daemons may differ from call to call, so they are functions of a counter
  (\<open>w_tick\<close>) that every use advances. SPF, DKIM and DMARC evaluation is the \<open>mail-auth\<close> crate's (\<open>mail_auth_lib\<close>).
  A panic ends the session's task: the outcome \<open>Crashed\<close>.
\<close>

section \<open>Session state\<close>

record resolved_recipient =
  rr_address :: string
  rr_account_id :: int
  rr_account_pub :: bytes
  rr_account_key_id :: "16 word"

record envelope =
  e_helo_domain :: "string option"
  e_mail_from :: "string option"
  e_rcpt_to :: "resolved_recipient list"

definition envelope_default :: envelope where
  "envelope_default = \<lparr>e_helo_domain = None, e_mail_from = None, e_rcpt_to = []\<rparr>"

definition envelope_reset :: "envelope \<Rightarrow> envelope" where
  "envelope_reset e = e\<lparr>e_mail_from := None, e_rcpt_to := []\<rparr>"

datatype loop_outcome = Closed | StartTls | Crashed

record mail_auth_lib =
  ma_spf :: "string \<Rightarrow> string \<Rightarrow> string \<Rightarrow> string \<Rightarrow> string"
  ma_parses :: "bytes \<Rightarrow> bool"
  ma_dkim :: "bytes \<Rightarrow> bool list"
  ma_dmarc :: "bytes \<Rightarrow> string \<Rightarrow> string \<Rightarrow> string"

record smtp_deps =
  sd_hostname :: string
  sd_max_message_size :: nat
  sd_tls_acceptor :: bool
  sd_mail :: mail_lib
  sd_scanner :: scanner
  sd_scan_lib :: "nat \<Rightarrow> scan_lib"
  sd_authenticator :: "nat \<Rightarrow> mail_auth_lib"
  sd_unix :: "nat \<Rightarrow> int"
  sd_seal_random :: "nat \<Rightarrow> seal_random"
  sd_log_random :: "nat \<Rightarrow> bytes"

record smtp_world =
  w_conn :: conn
  w_env :: envelope
  w_auth :: auth_db
  w_admin :: admin_db
  w_mail :: mail_store
  w_audit :: audit_db
  w_notifier :: change_notifier
  w_tick :: nat

definition reply :: "nat \<Rightarrow> string \<Rightarrow> smtp_world \<Rightarrow> bool \<times> smtp_world" where
  "reply code msg w = (let (sent_ok, c) = write_reply code msg (w_conn w) in (sent_ok, w\<lparr>w_conn := c\<rparr>))"

text \<open>\<open>let _ = write_reply(...)\<close>, then on to the next command.\<close>

definition answer :: "nat \<Rightarrow> string \<Rightarrow> smtp_world \<Rightarrow> loop_outcome step \<times> smtp_world" where
  "answer code msg w = (Next, snd (reply code msg w))"

definition reset :: "smtp_world \<Rightarrow> smtp_world" where
  "reset w = w\<lparr>w_env := envelope_reset (w_env w)\<rparr>"

definition audit_note :: "smtp_deps \<Rightarrow> string \<Rightarrow> string \<Rightarrow> smtp_world \<Rightarrow> unit pan \<times> smtp_world" where
  "audit_note D action detail w =
     (case log_entry (ml_crypto (sd_mail D)) (sd_log_random D (w_tick w)) (sd_unix D (w_tick w)) action detail (w_audit w) of
        (Panicked, d) \<Rightarrow> (Panicked, w\<lparr>w_audit := d, w_tick := Suc (w_tick w)\<rparr>)
      | (Returned _, d) \<Rightarrow> (Returned (), w\<lparr>w_audit := d, w_tick := Suc (w_tick w)\<rparr>))"

fun audit_warnings :: "smtp_deps \<Rightarrow> string list \<Rightarrow> smtp_world \<Rightarrow> unit pan \<times> smtp_world" where
  "audit_warnings D [] w = (Returned (), w)"
| "audit_warnings D (warning # rest) w =
     (case audit_note D ''smtp.scan_unreachable'' warning w of
        (Panicked, w') \<Rightarrow> (Panicked, w')
      | (Returned _, w') \<Rightarrow> audit_warnings D rest w')"

section \<open>Recipients and delivery\<close>

definition find_account :: "string \<Rightarrow> string \<Rightarrow> smtp_world \<Rightarrow> account option result pan \<times> smtp_world" where
  "find_account lp dn w = (let (r, d) = find_by_address lp dn (w_auth w) in (r, w\<lparr>w_auth := d\<rparr>))"

definition resolved :: "string \<Rightarrow> account \<Rightarrow> resolved_recipient" where
  "resolved addr a = \<lparr>rr_address = addr, rr_account_id = acc_id a, rr_account_pub = acc_pub a, rr_account_key_id = acc_key_id a\<rparr>"

definition resolve_recipient :: "string \<Rightarrow> smtp_world \<Rightarrow> resolved_recipient option pan \<times> smtp_world" where
  "resolve_recipient addr w =
     (case rsplit_once (CHR ''@'') addr of
        None \<Rightarrow> (Returned None, w)
      | Some (lp, dn) \<Rightarrow>
          (case find_account lp dn w of
             (Panicked, w1) \<Rightarrow> (Panicked, w1)
           | (Returned (Inl _), w1) \<Rightarrow> (Returned None, w1)
           | (Returned (Inr (Some a)), w1) \<Rightarrow> (Returned (Some (resolved addr a)), w1)
           | (Returned (Inr None), w1) \<Rightarrow>
               (let (r, d) = get_domain_by_name dn (w_admin w1); w2 = w1\<lparr>w_admin := d\<rparr> in
                case Option.bind (Option.bind (ok r) (\<lambda>x. x)) dom_catch_all of
                  None \<Rightarrow> (Returned None, w2)
                | Some ca \<Rightarrow>
                    (case find_account ca dn w2 of
                       (Panicked, w3) \<Rightarrow> (Panicked, w3)
                     | (Returned (Inr (Some a)), w3) \<Rightarrow> (Returned (Some (resolved addr a)), w3)
                     | (Returned _, w3) \<Rightarrow> (Returned None, w3)))))"

definition run_auth_checks :: "smtp_deps \<Rightarrow> envelope \<Rightarrow> string \<Rightarrow> bytes \<Rightarrow> nat \<Rightarrow> auth_results" where
  "run_auth_checks D e remote raw tick =
     (let helo = (case e_helo_domain e of Some h \<Rightarrow> h | None \<Rightarrow> []);
          from = (case e_mail_from e of Some f \<Rightarrow> f | None \<Rightarrow> []);
          ma = sd_authenticator D tick;
          spf = ml_lowercase (sd_mail D) (ma_spf ma remote helo (sd_hostname D) from)
      in
      if \<not> ma_parses ma raw then \<lparr>ar_spf = spf, ar_dkim = ''none'', ar_dmarc = ''none''\<rparr>
      else
        let dkim_outputs = ma_dkim ma raw;
            dkim = (if dkim_outputs = [] then ''none'' else if list_ex (\<lambda>p. p) dkim_outputs then ''pass'' else ''fail'');
            from_domain = (case rsplit_once (CHR ''@'') from of Some (_, d) \<Rightarrow> d | None \<Rightarrow> helo)
        in \<lparr>ar_spf = spf, ar_dkim = dkim,
            ar_dmarc = ml_lowercase (sd_mail D) (ma_dmarc ma raw from_domain (ma_spf ma remote helo (sd_hostname D) from))\<rparr>)"

definition deliver_one ::
    "smtp_deps \<Rightarrow> string \<Rightarrow> resolved_recipient \<Rightarrow> auth_results \<Rightarrow> bytes \<Rightarrow> int \<Rightarrow> string option \<Rightarrow> scan_metadata \<Rightarrow>
     smtp_world \<Rightarrow> unit result pan \<times> smtp_world" where
  "deliver_one D remote rcpt results raw rcvd spam_reason meta w =
     (let inbound = \<lparr>env_mail_from = (case e_mail_from (w_env w) of Some f \<Rightarrow> f | None \<Rightarrow> []),
            env_rcpt_to = rr_address rcpt, env_remote_ip = remote\<rparr>;
          account = \<lparr>ra_id = rr_account_id rcpt, ra_account_pub = rr_account_pub rcpt, ra_key_id = rr_account_key_id rcpt\<rparr>;
          (r, s) = deliver (sd_mail D) (sd_seal_random D (w_tick w)) account inbound results raw rcvd spam_reason meta (w_mail w);
          w1 = w\<lparr>w_mail := s, w_tick := Suc (w_tick w)\<rparr>
      in case r of
           Panicked \<Rightarrow> (Panicked, w1)
         | Returned (Inl e) \<Rightarrow> (Returned (Inl e), w1)
         | Returned (Inr _) \<Rightarrow> (Returned (Inr ()), w1\<lparr>w_notifier := notify (ra_id account) (w_notifier w1)\<rparr>))"

text \<open>The loop over the recipients: whether any delivery succeeded.\<close>

fun deliver_all ::
    "smtp_deps \<Rightarrow> string \<Rightarrow> auth_results \<Rightarrow> bytes \<Rightarrow> int \<Rightarrow> string option \<Rightarrow> scan_metadata \<Rightarrow> bool \<Rightarrow>
     resolved_recipient list \<Rightarrow> smtp_world \<Rightarrow> bool pan \<times> smtp_world" where
  "deliver_all D remote results raw rcvd spam_reason meta delivered_any [] w = (Returned delivered_any, w)"
| "deliver_all D remote results raw rcvd spam_reason meta delivered_any (rcpt # rest) w =
     (case deliver_one D remote rcpt results raw rcvd spam_reason meta w of
        (Panicked, w') \<Rightarrow> (Panicked, w')
      | (Returned r, w') \<Rightarrow>
          deliver_all D remote results raw rcvd spam_reason meta (delivered_any \<or> is_ok r) rest w')"

section \<open>Commands\<close>

definition helo_command :: "smtp_deps \<Rightarrow> bool \<Rightarrow> string \<Rightarrow> string \<Rightarrow> smtp_world \<Rightarrow> loop_outcome step \<times> smtp_world" where
  "helo_command D is_tls verb rest w =
     (let dn = trim rest in
      if \<not> valid_helo_domain dn then answer 501 ''Syntax error in parameters'' w
      else
        let w1 = reset (w\<lparr>w_env := (w_env w)\<lparr>e_helo_domain := Some dn\<rparr>\<rparr>);
            lines = (sd_hostname D @ '' Hello'') #
              (if eq_ignore_ascii_case verb ''EHLO''
               then [''SIZE '' @ show_nat (sd_max_message_size D), ''8BITMIME'', ''SMTPUTF8''] @
                    (if \<not> is_tls \<and> sd_tls_acceptor D then [''STARTTLS''] else [])
               else []);
            (sent_ok, c) = write_multiline_reply 250 lines (w_conn w1)
        in (if sent_ok then Next else Done Closed, w1\<lparr>w_conn := c\<rparr>))"

definition starttls_command :: "smtp_deps \<Rightarrow> bool \<Rightarrow> string \<Rightarrow> smtp_world \<Rightarrow> loop_outcome step \<times> smtp_world" where
  "starttls_command D is_tls rest w =
     (if is_tls then answer 503 ''Already using TLS'' w
      else if \<not> sd_tls_acceptor D then answer 502 ''STARTTLS not supported'' w
      else if rest \<noteq> [] then answer 501 ''Syntax error'' w
      else let (sent_ok, w') = reply 220 ''Go ahead'' w in (Done (if sent_ok then StartTls else Closed), w'))"

definition mail_command :: "string \<Rightarrow> smtp_world \<Rightarrow> loop_outcome step \<times> smtp_world" where
  "mail_command rest w =
     (if e_helo_domain (w_env w) = None then answer 503 ''Bad sequence of commands'' w
      else case parse_addr_param rest ''FROM:'' of
             Panicked \<Rightarrow> (Done Crashed, w)
           | Returned None \<Rightarrow> answer 501 ''Syntax error in parameters'' w
           | Returned (Some addr) \<Rightarrow>
               answer 250 ''OK'' (w\<lparr>w_env := (w_env w)\<lparr>e_mail_from := Some addr, e_rcpt_to := []\<rparr>\<rparr>))"

definition rcpt_command :: "string \<Rightarrow> smtp_world \<Rightarrow> loop_outcome step \<times> smtp_world" where
  "rcpt_command rest w =
     (if e_mail_from (w_env w) = None then answer 503 ''Bad sequence of commands'' w
      else if MAX_RECIPIENTS \<le> length (e_rcpt_to (w_env w)) then answer 452 ''Too many recipients'' w
      else case parse_addr_param rest ''TO:'' of
             Panicked \<Rightarrow> (Done Crashed, w)
           | Returned None \<Rightarrow> answer 501 ''Syntax error in parameters'' w
           | Returned (Some addr) \<Rightarrow>
               if \<not> valid_email_address addr then answer 501 ''Syntax error in parameters'' w
               else case resolve_recipient addr w of
                      (Panicked, w') \<Rightarrow> (Done Crashed, w')
                    | (Returned None, w') \<Rightarrow> answer 550 ''No such user here'' w'
                    | (Returned (Some r), w') \<Rightarrow>
                        answer 250 ''OK'' (w'\<lparr>w_env := (w_env w')\<lparr>e_rcpt_to := e_rcpt_to (w_env w') @ [r]\<rparr>\<rparr>))"

text \<open>A message that a scanner verdict turns away: the verdict is logged and the reply ignored.\<close>

definition turn_away :: "smtp_deps \<Rightarrow> string \<Rightarrow> string \<Rightarrow> nat \<Rightarrow> string \<Rightarrow> smtp_world \<Rightarrow> loop_outcome step \<times> smtp_world" where
  "turn_away D action reason code msg w =
     (case audit_note D action reason w of
        (Panicked, w') \<Rightarrow> (Done Crashed, w')
      | (Returned _, w') \<Rightarrow> (Next, reset (snd (reply code msg w'))))"

definition file_message ::
    "smtp_deps \<Rightarrow> string \<Rightarrow> bytes \<Rightarrow> string option \<Rightarrow> scan_metadata \<Rightarrow> smtp_world \<Rightarrow> loop_outcome step \<times> smtp_world" where
  "file_message D remote raw spam_reason meta w =
     (let results = run_auth_checks D (w_env w) remote raw (w_tick w);
          rcvd = sd_unix D (w_tick w)
      in case deliver_all D remote results raw rcvd spam_reason meta False (e_rcpt_to (w_env w)) (w\<lparr>w_tick := Suc (w_tick w)\<rparr>) of
           (Panicked, w') \<Rightarrow> (Done Crashed, w')
         | (Returned delivered_any, w') \<Rightarrow>
             (let (sent_ok, w'') =
                (if delivered_any then reply 250 ''OK: message accepted'' w'
                 else reply 451 ''Requested action aborted: local error in processing'' w')
              in if sent_ok then (Next, reset w'') else (Done Closed, w'')))"

definition scan_message :: "smtp_deps \<Rightarrow> string \<Rightarrow> bytes \<Rightarrow> smtp_world \<Rightarrow> scan_result" where
  "scan_message D remote raw w =
     scan (sd_scan_lib D (w_tick w)) (sd_scanner D)
       \<lparr>sq_remote_ip = remote, sq_helo = (case e_helo_domain (w_env w) of Some h \<Rightarrow> h | None \<Rightarrow> []),
        sq_mail_from = (case e_mail_from (w_env w) of Some f \<Rightarrow> f | None \<Rightarrow> []),
        sq_rcpt_to = map rr_address (e_rcpt_to (w_env w)), sq_raw_message = raw\<rparr>"

definition accept_message :: "smtp_deps \<Rightarrow> string \<Rightarrow> bytes \<Rightarrow> smtp_world \<Rightarrow> loop_outcome step \<times> smtp_world" where
  "accept_message D remote raw w =
     (let sr = scan_message D remote raw w in
      case audit_warnings D (sr_warnings sr) (w\<lparr>w_tick := Suc (w_tick w)\<rparr>) of
        (Panicked, w1) \<Rightarrow> (Done Crashed, w1)
      | (Returned _, w1) \<Rightarrow>
          (let meta = \<lparr>sm_spam_score = sr_spam_score sr, sm_av_clean = sr_av_clean sr\<rparr> in
           case sr_verdict sr of
             Reject reason \<Rightarrow> turn_away D ''smtp.scan_reject'' reason 550 ''Message rejected by content policy'' w1
           | Defer reason \<Rightarrow> turn_away D ''smtp.scan_defer'' reason 451 ''Requested action aborted: try again later'' w1
           | Spam reason \<Rightarrow> file_message D remote raw (Some reason) meta w1
           | Clean \<Rightarrow> file_message D remote raw None meta w1))"

definition data_command :: "smtp_deps \<Rightarrow> string \<Rightarrow> smtp_world \<Rightarrow> loop_outcome step \<times> smtp_world" where
  "data_command D remote w =
     (if e_mail_from (w_env w) = None \<or> e_rcpt_to (w_env w) = [] then answer 503 ''Bad sequence of commands'' w
      else case reply 354 ''Start mail input; end with <CRLF>.<CRLF>'' w of
             (False, w1) \<Rightarrow> (Done Closed, w1)
           | (True, w1) \<Rightarrow>
               (let (r, c) = read_data (sd_max_message_size D) (w_conn w1); w2 = w1\<lparr>w_conn := c\<rparr> in
                case r of
                  Inl TooLarge \<Rightarrow> (Done Closed, snd (reply 552 ''Message size exceeds fixed limit'' w2))
                | Inl IoError \<Rightarrow> (Done Closed, w2)
                | Inr raw \<Rightarrow> accept_message D remote raw w2))"

definition run_command :: "smtp_deps \<Rightarrow> bool \<Rightarrow> string \<Rightarrow> string \<Rightarrow> string \<Rightarrow> smtp_world \<Rightarrow> loop_outcome step \<times> smtp_world" where
  "run_command D is_tls remote verb rest w =
     (let v = to_ascii_uppercase verb in
      if v = ''EHLO'' \<or> v = ''HELO'' then helo_command D is_tls verb rest w
      else if v = ''STARTTLS'' then starttls_command D is_tls rest w
      else if v = ''MAIL'' then mail_command rest w
      else if v = ''RCPT'' then rcpt_command rest w
      else if v = ''DATA'' then data_command D remote w
      else if v = ''RSET'' then answer 250 ''OK'' (reset w)
      else if v = ''NOOP'' then answer 250 ''OK'' w
      else if v = ''QUIT'' then (Done Closed, snd (reply 221 ''Bye'' w))
      else answer 502 ''Command not implemented'' w)"

definition command_step :: "smtp_deps \<Rightarrow> bool \<Rightarrow> string \<Rightarrow> smtp_world \<Rightarrow> loop_outcome step \<times> smtp_world" where
  "command_step D is_tls remote w =
     (case read_line_bounded MAX_COMMAND_LINE (w_conn w) of
        (LineEof, c) \<Rightarrow> (Done Closed, w\<lparr>w_conn := c\<rparr>)
      | (LineError, c) \<Rightarrow> (Done Closed, snd (reply 500 ''Line too long'' (w\<lparr>w_conn := c\<rparr>)))
      | (Line line, c) \<Rightarrow>
          (let (verb, rest) = split_command (line_text line) in
           run_command D is_tls remote verb rest (w\<lparr>w_conn := c\<rparr>)))"

section \<open>What a command leaves alone\<close>

text \<open>The frame of a session step: input is only consumed, the account and domain tables do not change, and the
  replies that were sent stay clean if the host name is.\<close>

definition frame :: "smtp_deps \<Rightarrow> smtp_world \<Rightarrow> smtp_world \<Rightarrow> bool" where
  "frame D w w' \<longleftrightarrow> remaining (w_conn w') \<le> remaining (w_conn w) \<and> tables (w_auth w') = tables (w_auth w) \<and>
     tables (w_admin w') = tables (w_admin w) \<and>
     (clean_text (sd_hostname D) \<longrightarrow> clean_sent (w_conn w) \<longrightarrow> clean_sent (w_conn w'))"

lemma frame_refl [simp]: "frame D w w"
  by (simp add: frame_def)

lemma frame_trans: "frame D u v \<Longrightarrow> frame D v w \<Longrightarrow> frame D u w"
  by (auto simp: frame_def)

lemma frame_env [simp]:
  "frame D (w\<lparr>w_env := e\<rparr>) w' = frame D w w'" "frame D w (w'\<lparr>w_env := e\<rparr>) = frame D w w'"
  "frame D (w\<lparr>w_tick := t\<rparr>) w' = frame D w w'" "frame D w (w'\<lparr>w_tick := t\<rparr>) = frame D w w'"
  "frame D w (w'\<lparr>w_mail := m\<rparr>) = frame D w w'" "frame D w (w'\<lparr>w_audit := a\<rparr>) = frame D w w'"
  "frame D w (w'\<lparr>w_notifier := n\<rparr>) = frame D w w'"
  by (simp_all add: frame_def)

lemma frame_reset [simp]: "frame D w (reset w') = frame D w w'"
  by (simp add: reset_def)

text \<open>A step that also leaves the envelope and the mail store alone.\<close>

definition quiet :: "smtp_deps \<Rightarrow> smtp_world \<Rightarrow> smtp_world \<Rightarrow> bool" where
  "quiet D w w' \<longleftrightarrow> frame D w w' \<and> w_env w' = w_env w \<and> w_mail w' = w_mail w"

lemma quiet_refl [simp]: "quiet D w w"
  by (simp add: quiet_def)

lemma quiet_trans: "quiet D u v \<Longrightarrow> quiet D v w \<Longrightarrow> quiet D u w"
  using frame_trans by (auto simp: quiet_def)

lemma quietD: "quiet D w w' \<Longrightarrow> frame D w w'" "quiet D w w' \<Longrightarrow> w_env w' = w_env w" "quiet D w w' \<Longrightarrow> w_mail w' = w_mail w"
  by (simp_all add: quiet_def)

lemma reply_quiet:
  assumes "reply code msg w = (b, w')" and "100 \<le> code" and "code < 1000" and "clean_text msg"
  shows "quiet D w w'"
proof -
  obtain c where c: "write_reply code msg (w_conn w) = (b, c)" "w' = w\<lparr>w_conn := c\<rparr>"
    using assms(1) by (auto simp: reply_def split: prod.splits)
  show ?thesis
    using write_reply_effect [OF c(1)] assms(2-4) c(2) by (auto simp: quiet_def frame_def wrote_def)
qed

lemma answer_quiet:
  assumes "answer code msg w = (r, w')" and "100 \<le> code" and "code < 1000" and "clean_text msg"
  shows "quiet D w w'" and "r = Next"
  using assms(1) reply_quiet [OF _ assms(2-4), of w "fst (reply code msg w)" w' D] by (auto simp: answer_def)

lemma audit_note_quiet: "audit_note D action detail w = (r, w') \<Longrightarrow> quiet D w w'"
  by (auto simp: audit_note_def quiet_def split: prod.splits pan.splits)

lemma audit_warnings_quiet: "audit_warnings D warnings w = (r, w') \<Longrightarrow> quiet D w w'"
proof (induction warnings arbitrary: w)
  case (Cons a warnings)
  obtain q v where q: "audit_note D ''smtp.scan_unreachable'' a w = (q, v)" by fastforce
  note fr = audit_note_quiet [OF q]
  show ?case
  proof (cases q)
    case Panicked
    with Cons.prems q fr show ?thesis by simp
  next
    case (Returned u)
    with Cons.prems q have "audit_warnings D warnings v = (r, w')" by simp
    from Cons.IH [OF this] show ?thesis by (rule quiet_trans [OF fr])
  qed
qed simp

lemma find_account_quiet:
  assumes "find_account lp dn w = (r, w')" and "auth_ok (tables (w_auth w))"
  shows "quiet D w w'" and "r \<noteq> Panicked"
    and "r = Returned (Inr (Some a)) \<Longrightarrow> \<exists>row \<in> set (accounts (tables (w_auth w))). a = account_of row \<and>
      ar_local_part row = lp \<and> ar_domain row = to_ascii_lowercase dn"
proof -
  obtain d where d: "find_by_address lp dn (w_auth w) = (r, d)" "w' = w\<lparr>w_auth := d\<rparr>"
    using assms(1) by (auto simp: find_account_def split: prod.splits)
  note run = find_by_address_run [OF d(1) assms(2)]
  show "quiet D w w'" using run(1) d(2) by (simp add: quiet_def frame_def)
  show "r \<noteq> Panicked" by (rule run(2))
  show "r = Returned (Inr (Some a)) \<Longrightarrow> \<exists>row \<in> set (accounts (tables (w_auth w))). a = account_of row \<and>
      ar_local_part row = lp \<and> ar_domain row = to_ascii_lowercase dn" by (rule run(3))
qed

text \<open>An address the server takes mail for: its mailbox exists, or its domain is hosted and has a catch-all
  whose mailbox exists.\<close>

definition hosted :: "auth_tables \<Rightarrow> admin_tables \<Rightarrow> resolved_recipient \<Rightarrow> bool" where
  "hosted au ad r \<longleftrightarrow> valid_email_address (rr_address r) \<and>
     (\<exists>lp dn row. rsplit_once (CHR ''@'') (rr_address r) = Some (lp, dn) \<and> row \<in> set (accounts au) \<and>
        r = resolved (rr_address r) (account_of row) \<and> ar_domain row = to_ascii_lowercase dn \<and>
        (ar_local_part row = lp \<or>
         (\<exists>d \<in> set (domains ad). dw_name d = to_ascii_lowercase dn \<and> dw_catch_all d = Some (ar_local_part row))))"

lemma resolve_recipient_quiet:
  assumes "resolve_recipient addr w = (r, w')" and "auth_ok (tables (w_auth w))" and "valid_email_address addr"
  shows "quiet D w w'" and "r \<noteq> Panicked"
    and "r = Returned (Some rcpt) \<Longrightarrow> hosted (tables (w_auth w)) (tables (w_admin w)) rcpt"
proof -
  have "quiet D w w' \<and> r \<noteq> Panicked \<and> (\<forall>rcpt. r = Returned (Some rcpt) \<longrightarrow> hosted (tables (w_auth w)) (tables (w_admin w)) rcpt)"
  proof (cases "rsplit_once (CHR ''@'') addr")
    case None
    with assms(1) show ?thesis by (auto simp: resolve_recipient_def)
  next
    case (Some p)
    obtain lp dn where p: "p = (lp, dn)" by (cases p)
    obtain q w1 where q: "find_account lp dn w = (q, w1)" by fastforce
    note f1 = find_account_quiet [OF q assms(2)]
    have w1: "tables (w_auth w1) = tables (w_auth w)" "tables (w_admin w1) = tables (w_admin w)"
      using f1(1) [of D] by (simp_all add: quiet_def frame_def)
    obtain g d where g: "get_domain_by_name dn (w_admin w1) = (g, d)" by fastforce
    note gd = get_domain_by_name_run [OF g]
    let ?w2 = "w1\<lparr>w_admin := d\<rparr>"
    have q2: "quiet D w ?w2" using f1(1) [of D] gd(1) by (simp add: quiet_def frame_def)
    consider (none) e where "q = Returned (Inl e)" | (found) a where "q = Returned (Inr (Some a))" | (missing) "q = Returned (Inr None)"
      using f1(2) by (metis old.sum.exhaust option.exhaust pan.exhaust)
    then show ?thesis
    proof cases
      case none
      with assms(1) Some p q f1(1) [of D] show ?thesis by (auto simp: resolve_recipient_def)
    next
      case found
      with assms(1) Some p q have "w' = w1" "r = Returned (Some (resolved addr a))" by (auto simp: resolve_recipient_def)
      moreover obtain row where "row \<in> set (accounts (tables (w_auth w)))" "a = account_of row" "ar_local_part row = lp"
        "ar_domain row = to_ascii_lowercase dn" using f1(3) [OF found] by blast
      ultimately show ?thesis using f1(1) [of D] Some p assms(3) by (auto simp: hosted_def resolved_def)
    next
      case missing
      show ?thesis
      proof (cases "Option.bind (Option.bind (ok g) (\<lambda>x. x)) dom_catch_all")
        case None
        with assms(1) Some p q missing g q2 show ?thesis by (auto simp: resolve_recipient_def)
      next
        case ca: (Some ca)
        then obtain dm where dm: "g = Inr (Some dm)" "dom_catch_all dm = Some ca"
          by (auto simp: bind_eq_Some_conv)
        then obtain drow where drow: "drow \<in> set (domains (tables (w_admin w)))" "dm = domain_of drow" "dw_name drow = to_ascii_lowercase dn"
          using gd(2) w1(2) by auto
        obtain q3 w3 where q3: "find_account ca dn ?w2 = (q3, w3)" by fastforce
        have ok2: "auth_ok (tables (w_auth ?w2))" using assms(2) w1 by simp
        note f3 = find_account_quiet [OF q3 ok2]
        have w3: "quiet D w w3" by (rule quiet_trans [OF q2 f3(1)])
        from assms(1) Some p q missing g ca q3 f3(2) have w': "w' = w3 \<and> r \<noteq> Panicked \<and>
            (\<forall>rcpt. r = Returned (Some rcpt) \<longrightarrow> (\<exists>a. q3 = Returned (Inr (Some a)) \<and> rcpt = resolved addr a))"
          by (auto simp: resolve_recipient_def split: pan.splits sum.splits option.splits)
        have "hosted (tables (w_auth w)) (tables (w_admin w)) (resolved addr a)" if hit: "q3 = Returned (Inr (Some a))" for a
        proof -
          obtain row where "row \<in> set (accounts (tables (w_auth w)))" "a = account_of row" "ar_local_part row = ca"
            "ar_domain row = to_ascii_lowercase dn" using f3(3) [OF hit] w1(1) by auto
          with Some p drow dm(2) assms(3) show ?thesis by (auto simp: hosted_def resolved_def domain_of_def)
        qed
        with w' w3 show ?thesis by blast
      qed
    qed
  qed
  then show "quiet D w w'" "r \<noteq> Panicked" "r = Returned (Some rcpt) \<Longrightarrow> hosted (tables (w_auth w)) (tables (w_admin w)) rcpt"
    by blast+
qed

section \<open>Delivery to the recipients\<close>

definition all_messages :: "smtp_world \<Rightarrow> stored_message list" where
  "all_messages w = messages (tables (ms_meta (w_mail w)))"

definition mail_fine :: "smtp_deps \<Rightarrow> smtp_world \<Rightarrow> bool" where
  "mail_fine D w \<longleftrightarrow> mail_ok (ml_sha256_hex (sd_mail D)) (w_mail w)"

text \<open>A stored message that is the copy of one recipient.\<close>

definition copy_for :: "string option \<Rightarrow> string option \<Rightarrow> resolved_recipient \<Rightarrow> stored_message \<Rightarrow> bool" where
  "copy_for from spam r m \<longleftrightarrow> account_id m = rr_account_id r \<and> rcpt_to m = rr_address r \<and>
     mail_from m = (case from of Some f \<Rightarrow> f | None \<Rightarrow> []) \<and> msg_keywords m = (if spam \<noteq> None then KEYWORD_JUNK else [])"

lemma deliver_one_run:
  assumes "deliver_one D remote rcpt results raw rcvd spam meta w = (r, w')"
    and "picks_member (ml_pick (sd_mail D))" and "mail_fine D w"
  shows "frame D w w' \<and> w_env w' = w_env w \<and> w_conn w' = w_conn w \<and> mail_fine D w' \<and>
    (\<forall>k c. contents (ms_blobs (w_mail w)) k = Some c \<longrightarrow> contents (ms_blobs (w_mail w')) k = Some c) \<and>
    (if r = Returned (Inr ()) then \<exists>m. all_messages w' = all_messages w @ [m] \<and> copy_for (e_mail_from (w_env w)) spam rcpt m
     else all_messages w' = all_messages w)"
proof -
  let ?acct = "\<lparr>ra_id = rr_account_id rcpt, ra_account_pub = rr_account_pub rcpt, ra_key_id = rr_account_key_id rcpt\<rparr>"
  let ?inb = "\<lparr>env_mail_from = (case e_mail_from (w_env w) of Some f \<Rightarrow> f | None \<Rightarrow> []), env_rcpt_to = rr_address rcpt, env_remote_ip = remote\<rparr>"
  obtain q s where q: "deliver (sd_mail D) (sd_seal_random D (w_tick w)) ?acct ?inb results raw rcvd spam meta (w_mail w) = (q, s)" by fastforce
  have w': "w_mail w' = s" "frame D w w'" "w_env w' = w_env w" "w_conn w' = w_conn w"
    "r = Returned (Inr ()) \<longleftrightarrow> (\<exists>dm. q = Returned (Inr dm))"
    using assms(1) q by (auto simp: deliver_one_def Let_def split: pan.splits sum.splits)
  show ?thesis
  proof (cases "\<exists>dm. q = Returned (Inr dm)")
    case True
    then obtain dm where dm: "q = Returned (Inr dm)" by blast
    from deliver_succeeds [OF q [unfolded dm] assms(2) assms(3) [unfolded mail_fine_def]] obtain m where
      "filed ?acct ?inb spam dm (w_mail w) s m" "mail_ok (ml_sha256_hex (sd_mail D)) s"
      "\<forall>k c. contents (ms_blobs (w_mail w)) k = Some c \<longrightarrow> contents (ms_blobs s) k = Some c" by blast
    with w' dm show ?thesis by (auto simp: mail_fine_def all_messages_def filed_def copy_for_def)
  next
    case False
    then have "grows (sd_mail D) (rr_account_id rcpt) (w_mail w) s"
      using deliver_fails [OF q assms(2) assms(3) [unfolded mail_fine_def]] by simp
    with w' False show ?thesis by (auto simp: mail_fine_def all_messages_def grows_def)
  qed
qed

lemma deliver_all_run:
  assumes "deliver_all D remote results raw rcvd spam meta any rcpts w = (r, w')"
    and "picks_member (ml_pick (sd_mail D))" and "mail_fine D w"
  shows "frame D w w' \<and> w_env w' = w_env w \<and> w_conn w' = w_conn w \<and> mail_fine D w' \<and>
    (\<forall>k c. contents (ms_blobs (w_mail w)) k = Some c \<longrightarrow> contents (ms_blobs (w_mail w')) k = Some c) \<and>
    (\<exists>served ms. subseq served rcpts \<and> list_all2 (copy_for (e_mail_from (w_env w)) spam) served ms \<and>
       all_messages w' = all_messages w @ ms \<and> (\<forall>b. r = Returned b \<longrightarrow> (b \<longleftrightarrow> any \<or> ms \<noteq> [])))"
  using assms
proof (induction rcpts arbitrary: any w)
  case Nil
  then show ?case by auto
next
  case (Cons rcpt rcpts)
  obtain q v where q: "deliver_one D remote rcpt results raw rcvd spam meta w = (q, v)" by fastforce
  note one = deliver_one_run [OF q Cons.prems(2,3)]
  define first where "first = (if q = Returned (Inr ()) then [rcpt] else [])"
  obtain m1 where m1: "all_messages v = all_messages w @ m1" "list_all2 (copy_for (e_mail_from (w_env w)) spam) first m1"
    "m1 \<noteq> [] \<longleftrightarrow> q = Returned (Inr ())"
    using one by (cases "q = Returned (Inr ())") (auto simp: first_def)
  have first: "subseq first [rcpt]" by (simp add: first_def)
  show ?case
  proof (cases q)
    case Panicked
    with Cons.prems(1) q have "r = Panicked" "w' = v" by simp_all
    with one m1 first Panicked show ?thesis by (intro conjI exI [of _ first] exI [of _ m1]) (auto simp: first_def)
  next
    case (Returned x)
    then have run: "deliver_all D remote results raw rcvd spam meta (any \<or> is_ok x) rcpts v = (r, w')"
      using Cons.prems(1) q by simp
    have ok: "is_ok x \<longleftrightarrow> m1 \<noteq> []" using m1(3) Returned by (cases x) auto
    have fine: "mail_fine D v" using one by blast
    note ih = Cons.IH [OF run Cons.prems(2) fine]
    then obtain served ms where s: "subseq served rcpts" "list_all2 (copy_for (e_mail_from (w_env v)) spam) served ms"
      "all_messages w' = all_messages v @ ms" "\<forall>b. r = Returned b \<longrightarrow> (b \<longleftrightarrow> (any \<or> is_ok x) \<or> ms \<noteq> [])" by blast
    have "subseq (first @ served) ([rcpt] @ rcpts)" using first s(1) by (rule list_emb_append_mono)
    moreover have "list_all2 (copy_for (e_mail_from (w_env w)) spam) (first @ served) (m1 @ ms)"
      using m1(2) s(2) one by (simp add: list_all2_appendI)
    moreover have "frame D w w'" using one ih frame_trans by blast
    ultimately show ?thesis using one ih m1(1) s(3,4) ok
      by (intro conjI exI [of _ "first @ served"] exI [of _ "m1 @ ms"]) auto
  qed
qed

section \<open>The session invariant\<close>

definition env_ok :: "auth_tables \<Rightarrow> admin_tables \<Rightarrow> envelope \<Rightarrow> bool" where
  "env_ok au ad e \<longleftrightarrow> (\<forall>h. e_helo_domain e = Some h \<longrightarrow> valid_helo_domain h) \<and>
     (e_mail_from e \<noteq> None \<longrightarrow> e_helo_domain e \<noteq> None) \<and> (e_rcpt_to e \<noteq> [] \<longrightarrow> e_mail_from e \<noteq> None) \<and>
     length (e_rcpt_to e) \<le> MAX_RECIPIENTS \<and> list_all (hosted au ad) (e_rcpt_to e)"

definition session_inv :: "smtp_deps \<Rightarrow> smtp_world \<Rightarrow> bool" where
  "session_inv D w \<longleftrightarrow> auth_ok (tables (w_auth w)) \<and> mail_fine D w \<and> env_ok (tables (w_auth w)) (tables (w_admin w)) (w_env w)"

definition session_rel :: "smtp_deps \<Rightarrow> smtp_world \<Rightarrow> smtp_world \<Rightarrow> bool" where
  "session_rel D w w' \<longleftrightarrow> frame D w w' \<and>
     (\<forall>k c. contents (ms_blobs (w_mail w)) k = Some c \<longrightarrow> contents (ms_blobs (w_mail w')) k = Some c) \<and>
     (\<exists>ms. all_messages w' = all_messages w @ ms \<and>
        list_all (\<lambda>m. \<exists>r from spam. hosted (tables (w_auth w)) (tables (w_admin w)) r \<and> copy_for from spam r m) ms)"

lemma session_rel_refl: "session_rel D w w"
  by (simp add: session_rel_def)

lemma session_rel_trans:
  assumes "session_rel D u v" and "session_rel D v w"
  shows "session_rel D u w"
proof -
  from assms(1) obtain a where a: "all_messages v = all_messages u @ a"
    "list_all (\<lambda>m. \<exists>r from spam. hosted (tables (w_auth u)) (tables (w_admin u)) r \<and> copy_for from spam r m) a"
    by (auto simp: session_rel_def)
  from assms(2) obtain b where b: "all_messages w = all_messages v @ b"
    "list_all (\<lambda>m. \<exists>r from spam. hosted (tables (w_auth v)) (tables (w_admin v)) r \<and> copy_for from spam r m) b"
    by (auto simp: session_rel_def)
  have "tables (w_auth v) = tables (w_auth u)" "tables (w_admin v) = tables (w_admin u)"
    using assms(1) by (auto simp: session_rel_def frame_def)
  with a b assms show ?thesis
    unfolding session_rel_def by (intro conjI exI [of _ "a @ b"]) (auto intro: frame_trans)
qed

lemma quiet_session:
  assumes "quiet D w w'"
  shows "session_rel D w w'" and "session_inv D w \<Longrightarrow> session_inv D w'"
  using assms by (auto simp: quiet_def session_rel_def session_inv_def frame_def all_messages_def mail_fine_def)

text \<open>Changing the envelope: the relation to the state before is not affected.\<close>

lemma session_rel_env [simp]:
  "session_rel D w (w'\<lparr>w_env := e\<rparr>) = session_rel D w w'" "session_rel D (w\<lparr>w_env := e\<rparr>) w' = session_rel D w w'"
  "session_rel D w (reset w') = session_rel D w w'"
  by (simp_all add: session_rel_def all_messages_def reset_def)

lemma session_inv_reset: "session_inv D w \<Longrightarrow> session_inv D (reset w)"
  by (auto simp: session_inv_def reset_def env_ok_def envelope_reset_def mail_fine_def)

text \<open>One command keeps the session: it preserves the invariant and stays in relation with the state before.\<close>

definition keeps_session :: "smtp_deps \<Rightarrow> smtp_world \<Rightarrow> smtp_world \<Rightarrow> bool" where
  "keeps_session D w w' \<longleftrightarrow> session_inv D w' \<and> session_rel D w w'"

lemma keeps_quiet: "quiet D w w' \<Longrightarrow> session_inv D w \<Longrightarrow> keeps_session D w w'"
  using quiet_session unfolding keeps_session_def by blast

lemma keeps_reset: "keeps_session D w w' \<Longrightarrow> keeps_session D w (reset w')"
  by (simp add: keeps_session_def session_inv_reset)

lemma keeps_trans: "keeps_session D u v \<Longrightarrow> keeps_session D v w \<Longrightarrow> keeps_session D u w"
  using session_rel_trans by (auto simp: keeps_session_def)

lemma keeps_refl: "session_inv D w \<Longrightarrow> keeps_session D w w"
  by (simp add: keeps_session_def session_rel_refl)

lemma keeps_answer:
  assumes "answer code msg v = (r, w')" and "100 \<le> code" and "code < 1000" and "clean_text msg" and "keeps_session D w v"
  shows "keeps_session D w w'"
  using answer_quiet(1) [OF assms(1-4), of D] assms(5) keeps_trans keeps_quiet unfolding keeps_session_def by blast

lemma turn_away_keeps:
  assumes "turn_away D action reason code msg w = (r, w')" and "100 \<le> code" and "code < 1000" and "clean_text msg"
    and "session_inv D w"
  shows "keeps_session D w w'" and "all_messages w' = all_messages w"
proof -
  obtain q v where q: "audit_note D action reason w = (q, v)" by fastforce
  obtain b u where u: "reply code msg v = (b, u)" by fastforce
  have vq: "quiet D w v" by (rule audit_note_quiet [OF q])
  have uq: "quiet D w u" by (rule quiet_trans [OF vq reply_quiet [OF u assms(2-4)]])
  from assms(1) q u have "w' = v \<or> w' = reset u" by (auto simp: turn_away_def split: pan.splits)
  then show "keeps_session D w w'" "all_messages w' = all_messages w"
    using keeps_quiet [OF vq assms(5)] keeps_reset [OF keeps_quiet [OF uq assms(5)]] quietD(3) [OF vq] quietD(3) [OF uq]
    by (auto simp: all_messages_def reset_def)
qed

lemma file_message_keeps:
  assumes "file_message D remote raw spam meta w = (r, w')"
    and "picks_member (ml_pick (sd_mail D))" and "session_inv D w"
  shows "keeps_session D w w'"
    and "\<exists>served ms. subseq served (e_rcpt_to (w_env w)) \<and> list_all2 (copy_for (e_mail_from (w_env w)) spam) served ms \<and>
      all_messages w' = all_messages w @ ms"
proof -
  let ?w = "w\<lparr>w_tick := Suc (w_tick w)\<rparr>"
  let ?res = "run_auth_checks D (w_env w) remote raw (w_tick w)"
  obtain q v where q: "deliver_all D remote ?res raw (sd_unix D (w_tick w)) spam meta False (e_rcpt_to (w_env w)) ?w = (q, v)" by fastforce
  have fine: "mail_fine D ?w" using assms(3) by (simp add: session_inv_def mail_fine_def)
  note run = deliver_all_run [OF q assms(2) fine]
  then obtain served ms where m: "subseq served (e_rcpt_to (w_env w))" "list_all2 (copy_for (e_mail_from (w_env w)) spam) served ms"
    "all_messages v = all_messages w @ ms" by (auto simp: all_messages_def)
  have tables: "tables (w_auth v) = tables (w_auth w)" "tables (w_admin v) = tables (w_admin w)"
    using run by (auto simp: frame_def)
  have "hosted (tables (w_auth w)) (tables (w_admin w)) x" if "x \<in> set served" for x
    using that m(1) assms(3) by (auto simp: session_inv_def env_ok_def list_all_iff dest: list_emb_set)
  then have "list_all (\<lambda>m. \<exists>r from spam. hosted (tables (w_auth w)) (tables (w_admin w)) r \<and> copy_for from spam r m) ms"
    using m(2) unfolding list_all2_conv_all_nth list_all_length by (metis nth_mem)
  with run m(3) tables assms(3) have kv: "keeps_session D w v"
    unfolding keeps_session_def session_rel_def session_inv_def by (auto simp: mail_fine_def)
  have out: "w' = v \<or> (\<exists>code msg b u. reply code msg v = (b, u) \<and> 100 \<le> code \<and> code < 1000 \<and> clean_text msg \<and> (w' = u \<or> w' = reset u))"
  proof (cases q)
    case Panicked
    with assms(1) q show ?thesis by (simp add: file_message_def)
  next
    case (Returned any)
    define code :: nat where "code = (if any then 250 else 451)"
    define msg where "msg = (if any then ''OK: message accepted'' else ''Requested action aborted: local error in processing'')"
    obtain b u where u: "reply code msg v = (b, u)" by fastforce
    have "100 \<le> code" "code < 1000" "clean_text msg" by (simp_all add: code_def msg_def)
    moreover have "w' = u \<or> w' = reset u"
      using assms(1) q Returned u by (cases any; cases b) (auto simp: file_message_def code_def msg_def)
    ultimately show ?thesis using u by blast
  qed
  have "keeps_session D w w' \<and> all_messages w' = all_messages v"
  proof -
    from out consider (stop) "w' = v"
      | (replied) code msg b u where "reply code msg v = (b, u)" "100 \<le> code" "code < 1000" "clean_text msg" "w' = u \<or> w' = reset u"
      by blast
    then show ?thesis
    proof cases
      case stop
      with kv show ?thesis by simp
    next
      case replied
      have uq: "quiet D v u" by (rule reply_quiet [OF replied(1-4)])
      have ku: "keeps_session D w u" by (rule keeps_trans [OF kv keeps_quiet [OF uq]]) (use kv in \<open>simp add: keeps_session_def\<close>)
      show ?thesis using replied(5) ku keeps_reset [OF ku] quietD(3) [OF uq] by (auto simp: all_messages_def reset_def)
    qed
  qed
  with m show "keeps_session D w w'" "\<exists>served ms. subseq served (e_rcpt_to (w_env w)) \<and>
      list_all2 (copy_for (e_mail_from (w_env w)) spam) served ms \<and> all_messages w' = all_messages w @ ms" by auto
qed

lemma accept_message_keeps:
  assumes "accept_message D remote raw w = (r, w')" and "picks_member (ml_pick (sd_mail D))" and "session_inv D w"
  shows "keeps_session D w w'"
    and "\<exists>served ms spam. subseq served (e_rcpt_to (w_env w)) \<and> list_all2 (copy_for (e_mail_from (w_env w)) spam) served ms \<and>
      all_messages w' = all_messages w @ ms \<and>
      (case sr_verdict (scan_message D remote raw w) of
         Reject _ \<Rightarrow> ms = [] | Defer _ \<Rightarrow> ms = [] | Spam reason \<Rightarrow> spam = Some reason | Clean \<Rightarrow> spam = None)"
proof -
  let ?w = "w\<lparr>w_tick := Suc (w_tick w)\<rparr>" and ?sr = "scan_message D remote raw w"
  have w1: "quiet D w ?w" by (simp add: quiet_def)
  obtain q v where q: "audit_warnings D (sr_warnings ?sr) ?w = (q, v)" by fastforce
  have vq: "quiet D w v" by (rule quiet_trans [OF w1 audit_warnings_quiet [OF q]])
  have kv: "keeps_session D w v" by (rule keeps_quiet [OF vq assms(3)])
  then have iv: "session_inv D v" by (simp add: keeps_session_def)
  note eq = quietD(2,3) [OF vq]
  have "keeps_session D w w' \<and>
    (\<exists>served ms spam. subseq served (e_rcpt_to (w_env w)) \<and> list_all2 (copy_for (e_mail_from (w_env w)) spam) served ms \<and>
      all_messages w' = all_messages w @ ms \<and>
      (case sr_verdict ?sr of Reject _ \<Rightarrow> ms = [] | Defer _ \<Rightarrow> ms = [] | Spam reason \<Rightarrow> spam = Some reason | Clean \<Rightarrow> spam = None))"
  proof (cases q)
    case Panicked
    with assms(1) q have "w' = v" by (simp add: accept_message_def Let_def)
    with kv eq show ?thesis
      by (cases "sr_verdict ?sr") (auto simp: all_messages_def intro!: exI [of _ "[]"])
  next
    case (Returned u)
    let ?meta = "\<lparr>sm_spam_score = sr_spam_score ?sr, sm_av_clean = sr_av_clean ?sr\<rparr>"
    have filing: "keeps_session D w w' \<and> (\<exists>served ms. subseq served (e_rcpt_to (w_env w)) \<and>
        list_all2 (copy_for (e_mail_from (w_env w)) spam) served ms \<and> all_messages w' = all_messages w @ ms)"
      if "file_message D remote raw spam ?meta v = (r, w')" for spam
      using file_message_keeps [OF that assms(2) iv] keeps_trans [OF kv] eq by (auto simp: all_messages_def)
    have away: "keeps_session D w w' \<and> all_messages w' = all_messages w"
      if "turn_away D action reason code msg v = (r, w')" "100 \<le> code" "code < 1000" "clean_text msg" for action reason code msg
      using turn_away_keeps [OF that iv] keeps_trans [OF kv] eq by (auto simp: all_messages_def)
    show ?thesis
    proof (cases "sr_verdict ?sr")
      case Clean
      with assms(1) q Returned have "file_message D remote raw None ?meta v = (r, w')" by (simp add: accept_message_def Let_def)
      from filing [OF this] Clean show ?thesis by auto
    next
      case (Spam reason)
      with assms(1) q Returned have "file_message D remote raw (Some reason) ?meta v = (r, w')" by (simp add: accept_message_def Let_def)
      from filing [OF this] Spam show ?thesis by auto
    next
      case (Defer reason)
      with assms(1) q Returned have "turn_away D ''smtp.scan_defer'' reason 451 ''Requested action aborted: try again later'' v = (r, w')"
        by (simp add: accept_message_def Let_def)
      from away [OF this] Defer show ?thesis by (auto intro!: exI [of _ "[]"])
    next
      case (Reject reason)
      with assms(1) q Returned have "turn_away D ''smtp.scan_reject'' reason 550 ''Message rejected by content policy'' v = (r, w')"
        by (simp add: accept_message_def Let_def)
      from away [OF this] Reject show ?thesis by (auto intro!: exI [of _ "[]"])
    qed
  qed
  then show "keeps_session D w w'" "\<exists>served ms spam. subseq served (e_rcpt_to (w_env w)) \<and>
      list_all2 (copy_for (e_mail_from (w_env w)) spam) served ms \<and> all_messages w' = all_messages w @ ms \<and>
      (case sr_verdict ?sr of Reject _ \<Rightarrow> ms = [] | Defer _ \<Rightarrow> ms = [] | Spam reason \<Rightarrow> spam = Some reason | Clean \<Rightarrow> spam = None)"
    by blast+
qed

text \<open>Reading more input is a quiet step.\<close>

lemma read_quiet: "remaining c \<le> remaining (w_conn w) \<Longrightarrow> same_writer (w_conn w) c \<Longrightarrow> quiet D w (w\<lparr>w_conn := c\<rparr>)"
  by (simp add: quiet_def frame_def same_writer_def clean_sent_def)

lemma data_command_keeps:
  assumes "data_command D remote w = (r, w')" and "picks_member (ml_pick (sd_mail D))" and "session_inv D w"
  shows "keeps_session D w w'"
proof (cases "e_mail_from (w_env w) = None \<or> e_rcpt_to (w_env w) = []")
  case True
  then have "answer 503 ''Bad sequence of commands'' w = (r, w')" using assms(1) by (auto simp: data_command_def)
  then show ?thesis by (rule keeps_answer) (simp_all add: keeps_refl [OF assms(3)])
next
  case False
  obtain b w1 where w1: "reply 354 ''Start mail input; end with <CRLF>.<CRLF>'' w = (b, w1)" by fastforce
  have q1: "quiet D w w1" by (rule reply_quiet [OF w1]) simp_all
  obtain x c where rd: "read_data (sd_max_message_size D) (w_conn w1) = (x, c)" by fastforce
  let ?w2 = "w1\<lparr>w_conn := c\<rparr>"
  have q2: "quiet D w ?w2" by (rule quiet_trans [OF q1 read_quiet]) (rule read_data_remaining [OF rd])+
  have k2: "keeps_session D w ?w2" by (rule keeps_quiet [OF q2 assms(3)])
  show ?thesis
  proof (cases b)
    case False
    with w1 assms(1) \<open>\<not> (e_mail_from (w_env w) = None \<or> e_rcpt_to (w_env w) = [])\<close> have "w' = w1" by (simp add: data_command_def)
    with keeps_quiet [OF q1 assms(3)] show ?thesis by simp
  next
    case True
    with w1 rd assms(1) \<open>\<not> (e_mail_from (w_env w) = None \<or> e_rcpt_to (w_env w) = [])\<close>
    consider (large) "w' = snd (reply 552 ''Message size exceeds fixed limit'' ?w2)" | (io) "w' = ?w2"
      | (raw) raw where "accept_message D remote raw ?w2 = (r, w')"
      by (auto simp: data_command_def Let_def split: sum.splits data_error.splits)
    then show ?thesis
    proof cases
      case large
      obtain b' v where v: "reply 552 ''Message size exceeds fixed limit'' ?w2 = (b', v)" by fastforce
      have "quiet D ?w2 v" by (rule reply_quiet [OF v]) simp_all
      with large v show ?thesis using keeps_quiet [OF quiet_trans [OF q2] assms(3)] by simp
    next
      case io
      with k2 show ?thesis by simp
    next
      case raw
      have "session_inv D ?w2" using k2 by (simp add: keeps_session_def)
      from accept_message_keeps(1) [OF raw assms(2) this] show ?thesis by (rule keeps_trans [OF k2])
    qed
  qed
qed

end
