(* ===== verification/Smtp_Session.thy ===== *)
theory Smtp_Session
  imports Smtp_In
begin

text \<open>
  The command loop of the inbound SMTP server and the life of a connection (\<open>command_loop\<close> and
  \<open>handle_connection\<close> of \<open>smtp-in/src/session.rs\<close>) over the commands of \<open>Smtp_In\<close>. The loop is an instance of
  \<open>command_session\<close>. The abstract SMTP server at the end has only the phase of a transaction and the reply codes;
  the session refines it.
\<close>

section \<open>Input is consumed\<close>

text \<open>What the stores and the scanner do never touches the connection.\<close>

lemma reply_remaining: "reply code msg w = (b, w') \<Longrightarrow> remaining (w_conn w') = remaining (w_conn w)"
  using write_reply_effect(1) [of code msg "w_conn w"] by (auto simp: reply_def wrote_def split: prod.splits)

lemma answer_remaining: "answer code msg w = (r, w') \<Longrightarrow> remaining (w_conn w') = remaining (w_conn w)"
  using reply_remaining [of code msg w "fst (reply code msg w)"] by (auto simp: answer_def)

lemma audit_note_conn: "audit_note D action detail w = (r, w') \<Longrightarrow> w_conn w' = w_conn w"
  by (auto simp: audit_note_def split: prod.splits pan.splits)

lemma audit_warnings_conn: "audit_warnings D warnings w = (r, w') \<Longrightarrow> w_conn w' = w_conn w"
  by (induction warnings arbitrary: w) (auto dest: audit_note_conn split: prod.splits pan.splits)

lemma resolve_recipient_conn: "resolve_recipient addr w = (r, w') \<Longrightarrow> w_conn w' = w_conn w"
  by (auto simp: resolve_recipient_def find_account_def Let_def split: prod.splits pan.splits sum.splits option.splits)

lemma deliver_one_conn: "deliver_one D remote rcpt results raw rcvd spam meta w = (r, w') \<Longrightarrow> w_conn w' = w_conn w"
  by (auto simp: deliver_one_def Let_def split: prod.splits pan.splits sum.splits)

lemma deliver_all_conn: "deliver_all D remote results raw rcvd spam meta any rcpts w = (r, w') \<Longrightarrow> w_conn w' = w_conn w"
  by (induction rcpts arbitrary: any w) (auto dest: deliver_one_conn split: prod.splits pan.splits)

lemma reset_conn [simp]: "w_conn (reset w) = w_conn w"
  by (simp add: reset_def)

lemma turn_away_remaining:
  assumes "turn_away D action reason code msg w = (r, w')"
  shows "remaining (w_conn w') = remaining (w_conn w)"
proof -
  obtain q v where q: "audit_note D action reason w = (q, v)" by fastforce
  obtain b u where u: "reply code msg v = (b, u)" by fastforce
  from assms q u have "w' = v \<or> w' = reset u" by (auto simp: turn_away_def split: pan.splits)
  with audit_note_conn [OF q] reply_remaining [OF u] show ?thesis by auto
qed

lemma file_message_remaining:
  assumes "file_message D remote raw spam meta w = (r, w')"
  shows "remaining (w_conn w') = remaining (w_conn w)"
proof -
  let ?res = "run_auth_checks D (w_env w) remote raw (w_tick w)"
  obtain q v where q: "deliver_all D remote ?res raw (sd_unix D (w_tick w)) spam meta False (e_rcpt_to (w_env w)) (w\<lparr>w_tick := Suc (w_tick w)\<rparr>) = (q, v)"
    by fastforce
  have v: "w_conn v = w_conn w" using deliver_all_conn [OF q] by simp
  show ?thesis
  proof (cases q)
    case Panicked
    with assms q v show ?thesis by (simp add: file_message_def)
  next
    case (Returned any)
    with assms q show ?thesis
      using v by (auto simp: file_message_def Let_def dest!: reply_remaining split: if_splits prod.splits)
  qed
qed

lemma accept_message_remaining:
  assumes "accept_message D remote raw w = (r, w')"
  shows "remaining (w_conn w') = remaining (w_conn w)"
proof -
  let ?sr = "scan_message D remote raw w"
  obtain q v where q: "audit_warnings D (sr_warnings ?sr) (w\<lparr>w_tick := Suc (w_tick w)\<rparr>) = (q, v)" by fastforce
  have v: "w_conn v = w_conn w" using audit_warnings_conn [OF q] by simp
  with assms q show ?thesis
    by (auto simp: accept_message_def Let_def dest!: turn_away_remaining file_message_remaining split: pan.splits verdict.splits)
qed

lemma data_command_remaining:
  assumes "data_command D remote w = (r, w')"
  shows "remaining (w_conn w') \<le> remaining (w_conn w)"
proof (cases "e_mail_from (w_env w) = None \<or> e_rcpt_to (w_env w) = []")
  case True
  with assms show ?thesis using answer_remaining by (auto simp: data_command_def)
next
  case False
  obtain b v where v: "reply 354 ''Start mail input; end with <CRLF>.<CRLF>'' w = (b, v)" by fastforce
  obtain x c where x: "read_data (sd_max_message_size D) (w_conn v) = (x, c)" by fastforce
  let ?u = "v\<lparr>w_conn := c\<rparr>"
  have c: "remaining c \<le> remaining (w_conn w)" using read_data_remaining(1) [OF x] reply_remaining [OF v] by simp
  obtain b' z where z: "reply 552 ''Message size exceeds fixed limit'' ?u = (b', z)" by fastforce
  from assms False v x z have "w' = v \<or> w' = z \<or> w' = ?u \<or> (\<exists>raw. accept_message D remote raw ?u = (r, w'))"
    by (auto simp: data_command_def Let_def split: bool.splits sum.splits data_error.splits)
  then show ?thesis
    using reply_remaining [OF v] reply_remaining [OF z] c accept_message_remaining [of D remote _ ?u r w'] by auto
qed

lemma helo_command_remaining:
  assumes "helo_command D is_tls verb rest w = (r, w')"
  shows "remaining (w_conn w') = remaining (w_conn w)"
  using assms
  by (auto simp: helo_command_def Let_def wrote_def simp del: write_multiline_reply.simps
      dest!: answer_remaining write_multiline_effect split: if_splits prod.splits)

lemma run_command_remaining:
  assumes "run_command D is_tls remote verb rest w = (r, w')"
  shows "remaining (w_conn w') \<le> remaining (w_conn w)"
proof -
  have "remaining (w_conn w') \<le> remaining (w_conn w)" if "starttls_command D is_tls rest w = (r, w')"
    using that by (auto simp: starttls_command_def dest!: answer_remaining reply_remaining split: if_splits prod.splits)
  moreover have "remaining (w_conn w') \<le> remaining (w_conn w)" if "mail_command rest w = (r, w')"
    using that by (auto simp: mail_command_def dest!: answer_remaining split: if_splits pan.splits option.splits)
  moreover have "remaining (w_conn w') \<le> remaining (w_conn w)" if "rcpt_command rest w = (r, w')"
    using that by (auto simp: rcpt_command_def dest!: answer_remaining resolve_recipient_conn split: if_splits pan.splits option.splits prod.splits)
  moreover have "remaining (w_conn (snd (reply 221 ''Bye'' w))) = remaining (w_conn w)"
    using reply_remaining [of 221 "''Bye''" w] by (cases "reply 221 ''Bye'' w") simp
  ultimately show ?thesis
    using assms data_command_remaining [of D remote w r w'] helo_command_remaining [of D is_tls verb rest w r w']
    by (auto simp: run_command_def Let_def dest!: answer_remaining split: if_splits)
qed

lemma command_step_consumes:
  assumes "command_step D is_tls remote w = (Next, w')"
  shows "remaining (w_conn w') < remaining (w_conn w)"
proof -
  obtain x c where x: "read_line_bounded MAX_COMMAND_LINE (w_conn w) = (x, c)" by fastforce
  with assms obtain line where line: "x = Line line" by (cases x) (auto simp: command_step_def)
  obtain verb rest where "split_command (line_text line) = (verb, rest)" by fastforce
  with assms x line have "run_command D is_tls remote verb rest (w\<lparr>w_conn := c\<rparr>) = (Next, w')" by (simp add: command_step_def)
  from run_command_remaining [OF this] read_line_remaining(2) [OF x [unfolded line]] show ?thesis by simp
qed

section \<open>The loop and the connection\<close>

function command_rounds :: "smtp_deps \<Rightarrow> bool \<Rightarrow> string \<Rightarrow> smtp_world \<Rightarrow> loop_outcome \<times> smtp_world" where
  "command_rounds D is_tls remote w =
     (case command_step D is_tls remote w of
        (Next, w') \<Rightarrow> command_rounds D is_tls remote w'
      | (Done out, w') \<Rightarrow> (out, w'))"
  by pat_completeness auto
termination
  by (relation "measure (\<lambda>(D, is_tls, remote, w). remaining (w_conn w))") (auto dest: command_step_consumes [OF sym])

declare command_rounds.simps [simp del]

definition command_loop :: "smtp_deps \<Rightarrow> bool \<Rightarrow> string \<Rightarrow> smtp_world \<Rightarrow> loop_outcome \<times> smtp_world" where
  "command_loop D is_tls remote w =
     (if is_tls then command_rounds D is_tls remote w
      else case reply 220 (sd_hostname D @ '' ESMTP Litterae'') w of
             (False, w') \<Rightarrow> (Closed, w')
           | (True, w') \<Rightarrow> command_rounds D is_tls remote w')"

text \<open>The handshake is the TLS library's: \<open>accept\<close> gives the encrypted connection over the socket, or fails.\<close>

definition handle_connection ::
    "smtp_deps \<Rightarrow> (conn \<Rightarrow> conn option) \<Rightarrow> string \<Rightarrow> smtp_world \<Rightarrow> loop_outcome \<times> smtp_world" where
  "handle_connection D accept remote w =
     (let (out, w1) = command_loop D False remote (w\<lparr>w_env := envelope_default\<rparr>) in
      if out \<noteq> StartTls then (out, w1)
      else if rbuf (w_conn w1) \<noteq> [] then (Closed, w1)
      else if \<not> sd_tls_acceptor D then (Closed, w1)
      else case accept (w_conn w1) of
             None \<Rightarrow> (Closed, w1)
           | Some c \<Rightarrow> command_loop D True remote (w1\<lparr>w_conn := c, w_env := envelope_default\<rparr>))"

section \<open>Commands keep the session\<close>

lemma helo_command_keeps:
  assumes "helo_command D is_tls verb rest w = (r, w')" and "session_inv D w"
  shows "keeps_session D w w'"
proof (cases "valid_helo_domain (trim rest)")
  case False
  then have "answer 501 ''Syntax error in parameters'' w = (r, w')" using assms(1) by (simp add: helo_command_def)
  then show ?thesis by (rule keeps_answer) (simp_all add: keeps_refl assms(2))
next
  case True
  define w1 where "w1 = reset (w\<lparr>w_env := (w_env w)\<lparr>e_helo_domain := Some (trim rest)\<rparr>\<rparr>)"
  define ls where "ls = (sd_hostname D @ '' Hello'') #
    (if eq_ignore_ascii_case verb ''EHLO''
     then [''SIZE '' @ show_nat (sd_max_message_size D), ''8BITMIME'', ''SMTPUTF8''] @ (if \<not> is_tls \<and> sd_tls_acceptor D then [''STARTTLS''] else [])
     else [])"
  obtain b c where c: "write_multiline_reply 250 ls (w_conn w1) = (b, c)" by fastforce
  have "w' = w1\<lparr>w_conn := c\<rparr>"
    using assms(1) True c unfolding helo_command_def w1_def [symmetric] Let_def ls_def [symmetric] by simp
  moreover have "quiet D w1 (w1\<lparr>w_conn := c\<rparr>)"
    using write_multiline_effect [OF c] by (auto simp: quiet_def frame_def wrote_def ls_def)
  moreover have "keeps_session D w w1"
    using assms(2) True
    by (auto simp: keeps_session_def w1_def session_rel_refl session_inv_def env_ok_def reset_def envelope_reset_def mail_fine_def)
  ultimately show ?thesis using keeps_trans keeps_quiet unfolding keeps_session_def by blast
qed

lemma starttls_command_keeps:
  assumes "starttls_command D is_tls rest w = (r, w')" and "session_inv D w"
  shows "keeps_session D w w'"
proof -
  have "quiet D w w'"
    using assms(1) answer_quiet(1) [of _ _ w r w' D] reply_quiet [of 220 "''Go ahead''" w _ w' D]
    by (fastforce simp: starttls_command_def split: if_splits prod.splits)
  then show ?thesis by (rule keeps_quiet [OF _ assms(2)])
qed

lemma mail_command_keeps:
  assumes "mail_command rest w = (r, w')" and "session_inv D w"
  shows "keeps_session D w w'"
proof (cases "e_helo_domain (w_env w) = None")
  case True
  then have "answer 503 ''Bad sequence of commands'' w = (r, w')" using assms(1) by (simp add: mail_command_def)
  then show ?thesis by (rule keeps_answer) (simp_all add: keeps_refl assms(2))
next
  case False
  let ?v = "\<lambda>addr. w\<lparr>w_env := (w_env w)\<lparr>e_mail_from := Some addr, e_rcpt_to := []\<rparr>\<rparr>"
  from assms(1) False consider (crash) "w' = w" | (bad) "answer 501 ''Syntax error in parameters'' w = (r, w')"
    | (good) addr where "answer 250 ''OK'' (?v addr) = (r, w')"
    by (auto simp: mail_command_def split: pan.splits option.splits)
  then show ?thesis
  proof cases
    case crash
    then show ?thesis by (simp add: keeps_refl assms(2))
  next
    case bad
    then show ?thesis by (rule keeps_answer) (simp_all add: keeps_refl assms(2))
  next
    case good
    have k: "keeps_session D w (?v addr)"
      using assms(2) False by (auto simp: keeps_session_def session_rel_refl session_inv_def env_ok_def mail_fine_def)
    show ?thesis by (rule keeps_answer [OF good _ _ _ k]) simp_all
  qed
qed

lemma rcpt_command_keeps:
  assumes "rcpt_command rest w = (r, w')" and "session_inv D w"
  shows "keeps_session D w w'"
proof -
  let ?push = "\<lambda>v x. v\<lparr>w_env := (w_env v)\<lparr>e_rcpt_to := e_rcpt_to (w_env v) @ [x]\<rparr>\<rparr>"
  from assms(1) consider (bad) code msg where "answer code msg w = (r, w')" "100 \<le> code" "code < 1000" "clean_text msg" | (crash) "w' = w"
    | (found) addr q v where "e_mail_from (w_env w) \<noteq> None" "length (e_rcpt_to (w_env w)) < MAX_RECIPIENTS" "valid_email_address addr"
        "resolve_recipient addr w = (q, v)"
        "w' = v \<or> answer 550 ''No such user here'' v = (r, w') \<or> (\<exists>x. q = Returned (Some x) \<and> answer 250 ''OK'' (?push v x) = (r, w'))"
    by (fastforce simp: rcpt_command_def not_le split: if_splits pan.splits option.splits prod.splits)
  then show ?thesis
  proof cases
    case bad
    then show ?thesis by (rule keeps_answer) (simp add: keeps_refl assms(2))
  next
    case crash
    then show ?thesis by (simp add: keeps_refl assms(2))
  next
    case found
    have au: "auth_ok (tables (w_auth w))" using assms(2) by (simp add: session_inv_def)
    note res = resolve_recipient_quiet [OF found(4) au found(3)]
    have kv: "keeps_session D w v" by (rule keeps_quiet [OF res(1) assms(2)])
    have "keeps_session D w (?push v x)" if "q = Returned (Some x)" for x
    proof -
      have "hosted (tables (w_auth v)) (tables (w_admin v)) x" using res(3) [OF that] quietD(1) [OF res(1)] by (simp add: frame_def)
      with kv found(1,2) quietD(2) [OF res(1)] show ?thesis
        by (auto simp: keeps_session_def session_inv_def env_ok_def mail_fine_def)
    qed
    with found(5) kv show ?thesis by (auto intro: keeps_answer)
  qed
qed

lemma run_command_keeps:
  assumes "run_command D is_tls remote verb rest w = (r, w')" and "picks_member (ml_pick (sd_mail D))" and "session_inv D w"
  shows "keeps_session D w w'"
proof -
  note keeps = helo_command_keeps [OF _ assms(3)] starttls_command_keeps [OF _ assms(3)] mail_command_keeps [OF _ assms(3)]
    rcpt_command_keeps [OF _ assms(3)] data_command_keeps [OF _ assms(2,3)]
  from assms(1) consider (cmd) "keeps_session D w w'" | (plain) code msg v where "answer code msg v = (r, w')"
      "100 \<le> code" "code < 1000" "clean_text msg" "v = w \<or> v = reset w" | (quit) "w' = snd (reply 221 ''Bye'' w)"
    unfolding run_command_def Let_def by (fastforce split: if_splits intro: keeps)
  then show ?thesis
  proof cases
    case plain
    from plain(5) have "keeps_session D w v" using keeps_refl [OF assms(3)] keeps_reset by blast
    with plain(1-4) show ?thesis by (rule keeps_answer)
  next
    case quit
    have "quiet D w w'" by (rule reply_quiet [of 221 "''Bye''" w "fst (reply 221 ''Bye'' w)"]) (simp_all add: quit)
    then show ?thesis by (rule keeps_quiet [OF _ assms(3)])
  qed
qed

lemma command_step_keeps:
  assumes "command_step D is_tls remote w = (r, w')" and "picks_member (ml_pick (sd_mail D))" and "session_inv D w"
  shows "keeps_session D w w'"
proof -
  obtain x c where x: "read_line_bounded MAX_COMMAND_LINE (w_conn w) = (x, c)" by fastforce
  let ?w = "w\<lparr>w_conn := c\<rparr>"
  have q: "quiet D w ?w" by (rule read_quiet [OF read_line_remaining(1) [OF x] read_line_writer [OF x]])
  note k = keeps_quiet [OF q assms(3)]
  then have i: "session_inv D ?w" by (simp add: keeps_session_def)
  show ?thesis
  proof (cases x)
    case (Line line)
    obtain verb rest where "split_command (line_text line) = (verb, rest)" by fastforce
    with assms(1) x Line have "run_command D is_tls remote verb rest ?w = (r, w')" by (simp add: command_step_def)
    from run_command_keeps [OF this assms(2) i] show ?thesis by (rule keeps_trans [OF k])
  next
    case LineEof
    with assms(1) x k show ?thesis by (simp add: command_step_def)
  next
    case LineError
    with assms(1) x have w': "w' = snd (reply 500 ''Line too long'' ?w)" by (simp add: command_step_def)
    have "quiet D ?w w'" by (rule reply_quiet [of 500 "''Line too long''" ?w "fst (reply 500 ''Line too long'' ?w)"]) (simp_all add: w')
    from keeps_quiet [OF this i] show ?thesis by (rule keeps_trans [OF k])
  qed
qed

interpretation smtp: command_session "command_step D is_tls remote" "command_rounds D is_tls remote" "\<lambda>w. remaining (w_conn w)"
    "\<lambda>w. picks_member (ml_pick (sd_mail D)) \<and> session_inv D w" "session_rel D" for D is_tls remote
proof
  show "command_rounds D is_tls remote w = (case command_step D is_tls remote w of
      (Next, w') \<Rightarrow> command_rounds D is_tls remote w' | (Done out, w') \<Rightarrow> (out, w'))" for w
    by (rule command_rounds.simps)
  show "command_step D is_tls remote w = (Next, w') \<Longrightarrow> remaining (w_conn w') < remaining (w_conn w)" for w w'
    by (rule command_step_consumes)
next
  fix w r w' assume "picks_member (ml_pick (sd_mail D)) \<and> session_inv D w" "command_step D is_tls remote w = (r, w')"
  then show "picks_member (ml_pick (sd_mail D)) \<and> session_inv D w'" "session_rel D w w'"
    using command_step_keeps by (auto simp: keeps_session_def)
qed (rule session_rel_refl, rule session_rel_trans)

lemma command_loop_keeps:
  assumes "command_loop D is_tls remote w = (out, w')" and "picks_member (ml_pick (sd_mail D))" and "session_inv D w"
  shows "keeps_session D w w'"
proof -
  have rounds: "keeps_session D v w'" if "command_rounds D is_tls remote v = (out, w')" "session_inv D v" for v
    using smtp.loop_keeps [of D v is_tls remote] that assms(2) by (auto simp: keeps_session_def)
  obtain b v where v: "reply 220 (sd_hostname D @ '' ESMTP Litterae'') w = (b, v)" by fastforce
  then obtain c where c: "write_reply 220 (sd_hostname D @ '' ESMTP Litterae'') (w_conn w) = (b, c)" "v = w\<lparr>w_conn := c\<rparr>"
    by (auto simp: reply_def split: prod.splits)
  have q: "quiet D w v" using write_reply_effect [OF c(1)] c(2) by (auto simp: quiet_def frame_def wrote_def)
  note kv = keeps_quiet [OF q assms(3)]
  show ?thesis
  proof (cases "is_tls \<or> \<not> b")
    case True
    then show ?thesis using assms(1,3) v kv rounds by (auto simp: command_loop_def split: if_splits)
  next
    case False
    then have "command_rounds D is_tls remote v = (out, w')" using assms(1) v by (simp add: command_loop_def)
    from rounds [OF this] kv show ?thesis using keeps_trans by (auto simp: keeps_session_def)
  qed
qed

text \<open>C3: A connection, from its greeting to its end, STARTTLS included, changes no account and no domain, keeps the
  invariant of the mail store and every blob, and only appends messages: each one is the copy of a valid address
  whose mailbox (or the catch-all mailbox of its hosted domain) exists, so the server relays nothing. At most a
  hundred recipients are ever held, and every line sent is a well-formed reply, whatever the client sends.\<close>

theorem inbound_session_safe:
  assumes "handle_connection D accept remote w = (out, w')"
    and "picks_member (ml_pick (sd_mail D))" and "auth_ok (tables (w_auth w))" and "mail_ok (ml_sha256_hex (sd_mail D)) (w_mail w)"
  shows "tables (w_auth w') = tables (w_auth w) \<and> tables (w_admin w') = tables (w_admin w) \<and>
    mail_ok (ml_sha256_hex (sd_mail D)) (w_mail w') \<and>
    (\<forall>k c. contents (ms_blobs (w_mail w)) k = Some c \<longrightarrow> contents (ms_blobs (w_mail w')) k = Some c) \<and>
    (\<exists>ms. all_messages w' = all_messages w @ ms \<and>
       list_all (\<lambda>m. \<exists>r from spam. hosted (tables (w_auth w)) (tables (w_admin w)) r \<and> copy_for from spam r m) ms) \<and>
    length (e_rcpt_to (w_env w')) \<le> MAX_RECIPIENTS \<and>
    (clean_text (sd_hostname D) \<and> clean_sent (w_conn w) \<and> (\<forall>c d. accept c = Some d \<longrightarrow> clean_sent d) \<longrightarrow> clean_sent (w_conn w'))"
proof -
  let ?w0 = "w\<lparr>w_env := envelope_default\<rparr>"
  have fresh: "session_inv D (v\<lparr>w_env := envelope_default\<rparr>)" if "auth_ok (tables (w_auth v))" "mail_fine D v" for v
    using that by (simp add: session_inv_def env_ok_def envelope_default_def mail_fine_def)
  obtain o1 w1 where 1: "command_loop D False remote ?w0 = (o1, w1)" by fastforce
  have k1: "keeps_session D ?w0 w1"
    by (rule command_loop_keeps [OF 1 assms(2) fresh]) (use assms(3,4) in \<open>simp_all add: mail_fine_def\<close>)
  then have i1: "auth_ok (tables (w_auth w1))" "mail_fine D w1" and r1: "session_rel D w w1"
    and l1: "length (e_rcpt_to (w_env w1)) \<le> MAX_RECIPIENTS"
    by (simp_all add: keeps_session_def session_inv_def env_ok_def)
  show ?thesis
  proof (cases "w' = w1")
    case True
    with i1 r1 l1 show ?thesis by (auto simp: session_rel_def frame_def mail_fine_def)
  next
    case False
    with assms(1) 1 obtain c where c: "accept (w_conn w1) = Some c"
      and 2: "command_loop D True remote (w1\<lparr>w_conn := c, w_env := envelope_default\<rparr>) = (out, w')"
      by (auto simp: handle_connection_def Let_def split: if_splits option.splits)
    let ?w2 = "w1\<lparr>w_conn := c, w_env := envelope_default\<rparr>"
    have k2: "keeps_session D ?w2 w'"
      by (rule command_loop_keeps [OF 2 assms(2) fresh]) (use i1 in \<open>simp_all add: mail_fine_def\<close>)
    have t: "tables (w_auth w1) = tables (w_auth w)" "tables (w_admin w1) = tables (w_admin w)"
      using r1 by (simp_all add: session_rel_def frame_def)
    obtain a where a: "all_messages w1 = all_messages w @ a"
      "list_all (\<lambda>m. \<exists>r from spam. hosted (tables (w_auth w)) (tables (w_admin w)) r \<and> copy_for from spam r m) a"
      using r1 by (auto simp: session_rel_def)
    obtain b where b: "all_messages w' = all_messages w1 @ b"
      "list_all (\<lambda>m. \<exists>r from spam. hosted (tables (w_auth w)) (tables (w_admin w)) r \<and> copy_for from spam r m) b"
      using k2 t by (auto simp: keeps_session_def session_rel_def all_messages_def)
    have "\<exists>ms. all_messages w' = all_messages w @ ms \<and>
       list_all (\<lambda>m. \<exists>r from spam. hosted (tables (w_auth w)) (tables (w_admin w)) r \<and> copy_for from spam r m) ms"
      using a b by (intro exI [of _ "a @ b"]) simp
    moreover have "length (e_rcpt_to (w_env w')) \<le> MAX_RECIPIENTS" "mail_ok (ml_sha256_hex (sd_mail D)) (w_mail w')"
      "tables (w_auth w') = tables (w_auth w)" "tables (w_admin w') = tables (w_admin w)"
      "\<forall>k c. contents (ms_blobs (w_mail w)) k = Some c \<longrightarrow> contents (ms_blobs (w_mail w')) k = Some c"
      "clean_text (sd_hostname D) \<and> clean_sent c \<longrightarrow> clean_sent (w_conn w')"
      using k2 t r1 by (auto simp: keeps_session_def session_rel_def session_inv_def env_ok_def mail_fine_def frame_def)
    ultimately show ?thesis using c by blast
  qed
qed

section \<open>The replies a client sees\<close>

text \<open>The codes of the final replies that were sent: the last line of each reply, the intermediate 354 left out.\<close>

definition codes :: "conn \<Rightarrow> string list" where
  "codes c = map (take 3) (filter (\<lambda>l. l ! 3 = CHR '' '' \<and> take 3 l \<noteq> ''354'') (sent c))"

lemma show_nat_inject: "show_nat m = show_nat n \<longleftrightarrow> m = n"
  by (metis option.inject parse_show_nat)

lemma show_354: "show_nat n = ''354'' \<longleftrightarrow> n = 354"
proof -
  have "show_nat 354 = ''354''" by code_simp
  then show ?thesis using show_nat_inject [of n 354] by simp
qed

text \<open>While the peer still accepts writes, nothing that was to be sent is missing.\<close>

definition answered :: "string list \<Rightarrow> smtp_world \<Rightarrow> smtp_world \<Rightarrow> bool" where
  "answered cs w w' \<longleftrightarrow> wleft (w_conn w') \<le> wleft (w_conn w) \<and>
     (0 < wleft (w_conn w') \<longrightarrow> codes (w_conn w') = codes (w_conn w) @ cs)"

lemma answered_same_conn: "w_conn w' = w_conn w \<Longrightarrow> answered [] w w'"
  by (simp add: answered_def)

lemma answered_conn [simp]:
  "answered cs (w\<lparr>w_env := e\<rparr>) w' = answered cs w w'" "answered cs w (w'\<lparr>w_env := e\<rparr>) = answered cs w w'"
  "answered cs (reset w) w' = answered cs w w'" "answered cs w (reset w') = answered cs w w'"
  "answered cs (w\<lparr>w_tick := t\<rparr>) w' = answered cs w w'"
  by (simp_all add: answered_def reset_def)

lemma answered_trans: "answered as u v \<Longrightarrow> answered bs v w \<Longrightarrow> answered (as @ bs) u w"
  by (auto simp: answered_def)

lemma reply_answered:
  assumes "reply code msg w = (b, w')" and "100 \<le> code" and "code < 1000"
  shows "answered (if code = 354 then [] else [show_nat code]) w w'"
    and "w' = w\<lparr>w_conn := w_conn w'\<rparr>"
proof -
  obtain a b' d where d: "show_nat code = [a, b', d]" using show_nat_3 [OF assms(2,3)] by metis
  show "answered (if code = 354 then [] else [show_nat code]) w w'" "w' = w\<lparr>w_conn := w_conn w'\<rparr>"
    using assms(1) d show_354 [of code] by (auto simp: reply_def write_reply_def write_all_def answered_def codes_def split: prod.splits if_splits)
qed

lemma answer_answered:
  assumes "answer code msg w = (r, w')" and "100 \<le> code" and "code < 1000" and "code \<noteq> 354"
  shows "answered [show_nat code] w w'" and "w_env w' = w_env w" and "r = Next"
proof -
  from assms(1) have rep: "reply code msg w = (fst (reply code msg w), w')" by (auto simp: answer_def prod_eq_iff)
  show "answered [show_nat code] w w'" using reply_answered(1) [OF rep assms(2,3)] assms(4) by simp
  show "w_env w' = w_env w" using reply_answered(2) [OF rep assms(2,3)] by (metis smtp_world.select_convs(2) smtp_world.surjective smtp_world.update_convs(1))
  show "r = Next" using assms(1) by (simp add: answer_def)
qed

lemma multiline_answered:
  assumes "write_multiline_reply code lines c = (b, d)" and "lines \<noteq> []" and "100 \<le> code" and "code < 1000" and "code \<noteq> 354"
  shows "wleft d \<le> wleft c \<and> (0 < wleft d \<longrightarrow> codes d = codes c @ [show_nat code])"
  using assms
proof (induction code lines c rule: write_multiline_reply.induct)
  case (2 code msg lines c)
  obtain x y z where n: "show_nat code = [x, y, z]" using show_nat_3 [OF "2.prems"(3,4)] by metis
  have not354: "show_nat code \<noteq> ''354''" using "2.prems"(5) by (simp add: show_354)
  define sep where "sep = (if lines = [] then CHR '' '' else CHR ''-'')"
  obtain ok e where w: "write_all (show_nat code @ [sep] @ msg @ [CHR 0x0D, CHR 0x0A]) c = (ok, e)"
    by (cases "write_all (show_nat code @ [sep] @ msg @ [CHR 0x0D, CHR 0x0A]) c")
  have e: "wleft e \<le> wleft c" "ok \<Longrightarrow> codes e = codes c @ (if lines = [] then [show_nat code] else [])" "\<not> ok \<Longrightarrow> wleft e = 0"
    using w n not354 by (auto simp: write_all_def codes_def sep_def split: if_splits)
  show ?case
  proof (cases ok)
    case False
    with "2.prems"(1) w e(3) e(1) show ?thesis by (simp add: sep_def)
  next
    case True
    with "2.prems"(1) w have more: "write_multiline_reply code lines e = (b, d)" by (simp add: sep_def)
    show ?thesis
    proof (cases "lines = []")
      case True
      with more e(1,2) \<open>ok\<close> show ?thesis by simp
    next
      case False
      from "2.IH" [OF sep_def w [symmetric] _ more False "2.prems"(3-5)] True e False show ?thesis by simp
    qed
  qed
qed simp

section \<open>The abstract server\<close>

text \<open>A transaction as the protocol sees it, and what a command may be answered in each phase.\<close>

datatype phase = Connected | Greeted | Sender | Recipients nat

fun cleared :: "phase \<Rightarrow> phase" where
  "cleared Connected = Connected"
| "cleared p = Greeted"

definition rcpt_next :: "phase \<Rightarrow> nat \<Rightarrow> nat \<Rightarrow> phase option" where
  "rcpt_next p n code =
     (if n \<ge> 100 then (if code = 452 then Some p else None)
      else if code = 250 then Some (Recipients (Suc n))
      else if code = 501 \<or> code = 550 then Some p else None)"

definition smtp_next :: "phase \<Rightarrow> string \<Rightarrow> nat \<Rightarrow> phase option" where
  "smtp_next p verb code =
     (if verb = ''EHLO'' \<or> verb = ''HELO'' then (if code = 250 then Some Greeted else if code = 501 then Some p else None)
      else if verb = ''STARTTLS'' then (if code = 501 \<or> code = 502 \<or> code = 503 then Some p else None)
      else if verb = ''MAIL'' then
        (if p = Connected then (if code = 503 then Some p else None)
         else if code = 250 then Some Sender else if code = 501 then Some p else None)
      else if verb = ''RCPT'' then
        (case p of Sender \<Rightarrow> rcpt_next p 0 code | Recipients n \<Rightarrow> rcpt_next p n code | _ \<Rightarrow> if code = 503 then Some p else None)
      else if verb = ''DATA'' then
        (case p of Recipients n \<Rightarrow> if code = 250 \<or> code = 451 \<or> code = 550 then Some Greeted else None
         | _ \<Rightarrow> if code = 503 then Some p else None)
      else if verb = ''RSET'' then (if code = 250 then Some (cleared p) else None)
      else if verb = ''NOOP'' then (if code = 250 then Some p else None)
      else if verb = ''QUIT'' then None
      else if code = 502 then Some p else None)"

fun smtp_accepts :: "phase \<Rightarrow> (string \<times> nat) list \<Rightarrow> phase option" where
  "smtp_accepts p [] = Some p"
| "smtp_accepts p ((verb, code) # tr) = Option.bind (smtp_next p verb code) (\<lambda>q. smtp_accepts q tr)"

text \<open>The phase of a session.\<close>

definition phase_of :: "envelope \<Rightarrow> phase" where
  "phase_of e =
     (if e_helo_domain e = None then Connected else if e_mail_from e = None then Greeted
      else if e_rcpt_to e = [] then Sender else Recipients (length (e_rcpt_to e)))"

definition simulates :: "string \<Rightarrow> smtp_world \<Rightarrow> smtp_world \<Rightarrow> bool" where
  "simulates verb w w' \<longleftrightarrow> (\<exists>code. 100 \<le> code \<and> code < 1000 \<and>
     smtp_next (phase_of (w_env w)) verb code = Some (phase_of (w_env w')) \<and> answered [show_nat code] w w')"

lemma simulates_answer:
  assumes "answer code msg v = (r, w')" and "100 \<le> code" and "code < 1000" and "code \<noteq> 354" and "answered [] w v"
    and "smtp_next (phase_of (w_env w)) verb code = Some (phase_of (w_env v))"
  shows "simulates verb w w'"
  using answer_answered [OF assms(1-4)] answered_trans [OF assms(5)] assms(2,3,6) unfolding simulates_def by fastforce

lemma audit_note_env: "audit_note D action detail w = (r, w') \<Longrightarrow> w_env w' = w_env w"
  by (auto simp: audit_note_def split: prod.splits pan.splits)

lemma audit_warnings_env: "audit_warnings D warnings w = (r, w') \<Longrightarrow> w_env w' = w_env w"
  by (induction warnings arbitrary: w) (auto dest: audit_note_env split: prod.splits pan.splits)

lemma resolve_recipient_env: "resolve_recipient addr w = (r, w') \<Longrightarrow> w_env w' = w_env w"
  by (auto simp: resolve_recipient_def find_account_def Let_def split: prod.splits pan.splits sum.splits option.splits)

lemma deliver_one_env: "deliver_one D remote rcpt results raw rcvd spam meta w = (r, w') \<Longrightarrow> w_env w' = w_env w"
  by (auto simp: deliver_one_def Let_def split: prod.splits pan.splits sum.splits)

lemma deliver_all_env: "deliver_all D remote results raw rcvd spam meta any rcpts w = (r, w') \<Longrightarrow> w_env w' = w_env w"
  by (induction rcpts arbitrary: any w) (auto dest: deliver_one_env split: prod.splits pan.splits)

lemma reply_env: "reply code msg w = (b, w') \<Longrightarrow> w_env w' = w_env w"
  by (auto simp: reply_def split: prod.splits)

text \<open>A message that was read is answered with one of three codes, and the transaction is over.\<close>

definition concluded :: "smtp_world \<Rightarrow> smtp_world \<Rightarrow> bool" where
  "concluded w w' \<longleftrightarrow> (\<exists>code \<in> {250, 451, 550}. answered [show_nat code] w w') \<and> w_env w' = envelope_reset (w_env w)"

lemma turn_away_concludes:
  assumes "turn_away D action reason code msg w = (Next, w')" and "code \<in> {451, 550}"
  shows "concluded w w'"
proof -
  from assms(1) obtain q v b u where q: "audit_note D action reason w = (Returned q, v)" and u: "reply code msg v = (b, u)" "w' = reset u"
    by (fastforce simp: turn_away_def prod_eq_iff split: prod.splits pan.splits)
  have "answered [show_nat code] v u" using reply_answered(1) [OF u(1)] assms(2) by auto
  then have "answered [show_nat code] w w'" using audit_note_conn [OF q] u(2) by (simp add: answered_def)
  with assms(2) u(2) audit_note_env [OF q] reply_env [OF u(1)] show ?thesis by (auto simp: concluded_def reset_def)
qed

lemma file_message_concludes:
  assumes "file_message D remote raw spam meta w = (Next, w')"
  shows "concluded w w'"
proof -
  let ?res = "run_auth_checks D (w_env w) remote raw (w_tick w)"
  obtain q v where q: "deliver_all D remote ?res raw (sd_unix D (w_tick w)) spam meta False (e_rcpt_to (w_env w)) (w\<lparr>w_tick := Suc (w_tick w)\<rparr>) = (q, v)"
    by fastforce
  have v: "w_conn v = w_conn w" "w_env v = w_env w" using deliver_all_conn [OF q] deliver_all_env [OF q] by simp_all
  obtain any where any: "q = Returned any" using assms q by (cases q) (simp_all add: file_message_def)
  have "\<exists>code msg b u. reply code msg v = (b, u) \<and> w' = reset u \<and> (code = 250 \<or> code = 451)"
    using assms q any by (cases any) (auto simp: file_message_def split: prod.splits if_splits)
  then obtain code msg b u where u: "reply code msg v = (b, u)" "w' = reset u" "code = 250 \<or> code = 451" by blast
  have "answered [show_nat code] v u" using reply_answered(1) [OF u(1)] u(3) by auto
  then have "answered [show_nat code] w w'" using u(2) v(1) by (simp add: answered_def)
  with u reply_env [OF u(1)] v(2) show ?thesis by (auto simp: concluded_def reset_def)
qed

lemma accept_message_concludes:
  assumes "accept_message D remote raw w = (Next, w')"
  shows "concluded w w'"
proof -
  let ?sr = "scan_message D remote raw w"
  obtain q v where q: "audit_warnings D (sr_warnings ?sr) (w\<lparr>w_tick := Suc (w_tick w)\<rparr>) = (q, v)" by fastforce
  have v: "w_conn v = w_conn w" "w_env v = w_env w" using audit_warnings_conn [OF q] audit_warnings_env [OF q] by simp_all
  have "concluded v w'"
    using assms q
    by (auto simp: accept_message_def Let_def intro: file_message_concludes turn_away_concludes split: pan.splits verdict.splits)
  with v show ?thesis by (simp add: concluded_def answered_def)
qed

lemma helo_simulates:
  assumes "helo_command D is_tls verb rest w = (Next, w')" and "v = ''EHLO'' \<or> v = ''HELO''"
  shows "simulates v w w'"
proof (cases "valid_helo_domain (trim rest)")
  case False
  then have "answer 501 ''Syntax error in parameters'' w = (Next, w')" using assms(1) by (simp add: helo_command_def)
  then show ?thesis by (rule simulates_answer) (use assms(2) in \<open>auto simp: smtp_next_def answered_same_conn\<close>)
next
  case True
  define w1 where "w1 = reset (w\<lparr>w_env := (w_env w)\<lparr>e_helo_domain := Some (trim rest)\<rparr>\<rparr>)"
  define ls where "ls = (sd_hostname D @ '' Hello'') #
    (if eq_ignore_ascii_case verb ''EHLO''
     then [''SIZE '' @ show_nat (sd_max_message_size D), ''8BITMIME'', ''SMTPUTF8''] @ (if \<not> is_tls \<and> sd_tls_acceptor D then [''STARTTLS''] else [])
     else [])"
  obtain b c where c: "write_multiline_reply 250 ls (w_conn w1) = (b, c)" by fastforce
  have w': "w' = w1\<lparr>w_conn := c\<rparr>"
    using assms(1) True c unfolding helo_command_def w1_def [symmetric] Let_def ls_def [symmetric] by simp
  have "answered [show_nat 250] w w'"
    using multiline_answered [OF c] w' by (simp add: answered_def w1_def ls_def)
  moreover have "smtp_next (phase_of (w_env w)) v 250 = Some (phase_of (w_env w'))"
    using assms(2) w' by (auto simp: smtp_next_def w1_def reset_def envelope_reset_def phase_of_def)
  ultimately show ?thesis unfolding simulates_def by (intro exI [of _ 250]) simp
qed

lemma starttls_simulates: "starttls_command D is_tls rest w = (Next, w') \<Longrightarrow> simulates ''STARTTLS'' w w'"
  by (auto simp: starttls_command_def smtp_next_def answered_same_conn split: if_splits prod.splits elim!: simulates_answer)

lemma mail_simulates: "mail_command rest w = (Next, w') \<Longrightarrow> simulates ''MAIL'' w w'"
  by (auto simp: mail_command_def smtp_next_def phase_of_def answered_same_conn
      split: if_splits pan.splits option.splits elim!: simulates_answer)

lemma phase_of_Recipients: "e_helo_domain e \<noteq> None \<Longrightarrow> e_mail_from e \<noteq> None \<Longrightarrow>
    phase_of e = (if e_rcpt_to e = [] then Sender else Recipients (length (e_rcpt_to e)))"
  by (auto simp: phase_of_def)

lemma rcpt_simulates:
  assumes "rcpt_command rest w = (Next, w')" and "e_mail_from (w_env w) \<noteq> None \<Longrightarrow> e_helo_domain (w_env w) \<noteq> None"
  shows "simulates ''RCPT'' w w'"
proof (cases "e_mail_from (w_env w) = None")
  case True
  then have "answer 503 ''Bad sequence of commands'' w = (Next, w')" using assms(1) by (simp add: rcpt_command_def)
  then show ?thesis by (rule simulates_answer) (use True in \<open>auto simp: smtp_next_def answered_same_conn phase_of_def\<close>)
next
  case False
  let ?n = "length (e_rcpt_to (w_env w))"
  have next_p: "smtp_next (phase_of (w_env w)) ''RCPT'' code = rcpt_next (phase_of (w_env w)) ?n code" for code
    using False assms(2) by (simp add: phase_of_Recipients smtp_next_def)
  show ?thesis
  proof (cases "MAX_RECIPIENTS \<le> ?n")
    case True
    then have "answer 452 ''Too many recipients'' w = (Next, w')" using assms(1) False by (simp add: rcpt_command_def)
    then show ?thesis by (rule simulates_answer) (use True in \<open>auto simp: next_p rcpt_next_def answered_same_conn MAX_RECIPIENTS_def\<close>)
  next
    case few: False
    from assms(1) False few consider
        (bad) "answer 501 ''Syntax error in parameters'' w = (Next, w')"
      | (none) addr q v where "resolve_recipient addr w = (q, v)" "answer 550 ''No such user here'' v = (Next, w')"
      | (found) addr q v x where "resolve_recipient addr w = (q, v)"
          "answer 250 ''OK'' (v\<lparr>w_env := (w_env v)\<lparr>e_rcpt_to := e_rcpt_to (w_env v) @ [x]\<rparr>\<rparr>) = (Next, w')"
      by (auto simp: rcpt_command_def split: if_splits pan.splits option.splits prod.splits)
    then show ?thesis
    proof cases
      case bad
      then show ?thesis by (rule simulates_answer) (use few in \<open>auto simp: next_p rcpt_next_def answered_same_conn MAX_RECIPIENTS_def\<close>)
    next
      case none
      show ?thesis
        by (rule simulates_answer [OF none(2)])
          (use few resolve_recipient_conn [OF none(1)] resolve_recipient_env [OF none(1)] in
            \<open>auto simp: next_p rcpt_next_def answered_same_conn MAX_RECIPIENTS_def\<close>)
    next
      case found
      show ?thesis
        by (rule simulates_answer [OF found(2)])
          (use few False assms(2) resolve_recipient_conn [OF found(1)] resolve_recipient_env [OF found(1)] in
            \<open>auto simp: smtp_next_def rcpt_next_def answered_same_conn MAX_RECIPIENTS_def phase_of_Recipients\<close>)
    qed
  qed
qed

lemma data_simulates:
  assumes "data_command D remote w = (Next, w')" and "e_mail_from (w_env w) \<noteq> None \<Longrightarrow> e_helo_domain (w_env w) \<noteq> None"
  shows "simulates ''DATA'' w w'"
proof (cases "e_mail_from (w_env w) = None \<or> e_rcpt_to (w_env w) = []")
  case True
  then have "answer 503 ''Bad sequence of commands'' w = (Next, w')" using assms(1) by (auto simp: data_command_def)
  then show ?thesis by (rule simulates_answer) (use True in \<open>auto simp: smtp_next_def answered_same_conn phase_of_def\<close>)
next
  case False
  obtain b v where v: "reply 354 ''Start mail input; end with <CRLF>.<CRLF>'' w = (b, v)" by fastforce
  obtain x c where x: "read_data (sd_max_message_size D) (w_conn v) = (x, c)" by fastforce
  let ?u = "v\<lparr>w_conn := c\<rparr>"
  from assms(1) False v x obtain raw where "accept_message D remote raw ?u = (Next, w')"
    by (auto simp: data_command_def Let_def split: bool.splits sum.splits data_error.splits)
  then have fin: "concluded ?u w'" by (rule accept_message_concludes)
  have "answered [] w ?u"
    using reply_answered(1) [OF v] read_data_remaining(2) [OF x] by (simp add: answered_def same_writer_def codes_def)
  with fin obtain code where code: "code \<in> {250, 451, 550}" "answered [show_nat code] w w'"
    using answered_trans unfolding concluded_def by fastforce
  have "w_env w' = envelope_reset (w_env w)" using fin reply_env [OF v] by (simp add: concluded_def)
  then have "smtp_next (phase_of (w_env w)) ''DATA'' code = Some (phase_of (w_env w'))"
    using code(1) False assms(2) by (auto simp: smtp_next_def phase_of_def envelope_reset_def)
  with code show ?thesis unfolding simulates_def by (intro exI [of _ code]) auto
qed

lemma run_command_simulates:
  assumes "run_command D is_tls remote verb rest w = (Next, w')" and "e_mail_from (w_env w) \<noteq> None \<Longrightarrow> e_helo_domain (w_env w) \<noteq> None"
  shows "simulates (to_ascii_uppercase verb) w w'"
proof -
  define v where "v = to_ascii_uppercase verb"
  have run: "run_command D is_tls remote verb rest w = (Next, w')" by (rule assms(1))
  consider (helo) "v = ''EHLO'' \<or> v = ''HELO''" | (starttls) "v = ''STARTTLS''" | (mail) "v = ''MAIL''" | (rcpt) "v = ''RCPT''"
    | (data) "v = ''DATA''" | (rset) "v = ''RSET''" | (noop) "v = ''NOOP''" | (quit) "v = ''QUIT''"
    | (other) "\<not> (v = ''EHLO'' \<or> v = ''HELO'')" "v \<noteq> ''STARTTLS''" "v \<noteq> ''MAIL''" "v \<noteq> ''RCPT''" "v \<noteq> ''DATA''" "v \<noteq> ''RSET''" "v \<noteq> ''NOOP''"
        "v \<noteq> ''QUIT''" by argo
  then have "simulates v w w'"
  proof cases
    case rset
    then have "answer 250 ''OK'' (reset w) = (Next, w')" using run unfolding run_command_def v_def [symmetric] Let_def by simp
    then show ?thesis
      by (rule simulates_answer) (use rset assms(2) in \<open>auto simp: answered_same_conn smtp_next_def phase_of_def reset_def envelope_reset_def\<close>)
  next
    case noop
    then have "answer 250 ''OK'' w = (Next, w')" using run unfolding run_command_def v_def [symmetric] Let_def by simp
    then show ?thesis by (rule simulates_answer) (use noop in \<open>auto simp: answered_same_conn smtp_next_def\<close>)
  next
    case other
    from run other have "answer 502 ''Command not implemented'' w = (Next, w')" unfolding run_command_def v_def [symmetric] Let_def by simp
    then show ?thesis by (rule simulates_answer) (use other in \<open>simp_all add: answered_same_conn smtp_next_def\<close>)
  next
    case helo
    then have "helo_command D is_tls verb rest w = (Next, w')" using run unfolding run_command_def v_def [symmetric] Let_def by simp
    then show ?thesis using helo by (rule helo_simulates)
  next
    case starttls
    then have "starttls_command D is_tls rest w = (Next, w')" using run unfolding run_command_def v_def [symmetric] Let_def by simp
    then show ?thesis using starttls starttls_simulates by blast
  next
    case mail
    then have "mail_command rest w = (Next, w')" using run unfolding run_command_def v_def [symmetric] Let_def by simp
    then show ?thesis using mail mail_simulates by blast
  next
    case rcpt
    then have "rcpt_command rest w = (Next, w')" using run unfolding run_command_def v_def [symmetric] Let_def by simp
    then show ?thesis using rcpt rcpt_simulates [OF _ assms(2)] by blast
  next
    case data
    then have "data_command D remote w = (Next, w')" using run unfolding run_command_def v_def [symmetric] Let_def by simp
    then show ?thesis using data data_simulates [OF _ assms(2)] by blast
  next
    case quit
    then show ?thesis using run unfolding run_command_def v_def [symmetric] Let_def by simp
  qed
  then show ?thesis by (simp add: v_def)
qed

text \<open>The verbs of the commands that a number of rounds reads.\<close>

fun heard :: "smtp_deps \<Rightarrow> bool \<Rightarrow> string \<Rightarrow> nat \<Rightarrow> smtp_world \<Rightarrow> string list" where
  "heard D is_tls remote 0 w = []"
| "heard D is_tls remote (Suc n) w =
     (case read_line_bounded MAX_COMMAND_LINE (w_conn w) of
        (Line line, c) \<Rightarrow> to_ascii_uppercase (fst (split_command (line_text line))) #
                        heard D is_tls remote n (snd (command_step D is_tls remote w))
      | _ \<Rightarrow> [])"

lemma command_step_simulates:
  assumes "command_step D is_tls remote w = (Next, w')" and "session_inv D w"
  obtains line c where "read_line_bounded MAX_COMMAND_LINE (w_conn w) = (Line line, c)"
    "simulates (to_ascii_uppercase (fst (split_command (line_text line)))) w w'"
proof -
  obtain x c where x: "read_line_bounded MAX_COMMAND_LINE (w_conn w) = (x, c)" by fastforce
  with assms(1) obtain line where line: "x = Line line" by (cases x) (auto simp: command_step_def)
  obtain verb rest where vr: "split_command (line_text line) = (verb, rest)" by fastforce
  with assms(1) x line have run: "run_command D is_tls remote verb rest (w\<lparr>w_conn := c\<rparr>) = (Next, w')" by (simp add: command_step_def)
  have "simulates (to_ascii_uppercase verb) (w\<lparr>w_conn := c\<rparr>) w'"
    by (rule run_command_simulates [OF run]) (use assms(2) in \<open>simp add: session_inv_def env_ok_def\<close>)
  then have "simulates (to_ascii_uppercase verb) w w'"
    using read_line_writer [OF x] by (simp add: simulates_def answered_def same_writer_def codes_def)
  with x line vr show thesis by (intro that [of line c]) simp_all
qed

text \<open>C2: The session refines the abstract server. However the client's bytes are cut into segments and whatever they
  are, after any number of commands the abstract server has accepted the same verbs with some reply codes, it is in the
  phase of the session's envelope, and, as long as the peer takes the writes, those codes are exactly the final
  replies the client was sent, one per command and in order.\<close>

theorem session_refines_smtp:
  assumes "rounds (command_step D is_tls remote) n w = Some w'"
    and "picks_member (ml_pick (sd_mail D))" and "session_inv D w"
  shows "\<exists>cs. length cs = n \<and> length (heard D is_tls remote n w) = n \<and>
    smtp_accepts (phase_of (w_env w)) (zip (heard D is_tls remote n w) cs) = Some (phase_of (w_env w')) \<and>
    wleft (w_conn w') \<le> wleft (w_conn w) \<and>
    (0 < wleft (w_conn w') \<longrightarrow> codes (w_conn w') = codes (w_conn w) @ map show_nat cs)"
  using assms(1,3)
proof (induction n arbitrary: w)
  case 0
  then show ?case by simp
next
  case (Suc n)
  then obtain v where v: "command_step D is_tls remote w = (Next, v)" "rounds (command_step D is_tls remote) n v = Some w'"
    by (auto split: prod.splits step.splits)
  have "session_inv D v" using command_step_keeps [OF v(1) assms(2) Suc.prems(2)] by (simp add: keeps_session_def)
  from Suc.IH [OF v(2) this] obtain cs where cs: "length cs = n" "length (heard D is_tls remote n v) = n"
    "smtp_accepts (phase_of (w_env v)) (zip (heard D is_tls remote n v) cs) = Some (phase_of (w_env w'))"
    "wleft (w_conn w') \<le> wleft (w_conn v)" "0 < wleft (w_conn w') \<longrightarrow> codes (w_conn w') = codes (w_conn v) @ map show_nat cs"
    by (elim exE conjE) (rule that)
  obtain line c where line: "read_line_bounded MAX_COMMAND_LINE (w_conn w) = (Line line, c)"
    and sim: "simulates (to_ascii_uppercase (fst (split_command (line_text line)))) w v"
    using command_step_simulates [OF v(1) Suc.prems(2)] .
  from sim obtain code where code: "smtp_next (phase_of (w_env w)) (to_ascii_uppercase (fst (split_command (line_text line)))) code =
      Some (phase_of (w_env v))" "answered [show_nat code] w v" by (auto simp: simulates_def)
  have h: "heard D is_tls remote (Suc n) w = to_ascii_uppercase (fst (split_command (line_text line))) # heard D is_tls remote n v"
    using line v(1) by simp
  have "wleft (w_conn w') \<le> wleft (w_conn w)"
    "0 < wleft (w_conn w') \<longrightarrow> codes (w_conn w') = codes (w_conn w) @ map show_nat (code # cs)"
    using code(2) cs(4,5) by (simp_all add: answered_def)
  moreover have "smtp_accepts (phase_of (w_env w)) (zip (heard D is_tls remote (Suc n) w) (code # cs)) = Some (phase_of (w_env w'))"
    unfolding h using code(1) cs(3) by simp
  moreover have "length (code # cs) = Suc n" "length (heard D is_tls remote (Suc n) w) = Suc n" unfolding h using cs(1,2) by simp_all
  ultimately show ?case by (intro exI [of _ "code # cs"] conjI)
qed

lemma accept_message_not_starttls: "fst (accept_message D remote raw w) \<noteq> Done StartTls"
  by (auto simp: accept_message_def turn_away_def file_message_def Let_def split: prod.splits pan.splits verdict.splits if_splits)

lemma run_command_starttls:
  assumes "run_command D is_tls remote verb rest w = (Done StartTls, w')"
  shows "starttls_command D is_tls rest w = (Done StartTls, w')"
proof -
  have "helo_command D is_tls verb rest w \<noteq> (Done StartTls, w')"
    by (auto simp: helo_command_def answer_def Let_def simp del: write_multiline_reply.simps split: prod.splits)
  moreover have "mail_command rest w \<noteq> (Done StartTls, w')"
    by (auto simp: mail_command_def answer_def split: pan.splits option.splits)
  moreover have "rcpt_command rest w \<noteq> (Done StartTls, w')"
    by (auto simp: rcpt_command_def answer_def split: prod.splits pan.splits option.splits)
  moreover have "data_command D remote w \<noteq> (Done StartTls, w')"
    using accept_message_not_starttls [of D remote]
    by (auto simp: data_command_def answer_def Let_def split: prod.splits bool.splits sum.splits data_error.splits) (metis fst_conv)
  ultimately show ?thesis using assms unfolding run_command_def Let_def answer_def by (auto split: if_splits)
qed

lemma command_step_starttls:
  assumes "command_step D is_tls remote v = (Done StartTls, w')"
  shows "\<not> is_tls \<and> sd_tls_acceptor D \<and> last (sent (w_conn w')) = ''220 Go ahead'' @ [CHR 0x0D, CHR 0x0A]"
proof -
  obtain verb rest u where "run_command D is_tls remote verb rest u = (Done StartTls, w')"
    using assms by (auto simp: command_step_def split: prod.splits line_result.splits)
  then have st: "starttls_command D is_tls rest u = (Done StartTls, w')" by (rule run_command_starttls)
  then have r: "reply 220 ''Go ahead'' u = (True, w')" and c: "\<not> is_tls" "sd_tls_acceptor D"
    by (auto simp: starttls_command_def answer_def split: if_splits prod.splits)
  have "show_nat 220 = ''220''" by code_simp
  with r c show ?thesis by (auto simp: reply_def write_reply_def write_all_def split: prod.splits if_splits)
qed

text \<open>C5: A command loop ends: after at most as many commands as the peer sends bytes, a command ends it, with the
  outcome and the state the loop returns; it asks for a TLS handshake only on a plain connection of a server that has a
  certificate, having answered 220.\<close>

theorem command_loop_terminates:
  assumes "picks_member (ml_pick (sd_mail D))" and "session_inv D w"
  shows "\<exists>n v out w'. n \<le> remaining (w_conn w) \<and> rounds (command_step D is_tls remote) n w = Some v \<and>
    command_step D is_tls remote v = (Done out, w') \<and> command_rounds D is_tls remote w = (out, w') \<and>
    (out = StartTls \<longrightarrow> \<not> is_tls \<and> sd_tls_acceptor D \<and> last (sent (w_conn w')) = ''220 Go ahead'' @ [CHR 0x0D, CHR 0x0A])"
proof -
  obtain n v out w' where run: "n \<le> remaining (w_conn w)" "rounds (command_step D is_tls remote) n w = Some v"
    "command_step D is_tls remote v = (Done out, w')" "command_rounds D is_tls remote w = (out, w')"
    using smtp.loop_rounds [of D w is_tls remote] assms by blast
  have "\<not> is_tls \<and> sd_tls_acceptor D \<and> last (sent (w_conn w')) = ''220 Go ahead'' @ [CHR 0x0D, CHR 0x0A]" if "out = StartTls"
    using command_step_starttls [OF run(3) [unfolded that]] .
  with run show ?thesis by blast
qed

section \<open>What a DATA reply means\<close>

text \<open>The messages filed by a command, and the code it was answered with.\<close>

definition accounted :: "string option \<Rightarrow> resolved_recipient list \<Rightarrow> smtp_world \<Rightarrow> smtp_world \<Rightarrow> bool" where
  "accounted from rcpts w w' \<longleftrightarrow> (\<exists>code served ms spam. code \<in> {250, 451, 550} \<and> answered [show_nat code] w w' \<and>
     subseq served rcpts \<and> list_all2 (copy_for from spam) served ms \<and> all_messages w' = all_messages w @ ms \<and> (code = 250 \<longleftrightarrow> ms \<noteq> []))"

lemma accountedI:
  assumes "answered [show_nat code] w w'" and "code \<in> {250, 451, 550}" and "subseq served rcpts"
    and "list_all2 (copy_for from spam) served ms" and "all_messages w' = all_messages w @ ms" and "code = 250 \<longleftrightarrow> ms \<noteq> []"
  shows "accounted from rcpts w w'"
  unfolding accounted_def by (intro exI [of _ code] exI [of _ served] exI [of _ ms] exI [of _ spam] conjI assms)

lemma turn_away_accounted:
  assumes "turn_away D action reason code msg w = (Next, w')" and "code \<in> {451, 550}" and "clean_text msg" and "session_inv D w"
  shows "accounted from rcpts w w'"
proof -
  from assms(1) obtain q v b u where q: "audit_note D action reason w = (Returned q, v)" and u: "reply code msg v = (b, u)" "w' = reset u"
    by (fastforce simp: turn_away_def prod_eq_iff split: prod.splits pan.splits)
  have "answered [show_nat code] v u" using reply_answered(1) [OF u(1)] assms(2) by auto
  then have a: "answered [show_nat code] w w'" using audit_note_conn [OF q] u(2) by (simp add: answered_def)
  have m: "all_messages w' = all_messages w"
    by (rule turn_away_keeps(2) [OF assms(1) _ _ assms(3,4)]) (use assms(2) in auto)
  show ?thesis by (rule accountedI [OF a, of "[]" _ _ None "[]"]) (use assms(2) m in auto)
qed

lemma file_message_accounted:
  assumes "file_message D remote raw spam meta w = (Next, w')" and "picks_member (ml_pick (sd_mail D))" and "session_inv D w"
  shows "accounted (e_mail_from (w_env w)) (e_rcpt_to (w_env w)) w w'"
proof -
  let ?w = "w\<lparr>w_tick := Suc (w_tick w)\<rparr>" and ?res = "run_auth_checks D (w_env w) remote raw (w_tick w)"
  obtain q v where q: "deliver_all D remote ?res raw (sd_unix D (w_tick w)) spam meta False (e_rcpt_to (w_env w)) ?w = (q, v)" by fastforce
  obtain any where any: "q = Returned any" using assms(1) q by (cases q) (simp_all add: file_message_def)
  have fine: "mail_fine D ?w" using assms(3) by (simp add: session_inv_def mail_fine_def)
  obtain served ms where run: "subseq served (e_rcpt_to (w_env w))" "list_all2 (copy_for (e_mail_from (w_env w)) spam) served ms"
    "all_messages v = all_messages w @ ms" "any \<longleftrightarrow> ms \<noteq> []" "w_conn v = w_conn w"
    using deliver_all_run [OF q assms(2) fine] any by (auto simp: all_messages_def)
  define code :: nat where "code = (if any then 250 else 451)"
  obtain msg b u where u: "reply code msg v = (b, u)" "w' = reset u"
    using assms(1) q any by (cases any) (auto simp: file_message_def code_def split: prod.splits if_splits)
  have "100 \<le> code" "code < 1000" "code \<noteq> 354" by (simp_all add: code_def)
  then have "answered [show_nat code] v u" using reply_answered(1) [OF u(1)] by simp
  then have a: "answered [show_nat code] w w'" using u(2) run(5) by (simp add: answered_def)
  have m: "all_messages w' = all_messages w @ ms"
    using u run(3) by (auto simp: all_messages_def reset_def reply_def split: prod.splits)
  show ?thesis by (rule accountedI [OF a _ run(1,2) m]) (auto simp: code_def run(4))
qed

lemma accept_message_accounted:
  assumes "accept_message D remote raw w = (Next, w')" and "picks_member (ml_pick (sd_mail D))" and "session_inv D w"
  shows "accounted (e_mail_from (w_env w)) (e_rcpt_to (w_env w)) w w'"
proof -
  let ?sr = "scan_message D remote raw w" and ?w = "w\<lparr>w_tick := Suc (w_tick w)\<rparr>"
  obtain q v where q: "audit_warnings D (sr_warnings ?sr) ?w = (q, v)" by fastforce
  have w1: "quiet D w ?w" by (simp add: quiet_def)
  have vq: "quiet D w v" by (rule quiet_trans [OF w1 audit_warnings_quiet [OF q]])
  have iv: "session_inv D v" using keeps_quiet [OF vq assms(3)] by (simp add: keeps_session_def)
  have "accounted (e_mail_from (w_env v)) (e_rcpt_to (w_env v)) v w'"
    using assms(1) q
    by (auto simp: accept_message_def Let_def intro: file_message_accounted [OF _ assms(2) iv] turn_away_accounted [OF _ _ _ iv]
        split: pan.splits verdict.splits)
  moreover have "w_conn v = w_conn w" using audit_warnings_conn [OF q] by simp
  ultimately show ?thesis using quietD(2,3) [OF vq] by (simp add: accounted_def answered_def all_messages_def)
qed

text \<open>C4: What the reply to a message means. A DATA command that reads a message and goes on answers it once, ends the
  transaction, and files copies for some of the recipients, in their order, each with the envelope's sender and its
  own recipient; the answer is 250 exactly when at least one copy was filed, so an accepted message is never
  lost altogether and a refused one is never kept.\<close>

theorem data_reply_means_filed:
  assumes "data_command D remote w = (Next, w')" and "picks_member (ml_pick (sd_mail D))" and "session_inv D w"
    and "e_mail_from (w_env w) \<noteq> None" and "e_rcpt_to (w_env w) \<noteq> []" and "0 < wleft (w_conn w')"
  shows "w_env w' = envelope_reset (w_env w) \<and>
    (\<exists>code served ms spam. code \<in> {250, 451, 550} \<and> codes (w_conn w') = codes (w_conn w) @ [show_nat code] \<and>
       subseq served (e_rcpt_to (w_env w)) \<and> list_all2 (copy_for (e_mail_from (w_env w)) spam) served ms \<and>
       all_messages w' = all_messages w @ ms \<and> (code = 250 \<longleftrightarrow> ms \<noteq> []))"
proof -
  obtain b v where v: "reply 354 ''Start mail input; end with <CRLF>.<CRLF>'' w = (b, v)" by fastforce
  obtain x c where x: "read_data (sd_max_message_size D) (w_conn v) = (x, c)" by fastforce
  let ?u = "v\<lparr>w_conn := c\<rparr>"
  from assms(1,4,5) v x obtain raw where raw: "accept_message D remote raw ?u = (Next, w')"
    by (auto simp: data_command_def Let_def split: bool.splits sum.splits data_error.splits)
  have vq: "quiet D w v" by (rule reply_quiet [OF v]) simp_all
  have q: "quiet D w ?u" by (rule quiet_trans [OF vq read_quiet]) (rule read_data_remaining [OF x])+
  have i: "session_inv D ?u" using keeps_quiet [OF q assms(3)] by (simp add: keeps_session_def)
  have env: "w_env v = w_env w" and mail: "w_mail v = w_mail w" using quietD(2,3) [OF q] by simp_all
  have am: "all_messages ?u = all_messages w" by (simp add: all_messages_def mail)
  have acc: "accounted (e_mail_from (w_env w)) (e_rcpt_to (w_env w)) ?u w'"
    using accept_message_accounted [OF raw assms(2) i] by (simp add: env)
  have "answered [] w ?u"
    using reply_answered(1) [OF v] read_data_remaining(2) [OF x] by (simp add: answered_def same_writer_def codes_def)
  moreover obtain code served ms spam where s: "code \<in> {250, 451, 550}" "answered [show_nat code] ?u w'"
    "subseq served (e_rcpt_to (w_env w))" "list_all2 (copy_for (e_mail_from (w_env w)) spam) served ms"
    "all_messages w' = all_messages w @ ms" "code = 250 \<longleftrightarrow> ms \<noteq> []"
    using acc [unfolded accounted_def am] by (elim exE conjE) (rule that)
  ultimately have "codes (w_conn w') = codes (w_conn w) @ [show_nat code]"
    using assms(6) answered_trans by (fastforce simp: answered_def)
  moreover have "w_env w' = envelope_reset (w_env w)"
    using accept_message_concludes [OF raw] by (simp add: concluded_def env)
  ultimately show ?thesis using s by (intro conjI exI [of _ code] exI [of _ served] exI [of _ ms] exI [of _ spam])
qed

section \<open>A line of input\<close>

text \<open>A command line of ASCII text, whatever the segments it arrives in.\<close>

lemma command_step_line:
  assumes "inflow (w_conn w) = k @ [CHR 0x0D, CHR 0x0A] @ after" and "is_ascii k" and "CHR 0x0D \<notin> set k" and "CHR 0x0A \<notin> set k"
    and "length k < MAX_COMMAND_LINE" and "split_command k = (verb, args)"
  obtains c where "command_step D is_tls remote w = run_command D is_tls remote verb args (w\<lparr>w_conn := c\<rparr>)"
    "inflow c = after" "same_writer (w_conn w) c" "\<And>n. heard D is_tls remote (Suc n) w =
      to_ascii_uppercase verb # heard D is_tls remote n (snd (command_step D is_tls remote w))"
proof -
  from assms(1) have fl: "inflow (w_conn w) = (k @ [CHR 0x0D]) @ CHR 0x0A # after" by simp
  obtain c where c: "read_line_bounded MAX_COMMAND_LINE (w_conn w) = (Line ((k @ [CHR 0x0D]) @ [CHR 0x0A]), c)"
    "inflow c = after" "same_writer (w_conn w) c"
    by (rule read_line_Line [OF fl, of MAX_COMMAND_LINE]) (use assms(4,5) in auto)
  note t = line_text_ascii [OF assms(2-4)]
  show thesis
    by (rule that [OF _ c(2,3)]) (simp_all add: command_step_def c(1) t assms(6))
qed

section \<open>Samples\<close>

definition sample_scan_lib :: scan_lib where
  "sample_scan_lib = \<lparr>sl_daemon = (\<lambda>_ _. TimedOut), sl_json = Inl, sl_debug = (\<lambda>s. s), sl_fixed1 = (\<lambda>_. [])\<rparr>"

definition sample_authenticator :: mail_auth_lib where
  "sample_authenticator = \<lparr>ma_spf = (\<lambda>_ _ _ _. ''Pass''), ma_parses = (\<lambda>_. True), ma_dkim = (\<lambda>_. []), ma_dmarc = (\<lambda>_ _ _. ''None'')\<rparr>"

definition sample_deps :: smtp_deps where
  "sample_deps = \<lparr>sd_hostname = ''mx.example.com'', sd_max_message_size = 100, sd_tls_acceptor = True, sd_mail = sample_mail_lib,
     sd_scanner = \<lparr>sc_rspamd = None, sc_clamav = None\<rparr>, sd_scan_lib = (\<lambda>_. sample_scan_lib), sd_authenticator = (\<lambda>_. sample_authenticator),
     sd_unix = (\<lambda>_. 5), sd_seal_random = (\<lambda>_. sample_random), sd_log_random = (\<lambda>_. [])\<rparr>"

definition sample_world :: "bytes list \<Rightarrow> smtp_world" where
  "sample_world input = \<lparr>w_conn = sample_conn input, w_env = envelope_default, w_auth = empty_auth, w_admin = empty_admin,
     w_mail = empty_store, w_audit = empty_audit, w_notifier = notifier_new, w_tick = 0\<rparr>"

lemma sample_session:
  "picks_member (ml_pick (sd_mail sample_deps))" "session_inv sample_deps (sample_world input)"
  using sample_mail_lib_ok(1) empty_store_ok(1)
  by (simp_all add: sample_deps_def sample_world_def session_inv_def mail_fine_def env_ok_def envelope_default_def)

lemma sample_conn_clean: "clean_text (sd_hostname sample_deps)" "clean_sent (sample_conn input)"
  by (simp_all add: sample_deps_def sample_conn_def clean_sent_def)

theorem inbound_session_safe_witness:
  "\<exists>out w'. handle_connection sample_deps (\<lambda>_. None) ''192.0.2.1'' (sample_world [''MAIL FROM'', '':<>'', [CHR 0x0D, CHR 0x0A]]) = (out, w') \<and>
     accounts (tables (w_auth w')) = [] \<and> mail_ok sample_hash (w_mail w') \<and> clean_sent (w_conn w')"
proof -
  let ?w = "sample_world [''MAIL FROM'', '':<>'', [CHR 0x0D, CHR 0x0A]]"
  obtain out w' where run: "handle_connection sample_deps (\<lambda>_. None) ''192.0.2.1'' ?w = (out, w')" by fastforce
  have "auth_ok (tables (w_auth ?w))" "mail_ok (ml_sha256_hex (sd_mail sample_deps)) (w_mail ?w)"
    using empty_store_ok(1) by (simp_all add: sample_world_def)
  from inbound_session_safe [OF run sample_session(1) this] sample_conn_clean run show ?thesis
    by (auto simp: sample_world_def empty_auth_def sample_deps_def sample_mail_lib_def)
qed

lemma sample_noop:
  fixes w defines "w \<equiv> sample_world [''NO'', ''OP'' @ [CHR 0x0D], [CHR 0x0A] @ ''QUIT'']"
  obtains w' where "rounds (command_step sample_deps False ''192.0.2.1'') 1 w = Some w'"
    "heard sample_deps False ''192.0.2.1'' 1 w = [''NOOP'']" "0 < wleft (w_conn w')"
proof -
  have up: "to_ascii_uppercase ''NOOP'' = ''NOOP''" by (simp add: to_ascii_uppercase_def ascii_upper_def)
  have fl: "inflow (w_conn w) = ''NOOP'' @ [CHR 0x0D, CHR 0x0A] @ ''QUIT''" by (simp add: w_def sample_world_def sample_conn_def inflow_def)
  have sp: "split_command ''NOOP'' = (''NOOP'', [])" by (simp add: split_command_def)
  have side: "is_ascii ''NOOP''" "CHR 0x0D \<notin> set ''NOOP''" "CHR 0x0A \<notin> set ''NOOP''" "length ''NOOP'' < MAX_COMMAND_LINE"
    by (simp_all add: MAX_COMMAND_LINE_def)
  obtain c where c: "command_step sample_deps False ''192.0.2.1'' w = run_command sample_deps False ''192.0.2.1'' ''NOOP'' [] (w\<lparr>w_conn := c\<rparr>)"
    "same_writer (w_conn w) c" "\<And>n. heard sample_deps False ''192.0.2.1'' (Suc n) w = to_ascii_uppercase ''NOOP'' #
       heard sample_deps False ''192.0.2.1'' n (snd (command_step sample_deps False ''192.0.2.1'' w))"
    by (rule command_step_line [OF fl side sp, of sample_deps False "''192.0.2.1''"]) (rule that)
  have left: "wleft c = 100" using c(2) by (simp add: w_def sample_world_def sample_conn_def same_writer_def)
  have "run_command sample_deps False ''192.0.2.1'' ''NOOP'' [] (w\<lparr>w_conn := c\<rparr>) = answer 250 ''OK'' (w\<lparr>w_conn := c\<rparr>)"
    by (simp add: run_command_def up)
  with c(1) have st: "command_step sample_deps False ''192.0.2.1'' w = (Next, snd (reply 250 ''OK'' (w\<lparr>w_conn := c\<rparr>)))"
    by (simp add: answer_def)
  show thesis
    by (rule that [of "snd (reply 250 ''OK'' (w\<lparr>w_conn := c\<rparr>))"])
      (use st c(3) [of 0] up left in \<open>simp_all add: reply_def write_reply_def write_all_def\<close>)
qed

theorem session_refines_smtp_witness:
  "\<exists>w' code. rounds (command_step sample_deps False ''192.0.2.1'') 1 (sample_world [''NO'', ''OP'' @ [CHR 0x0D], [CHR 0x0A] @ ''QUIT'']) = Some w' \<and>
     smtp_accepts Connected [(''NOOP'', code)] = Some (phase_of (w_env w')) \<and> codes (w_conn w') = [show_nat code]"
proof -
  let ?w = "sample_world [''NO'', ''OP'' @ [CHR 0x0D], [CHR 0x0A] @ ''QUIT'']"
  obtain w' where w': "rounds (command_step sample_deps False ''192.0.2.1'') 1 ?w = Some w'"
    "heard sample_deps False ''192.0.2.1'' 1 ?w = [''NOOP'']" "0 < wleft (w_conn w')" by (rule sample_noop)
  have "phase_of (w_env ?w) = Connected" "codes (w_conn ?w) = []"
    by (simp_all add: sample_world_def phase_of_def envelope_default_def codes_def sample_conn_def)
  moreover obtain cs where "length cs = 1" "smtp_accepts (phase_of (w_env ?w)) (zip [''NOOP''] cs) = Some (phase_of (w_env w'))"
    "0 < wleft (w_conn w') \<longrightarrow> codes (w_conn w') = codes (w_conn ?w) @ map show_nat cs"
    using session_refines_smtp [OF w'(1) sample_session, unfolded w'(2)] by (elim exE conjE) (rule that)
  ultimately show ?thesis using w'(1,3) by (cases cs) auto
qed

theorem command_loop_terminates_witness:
  "\<exists>n v out w'. n \<le> 10 \<and> rounds (command_step sample_deps False ''192.0.2.1'') n (sample_world [''NO'', ''OP'' @ [CHR 0x0D], [CHR 0x0A] @ ''QUIT'']) = Some v \<and>
     command_step sample_deps False ''192.0.2.1'' v = (Done out, w')"
proof -
  let ?w = "sample_world [''NO'', ''OP'' @ [CHR 0x0D], [CHR 0x0A] @ ''QUIT'']"
  have "remaining (w_conn ?w) = 10" by (simp add: sample_world_def sample_conn_def remaining_def)
  moreover obtain n v out w' where "n \<le> remaining (w_conn ?w)" "rounds (command_step sample_deps False ''192.0.2.1'') n ?w = Some v"
    "command_step sample_deps False ''192.0.2.1'' v = (Done out, w')"
    using command_loop_terminates [OF sample_session, of "[''NO'', ''OP'' @ [CHR 0x0D], [CHR 0x0A] @ ''QUIT'']" False "''192.0.2.1''"]
    by (elim exE conjE) (rule that)
  ultimately show ?thesis by (intro exI [of _ n] exI [of _ v] exI [of _ out] exI [of _ w']) simp
qed

end
