(* ===== verification/Mail_Path.thy ===== *)
theory Mail_Path
  imports Smtp_Session
begin

text \<open>
  The path of a message through the components: a client that speaks SMTP to the inbound server
  (\<open>Smtp_Session\<close>), the account found by its address (\<open>Auth_Store\<close>), the copy sealed and filed for it (\<open>Delivery\<close>), and
  the owner who unlocks the account with the password and reads the message.
\<close>

section \<open>Replies that are accepted\<close>

lemma reply_written:
  assumes "0 < wleft (w_conn w)"
  obtains c where "reply code msg w = (True, w\<lparr>w_conn := c\<rparr>)" "inflow c = inflow (w_conn w)" "wleft c = wleft (w_conn w) - 1"
proof -
  let ?c = "(w_conn w)\<lparr>sent := sent (w_conn w) @ [show_nat code @ '' '' @ msg @ [CHR 0x0D, CHR 0x0A]], wleft := wleft (w_conn w) - 1\<rparr>"
  show thesis
    by (rule that [of ?c]) (use assms in \<open>simp_all add: reply_def write_reply_def write_all_def inflow_def\<close>)
qed

lemma multiline_written:
  assumes "length lines \<le> wleft c"
  obtains d where "write_multiline_reply code lines c = (True, d)" "inflow d = inflow c" "wleft d = wleft c - length lines"
proof -
  have "\<exists>d. write_multiline_reply code lines c = (True, d) \<and> inflow d = inflow c \<and> wleft d = wleft c - length lines"
    using assms
  proof (induction lines arbitrary: c)
    case (Cons l lines)
    let ?c = "c\<lparr>sent := sent c @ [show_nat code @ [if lines = [] then CHR '' '' else CHR ''-''] @ l @ [CHR 0x0D, CHR 0x0A]], wleft := wleft c - 1\<rparr>"
    have "write_multiline_reply code (l # lines) c = write_multiline_reply code lines ?c"
      using Cons.prems by (simp add: write_all_def Let_def)
    moreover obtain d where "write_multiline_reply code lines ?c = (True, d)" "inflow d = inflow ?c" "wleft d = wleft ?c - length lines"
      using Cons.IH [of ?c] Cons.prems by (auto simp del: write_multiline_reply.simps simp: le_diff_conv2)
    ultimately show ?case by (simp add: inflow_def)
  qed simp
  then show thesis using that by blast
qed

lemma answer_written:
  assumes "0 < wleft (w_conn w)" and "100 \<le> code" and "code < 1000" and "code \<noteq> 354"
  obtains c where "answer code msg w = (Next, w\<lparr>w_conn := c\<rparr>)" "inflow c = inflow (w_conn w)" "wleft c = wleft (w_conn w) - 1"
    "0 < wleft c \<Longrightarrow> codes c = codes (w_conn w) @ [show_nat code]"
proof -
  obtain c where c: "reply code msg w = (True, w\<lparr>w_conn := c\<rparr>)" "inflow c = inflow (w_conn w)" "wleft c = wleft (w_conn w) - 1"
    by (rule reply_written [OF assms(1)])
  have "answered [show_nat code] w (w\<lparr>w_conn := c\<rparr>)" using reply_answered(1) [OF c(1) assms(2,3)] assms(4) by simp
  with c show thesis by (intro that [of c]) (auto simp: answer_def answered_def)
qed

section \<open>Commands of plain words\<close>

text \<open>A word of visible ASCII characters.\<close>

definition word :: "bytes \<Rightarrow> bool" where
  "word s \<longleftrightarrow> s \<noteq> [] \<and> list_all (\<lambda>c. 33 \<le> (of_char c :: nat) \<and> (of_char c :: nat) < 127) s"

lemma word_facts:
  assumes "word s"
  shows "is_ascii s" "trim s = s" "CHR 0x0D \<notin> set s" "CHR 0x0A \<notin> set s"
proof -
  have b: "33 \<le> (of_char c :: nat) \<and> (of_char c :: nat) < 127" if "c \<in> set s" for c
    using assms that by (auto simp: word_def list_all_iff)
  show a: "is_ascii s" by (auto simp: is_ascii_def list_all_iff dest!: b)
  have ne: "s \<noteq> []" using assms by (simp add: word_def)
  have ws: "\<not> is_whitespace (of_char c)" if "c \<in> set s" for c
    using b [OF that] by (auto simp: is_whitespace_def)
  show "trim s = s" by (rule trim_tight [OF a ne]) (use ws ne in auto)
  show "CHR 0x0D \<notin> set s" "CHR 0x0A \<notin> set s" using b [of "CHR 0x0D"] b [of "CHR 0x0A"] by auto
qed

lemma word_append [simp]: "word (s @ t) \<longleftrightarrow> (word s \<and> (t = [] \<or> word t)) \<or> (s = [] \<and> word t)"
  by (auto simp: word_def)

definition crlf :: "bytes \<Rightarrow> bytes" where
  "crlf s = s @ [CHR 0x0D, CHR 0x0A]"

text \<open>A command with one word as its argument.\<close>

lemma word_command:
  assumes "inflow (w_conn w) = crlf (verb @ '' '' @ arg) @ after" and "word verb" and "word arg" and "length verb + length arg + 1 < MAX_COMMAND_LINE"
  obtains c where "command_step D is_tls remote w = run_command D is_tls remote verb arg (w\<lparr>w_conn := c\<rparr>)"
    "inflow c = after" "wleft c = wleft (w_conn w)" "codes c = codes (w_conn w)"
proof -
  have i: "inflow (w_conn w) = (verb @ '' '' @ arg) @ [CHR 0x0D, CHR 0x0A] @ after" using assms(1) by (simp add: crlf_def)
  have "CHR '' '' \<notin> set verb" using assms(2) by (auto simp: word_def list_all_iff)
  then have sp: "split_command (verb @ '' '' @ arg) = (verb, arg)" using word_facts(2) [OF assms(3)] by (rule split_command_arg)
  have a: "is_ascii (verb @ '' '' @ arg)" "CHR 0x0D \<notin> set (verb @ '' '' @ arg)" "CHR 0x0A \<notin> set (verb @ '' '' @ arg)"
    using word_facts [OF assms(2)] word_facts [OF assms(3)] by (auto simp: is_ascii_def)
  have l: "length (verb @ '' '' @ arg) < MAX_COMMAND_LINE" using assms(4) by simp
  obtain c where c: "command_step D is_tls remote w = run_command D is_tls remote verb arg (w\<lparr>w_conn := c\<rparr>)"
    "inflow c = after" "same_writer (w_conn w) c"
    by (rule command_step_line [OF i a l sp, of D is_tls remote]) (rule that)
  show thesis by (rule that [OF c(1,2)]) (use c(3) in \<open>simp_all add: same_writer_def codes_def\<close>)
qed

section \<open>The steps of a transaction\<close>

lemma verbs_upper:
  "to_ascii_uppercase ''EHLO'' = ''EHLO''" "to_ascii_uppercase ''MAIL'' = ''MAIL''"
  "to_ascii_uppercase ''RCPT'' = ''RCPT''" "to_ascii_uppercase ''DATA'' = ''DATA''"
  by (simp_all add: to_ascii_uppercase_def ascii_upper_def)

lemma verbs_word [simp]: "word ''EHLO''" "word ''MAIL''" "word ''RCPT''" "word ''FROM:<''" "word ''TO:<''" "word ''>''"
  by (simp_all add: word_def)

lemma show_250 [simp]: "show_nat 250 = ''250''"
  by code_simp

lemma ehlo_step:
  assumes "inflow (w_conn w) = crlf (''EHLO '' @ h) @ after" and "valid_helo_domain h" and "word h" and "length h < 1000" and "5 < wleft (w_conn w)"
  obtains c where "command_step D is_tls remote w =
      (Next, w\<lparr>w_conn := c, w_env := \<lparr>e_helo_domain = Some h, e_mail_from = None, e_rcpt_to = []\<rparr>\<rparr>)"
    "inflow c = after" "wleft (w_conn w) \<le> wleft c + 5" "codes c = codes (w_conn w) @ [''250'']"
proof -
  have l: "length ''EHLO'' + length h + 1 < MAX_COMMAND_LINE" using assms(4) by (simp add: MAX_COMMAND_LINE_def)
  have i: "inflow (w_conn w) = crlf (''EHLO'' @ '' '' @ h) @ after" using assms(1) by simp
  obtain c where c: "command_step D is_tls remote w = run_command D is_tls remote ''EHLO'' h (w\<lparr>w_conn := c\<rparr>)"
    "inflow c = after" "wleft c = wleft (w_conn w)" "codes c = codes (w_conn w)"
    by (rule word_command [OF i verbs_word(1) assms(3) l, of D is_tls remote]) (rule that)
  define ls where "ls = (sd_hostname D @ '' Hello'') # [''SIZE '' @ show_nat (sd_max_message_size D), ''8BITMIME'', ''SMTPUTF8''] @
    (if \<not> is_tls \<and> sd_tls_acceptor D then [''STARTTLS''] else [])"
  have n: "length ls \<le> 5" "ls \<noteq> []" by (simp_all add: ls_def)
  obtain d where d: "write_multiline_reply 250 ls c = (True, d)" "inflow d = inflow c" "wleft d = wleft c - length ls"
    by (rule multiline_written [of ls c 250]) (use n assms(5) c(3) in auto)
  define v where "v = reset (w\<lparr>w_conn := c, w_env := (w_env w)\<lparr>e_helo_domain := Some h\<rparr>\<rparr>)"
  have v: "w_conn v = c" "v\<lparr>w_conn := d\<rparr> = w\<lparr>w_conn := d, w_env := \<lparr>e_helo_domain = Some h, e_mail_from = None, e_rcpt_to = []\<rparr>\<rparr>"
    by (simp_all add: v_def reset_def envelope_reset_def)
  have "helo_command D is_tls ''EHLO'' h (w\<lparr>w_conn := c\<rparr>) =
      (let (sent_ok, c') = write_multiline_reply 250 ls (w_conn v) in (if sent_ok then Next else Done Closed, v\<lparr>w_conn := c'\<rparr>))"
    unfolding helo_command_def Let_def ls_def v_def using assms(2) word_facts(2) [OF assms(3)]
    by (simp del: write_multiline_reply.simps)
  then have "command_step D is_tls remote w =
      (Next, w\<lparr>w_conn := d, w_env := \<lparr>e_helo_domain = Some h, e_mail_from = None, e_rcpt_to = []\<rparr>\<rparr>)"
    using c(1) d(1) v by (simp add: run_command_def verbs_upper del: write_multiline_reply.simps)
  moreover have "codes d = codes c @ [show_nat 250]"
    using multiline_answered [OF d(1) n(2)] d(3) n(1) assms(5) c(3) by simp
  ultimately show thesis by (intro that [of d]) (use d c n in auto)
qed

lemma mail_step:
  assumes "inflow (w_conn w) = crlf (''MAIL FROM:<'' @ from @ ''>'') @ after" and "word from" and "CHR ''>'' \<notin> set from" and "length from < 1000"
    and "e_helo_domain (w_env w) \<noteq> None" and "1 < wleft (w_conn w)"
  obtains c where "command_step D is_tls remote w = (Next, w\<lparr>w_conn := c, w_env := (w_env w)\<lparr>e_mail_from := Some from, e_rcpt_to := []\<rparr>\<rparr>)"
    "inflow c = after" "wleft (w_conn w) = wleft c + 1" "codes c = codes (w_conn w) @ [''250'']"
proof -
  let ?a = "''FROM:<'' @ from @ ''>''" and ?e = "(w_env w)\<lparr>e_mail_from := Some from, e_rcpt_to := []\<rparr>"
  have w: "word ?a" using assms(2) by (auto simp: word_def)
  have i: "inflow (w_conn w) = crlf (''MAIL'' @ '' '' @ ?a) @ after" using assms(1) by simp
  have l: "length ''MAIL'' + length ?a + 1 < MAX_COMMAND_LINE" using assms(4) by (simp add: MAX_COMMAND_LINE_def)
  obtain c where c: "command_step D is_tls remote w = run_command D is_tls remote ''MAIL'' ?a (w\<lparr>w_conn := c\<rparr>)"
    "inflow c = after" "wleft c = wleft (w_conn w)" "codes c = codes (w_conn w)"
    by (rule word_command [OF i verbs_word(2) w l, of D is_tls remote]) (rule that)
  have p: "parse_addr_param ?a ''FROM:'' = Returned (Some from)"
    by (rule parse_addr_param_angle [of "''FROM:''" _ _ _ "[]"]) (use assms(3) word_facts(2) [OF w] in auto)
  let ?v = "w\<lparr>w_conn := c, w_env := ?e\<rparr>"
  have "command_step D is_tls remote w = answer 250 ''OK'' ?v"
    using c(1) p assms(5) by (simp add: run_command_def verbs_upper mail_command_def)
  moreover obtain d where "answer 250 ''OK'' ?v = (Next, ?v\<lparr>w_conn := d\<rparr>)" "inflow d = inflow (w_conn ?v)" "wleft d = wleft (w_conn ?v) - 1"
    "0 < wleft d \<Longrightarrow> codes d = codes (w_conn ?v) @ [show_nat 250]"
    by (rule answer_written [of ?v 250 "''OK''"]) (use c(3) assms(6) in auto)
  ultimately show thesis by (intro that [of d]) (use c assms(6) in auto)
qed

lemma rcpt_step:
  assumes "inflow (w_conn w) = crlf (''RCPT TO:<'' @ addr @ ''>'') @ after" and "word addr" and "CHR ''>'' \<notin> set addr" and "length addr < 1000"
    and "e_mail_from (w_env w) \<noteq> None" and "e_rcpt_to (w_env w) = []" and "1 < wleft (w_conn w)" and "valid_email_address addr"
    and "rsplit_once (CHR ''@'') addr = Some (lp, dn)" and "find_by_address lp dn (w_auth w) = (Returned (Inr (Some a)), w_auth w)"
  obtains c where "command_step D is_tls remote w = (Next, w\<lparr>w_conn := c, w_env := (w_env w)\<lparr>e_rcpt_to := [resolved addr a]\<rparr>\<rparr>)"
    "inflow c = after" "wleft (w_conn w) = wleft c + 1" "codes c = codes (w_conn w) @ [''250'']"
proof -
  let ?a = "''TO:<'' @ addr @ ''>''" and ?e = "(w_env w)\<lparr>e_rcpt_to := [resolved addr a]\<rparr>"
  have w: "word ?a" using assms(2) by (auto simp: word_def)
  have i: "inflow (w_conn w) = crlf (''RCPT'' @ '' '' @ ?a) @ after" using assms(1) by simp
  have l: "length ''RCPT'' + length ?a + 1 < MAX_COMMAND_LINE" using assms(4) by (simp add: MAX_COMMAND_LINE_def)
  obtain c where c: "command_step D is_tls remote w = run_command D is_tls remote ''RCPT'' ?a (w\<lparr>w_conn := c\<rparr>)"
    "inflow c = after" "wleft c = wleft (w_conn w)" "codes c = codes (w_conn w)"
    by (rule word_command [OF i verbs_word(3) w l, of D is_tls remote]) (rule that)
  have p: "parse_addr_param ?a ''TO:'' = Returned (Some addr)"
    by (rule parse_addr_param_angle [of "''TO:''" _ _ _ "[]"]) (use assms(3) word_facts(2) [OF w] in auto)
  have res: "resolve_recipient addr (w\<lparr>w_conn := c\<rparr>) = (Returned (Some (resolved addr a)), w\<lparr>w_conn := c\<rparr>)"
    using assms(9,10) by (simp add: resolve_recipient_def find_account_def)
  let ?v = "w\<lparr>w_conn := c, w_env := ?e\<rparr>"
  have "command_step D is_tls remote w = answer 250 ''OK'' ?v"
    using c(1) p assms(5,6,8) res by (simp add: run_command_def verbs_upper rcpt_command_def MAX_RECIPIENTS_def)
  moreover obtain d where "answer 250 ''OK'' ?v = (Next, ?v\<lparr>w_conn := d\<rparr>)" "inflow d = inflow (w_conn ?v)" "wleft d = wleft (w_conn ?v) - 1"
    "0 < wleft d \<Longrightarrow> codes d = codes (w_conn ?v) @ [show_nat 250]"
    by (rule answer_written [of ?v 250 "''OK''"]) (use c(3) assms(7) in auto)
  ultimately show thesis by (intro that [of d]) (use c assms(7) in auto)
qed

lemma data_step:
  assumes "inflow (w_conn w) = crlf ''DATA'' @ concat (map dot_stuff ls) @ crlf ''.'' @ after" and "list_all data_line ls"
    and "length (concat ls) \<le> sd_max_message_size D" and "2 < wleft (w_conn w)"
    and "e_mail_from (w_env w) \<noteq> None" and "e_rcpt_to (w_env w) = [resolved addr a]"
    and "\<forall>t req. sr_verdict (scan (sd_scan_lib D t) (sd_scanner D) req) = Clean \<and> sr_warnings (scan (sd_scan_lib D t) (sd_scanner D) req) = []"
    and "\<And>env auth now meta. \<exists>dm. deliver (sd_mail D) (sd_seal_random D (w_tick w + 2))
      \<lparr>ra_id = acc_id a, ra_account_pub = acc_pub a, ra_key_id = acc_key_id a\<rparr> env auth (concat ls) now None meta (w_mail w) =
      (Returned (Inr dm), mail' env auth now meta)"
  obtains w' env auth now meta where "command_step D is_tls remote w = (Next, w')" "inflow (w_conn w') = after"
    "w_mail w' = mail' env auth now meta" "codes (w_conn w') = codes (w_conn w) @ [''250'']" "0 < wleft (w_conn w')"
    "\<exists>c. data_command D remote (w\<lparr>w_conn := c\<rparr>) = (Next, w')"
proof -
  have i: "inflow (w_conn w) = ''DATA'' @ [CHR 0x0D, CHR 0x0A] @ concat (map dot_stuff ls) @ crlf ''.'' @ after"
    using assms(1) by (simp add: crlf_def)
  have sp: "split_command ''DATA'' = (''DATA'', [])" by (simp add: split_command_def)
  have side: "is_ascii ''DATA''" "CHR 0x0D \<notin> set ''DATA''" "CHR 0x0A \<notin> set ''DATA''" "length ''DATA'' < MAX_COMMAND_LINE"
    by (simp_all add: MAX_COMMAND_LINE_def)
  obtain c where c: "command_step D is_tls remote w = run_command D is_tls remote ''DATA'' [] (w\<lparr>w_conn := c\<rparr>)"
    "inflow c = concat (map dot_stuff ls) @ crlf ''.'' @ after" "same_writer (w_conn w) c"
    by (rule command_step_line [OF i side sp, of D is_tls remote]) (rule that)
  let ?v = "w\<lparr>w_conn := c\<rparr>"
  have left: "2 < wleft c" using c(3) assms(4) by (simp add: same_writer_def)
  obtain d where d: "reply 354 ''Start mail input; end with <CRLF>.<CRLF>'' ?v = (True, ?v\<lparr>w_conn := d\<rparr>)"
    "inflow d = inflow c" "wleft d = wleft c - 1"
    using reply_written [of ?v 354 "''Start mail input; end with <CRLF>.<CRLF>''"] left by auto
  have cd: "codes d = codes c" using reply_answered(1) [OF d(1)] d(3) left by (simp add: answered_def)
  have dot: "inflow d = concat (map dot_stuff ls) @ [CHR ''.'', CHR 0x0D, CHR 0x0A] @ after"
    using c(2) d(2) by (simp add: crlf_def)
  obtain e where e: "read_data (sd_max_message_size D) d = (Inr (concat ls), e)" "inflow e = after"
    using read_data_from_stuffed [OF assms(2) _ dot, of "[]" "sd_max_message_size D"] assms(3) by (auto simp: read_data_def)
  have we: "wleft e = wleft d" "codes e = codes d"
    using read_data_remaining(2) [OF e(1)] by (simp_all add: same_writer_def codes_def)
  let ?u = "w\<lparr>w_conn := e\<rparr>"
  have "command_step D is_tls remote w = accept_message D remote (concat ls) ?u"
    using c(1) d(1) e(1) assms(5,6) by (simp add: run_command_def verbs_upper data_command_def)
  also have "\<dots> = file_message D remote (concat ls) None
      \<lparr>sm_spam_score = sr_spam_score (scan_message D remote (concat ls) ?u), sm_av_clean = sr_av_clean (scan_message D remote (concat ls) ?u)\<rparr>
      (?u\<lparr>w_tick := Suc (w_tick w)\<rparr>)" (is "_ = file_message D remote _ None ?meta _")
    using assms(7) by (simp add: accept_message_def scan_message_def Let_def)
  finally have step: "command_step D is_tls remote w = file_message D remote (concat ls) None ?meta (?u\<lparr>w_tick := Suc (w_tick w)\<rparr>)" .
  define auth where "auth = run_auth_checks D (w_env w) remote (concat ls) (Suc (w_tick w))"
  define now where "now = sd_unix D (Suc (w_tick w))"
  define env where "env = \<lparr>env_mail_from = (case e_mail_from (w_env w) of Some f \<Rightarrow> f | None \<Rightarrow> []), env_rcpt_to = addr, env_remote_ip = remote\<rparr>"
  define meta where "meta = ?meta"
  obtain dm where dm: "deliver (sd_mail D) (sd_seal_random D (Suc (Suc (w_tick w))))
      \<lparr>ra_id = acc_id a, ra_account_pub = acc_pub a, ra_key_id = acc_key_id a\<rparr> env auth (concat ls) now None meta (w_mail w) =
      (Returned (Inr dm), mail' env auth now meta)" using assms(8) [of env auth now meta] by auto
  let ?x = "w\<lparr>w_conn := e, w_mail := mail' env auth now meta, w_tick := w_tick w + 3, w_notifier := notify (acc_id a) (w_notifier w)\<rparr>"
  have all: "deliver_all D remote auth (concat ls) now None meta False [resolved addr a] (w\<lparr>w_conn := e, w_tick := Suc (Suc (w_tick w))\<rparr>) = (Returned True, ?x)"
    using dm by (simp add: deliver_one_def resolved_def env_def eval_nat_numeral)
  obtain f where f: "reply 250 ''OK: message accepted'' ?x = (True, ?x\<lparr>w_conn := f\<rparr>)" "inflow f = inflow e" "wleft f = wleft e - 1"
    using reply_written [of ?x 250 "''OK: message accepted''"] left we(1) d(3) by auto
  have "codes f = codes e @ [show_nat 250]" using reply_answered(1) [OF f(1)] f(3) we(1) d(3) left by (simp add: answered_def)
  moreover have "codes c = codes (w_conn w)" using c(3) by (simp add: same_writer_def codes_def)
  moreover have "file_message D remote (concat ls) None meta (?u\<lparr>w_tick := Suc (w_tick w)\<rparr>) = (Next, reset (?x\<lparr>w_conn := f\<rparr>))"
    using all f(1) assms(6) by (simp add: file_message_def auth_def now_def)
  moreover have "command_step D is_tls remote w = data_command D remote ?v" using c(1) by (simp add: run_command_def verbs_upper)
  ultimately show thesis
    by (intro that [of "reset (?x\<lparr>w_conn := f\<rparr>)" env auth now meta] exI [of _ c])
      (use step f(2,3) e(2) we left d(3) cd in \<open>simp_all add: meta_def reset_def\<close>)
qed

section \<open>From the client to the reader\<close>

lemma rounds_last:
  assumes "rounds step n w = Some v" and "step v = (Next, w')"
  shows "rounds step (Suc n) w = Some w'"
  using assms
proof (induction n arbitrary: w)
  case (Suc n)
  then obtain u where u: "step w = (Next, u)" "rounds step n u = Some v" by (auto split: prod.splits step.splits)
  from Suc.IH [OF u(2) Suc.prems(2)] u(1) show ?case by simp
qed simp

text \<open>What a client may send as the text between angle brackets.\<close>

definition plain_address :: "bytes \<Rightarrow> bool" where
  "plain_address s \<longleftrightarrow> word s \<and> CHR ''>'' \<notin> set s \<and> length s < 1000"

text \<open>The commands before the message leave its sender and its one recipient in the envelope.\<close>

lemma envelope_rounds:
  assumes i: "inflow (w_conn w) = crlf (''EHLO '' @ helo) @ crlf (''MAIL FROM:<'' @ from @ ''>'') @ crlf (''RCPT TO:<'' @ addr @ ''>'') @ after"
    and helo: "valid_helo_domain helo" and plain: "plain_address helo" "plain_address from" "plain_address addr"
    and left: "8 < wleft (w_conn w)" and addr: "valid_email_address addr" "rsplit_once (CHR ''@'') addr = Some (lp, dn)"
    and found: "find_by_address lp dn (w_auth w) = (Returned (Inr (Some a)), w_auth w)"
  obtains c where "rounds (command_step D is_tls remote) 3 w =
      Some (w\<lparr>w_conn := c, w_env := \<lparr>e_helo_domain = Some helo, e_mail_from = Some from, e_rcpt_to = [resolved addr a]\<rparr>\<rparr>)"
    "inflow c = after" "wleft (w_conn w) \<le> wleft c + 7" "codes c = codes (w_conn w) @ [''250'', ''250'', ''250'']"
proof -
  note words = plain [unfolded plain_address_def]
  have n1: "5 < wleft (w_conn w)" using left by simp
  obtain c1 where c1: "command_step D is_tls remote w = (Next, w\<lparr>w_conn := c1, w_env := \<lparr>e_helo_domain = Some helo, e_mail_from = None, e_rcpt_to = []\<rparr>\<rparr>)"
    "inflow c1 = crlf (''MAIL FROM:<'' @ from @ ''>'') @ crlf (''RCPT TO:<'' @ addr @ ''>'') @ after"
    "wleft (w_conn w) \<le> wleft c1 + 5" "codes c1 = codes (w_conn w) @ [''250'']"
    by (rule ehlo_step [OF i helo _ _ n1, of D is_tls remote]) (use words in auto)
  let ?w1 = "w\<lparr>w_conn := c1, w_env := \<lparr>e_helo_domain = Some helo, e_mail_from = None, e_rcpt_to = []\<rparr>\<rparr>"
  have i1: "inflow (w_conn ?w1) = crlf (''MAIL FROM:<'' @ from @ ''>'') @ crlf (''RCPT TO:<'' @ addr @ ''>'') @ after"
    and n2: "1 < wleft (w_conn ?w1)" using c1(2,3) left by simp_all
  obtain c2 where c2: "command_step D is_tls remote ?w1 = (Next, ?w1\<lparr>w_conn := c2, w_env := (w_env ?w1)\<lparr>e_mail_from := Some from, e_rcpt_to := []\<rparr>\<rparr>)"
    "inflow c2 = crlf (''RCPT TO:<'' @ addr @ ''>'') @ after" "wleft (w_conn ?w1) = wleft c2 + 1" "codes c2 = codes (w_conn ?w1) @ [''250'']"
    by (rule mail_step [OF i1 _ _ _ _ n2, of D is_tls remote]) (use words in auto)
  let ?w2 = "?w1\<lparr>w_conn := c2, w_env := (w_env ?w1)\<lparr>e_mail_from := Some from, e_rcpt_to := []\<rparr>\<rparr>"
  have i2: "inflow (w_conn ?w2) = crlf (''RCPT TO:<'' @ addr @ ''>'') @ after" and n3: "1 < wleft (w_conn ?w2)"
    and found2: "find_by_address lp dn (w_auth ?w2) = (Returned (Inr (Some a)), w_auth ?w2)"
    using c2(2,3) c1(3) left found by simp_all
  obtain c3 where c3: "command_step D is_tls remote ?w2 = (Next, ?w2\<lparr>w_conn := c3, w_env := (w_env ?w2)\<lparr>e_rcpt_to := [resolved addr a]\<rparr>\<rparr>)"
    "inflow c3 = after" "wleft (w_conn ?w2) = wleft c3 + 1" "codes c3 = codes (w_conn ?w2) @ [''250'']"
    by (rule rcpt_step [OF i2 _ _ _ _ _ n3 addr found2, of D is_tls remote]) (use words in auto)
  show thesis
    by (rule that [of c3]) (use c1 c2 c3 in \<open>simp_all add: eval_nat_numeral\<close>)
qed

definition transaction :: "bytes \<Rightarrow> bytes \<Rightarrow> bytes \<Rightarrow> bytes list \<Rightarrow> bytes" where
  "transaction helo from addr ls = crlf (''EHLO '' @ helo) @ crlf (''MAIL FROM:<'' @ from @ ''>'') @ crlf (''RCPT TO:<'' @ addr @ ''>'') @
     crlf ''DATA'' @ concat (map dot_stuff ls) @ crlf ''.''"

text \<open>The state of a server whose disks work and whose scanner passes everything.\<close>

definition healthy :: "smtp_deps \<Rightarrow> smtp_world \<Rightarrow> bool" where
  "healthy D w \<longleftrightarrow> mail_ok (ml_sha256_hex (sd_mail D)) (w_mail w) \<and> no_faults (w_mail w) \<and> faults (w_auth w) = [] \<and>
     (\<forall>t req. sr_verdict (scan (sd_scan_lib D t) (sd_scanner D) req) = Clean \<and> sr_warnings (scan (sd_scan_lib D t) (sd_scanner D) req) = [])"

text \<open>The message can be sealed for the account.\<close>

definition sealable :: "mail_lib \<Rightarrow> seal_random \<Rightarrow> account \<Rightarrow> bytes \<Rightarrow> mail_store \<Rightarrow> bool" where
  "sealable ml rnd a raw s \<longleftrightarrow> length (sr_dek rnd) = 32 \<and> length (sr_nonce rnd) = 24 \<and>
     (\<exists>parsed shash sealed wrap. ml_parse ml raw = Some parsed \<and> subject_hash_of ml (acc_pub a) (p_subject parsed) = Returned shash \<and>
        aead_seal (ml_crypto ml) (sr_nonce rnd) (sr_dek rnd) 1 raw = Returned sealed \<and>
        hpke_seal (ml_crypto ml) (sr_hpke rnd) (acc_pub a) (acc_key_id a) DEK_SEAL_INFO (sr_dek rnd) = Inr wrap) \<and>
     no_collision ml rnd raw s"

lemma deliver_to_account:
  assumes "aead_correct (ml_crypto ml)" and "hpke_correct (ml_crypto ml)" and "hex_hash (ml_sha256_hex ml)" and "picks_member (ml_pick ml)"
    and "gen_keypair (ml_crypto ml) r = (sk, acc_pub a)" and "sealable ml rnd a raw s" and "mail_ok (ml_sha256_hex ml) s" and "no_faults s"
  shows "\<exists>dm s' m. deliver ml rnd \<lparr>ra_id = acc_id a, ra_account_pub = acc_pub a, ra_key_id = acc_key_id a\<rparr> env auth raw now spam meta s =
      (Returned (Inr dm), s') \<and> messages (tables (ms_meta s')) = messages (tables (ms_meta s)) @ [m] \<and> account_id m = acc_id a \<and>
      rcpt_to m = env_rcpt_to env \<and> open_message ml m sk s' = (Returned (Inr raw), s')"
proof -
  let ?acct = "\<lparr>ra_id = acc_id a, ra_account_pub = acc_pub a, ra_key_id = acc_key_id a\<rparr>"
  from assms(6) obtain parsed shash sealed wrap where s: "length (sr_dek rnd) = 32" "length (sr_nonce rnd) = 24"
    "ml_parse ml raw = Some parsed" "subject_hash_of ml (ra_account_pub ?acct) (p_subject parsed) = Returned shash"
    "aead_seal (ml_crypto ml) (sr_nonce rnd) (sr_dek rnd) 1 raw = Returned sealed"
    "hpke_seal (ml_crypto ml) (sr_hpke rnd) (ra_account_pub ?acct) (ra_key_id ?acct) DEK_SEAL_INFO (sr_dek rnd) = Inr wrap"
    "no_collision ml rnd raw s" by (auto simp: sealable_def)
  have kp: "gen_keypair (ml_crypto ml) r = (sk, ra_account_pub ?acct)" using assms(5) by simp
  obtain dm s' m where d: "deliver ml rnd ?acct env auth raw now spam meta s = (Returned (Inr dm), s')" "no_faults s'"
    "filed ?acct env spam dm s s' m" "mail_ok (ml_sha256_hex ml) s'"
    "\<forall>s''. mail_ok (ml_sha256_hex ml) s'' \<longrightarrow> no_faults s'' \<longrightarrow>
       (\<forall>k c. contents (ms_blobs s') k = Some c \<longrightarrow> contents (ms_blobs s'') k = Some c) \<longrightarrow> open_message ml m sk s'' = (Returned (Inr raw), s'')"
    using deliver_opens [OF assms(1-4) kp s(1-6) assms(7,8) s(7), of env auth now spam meta] by (elim exE conjE) (rule that)
  with d(5) [rule_format, of s'] show ?thesis by (auto simp: filed_def)
qed

text \<open>An accepted address has one \<open>@\<close>, so its parts are determined.\<close>

lemma valid_email_at:
  assumes "valid_email_address addr" and "addr = lp @ ''@'' @ dn"
  shows "rsplit_once (CHR ''@'') addr = Some (lp, dn)"
proof -
  obtain l d where "addr = l @ CHR ''@'' # d" "CHR ''@'' \<notin> set l" "CHR ''@'' \<notin> set d" by (rule valid_email_split [OF assms(1)])
  then have "count_list addr (CHR ''@'') = 1" by (simp add: count_notin)
  then have "CHR ''@'' \<notin> set dn" using assms(2) by (simp add: count_list_0_iff)
  then show ?thesis using assms(2) by (simp add: rsplit_once_append)
qed

text \<open>C1: The path of a message. An account is created with a password; a client then sends a message to its address
  (its domain in any case) with EHLO, MAIL, RCPT and DATA, its lines dot-stuffed and the bytes cut into segments in
  any way. If the disks work, the scanner finds nothing and the message can be sealed, the client gets 250 four times, the
  session is ready for what follows, one message was filed for that account and address, and unlocking the account with
  the password gives the private key that opens it to exactly the bytes the client sent.\<close>

theorem mail_reaches_its_reader:
  fixes D w addr
  defines "L \<equiv> ml_crypto (sd_mail D)"
  assumes lib: "aead_correct L" "hpke_correct L" "hex_hash (ml_sha256_hex (sd_mail D))" "picks_member (ml_pick (sd_mail D))"
    and account: "provision L rnd t lp dn pw config s = (Returned (Inr a), w_auth w)" "auth_ok (tables s)"
      "length (pr_salt rnd) = 16" "length (pr_amk rnd) = 32" "length (pr_amk_nonce rnd) = 24" "length (pr_priv_nonce rnd) = 24"
    and server: "healthy D w" "sealable (sd_mail D) (sd_seal_random D (w_tick w + 2)) a (concat ls) (w_mail w)" "10 < wleft (w_conn w)"
    and client: "inflow (w_conn w) = transaction helo from addr ls @ after" "valid_helo_domain helo" "plain_address helo"
      "plain_address from" "plain_address addr" "list_all data_line ls" "length (concat ls) \<le> sd_max_message_size D"
    and address: "addr = lp @ ''@'' @ dn'" "eq_ignore_ascii_case dn' dn" "valid_email_address addr"
  shows "\<exists>w' m ul. rounds (command_step D is_tls remote) 4 w = Some w' \<and> inflow (w_conn w') = after \<and>
    codes (w_conn w') = codes (w_conn w) @ [''250'', ''250'', ''250'', ''250''] \<and>
    all_messages w' = all_messages w @ [m] \<and> account_id m = acc_id a \<and>
    unlock L a pw config = Returned (Inr ul) \<and>
    open_message (sd_mail D) m (ul_priv ul) (w_mail w') = (Returned (Inr (concat ls)), w_mail w')"
proof -
  have healthy: "mail_ok (ml_sha256_hex (sd_mail D)) (w_mail w)" "no_faults (w_mail w)" "faults (w_auth w) = []"
    "\<forall>t req. sr_verdict (scan (sd_scan_lib D t) (sd_scanner D) req) = Clean \<and> sr_warnings (scan (sd_scan_lib D t) (sd_scanner D) req) = []"
    using server(1) by (auto simp: healthy_def)
  have found: "find_by_address lp dn' (w_auth w) = (Returned (Inr (Some a)), w_auth w)"
    by (rule provisioned_found(1) [OF account(1) lib(2) account(3,2) healthy(3) address(2)])
  note ul = provisioned_unlocks [OF account(1) lib(1,2) account(4-6)]
  define sk where "sk = fst (gen_keypair L (pr_keypair rnd))"
  have kp: "gen_keypair (ml_crypto (sd_mail D)) (pr_keypair rnd) = (sk, acc_pub a)" using ul(2) by (simp add: sk_def L_def)
  have sp: "rsplit_once (CHR ''@'') addr = Some (lp, dn')" by (rule valid_email_at [OF address(3,1)])
  have i: "inflow (w_conn w) = crlf (''EHLO '' @ helo) @ crlf (''MAIL FROM:<'' @ from @ ''>'') @ crlf (''RCPT TO:<'' @ addr @ ''>'') @
     (crlf ''DATA'' @ concat (map dot_stuff ls) @ crlf ''.'' @ after)" using client(1) by (simp add: transaction_def)
  have n: "8 < wleft (w_conn w)" using server(3) by simp
  let ?env = "\<lparr>e_helo_domain = Some helo, e_mail_from = Some from, e_rcpt_to = [resolved addr a]\<rparr>"
  obtain c where c: "rounds (command_step D is_tls remote) 3 w = Some (w\<lparr>w_conn := c, w_env := ?env\<rparr>)"
    "inflow c = crlf ''DATA'' @ concat (map dot_stuff ls) @ crlf ''.'' @ after" "wleft (w_conn w) \<le> wleft c + 7"
    "codes c = codes (w_conn w) @ [''250'', ''250'', ''250'']"
    by (rule envelope_rounds [OF i client(2-5) n address(3) sp found, of D is_tls remote]) (rule that)
  define run where "run env auth now meta = deliver (sd_mail D) (sd_seal_random D (w_tick w + 2))
      \<lparr>ra_id = acc_id a, ra_account_pub = acc_pub a, ra_key_id = acc_key_id a\<rparr> env auth (concat ls) now None meta (w_mail w)" for env auth now meta
  have run: "\<exists>dm s' m. run env auth now meta = (Returned (Inr dm), s') \<and> messages (tables (ms_meta s')) = messages (tables (ms_meta (w_mail w))) @ [m] \<and>
      account_id m = acc_id a \<and> open_message (sd_mail D) m sk s' = (Returned (Inr (concat ls)), s')" for env auth now meta
    using deliver_to_account [OF lib(1,2) [unfolded L_def] lib(3,4) kp server(2) healthy(1,2), of env auth now None meta]
    unfolding run_def by blast
  obtain w' env auth now meta where w': "command_step D is_tls remote (w\<lparr>w_conn := c, w_env := ?env\<rparr>) = (Next, w')" "inflow (w_conn w') = after"
    "w_mail w' = snd (run env auth now meta)" "codes (w_conn w') = codes c @ [''250'']"
  proof (rule data_step [of "w\<lparr>w_conn := c, w_env := ?env\<rparr>" ls after D addr a "\<lambda>env auth now meta. snd (run env auth now meta)" is_tls remote])
    show "\<exists>dm. deliver (sd_mail D) (sd_seal_random D (w_tick (w\<lparr>w_conn := c, w_env := ?env\<rparr>) + 2))
        \<lparr>ra_id = acc_id a, ra_account_pub = acc_pub a, ra_key_id = acc_key_id a\<rparr> env auth (concat ls) now None meta (w_mail (w\<lparr>w_conn := c, w_env := ?env\<rparr>)) =
        (Returned (Inr dm), snd (run env auth now meta))" for env auth now meta
      using run [of env auth now meta] by (auto simp: run_def)
  qed (use c(2,3) client(6,7) server(3) healthy(4) in simp_all)
  from run [of env auth now meta] w'(3) obtain m where
    "messages (tables (ms_meta (w_mail w'))) = messages (tables (ms_meta (w_mail w))) @ [m]" "account_id m = acc_id a"
    "open_message (sd_mail D) m sk (w_mail w') = (Returned (Inr (concat ls)), w_mail w')" by auto
  moreover have "rounds (command_step D is_tls remote) 4 w = Some w'"
    using rounds_last [OF c(1) w'(1)] by (simp add: eval_nat_numeral)
  ultimately show ?thesis
    using ul(1) w'(2,4) c(4)
    by (intro exI [of _ w'] exI [of _ m] exI [of _ "\<lparr>ul_amk = pr_amk rnd, ul_priv = sk\<rparr>"]) (simp add: all_messages_def sk_def)
qed

theorem mail_reaches_its_reader_witness:
  "\<exists>a auth w' m ul. provision sample_lib sample_provision 7 ''alice'' ''Example.com'' ''pw'' sample_config empty_auth = (Returned (Inr a), auth) \<and>
     rounds (command_step sample_deps False ''192.0.2.1'') 4
       ((sample_world [transaction ''mx.org'' ''bob@mx.org'' ''alice@example.com'' [''.hi'' @ [CHR 0x0A]] @ ''QUIT''])\<lparr>w_auth := auth\<rparr>) = Some w' \<and>
     codes (w_conn w') = [''250'', ''250'', ''250'', ''250''] \<and> all_messages w' = [m] \<and>
     unlock sample_lib a ''pw'' sample_config = Returned (Inr ul) \<and>
     open_message sample_mail_lib m (ul_priv ul) (w_mail w') = (Returned (Inr (''.hi'' @ [CHR 0x0A])), w_mail w')"
proof -
  obtain a auth where run: "provision sample_lib sample_provision 7 ''alice'' ''Example.com'' ''pw'' sample_config empty_auth = (Returned (Inr a), auth)"
    "faults auth = []" using sample_provision_run by blast
  let ?in = "transaction ''mx.org'' ''bob@mx.org'' ''alice@example.com'' [''.hi'' @ [CHR 0x0A]] @ ''QUIT''"
  let ?w = "(sample_world [?in])\<lparr>w_auth := auth\<rparr>"
  have ml: "sd_mail sample_deps = sample_mail_lib" "ml_crypto sample_mail_lib = sample_lib" by (simp_all add: sample_deps_def sample_mail_lib_def)
  have lib: "aead_correct (ml_crypto (sd_mail sample_deps))" "hpke_correct (ml_crypto (sd_mail sample_deps))"
    "hex_hash (ml_sha256_hex (sd_mail sample_deps))" "picks_member (ml_pick (sd_mail sample_deps))"
    using sample_mail_lib_ok by (simp_all add: ml)
  have account: "provision (ml_crypto (sd_mail sample_deps)) sample_provision 7 ''alice'' ''Example.com'' ''pw'' sample_config empty_auth = (Returned (Inr a), w_auth ?w)"
    using run(1) by (simp add: ml)
  have clean: "scan sample_scan_lib \<lparr>sc_rspamd = None, sc_clamav = None\<rparr> req = \<lparr>sr_verdict = Clean, sr_warnings = [], sr_spam_score = None, sr_av_clean = None\<rparr>" for req
    by (simp add: scan_def run_rspamd_def run_clamav_def)
  have healthy: "healthy sample_deps ?w"
    using empty_store_ok run(2) clean by (simp add: healthy_def sample_world_def sample_deps_def)
  have sealable: "sealable (sd_mail sample_deps) (sd_seal_random sample_deps (w_tick ?w + 2)) a (concat [''.hi'' @ [CHR 0x0A]]) (w_mail ?w)"
    by (simp add: sealable_def sample_deps_def sample_random_def sample_nonce_def sample_mail_lib_def sample_world_def subject_hash_of_def
        sample_parsed_def aead_seal_def hpke_seal_def sample_lib_def no_collision_def empty_store_def contents_def)
  have left: "10 < wleft (w_conn ?w)" by (simp add: sample_world_def sample_conn_def)
  have flow: "inflow (w_conn ?w) = ?in" by (simp add: sample_world_def sample_conn_def inflow_def transaction_def crlf_def)
  have plain: "plain_address ''mx.org''" "plain_address ''bob@mx.org''" "plain_address ''alice@example.com''"
    by (simp_all add: plain_address_def word_def)
  have data: "list_all data_line [''.hi'' @ [CHR 0x0A]]" "length (concat [''.hi'' @ [CHR 0x0A]]) \<le> sd_max_message_size sample_deps"
    by (simp_all add: data_line_def MAX_DATA_LINE_def sample_deps_def)
  have helo: "valid_helo_domain ''mx.org''" "valid_email_address ''alice@example.com''" by (simp_all add: input_eval)
  have addr: "''alice@example.com'' = ''alice'' @ ''@'' @ ''example.com''" "eq_ignore_ascii_case ''example.com'' ''Example.com''"
    by (simp_all add: eq_ignore_ascii_case_def to_ascii_lowercase_def ascii_lower_def char_of_def bit_Suc_0_iff)
  have start: "codes (w_conn ?w) = []" "all_messages ?w = []"
    by (simp_all add: sample_world_def sample_conn_def codes_def all_messages_def empty_store_def meta_empty_def)
  from mail_reaches_its_reader [OF lib account empty_auth_simps(1) sample_lengths(1-4) healthy sealable left flow helo(1) plain data addr helo(2),
      of False "''192.0.2.1''"] run(1) start
  show ?thesis by (simp add: ml) (metis (no_types))
qed

theorem data_reply_means_filed_witness:
  "\<exists>w w'. data_command sample_deps ''192.0.2.1'' w = (Next, w') \<and> length (e_rcpt_to (w_env w)) = 1 \<and> w_env w' = envelope_reset (w_env w) \<and>
     (\<exists>code \<in> {250, 451, 550}. codes (w_conn w') = codes (w_conn w) @ [show_nat code] \<and> (code = 250 \<longleftrightarrow> all_messages w' \<noteq> all_messages w))"
proof -
  let ?ls = "[''.hi'' @ [CHR 0x0A]]" and ?D = sample_deps and ?ip = "''192.0.2.1''"
  obtain a auth where run: "provision sample_lib sample_provision 7 ''alice'' ''Example.com'' ''pw'' sample_config empty_auth = (Returned (Inr a), auth)"
    "faults auth = []" using sample_provision_run by blast
  let ?in = "transaction ''mx.org'' ''bob@mx.org'' ''alice@example.com'' ?ls @ ''QUIT''"
  let ?w = "(sample_world [?in])\<lparr>w_auth := auth\<rparr>"
  have addr: "''alice@example.com'' = ''alice'' @ ''@'' @ ''example.com''" "eq_ignore_ascii_case ''example.com'' ''Example.com''"
    by (simp_all add: eq_ignore_ascii_case_def to_ascii_lowercase_def ascii_lower_def char_of_def bit_Suc_0_iff)
  note found = provisioned_found [OF run(1) sample_lib_correct(2) sample_lengths(1) empty_auth_simps(1) run(2) addr(2)]
  have helo: "valid_helo_domain ''mx.org''" "valid_email_address ''alice@example.com''" by (simp_all add: input_eval)
  have plain: "plain_address ''mx.org''" "plain_address ''bob@mx.org''" "plain_address ''alice@example.com''"
    by (simp_all add: plain_address_def word_def)
  have flow: "inflow (w_conn ?w) = crlf (''EHLO '' @ ''mx.org'') @ crlf (''MAIL FROM:<'' @ ''bob@mx.org'' @ ''>'') @
      crlf (''RCPT TO:<'' @ ''alice@example.com'' @ ''>'') @ (crlf ''DATA'' @ concat (map dot_stuff ?ls) @ crlf ''.'' @ ''QUIT'')"
    by (simp add: sample_world_def sample_conn_def inflow_def transaction_def crlf_def)
  have left: "8 < wleft (w_conn ?w)" and fw: "find_by_address ''alice'' ''example.com'' (w_auth ?w) = (Returned (Inr (Some a)), w_auth ?w)"
    using found(1) by (simp_all add: sample_world_def sample_conn_def)
  let ?env = "\<lparr>e_helo_domain = Some ''mx.org'', e_mail_from = Some ''bob@mx.org'', e_rcpt_to = [resolved ''alice@example.com'' a]\<rparr>"
  obtain c where c: "rounds (command_step ?D False ?ip) 3 ?w = Some (?w\<lparr>w_conn := c, w_env := ?env\<rparr>)"
    "inflow c = crlf ''DATA'' @ concat (map dot_stuff ?ls) @ crlf ''.'' @ ''QUIT''" "wleft (w_conn ?w) \<le> wleft c + 7"
    by (rule envelope_rounds [OF flow helo(1) plain left helo(2) valid_email_at [OF helo(2) addr(1)] fw, of ?D False ?ip]) (rule that)
  have inv0: "picks_member (ml_pick (sd_mail ?D)) \<and> session_inv ?D ?w"
    using sample_session found(2) by (auto simp: session_inv_def mail_fine_def env_ok_def sample_world_def envelope_default_def)
  let ?v = "?w\<lparr>w_conn := c, w_env := ?env\<rparr>"
  have inv: "session_inv ?D (?v\<lparr>w_conn := d\<rparr>)" for d
    using smtp.rounds_keep [OF inv0 c(1)] by (simp add: session_inv_def mail_fine_def)
  have clean: "scan sample_scan_lib \<lparr>sc_rspamd = None, sc_clamav = None\<rparr> req = \<lparr>sr_verdict = Clean, sr_warnings = [], sr_spam_score = None, sr_av_clean = None\<rparr>" for req
    by (simp add: scan_def run_rspamd_def run_clamav_def)
  have kp: "gen_keypair (ml_crypto (sd_mail ?D)) (pr_keypair sample_provision) = (fst (gen_keypair sample_lib (pr_keypair sample_provision)), acc_pub a)"
    using provisioned_unlocks(2) [OF run(1) sample_lib_correct(1,2) sample_lengths(2-4)] by (simp add: sample_deps_def sample_mail_lib_def)
  have sealable: "sealable (sd_mail ?D) (sd_seal_random ?D (w_tick ?v + 2)) a (concat ?ls) (w_mail ?v)"
    by (simp add: sealable_def sample_deps_def sample_random_def sample_nonce_def sample_mail_lib_def sample_world_def subject_hash_of_def
        sample_parsed_def aead_seal_def hpke_seal_def sample_lib_def no_collision_def empty_store_def contents_def)
  let ?go = "\<lambda>env auth now meta. deliver (sd_mail ?D) (sd_seal_random ?D (w_tick ?v + 2))
      \<lparr>ra_id = acc_id a, ra_account_pub = acc_pub a, ra_key_id = acc_key_id a\<rparr> env auth (concat ?ls) now None meta (w_mail ?v)"
  have go: "\<exists>dm. ?go env auth now meta = (Returned (Inr dm), snd (?go env auth now meta))" for env auth now meta
    using deliver_to_account [OF _ _ _ _ kp sealable, of env auth now None meta] sample_mail_lib_ok empty_store_ok
    by (fastforce simp: sample_deps_def sample_world_def)
  obtain w' d where w': "0 < wleft (w_conn w')" "data_command ?D ?ip (?v\<lparr>w_conn := d\<rparr>) = (Next, w')"
  proof (rule data_step [of ?v ?ls "''QUIT''" ?D "''alice@example.com''" a "\<lambda>env auth now meta. snd (?go env auth now meta)" False ?ip])
  qed (use c(2,3) left clean go in \<open>auto simp: data_line_def MAX_DATA_LINE_def sample_deps_def sample_world_def sample_conn_def\<close>)
  from data_reply_means_filed [OF w'(2) sample_session(1) inv _ _ w'(1)] w'(2)
  show ?thesis by (intro exI [of _ "?v\<lparr>w_conn := d\<rparr>"] exI [of _ w']) auto
qed

end
