(* ===== verification/Dns_Resolver.thy ===== *)
theory Dns_Resolver
  imports Rust_Str
begin

text \<open>
  The \<open>dns\<close> crate: MX, TLSA and TXT lookups (\<open>dns/src/lib.rs\<close>) and the records the operator publishes for
  MTA-STS and TLS-RPT (\<open>mta_sts.rs\<close>, \<open>tls_rpt.rs\<close>). The validating resolver is the \<open>hickory\<close> library's: a function
  from a name and a record type to an answer with a DNSSEC proof per record, or an error.
\<close>

section \<open>Answers\<close>

datatype proof_state = Secure | Insecure | Bogus | Indeterminate

datatype rdata = MX nat string | TLSA nat nat nat bytes | TXT "bytes list" | OtherData

record dns_record =
  rec_proof :: proof_state
  rec_data :: rdata

datatype record_type = TypeMX | TypeTLSA | TypeTXT

datatype net_error = NoRecordsFound | Nsec proof_state | OtherNetError string

record resolver =
  rs_lookup :: "string \<Rightarrow> record_type \<Rightarrow> net_error + dns_record list"
  rs_error_text :: "net_error \<Rightarrow> string"

record mx_record =
  mx_preference :: nat
  mx_exchange :: string

record tlsa_record =
  cert_usage :: nat
  selector :: nat
  matching :: nat
  cert_data :: bytes

definition resolve_err :: "resolver \<Rightarrow> net_error \<Rightarrow> error" where
  "resolve_err R e = Config (''DNS resolution failed: '' @ rs_error_text R e)"

section \<open>Lookups\<close>

definition trim_dots :: "string \<Rightarrow> string" where
  "trim_dots s = trim_end_matches (\<lambda>c. c = CHR ''.'') s"

fun mx_data :: "rdata \<Rightarrow> mx_record option" where
  "mx_data (MX p e) = Some \<lparr>mx_preference = p, mx_exchange = e\<rparr>"
| "mx_data _ = None"

fun tlsa_data :: "rdata \<Rightarrow> tlsa_record option" where
  "tlsa_data (TLSA u s m d) = Some \<lparr>cert_usage = u, selector = s, matching = m, cert_data = d\<rparr>"
| "tlsa_data _ = None"

fun txt_data :: "rdata \<Rightarrow> string option" where
  "txt_data (TXT chunks) = Some (concat (map from_utf8_lossy chunks))"
| "txt_data _ = None"

definition resolve_mx :: "resolver \<Rightarrow> string \<Rightarrow> mx_record list result" where
  "resolve_mx R domain =
     (let fqdn = trim_dots domain @ ''.'' in
      case rs_lookup R fqdn TypeMX of
        Inl e \<Rightarrow> Inl (resolve_err R e)
      | Inr answers \<Rightarrow>
          (let records = List.map_filter (\<lambda>r. mx_data (rec_data r)) answers;
               records' = (if records = [] then [\<lparr>mx_preference = 0, mx_exchange = fqdn\<rparr>] else records)
           in Inr (sort_key mx_preference records')))"

definition resolve_tlsa :: "resolver \<Rightarrow> nat \<Rightarrow> string \<Rightarrow> tlsa_record list result" where
  "resolve_tlsa R port hostname =
     (case rs_lookup R (''_'' @ show_nat port @ ''._tcp.'' @ trim_dots hostname @ ''.'') TypeTLSA of
        Inl NoRecordsFound \<Rightarrow> Inr []
      | Inl (Nsec p) \<Rightarrow> if p \<noteq> Bogus then Inr [] else Inl (resolve_err R (Nsec p))
      | Inl e \<Rightarrow> Inl (resolve_err R e)
      | Inr answers \<Rightarrow>
          if list_ex (\<lambda>r. rec_proof r = Bogus) answers
          then Inl (Config (''DNSSEC validation failed for TLSA records on '' @ hostname))
          else Inr (List.map_filter (\<lambda>r. tlsa_data (rec_data r)) (filter (\<lambda>r. rec_proof r = Secure) answers)))"

definition resolve_txt :: "resolver \<Rightarrow> string \<Rightarrow> string list result" where
  "resolve_txt R hostname =
     (case rs_lookup R (trim_dots hostname @ ''.'') TypeTXT of
        Inl _ \<Rightarrow> Inr []
      | Inr answers \<Rightarrow> Inr (List.map_filter (\<lambda>r. txt_data (rec_data r)) answers))"

section \<open>Records for the operator's own domain\<close>

record mta_sts_policy =
  sts_mode :: string
  sts_mx :: string
  sts_max_age :: nat

definition policy_file_body :: "mta_sts_policy \<Rightarrow> string" where
  "policy_file_body p = ''version: STSv1'' @ [CHR 0x0A] @ ''mode: '' @ sts_mode p @ [CHR 0x0A] @ ''mx: '' @ sts_mx p @ [CHR 0x0A] @
     ''max_age: '' @ show_nat (sts_max_age p) @ [CHR 0x0A]"

definition policy_id :: "(bytes \<Rightarrow> bytes) \<Rightarrow> (bytes \<Rightarrow> string) \<Rightarrow> mta_sts_policy \<Rightarrow> string" where
  "policy_id sha256 hex p = hex (take 16 (sha256 (policy_file_body p)))"

definition sts_txt_record :: "(bytes \<Rightarrow> bytes) \<Rightarrow> (bytes \<Rightarrow> string) \<Rightarrow> mta_sts_policy \<Rightarrow> string \<Rightarrow> string" where
  "sts_txt_record sha256 hex p domain =
     ''_mta-sts.'' @ domain @ ''  IN TXT  '' @ [CHR 0x22] @ ''v=STSv1; id='' @ policy_id sha256 hex p @ [CHR 0x22]"

definition tls_rpt_txt_record :: "string \<Rightarrow> string \<Rightarrow> string" where
  "tls_rpt_txt_record domain rua =
     ''_smtp._tls.'' @ domain @ ''  IN TXT  '' @ [CHR 0x22] @ ''v=TLSRPTv1; rua=mailto:'' @ rua @ ''@'' @ domain @ [CHR 0x22]"

section \<open>What the lookups return\<close>

text \<open>The hosts of a domain come in order of preference, and there is at least one.\<close>

lemma resolve_mx_sorted:
  assumes "resolve_mx R domain = Inr records"
  shows "sorted (map mx_preference records)" and "records \<noteq> []"
proof -
  obtain answers where "rs_lookup R (trim_dots domain @ ''.'') TypeMX = Inr answers"
    using assms by (auto simp: resolve_mx_def Let_def split: sum.splits)
  define found where "found = List.map_filter (\<lambda>r. mx_data (rec_data r)) answers"
  define xs where "xs = (if found = [] then [\<lparr>mx_preference = 0, mx_exchange = trim_dots domain @ ''.''\<rparr>] else found)"
  have xs: "xs \<noteq> []" "records = sort_key mx_preference xs"
    using assms \<open>rs_lookup R _ TypeMX = Inr answers\<close> by (auto simp: xs_def found_def resolve_mx_def Let_def)
  show "sorted (map mx_preference records)" by (simp add: xs)
  have "length records = length xs" by (simp add: xs)
  with xs(1) show "records \<noteq> []" by auto
qed

lemma resolve_mx_answers:
  assumes "rs_lookup R (trim_dots domain @ ''.'') TypeMX = Inr answers" and "m \<in> set (List.map_filter (\<lambda>r. mx_data (rec_data r)) answers)"
  shows "\<exists>records. resolve_mx R domain = Inr records \<and> set records = set (List.map_filter (\<lambda>r. mx_data (rec_data r)) answers)"
  using assms by (auto simp: resolve_mx_def Let_def)

text \<open>Only records with a validated chain count; a bogus one, or a lookup that fails, is an error.\<close>

lemma resolve_tlsa_secure:
  assumes "resolve_tlsa R port hostname = Inr records" and "t \<in> set records"
  shows "\<exists>answers r. rs_lookup R (''_'' @ show_nat port @ ''._tcp.'' @ trim_dots hostname @ ''.'') TypeTLSA = Inr answers \<and>
    r \<in> set answers \<and> rec_proof r = Secure \<and> tlsa_data (rec_data r) = Some t \<and> (\<forall>x \<in> set answers. rec_proof x \<noteq> Bogus)"
proof -
  obtain answers where found: "rs_lookup R (''_'' @ show_nat port @ ''._tcp.'' @ trim_dots hostname @ ''.'') TypeTLSA = Inr answers"
    using assms by (cases "rs_lookup R (''_'' @ show_nat port @ ''._tcp.'' @ trim_dots hostname @ ''.'') TypeTLSA")
      (auto simp: resolve_tlsa_def split: net_error.splits if_splits)
  then have sound: "\<not> list_ex (\<lambda>r. rec_proof r = Bogus) answers"
    and kept: "records = List.map_filter (\<lambda>r. tlsa_data (rec_data r)) (filter (\<lambda>r. rec_proof r = Secure) answers)"
    using assms(1) by (auto simp: resolve_tlsa_def split: if_splits)
  obtain r where "r \<in> set answers" "rec_proof r = Secure" "tlsa_data (rec_data r) = Some t"
    using assms(2) unfolding kept by (auto simp: List.map_filter_def)
  with found sound show ?thesis
    by (intro exI [of _ answers] exI [of _ r]) (simp add: list_ex_iff)
qed

text \<open>The identifier changes with the policy file unless the truncated digests of the two files collide.\<close>

lemma policy_id_changes:
  assumes "inj hex" and "take 16 (sha256 (policy_file_body p)) \<noteq> take 16 (sha256 (policy_file_body q))"
  shows "sts_txt_record sha256 hex p domain \<noteq> sts_txt_record sha256 hex q domain"
  using assms(2) injD [OF assms(1)] by (auto simp: sts_txt_record_def policy_id_def)

end
