(* ===== verification/Queue_Store.thy ===== *)
theory Queue_Store
  imports Blob_Store
begin

text \<open>
  The durable outbound queue (\<open>queue/src/\<close>: \<open>schema.rs\<close>, \<open>types.rs\<close>, \<open>backoff.rs\<close>, \<open>classify.rs\<close>, \<open>dkim.rs\<close>,
  \<open>enqueue.rs\<close>, \<open>query.rs\<close>, \<open>scheduled.rs\<close>): the four tables, the retry schedule, the classification of replies, and
  accepting a message.

  A row's state column is the text the source writes. DKIM signing and key generation are the \<open>mail-auth\<close> crate's
  (\<open>dkim_lib\<close>), the jitter a delay draws is an argument, a real number between -0.15 and 0.15; the product is
  taken in the reals where the source takes it in \<open>f64\<close>.
\<close>

section \<open>Rows\<close>

datatype rcpt_state = Ready | Claimed | Deferred | Delivered | Failed | Expired

fun as_str :: "rcpt_state \<Rightarrow> string" where
  "as_str Ready = ''ready''"
| "as_str Claimed = ''claimed''"
| "as_str Deferred = ''deferred''"
| "as_str Delivered = ''delivered''"
| "as_str Failed = ''failed''"
| "as_str Expired = ''expired''"

definition from_db_str :: "string \<Rightarrow> rcpt_state" where
  "from_db_str s =
     (if s = ''claimed'' then Claimed
      else if s = ''deferred'' then Deferred
      else if s = ''delivered'' then Delivered
      else if s = ''failed'' then Failed
      else if s = ''expired'' then Expired
      else Ready)"

fun is_terminal :: "rcpt_state \<Rightarrow> bool" where
  "is_terminal Delivered = True"
| "is_terminal Failed = True"
| "is_terminal Expired = True"
| "is_terminal _ = False"

datatype dsn_notify = NotifyNever | NotifyFailure | NotifySuccess | NotifyDelay

fun notify_as_str :: "dsn_notify \<Rightarrow> string" where
  "notify_as_str NotifyNever = ''NEVER''"
| "notify_as_str NotifyFailure = ''FAILURE''"
| "notify_as_str NotifySuccess = ''SUCCESS''"
| "notify_as_str NotifyDelay = ''DELAY''"

record new_outbound =
  no_account_id :: int
  no_envelope_from :: string
  no_raw_message :: bytes
  no_recipients :: "string list"
  no_is_dsn :: bool
  no_dsn_envid :: "string option"
  no_dsn_ret :: "string option"

record outbound_row =
  ob_id :: int
  ob_account_id :: int
  ob_message_blob :: string
  ob_envelope_from :: string
  ob_created_at :: int
  ob_expires_at :: int
  ob_dsn_envid :: "string option"
  ob_dsn_ret :: "string option"
  ob_is_dsn :: int

record rcpt_row =
  rc_id :: int
  rc_outbound_id :: int
  rc_rcpt_to :: string
  rc_domain :: string
  rc_dsn_notify :: string
  rc_state :: string
  rc_attempts :: int
  rc_next_attempt_at :: int
  rc_claimed_by :: "string option"
  rc_claimed_at :: "int option"
  rc_last_code :: "int option"
  rc_last_status :: "string option"
  rc_last_detail :: "string option"
  rc_delayed_dsn_sent :: int

record dkim_row =
  dk_domain :: string
  dk_selector :: string
  dk_private_der :: bytes
  dk_public_der :: bytes
  dk_created_at :: int

record event_row =
  se_id :: int
  se_account_id :: int
  se_kind :: string
  se_fire_at :: int
  se_thread_id :: "string option"
  se_payload :: "string option"
  se_state :: string

record queue_tables =
  outbound :: "outbound_row list"
  outbound_rcpt :: "rcpt_row list"
  dkim_keys :: "dkim_row list"
  scheduled_events :: "event_row list"

type_synonym queue_db = "queue_tables db"

interpretation outbound_tbl: rowid_table ob_id "\<lambda>i r. r\<lparr>ob_id := i\<rparr>"
  by unfold_locales simp

interpretation rcpt_tbl: rowid_table rc_id "\<lambda>i r. r\<lparr>rc_id := i\<rparr>"
  by unfold_locales simp

interpretation event_tbl: rowid_table se_id "\<lambda>i r. r\<lparr>se_id := i\<rparr>"
  by unfold_locales simp

section \<open>Retry schedule\<close>

definition MAX_LIFETIME_SECS :: int where "MAX_LIFETIME_SECS = 5 * 24 * 3600"

definition DELAYED_DSN_THRESHOLD_SECS :: int where "DELAYED_DSN_THRESHOLD_SECS = 30 * 60"

definition SCHEDULE_MINUTES :: "int list" where "SCHEDULE_MINUTES = [5, 15, 30, 60, 120, 240]"

definition CAP_MINUTES :: int where "CAP_MINUTES = 480"

definition base_minutes :: "int \<Rightarrow> int" where
  "base_minutes attempts =
     (if 1 \<le> attempts \<and> nat attempts \<le> length SCHEDULE_MINUTES then SCHEDULE_MINUTES ! nat (attempts - 1)
      else CAP_MINUTES)"

definition next_delay_secs :: "real \<Rightarrow> int \<Rightarrow> int" where
  "next_delay_secs jitter_frac attempts = \<lfloor>of_int (base_minutes attempts * 60) * (1 + jitter_frac)\<rfloor>"

definition jitter_ok :: "real \<Rightarrow> bool" where
  "jitter_ok j \<longleftrightarrow> - 15 / 100 \<le> j \<and> j \<le> 15 / 100"

section \<open>Classification of replies\<close>

datatype outcome =
    OutDelivered
  | Transient "nat option" "string option" string
  | Permanent "nat option" "string option" string

record smtp_response =
  rp_code :: nat
  rp_esc :: "nat \<times> nat \<times> nat"
  rp_message :: string

datatype send_error = UnexpectedReply smtp_response | AuthenticationFailed smtp_response | OtherSendError string

definition format_esc :: "nat \<times> nat \<times> nat \<Rightarrow> string option" where
  "format_esc esc =
     (case esc of (a, b, c) \<Rightarrow>
        if a = 0 \<and> b = 0 \<and> c = 0 then None
        else Some (show_nat a @ ''.'' @ show_nat b @ ''.'' @ show_nat c))"

definition classify_code :: "nat \<Rightarrow> string option \<Rightarrow> string \<Rightarrow> outcome" where
  "classify_code code status detail =
     (if code div 100 = 2 then OutDelivered
      else if code div 100 = 4 then Transient (Some code) status detail
      else if code div 100 = 5 then Permanent (Some code) status detail
      else Transient (Some code) status detail)"

fun classify_send_result :: "send_error + unit \<Rightarrow> outcome" where
  "classify_send_result (Inr _) = OutDelivered"
| "classify_send_result (Inl (UnexpectedReply r)) = classify_code (rp_code r) (format_esc (rp_esc r)) (rp_message r)"
| "classify_send_result (Inl (AuthenticationFailed r)) = classify_code (rp_code r) (format_esc (rp_esc r)) (rp_message r)"
| "classify_send_result (Inl (OtherSendError e)) = Transient None None e"

definition classify_connect_failure :: "string \<Rightarrow> bool \<Rightarrow> outcome" where
  "classify_connect_failure detail hard_dns_failure =
     (if hard_dns_failure then Permanent None None detail else Transient None None detail)"

definition classify_dane_failure :: "string \<Rightarrow> outcome" where
  "classify_dane_failure detail = Permanent None None detail"

section \<open>DKIM keys\<close>

definition SELECTOR :: string where "SELECTOR = ''litterae''"

definition SIGNED_HEADERS :: "string list" where
  "SIGNED_HEADERS = [''From'', ''To'', ''Subject'', ''Date'', ''Message-ID'']"

record domain_key =
  dkey_domain :: string
  dkey_selector :: string
  dkey_private_der :: bytes
  dkey_public_der :: bytes

record dkim_lib =
  dl_generate_rsa :: "nat \<Rightarrow> string + bytes \<times> bytes"
  dl_key_der :: "bytes \<Rightarrow> string + bytes"
  dl_sign :: "bytes \<Rightarrow> string \<Rightarrow> string \<Rightarrow> string list \<Rightarrow> bytes \<Rightarrow> string + string"
  dl_spki_der :: "bytes \<Rightarrow> bytes option"
  dl_base64 :: "bytes \<Rightarrow> string"

definition RSA_BITS :: nat where "RSA_BITS = 2048"

definition load_dkim_key :: "string \<Rightarrow> queue_db \<Rightarrow> domain_key option result \<times> queue_db" where
  "load_dkim_key domain = db_query (\<lambda>t. map_option
     (\<lambda>r. \<lparr>dkey_domain = domain, dkey_selector = dk_selector r, dkey_private_der = dk_private_der r,
           dkey_public_der = dk_public_der r\<rparr>)
     (find (\<lambda>r. dk_domain r = domain) (dkim_keys t)))"

definition insert_dkim_key :: "dkim_row \<Rightarrow> queue_db \<Rightarrow> unit result \<times> queue_db" where
  "insert_dkim_key row = db_stmt (\<lambda>t.
     if \<exists>r \<in> set (dkim_keys t). dk_domain r = dk_domain row
     then (Inl (Storage ''UNIQUE constraint failed: dkim_keys.domain''), t)
     else (Inr (), t\<lparr>dkim_keys := dkim_keys t @ [row]\<rparr>))"

definition ensure_dkim_key :: "dkim_lib \<Rightarrow> int \<Rightarrow> string \<Rightarrow> queue_db \<Rightarrow> domain_key result \<times> queue_db" where
  "ensure_dkim_key dl now domain =
     op_bind (load_dkim_key domain) (\<lambda>found.
       case found of
         Some key \<Rightarrow> (\<lambda>d. (Inr key, d))
       | None \<Rightarrow>
           (case dl_generate_rsa dl RSA_BITS of
              Inl e \<Rightarrow> (\<lambda>d. (Inl (Crypto (''DKIM key generation failed: '' @ e)), d))
            | Inr (private, public) \<Rightarrow>
                op_bind (insert_dkim_key \<lparr>dk_domain = domain, dk_selector = SELECTOR, dk_private_der = private,
                    dk_public_der = public, dk_created_at = now\<rparr>) (\<lambda>_ d.
                  (Inr \<lparr>dkey_domain = domain, dkey_selector = SELECTOR, dkey_private_der = private,
                        dkey_public_der = public\<rparr>, d))))"

definition dkim_txt_record :: "dkim_lib \<Rightarrow> domain_key \<Rightarrow> string pan" where
  "dkim_txt_record dl key =
     (case dl_spki_der dl (dkey_public_der key) of
        None \<Rightarrow> Panicked
      | Some der \<Rightarrow> Returned (''v=DKIM1; k=rsa; p='' @ dl_base64 dl der))"

definition signing_key :: "dkim_lib \<Rightarrow> domain_key \<Rightarrow> bytes result" where
  "signing_key dl key =
     (case dl_key_der dl (dkey_private_der key) of
        Inl e \<Rightarrow> Inl (Crypto (''invalid DKIM private key: '' @ e))
      | Inr k \<Rightarrow> Inr k)"

definition dkim_sign :: "dkim_lib \<Rightarrow> domain_key \<Rightarrow> bytes \<Rightarrow> string result" where
  "dkim_sign dl key raw_message =
     (case signing_key dl key of
        Inl e \<Rightarrow> Inl e
      | Inr k \<Rightarrow>
          (case dl_sign dl k (dkey_domain key) (dkey_selector key) SIGNED_HEADERS raw_message of
             Inl e \<Rightarrow> Inl (Crypto (''DKIM signing failed: '' @ e))
           | Inr header \<Rightarrow> Inr header))"

section \<open>Accepting a message\<close>

definition RATE_LIMIT_WINDOW_SECS :: int where "RATE_LIMIT_WINDOW_SECS = 3600"

definition MAX_MESSAGES_PER_WINDOW :: int where "MAX_MESSAGES_PER_WINDOW = 200"

definition MAX_RECIPIENTS_PER_WINDOW :: int where "MAX_RECIPIENTS_PER_WINDOW = 500"

text \<open>The queue database and the blob directory an enqueue works on.\<close>

record spool =
  sp_queue :: queue_db
  sp_blobs :: blob_store

definition on_queue :: "(queue_db \<Rightarrow> 'a \<times> queue_db) \<Rightarrow> spool \<Rightarrow> 'a \<times> spool" where
  "on_queue = zoom sp_queue (\<lambda>d s. s\<lparr>sp_queue := d\<rparr>)"

definition on_spool :: "(blob_store \<Rightarrow> 'a \<times> blob_store) \<Rightarrow> spool \<Rightarrow> 'a \<times> spool" where
  "on_spool = zoom sp_blobs (\<lambda>b s. s\<lparr>sp_blobs := b\<rparr>)"

definition counted :: "int \<Rightarrow> int \<Rightarrow> outbound_row \<Rightarrow> bool" where
  "counted account since row \<longleftrightarrow> ob_account_id row = account \<and> since < ob_created_at row \<and> ob_is_dsn row = 0"

definition message_count :: "int \<Rightarrow> int \<Rightarrow> queue_tables \<Rightarrow> int" where
  "message_count account since t = int (length (filter (counted account since) (outbound t)))"

definition recipient_count :: "int \<Rightarrow> int \<Rightarrow> queue_tables \<Rightarrow> int" where
  "recipient_count account since t =
     int (length [(r, m). r \<leftarrow> outbound_rcpt t, m \<leftarrow> outbound t, ob_id m = rc_outbound_id r \<and> counted account since m])"

definition check_rate_limits :: "int \<Rightarrow> new_outbound \<Rightarrow> queue_db \<Rightarrow> unit result \<times> queue_db" where
  "check_rate_limits now new =
     (if no_is_dsn new then (\<lambda>d. (Inr (), d))
      else let since = now - RATE_LIMIT_WINDOW_SECS in
        op_bind (db_query (message_count (no_account_id new) since)) (\<lambda>messages.
          if MAX_MESSAGES_PER_WINDOW \<le> messages
          then (\<lambda>d. (Inl (RateLimited (''account has sent '' @ show_int messages @ '' messages in the last hour (limit '' @
                  show_int MAX_MESSAGES_PER_WINDOW @ '')'')), d))
          else op_bind (db_query (recipient_count (no_account_id new) since)) (\<lambda>recipients d.
            (if MAX_RECIPIENTS_PER_WINDOW < recipients + int (length (no_recipients new))
             then Inl (RateLimited (''account has addressed '' @ show_int recipients @ '' recipients in the last hour (limit '' @
                    show_int MAX_RECIPIENTS_PER_WINDOW @ '')''))
             else Inr (), d))))"

definition insert_outbound :: "outbound_row \<Rightarrow> queue_db \<Rightarrow> int result \<times> queue_db" where
  "insert_outbound row = db_stmt (\<lambda>t.
     let (i, rows) = tbl_insert ob_id (\<lambda>i r. r\<lparr>ob_id := i\<rparr>) row (outbound t) in (Inr i, t\<lparr>outbound := rows\<rparr>))"

definition recipient_domain :: "string \<Rightarrow> string" where
  "recipient_domain rcpt =
     to_ascii_lowercase (case rsplit_once (CHR ''@'') rcpt of Some (_, d) \<Rightarrow> d | None \<Rightarrow> rcpt)"

text \<open>A recipient row with the defaults of the table.\<close>

definition fresh_rcpt :: "int \<Rightarrow> int \<Rightarrow> string \<Rightarrow> rcpt_row" where
  "fresh_rcpt outbound_id now rcpt =
     \<lparr>rc_id = 0, rc_outbound_id = outbound_id, rc_rcpt_to = rcpt, rc_domain = recipient_domain rcpt,
      rc_dsn_notify = ''FAILURE'', rc_state = ''ready'', rc_attempts = 0, rc_next_attempt_at = now,
      rc_claimed_by = None, rc_claimed_at = None, rc_last_code = None, rc_last_status = None,
      rc_last_detail = None, rc_delayed_dsn_sent = 0\<rparr>"

definition insert_rcpt :: "rcpt_row \<Rightarrow> queue_db \<Rightarrow> unit result \<times> queue_db" where
  "insert_rcpt row = db_stmt (\<lambda>t.
     if \<exists>m \<in> set (outbound t). ob_id m = rc_outbound_id row
     then (Inr (), t\<lparr>outbound_rcpt := snd (tbl_insert rc_id (\<lambda>i r. r\<lparr>rc_id := i\<rparr>) row (outbound_rcpt t))\<rparr>)
     else (Inl (Storage ''FOREIGN KEY constraint failed''), t))"

fun insert_recipients :: "int \<Rightarrow> int \<Rightarrow> string list \<Rightarrow> queue_db \<Rightarrow> unit result \<times> queue_db" where
  "insert_recipients outbound_id now [] d = (Inr (), d)"
| "insert_recipients outbound_id now (rcpt # rest) d =
     op_bind (insert_rcpt (fresh_rcpt outbound_id now rcpt)) (\<lambda>_. insert_recipients outbound_id now rest) d"

definition valid_outbound :: "new_outbound \<Rightarrow> bool" where
  "valid_outbound new \<longleftrightarrow>
     \<not> ((no_envelope_from new \<noteq> [] \<and> \<not> valid_email_address (no_envelope_from new)) \<or>
        no_recipients new = [] \<or> 100 < length (no_recipients new) \<or>
        list_ex (\<lambda>r. \<not> valid_email_address r) (no_recipients new))"

definition enqueue ::
    "(bytes \<Rightarrow> string) \<Rightarrow> nat \<Rightarrow> dkim_lib \<Rightarrow> domain_key \<Rightarrow> int \<Rightarrow> new_outbound \<Rightarrow> spool \<Rightarrow> int result \<times> spool" where
  "enqueue hash_hex torn dl key now new =
     (if \<not> valid_outbound new then (\<lambda>s. (Inl (Config ''invalid outbound envelope''), s))
      else
        op_bind (\<lambda>s. (dkim_sign dl key (no_raw_message new), s)) (\<lambda>dkim_header.
        op_bind (on_spool (blob_write hash_hex torn (dkim_header @ no_raw_message new))) (\<lambda>blob_hash.
        op_bind (on_queue (check_rate_limits now new)) (\<lambda>_.
        op_bind (on_queue (insert_outbound
            \<lparr>ob_id = 0, ob_account_id = no_account_id new, ob_message_blob = blob_hash,
             ob_envelope_from = no_envelope_from new, ob_created_at = now, ob_expires_at = now + MAX_LIFETIME_SECS,
             ob_dsn_envid = no_dsn_envid new, ob_dsn_ret = no_dsn_ret new,
             ob_is_dsn = (if no_is_dsn new then 1 else 0)\<rparr>)) (\<lambda>outbound_id.
        op_bind (on_queue (insert_recipients outbound_id now (no_recipients new))) (\<lambda>_ s.
          (Inr outbound_id, s)))))))"

section \<open>Reading the queue\<close>

record outbound_message =
  om_id :: int
  om_account_id :: int
  om_message_blob :: string
  om_envelope_from :: string
  om_created_at :: int
  om_expires_at :: int
  om_dsn_envid :: "string option"
  om_dsn_ret :: "string option"
  om_is_dsn :: bool

record outbound_recipient =
  or_id :: int
  or_outbound_id :: int
  or_rcpt_to :: string
  or_domain :: string
  or_dsn_notify :: string
  or_state :: rcpt_state
  or_attempts :: int
  or_next_attempt_at :: int
  or_last_code :: "int option"
  or_last_status :: "string option"
  or_last_detail :: "string option"
  or_delayed_dsn_sent :: bool

record queue_metrics =
  qm_ready :: int
  qm_claimed :: int
  qm_deferred :: int
  qm_delivered :: int
  qm_failed :: int
  qm_expired :: int

definition row_to_outbound :: "outbound_row \<Rightarrow> outbound_message" where
  "row_to_outbound r =
     \<lparr>om_id = ob_id r, om_account_id = ob_account_id r, om_message_blob = ob_message_blob r,
      om_envelope_from = ob_envelope_from r, om_created_at = ob_created_at r, om_expires_at = ob_expires_at r,
      om_dsn_envid = ob_dsn_envid r, om_dsn_ret = ob_dsn_ret r, om_is_dsn = (ob_is_dsn r \<noteq> 0)\<rparr>"

definition row_to_recipient :: "rcpt_row \<Rightarrow> outbound_recipient" where
  "row_to_recipient r =
     \<lparr>or_id = rc_id r, or_outbound_id = rc_outbound_id r, or_rcpt_to = rc_rcpt_to r, or_domain = rc_domain r,
      or_dsn_notify = rc_dsn_notify r, or_state = from_db_str (rc_state r), or_attempts = rc_attempts r,
      or_next_attempt_at = rc_next_attempt_at r, or_last_code = rc_last_code r, or_last_status = rc_last_status r,
      or_last_detail = rc_last_detail r, or_delayed_dsn_sent = (rc_delayed_dsn_sent r \<noteq> 0)\<rparr>"

definition get_outbound :: "int \<Rightarrow> queue_db \<Rightarrow> outbound_message option result \<times> queue_db" where
  "get_outbound i = db_query (\<lambda>t. map_option row_to_outbound (tbl_get ob_id i (outbound t)))"

definition recipients_for_outbound :: "int \<Rightarrow> queue_db \<Rightarrow> outbound_recipient list result \<times> queue_db" where
  "recipients_for_outbound i =
     db_query (\<lambda>t. map row_to_recipient (filter (\<lambda>r. rc_outbound_id r = i) (outbound_rcpt t)))"

definition count_states :: "queue_tables \<Rightarrow> (string \<times> int) list" where
  "count_states t = map (\<lambda>s. (s, int (length (filter (\<lambda>r. rc_state r = s) (outbound_rcpt t)))))
     (remdups (map rc_state (outbound_rcpt t)))"

definition add_metric :: "string \<times> int \<Rightarrow> queue_metrics \<Rightarrow> queue_metrics" where
  "add_metric p m =
     (case from_db_str (fst p) of
        Ready \<Rightarrow> m\<lparr>qm_ready := qm_ready m + snd p\<rparr>
      | Claimed \<Rightarrow> m\<lparr>qm_claimed := qm_claimed m + snd p\<rparr>
      | Deferred \<Rightarrow> m\<lparr>qm_deferred := qm_deferred m + snd p\<rparr>
      | Delivered \<Rightarrow> m\<lparr>qm_delivered := qm_delivered m + snd p\<rparr>
      | Failed \<Rightarrow> m\<lparr>qm_failed := qm_failed m + snd p\<rparr>
      | Expired \<Rightarrow> m\<lparr>qm_expired := qm_expired m + snd p\<rparr>)"

definition metrics :: "queue_db \<Rightarrow> queue_metrics result \<times> queue_db" where
  "metrics = db_query (\<lambda>t. fold add_metric (count_states t)
     \<lparr>qm_ready = 0, qm_claimed = 0, qm_deferred = 0, qm_delivered = 0, qm_failed = 0, qm_expired = 0\<rparr>)"

text \<open>\<open>LIMIT\<close> with a negative number is no limit.\<close>

definition sql_limit :: "int \<Rightarrow> 'a list \<Rightarrow> 'a list" where
  "sql_limit n xs = (if n < 0 then xs else take (nat n) xs)"

definition recent_failures :: "int \<Rightarrow> queue_db \<Rightarrow> outbound_recipient list result \<times> queue_db" where
  "recent_failures limit = db_query (\<lambda>t. map row_to_recipient (sql_limit limit
     (sort_key (\<lambda>r. - rc_id r) (filter (\<lambda>r. rc_state r \<in> {''failed'', ''expired''}) (outbound_rcpt t)))))"

section \<open>Scheduled events\<close>

datatype scheduled_kind = Remind | SnoozeResurface | FollowupNudge

fun kind_as_str :: "scheduled_kind \<Rightarrow> string" where
  "kind_as_str Remind = ''remind''"
| "kind_as_str SnoozeResurface = ''snooze_resurface''"
| "kind_as_str FollowupNudge = ''followup_nudge''"

definition kind_from_db_str :: "string \<Rightarrow> scheduled_kind option" where
  "kind_from_db_str s =
     (if s = ''remind'' then Some Remind
      else if s = ''snooze_resurface'' then Some SnoozeResurface
      else if s = ''followup_nudge'' then Some FollowupNudge
      else None)"

record new_event =
  ne_account_id :: int
  ne_kind :: scheduled_kind
  ne_fire_at :: int
  ne_thread_id :: "string option"
  ne_payload :: "string option"

definition insert_scheduled_event :: "new_event \<Rightarrow> queue_db \<Rightarrow> int result \<times> queue_db" where
  "insert_scheduled_event ev = db_stmt (\<lambda>t.
     let (i, rows) = tbl_insert se_id (\<lambda>i r. r\<lparr>se_id := i\<rparr>)
           \<lparr>se_id = 0, se_account_id = ne_account_id ev, se_kind = kind_as_str (ne_kind ev), se_fire_at = ne_fire_at ev,
            se_thread_id = ne_thread_id ev, se_payload = ne_payload ev, se_state = ''pending''\<rparr> (scheduled_events t)
     in (Inr i, t\<lparr>scheduled_events := rows\<rparr>))"

definition due_scheduled_events :: "int \<Rightarrow> queue_db \<Rightarrow> event_row list result \<times> queue_db" where
  "due_scheduled_events now =
     db_query (\<lambda>t. filter (\<lambda>e. se_state e = ''pending'' \<and> se_fire_at e \<le> now) (scheduled_events t))"

definition pending_events_for_account :: "int \<Rightarrow> scheduled_kind \<Rightarrow> queue_db \<Rightarrow> event_row list result \<times> queue_db" where
  "pending_events_for_account account kind = db_query (\<lambda>t.
     filter (\<lambda>e. se_account_id e = account \<and> se_kind e = kind_as_str kind \<and> se_state e = ''pending'') (scheduled_events t))"

definition set_event_state :: "string \<Rightarrow> int \<Rightarrow> queue_db \<Rightarrow> unit result \<times> queue_db" where
  "set_event_state s i = db_stmt (\<lambda>t.
     (Inr (), t\<lparr>scheduled_events := update_where (\<lambda>e. se_id e = i) (\<lambda>e. e\<lparr>se_state := s\<rparr>) (scheduled_events t)\<rparr>))"

definition mark_event_fired :: "int \<Rightarrow> queue_db \<Rightarrow> unit result \<times> queue_db" where
  "mark_event_fired = set_event_state ''fired''"

definition mark_event_cancelled :: "int \<Rightarrow> queue_db \<Rightarrow> unit result \<times> queue_db" where
  "mark_event_cancelled = set_event_state ''cancelled''"

section \<open>Schedule and encodings\<close>

lemma from_db_str_as_str [simp]: "from_db_str (as_str s) = s"
  by (cases s) (simp_all add: from_db_str_def)

lemma kind_from_db_str_as_str [simp]: "kind_from_db_str (kind_as_str k) = Some k"
  by (cases k) (simp_all add: kind_from_db_str_def)

lemma base_minutes_values: "base_minutes a \<in> {5, 15, 30, 60, 120, 240, 480}"
proof (cases "1 \<le> a \<and> nat a \<le> 6")
  case True
  then have "nat (a - 1) \<in> {0, 1, 2, 3, 4, 5}" by auto
  with True show ?thesis by (auto simp: base_minutes_def SCHEDULE_MINUTES_def)
next
  case False
  have "length SCHEDULE_MINUTES = 6" by (simp add: SCHEDULE_MINUTES_def)
  with False show ?thesis by (auto simp: base_minutes_def CAP_MINUTES_def)
qed

lemma next_delay_secs_bounds:
  assumes "jitter_ok j"
  shows "base_minutes a * 51 \<le> next_delay_secs j a" and "next_delay_secs j a \<le> base_minutes a * 69"
proof -
  let ?b = "real_of_int (base_minutes a)"
  have b: "0 < ?b" using base_minutes_values [of a] by auto
  have j: "- 15 / 100 \<le> j" "j \<le> 15 / 100" using assms by (simp_all add: jitter_ok_def)
  have "?b * 51 \<le> ?b * (60 * (1 + j))" using b j(1) by (intro mult_left_mono) auto
  then show "base_minutes a * 51 \<le> next_delay_secs j a"
    unfolding next_delay_secs_def le_floor_iff by (simp add: algebra_simps)
  have "?b * (60 * (1 + j)) \<le> ?b * 69" using b j(2) by (intro mult_left_mono) auto
  then show "next_delay_secs j a \<le> base_minutes a * 69"
    by (metis (no_types, lifting) floor_mono floor_of_int mult.assoc next_delay_secs_def of_int_mult of_int_numeral)
qed

section \<open>The queue's invariant\<close>

definition queue_ok :: "queue_tables \<Rightarrow> bool" where
  "queue_ok t \<longleftrightarrow>
     distinct (map ob_id (outbound t)) \<and> distinct (map rc_id (outbound_rcpt t)) \<and>
     distinct (map dk_domain (dkim_keys t)) \<and> distinct (map se_id (scheduled_events t)) \<and>
     list_all (\<lambda>r. rc_outbound_id r \<in> ob_id ` set (outbound t)) (outbound_rcpt t) \<and>
     list_all (\<lambda>r. rc_state r = as_str (from_db_str (rc_state r)) \<and> 0 \<le> rc_attempts r) (outbound_rcpt t) \<and>
     list_all (\<lambda>m. ob_expires_at m = ob_created_at m + MAX_LIFETIME_SECS) (outbound t)"

definition queue_empty :: queue_tables where
  "queue_empty = \<lparr>outbound = [], outbound_rcpt = [], dkim_keys = [], scheduled_events = []\<rparr>"

lemma queue_empty_ok: "queue_ok queue_empty"
  by (simp add: queue_ok_def queue_empty_def)

text \<open>Rows of a message for some of its recipients, as an enqueue writes them.\<close>

definition rows_for :: "int \<Rightarrow> int \<Rightarrow> string list \<Rightarrow> rcpt_row list \<Rightarrow> bool" where
  "rows_for outbound_id now rcpts rows \<longleftrightarrow> map (\<lambda>r. r\<lparr>rc_id := 0\<rparr>) rows = map (fresh_rcpt outbound_id now) rcpts"

lemma rows_for_fields:
  assumes "rows_for i now rcpts rows"
  shows "map rc_rcpt_to rows = rcpts" and "length rows = length rcpts"
    and "r \<in> set rows \<Longrightarrow> rc_outbound_id r = i \<and> rc_state r = ''ready'' \<and> rc_attempts r = 0 \<and> rc_next_attempt_at r = now \<and>
      rc_domain r = recipient_domain (rc_rcpt_to r) \<and> rc_dsn_notify r = ''FAILURE''"
proof -
  have "map rc_rcpt_to rows = map rc_rcpt_to (map (\<lambda>r. r\<lparr>rc_id := 0\<rparr>) rows)" by (simp add: o_def)
  also have "\<dots> = rcpts" using assms by (simp add: rows_for_def o_def fresh_rcpt_def)
  finally show "map rc_rcpt_to rows = rcpts" .
  show "length rows = length rcpts" using assms unfolding rows_for_def by (metis length_map)
  assume "r \<in> set rows"
  then have "r\<lparr>rc_id := 0\<rparr> \<in> set (map (fresh_rcpt i now) rcpts)" using assms unfolding rows_for_def by (metis image_eqI list.set_map)
  then obtain a where a: "r\<lparr>rc_id := 0\<rparr> = fresh_rcpt i now a" by auto
  have "rc_outbound_id r = rc_outbound_id (r\<lparr>rc_id := 0\<rparr>)" "rc_state r = rc_state (r\<lparr>rc_id := 0\<rparr>)"
    "rc_attempts r = rc_attempts (r\<lparr>rc_id := 0\<rparr>)" "rc_next_attempt_at r = rc_next_attempt_at (r\<lparr>rc_id := 0\<rparr>)"
    "rc_domain r = rc_domain (r\<lparr>rc_id := 0\<rparr>)" "rc_rcpt_to r = rc_rcpt_to (r\<lparr>rc_id := 0\<rparr>)"
    "rc_dsn_notify r = rc_dsn_notify (r\<lparr>rc_id := 0\<rparr>)" by simp_all
  then show "rc_outbound_id r = i \<and> rc_state r = ''ready'' \<and> rc_attempts r = 0 \<and> rc_next_attempt_at r = now \<and>
      rc_domain r = recipient_domain (rc_rcpt_to r) \<and> rc_dsn_notify r = ''FAILURE''"
    unfolding a by (simp add: fresh_rcpt_def)
qed

text \<open>The recipients are inserted in order; a failure leaves those before it.\<close>

lemma insert_rcpt_cases:
  assumes "insert_rcpt row d = (r, d')" and "rc_outbound_id row \<in> ob_id ` set (outbound (tables d))"
  obtains (failed) msg where "r = Inl (Storage msg)" "tables d' = tables d"
    | (ran) "r = Inr ()" "tables d' = (tables d)\<lparr>outbound_rcpt := snd (tbl_insert rc_id (\<lambda>i r. r\<lparr>rc_id := i\<rparr>) row (outbound_rcpt (tables d)))\<rparr>"
  using assms(1) unfolding insert_rcpt_def
proof (cases rule: db_stmt_cases)
  case ran
  with assms(2) that(2) show thesis by (auto split: if_splits)
qed (use that(1) in blast)

lemma insert_recipients_run:
  assumes "insert_recipients i now rcpts d = (r, d')" and "i \<in> ob_id ` set (outbound (tables d))"
    and "distinct (map rc_id (outbound_rcpt (tables d)))"
  shows "\<exists>n rows. rows_for i now (take n rcpts) rows \<and> n \<le> length rcpts \<and> (is_ok r \<longleftrightarrow> n = length rcpts) \<and>
    tables d' = (tables d)\<lparr>outbound_rcpt := outbound_rcpt (tables d) @ rows\<rparr> \<and>
    distinct (map rc_id (outbound_rcpt (tables d) @ rows))"
  using assms
proof (induction rcpts arbitrary: d)
  case Nil
  then show ?case by (intro exI [of _ 0] exI [of _ "[]"]) (auto simp: rows_for_def)
next
  case (Cons a rcpts)
  obtain r1 d1 where 1: "insert_rcpt (fresh_rcpt i now a) d = (r1, d1)" by fastforce
  have fk: "rc_outbound_id (fresh_rcpt i now a) \<in> ob_id ` set (outbound (tables d))" using Cons.prems(2) by (simp add: fresh_rcpt_def)
  from 1 fk show ?case
  proof (cases rule: insert_rcpt_cases)
    case (failed msg)
    then have "r = Inl (Storage msg)" "d' = d1" using Cons.prems(1) 1 by (simp_all add: op_bind_def)
    with failed Cons.prems(3) show ?thesis by (intro exI [of _ 0] exI [of _ "[]"]) (simp add: rows_for_def)
  next
    case ran
    let ?row = "(fresh_rcpt i now a)\<lparr>rc_id := next_rowid rc_id (outbound_rcpt (tables d))\<rparr>"
    have t1: "outbound_rcpt (tables d1) = outbound_rcpt (tables d) @ [?row]" "outbound (tables d1) = outbound (tables d)"
      using ran(2) by (simp_all add: tbl_insert_def Let_def)
    have "distinct (map rc_id (outbound_rcpt (tables d1)))"
      using rcpt_tbl.insert_distinct [OF Cons.prems(3), of "fresh_rcpt i now a"] ran(2) by simp
    moreover have "insert_recipients i now rcpts d1 = (r, d')" using Cons.prems(1) 1 ran(1) by (simp add: op_bind_def)
    ultimately obtain n rows where n: "rows_for i now (take n rcpts) rows" "n \<le> length rcpts" "is_ok r \<longleftrightarrow> n = length rcpts"
      "tables d' = (tables d1)\<lparr>outbound_rcpt := outbound_rcpt (tables d1) @ rows\<rparr>"
      "distinct (map rc_id (outbound_rcpt (tables d1) @ rows))"
      using Cons.IH [of d1] Cons.prems(2) t1(2) by auto
    have "rows_for i now (take (Suc n) (a # rcpts)) (?row # rows)" using n(1) by (simp add: rows_for_def fresh_rcpt_def)
    with n ran(2) t1 show ?thesis by (intro exI [of _ "Suc n"] exI [of _ "?row # rows"]) simp
  qed
qed

section \<open>Every run of an enqueue\<close>

definition queued_message :: "(bytes \<Rightarrow> string) \<Rightarrow> dkim_lib \<Rightarrow> domain_key \<Rightarrow> int \<Rightarrow> new_outbound \<Rightarrow> outbound_row \<Rightarrow> bool" where
  "queued_message h dl key now new m \<longleftrightarrow>
     (\<exists>header. dkim_sign dl key (no_raw_message new) = Inr header \<and> ob_message_blob m = h (header @ no_raw_message new)) \<and>
     ob_account_id m = no_account_id new \<and> ob_envelope_from m = no_envelope_from new \<and> ob_created_at m = now \<and>
     ob_expires_at m = now + MAX_LIFETIME_SECS \<and> (ob_is_dsn m = 0 \<longleftrightarrow> \<not> no_is_dsn new)"

text \<open>What an enqueue may have done to the queue's tables: nothing, or a message row and rows for the first \<open>n\<close>
  recipients, the rate limits having been checked before.\<close>

definition under_limits :: "int \<Rightarrow> new_outbound \<Rightarrow> queue_tables \<Rightarrow> bool" where
  "under_limits now new t \<longleftrightarrow> no_is_dsn new \<or>
     message_count (no_account_id new) (now - RATE_LIMIT_WINDOW_SECS) t < MAX_MESSAGES_PER_WINDOW \<and>
     recipient_count (no_account_id new) (now - RATE_LIMIT_WINDOW_SECS) t + int (length (no_recipients new)) \<le> MAX_RECIPIENTS_PER_WINDOW"

definition accepted :: "(bytes \<Rightarrow> string) \<Rightarrow> dkim_lib \<Rightarrow> domain_key \<Rightarrow> int \<Rightarrow> new_outbound \<Rightarrow> nat \<Rightarrow> outbound_row \<Rightarrow>
    queue_tables \<Rightarrow> queue_tables \<Rightarrow> bool" where
  "accepted h dl key now new n m t t' \<longleftrightarrow>
     valid_outbound new \<and> under_limits now new t \<and> queued_message h dl key now new m \<and> n \<le> length (no_recipients new) \<and>
     ob_id m \<notin> ob_id ` set (outbound t) \<and>
     (\<exists>rows. rows_for (ob_id m) now (take n (no_recipients new)) rows \<and>
        distinct (map rc_id (outbound_rcpt t @ rows)) \<and>
        t' = t\<lparr>outbound := outbound t @ [m], outbound_rcpt := outbound_rcpt t @ rows\<rparr>)"

lemma check_rate_limits_run:
  assumes "check_rate_limits now new d = (r, d')"
  shows "tables d' = tables d" and "r = Inr () \<Longrightarrow> under_limits now new (tables d)"
proof -
  have "tables d' = tables d \<and> (r = Inr () \<longrightarrow> under_limits now new (tables d))"
  proof (cases "no_is_dsn new")
    case True
    with assms show ?thesis by (simp add: check_rate_limits_def under_limits_def)
  next
    case False
    let ?since = "now - RATE_LIMIT_WINDOW_SECS"
    obtain r1 d1 where 1: "db_query (message_count (no_account_id new) ?since) d = (r1, d1)" by fastforce
    obtain r2 d2 where 2: "db_query (recipient_count (no_account_id new) ?since) d1 = (r2, d2)" by fastforce
    have t: "tables d1 = tables d" "tables d2 = tables d" using db_query_tables [OF 1] db_query_tables [OF 2] by simp_all
    show ?thesis
    proof (cases r1)
      case (Inl e)
      with assms False 1 t show ?thesis by (auto simp: check_rate_limits_def Let_def op_bind_def)
    next
      case (Inr k)
      then have k: "k = message_count (no_account_id new) ?since (tables d)" using db_query_Inr [of _ d k d1] 1 by simp
      show ?thesis
      proof (cases r2)
        case Inl
        with assms False 1 2 t \<open>r1 = Inr k\<close> show ?thesis by (auto simp: check_rate_limits_def Let_def op_bind_def split: if_splits)
      next
        case (Inr l)
        then have "l = recipient_count (no_account_id new) ?since (tables d)" using db_query_Inr [of _ d1 l d2] 2 t(1) by simp
        with assms False 1 2 t k \<open>r1 = Inr k\<close> Inr show ?thesis
          by (auto simp: check_rate_limits_def under_limits_def Let_def op_bind_def split: if_splits)
      qed
    qed
  qed
  then show "tables d' = tables d" and "r = Inr () \<Longrightarrow> under_limits now new (tables d)" by simp_all
qed

lemma insert_outbound_cases:
  assumes "insert_outbound row d = (r, d')"
  obtains (failed) msg where "r = Inl (Storage msg)" "tables d' = tables d"
    | (ran) i where "r = Inr i" "i \<notin> ob_id ` set (outbound (tables d))"
        "tables d' = (tables d)\<lparr>outbound := outbound (tables d) @ [row\<lparr>ob_id := i\<rparr>]\<rparr>"
  using assms unfolding insert_outbound_def
proof (cases rule: db_stmt_cases)
  case ran
  then have "r = Inr (next_rowid ob_id (outbound (tables d)))"
    "tables d' = (tables d)\<lparr>outbound := outbound (tables d) @ [row\<lparr>ob_id := next_rowid ob_id (outbound (tables d))\<rparr>]\<rparr>"
    by (auto simp: tbl_insert_def Let_def)
  moreover have "next_rowid ob_id (outbound (tables d)) \<notin> ob_id ` set (outbound (tables d))"
    using next_rowid_notin [of _ "outbound (tables d)" ob_id] by fastforce
  ultimately show thesis using that(2) by blast
qed (use that(1) in blast)

lemma on_queue_run: "on_queue f s = (r, s') \<longleftrightarrow> (\<exists>d. f (sp_queue s) = (r, d) \<and> s' = s\<lparr>sp_queue := d\<rparr>)"
  by (auto simp: on_queue_def zoom_def split: prod.splits)

lemma on_spool_run: "on_spool f s = (r, s') \<longleftrightarrow> (\<exists>b. f (sp_blobs s) = (r, b) \<and> s' = s\<lparr>sp_blobs := b\<rparr>)"
  by (auto simp: on_spool_def zoom_def split: prod.splits)

text \<open>The runs: refused before anything is written, refused after the blob was written, or accepted for the
  first \<open>n\<close> recipients; only when all of them are in the result is the message's id.\<close>

lemma enqueue_cases:
  assumes "enqueue h torn dl key now new s = (r, s')" and "queue_ok (tables (sp_queue s))"
  obtains (refused) e where "r = Inl e" "s' = s" "\<not> valid_outbound new \<or> (\<exists>e. dkim_sign dl key (no_raw_message new) = Inl e)"
    | (blob) e where "r = Inl e" "valid_outbound new" "tables (sp_queue s') = tables (sp_queue s)"
        "\<exists>b r'. blob_write h torn b (sp_blobs s) = (r', sp_blobs s')"
    | (rows) n m where "accepted h dl key now new n m (tables (sp_queue s)) (tables (sp_queue s'))"
        "\<exists>b. blob_write h torn b (sp_blobs s) = (Inr (ob_message_blob m), sp_blobs s')"
        "is_ok r \<longleftrightarrow> n = length (no_recipients new)" "is_ok r \<Longrightarrow> r = Inr (ob_id m)"
proof (cases "valid_outbound new")
  case False
  then have "r = Inl (Config ''invalid outbound envelope'')" "s' = s" using assms(1) by (auto simp: enqueue_def)
  with False that(1) show thesis by blast
next
  case valid: True
  show thesis
  proof (cases "dkim_sign dl key (no_raw_message new)")
    case (Inl e)
    then have "r = Inl e" "s' = s" using assms(1) valid by (auto simp: enqueue_def op_bind_def)
    with Inl that(1) show thesis by blast
  next
    case (Inr header)
    let ?b = "header @ no_raw_message new"
    obtain r1 b where 1: "blob_write h torn ?b (sp_blobs s) = (r1, b)" by fastforce
    obtain r2 d2 where 2: "check_rate_limits now new (sp_queue s) = (r2, d2)" by fastforce
    define row where "row k = \<lparr>ob_id = 0, ob_account_id = no_account_id new, ob_message_blob = k,
             ob_envelope_from = no_envelope_from new, ob_created_at = now, ob_expires_at = now + MAX_LIFETIME_SECS,
             ob_dsn_envid = no_dsn_envid new, ob_dsn_ret = no_dsn_ret new, ob_is_dsn = (if no_is_dsn new then 1 else 0)\<rparr>" for k :: string
    have run: "op_bind (on_spool (blob_write h torn ?b)) (\<lambda>blob_hash.
        op_bind (on_queue (check_rate_limits now new)) (\<lambda>_.
        op_bind (on_queue (insert_outbound (row blob_hash))) (\<lambda>outbound_id.
        op_bind (on_queue (insert_recipients outbound_id now (no_recipients new))) (\<lambda>_ s. (Inr outbound_id, s))))) s = (r, s')"
      using assms(1) valid Inr by (simp add: enqueue_def op_bind_def row_def)
    have t2: "tables d2 = tables (sp_queue s)" by (rule check_rate_limits_run(1) [OF 2])
    show thesis
    proof (cases r1)
      case (Inl e)
      with run 1 have "r = Inl e" "s' = s\<lparr>sp_blobs := b\<rparr>" by (simp_all add: op_bind_def on_spool_def zoom_def)
      with valid 1 show thesis by (intro that(2)) auto
    next
      case r1: (Inr k)
      show thesis
      proof (cases r2)
        case (Inl e)
        with run 1 2 r1 have "r = Inl e" "s' = s\<lparr>sp_blobs := b, sp_queue := d2\<rparr>"
          by (simp_all add: op_bind_def on_spool_def on_queue_def zoom_def)
        with valid 1 t2 show thesis by (intro that(2)) auto
      next
        case r2: (Inr u)
        obtain r3 d3 where 3: "insert_outbound (row k) d2 = (r3, d3)" by fastforce
        from 3 show thesis
        proof (cases rule: insert_outbound_cases)
          case (failed msg)
          with run 1 2 3 r1 r2 have "r = Inl (Storage msg)" "s' = s\<lparr>sp_blobs := b, sp_queue := d3\<rparr>"
            by (simp_all add: op_bind_def on_spool_def on_queue_def zoom_def)
          with valid 1 t2 failed(2) show thesis by (intro that(2)) auto
        next
          case (ran i)
          obtain r4 d4 where 4: "insert_recipients i now (no_recipients new) d3 = (r4, d4)" by fastforce
          let ?m = "(row k)\<lparr>ob_id := i\<rparr>"
          have s': "s' = s\<lparr>sp_blobs := b, sp_queue := d4\<rparr>" "is_ok r \<longleftrightarrow> is_ok r4" "is_ok r \<Longrightarrow> r = Inr i"
            using run 1 2 3 4 r1 r2 ran(1)
            by (auto simp: op_bind_def on_spool_def on_queue_def zoom_def split: sum.splits)
          have d3: "i \<in> ob_id ` set (outbound (tables d3))" "distinct (map rc_id (outbound_rcpt (tables d3)))"
            using ran(3) t2 assms(2) by (simp_all add: queue_ok_def)
          obtain n rows where n: "rows_for i now (take n (no_recipients new)) rows" "n \<le> length (no_recipients new)"
            "is_ok r4 \<longleftrightarrow> n = length (no_recipients new)"
            "tables d4 = (tables d3)\<lparr>outbound_rcpt := outbound_rcpt (tables d3) @ rows\<rparr>"
            "distinct (map rc_id (outbound_rcpt (tables d3) @ rows))"
            using insert_recipients_run [OF 4 d3] by blast
          have k: "k = h ?b" using blob_write_contents(2) [OF 1] r1 by simp
          have "under_limits now new (tables (sp_queue s))" using check_rate_limits_run(2) [OF 2] r2 by simp
          then have "accepted h dl key now new n ?m (tables (sp_queue s)) (tables d4)"
            using valid Inr k n ran(2,3) t2 by (simp add: accepted_def queued_message_def row_def) blast
          moreover have "blob_write h torn ?b (sp_blobs s) = (Inr (ob_message_blob ?m), b)" using 1 r1 by (simp add: row_def)
          ultimately show thesis using s' n(3) by (intro that(3) [of n ?m]) (auto simp: row_def)
        qed
      qed
    qed
  qed
qed

lemma accepted_queue_ok:
  assumes "accepted h dl key now new n m t t'" and "queue_ok t"
  shows "queue_ok t'"
proof -
  obtain rows where rows: "rows_for (ob_id m) now (take n (no_recipients new)) rows" "distinct (map rc_id (outbound_rcpt t @ rows))"
    "t' = t\<lparr>outbound := outbound t @ [m], outbound_rcpt := outbound_rcpt t @ rows\<rparr>" and
    m: "ob_id m \<notin> ob_id ` set (outbound t)" "queued_message h dl key now new m"
    using assms(1) unfolding accepted_def by blast
  have "r \<in> set rows \<Longrightarrow> rc_outbound_id r = ob_id m \<and> rc_state r = as_str (from_db_str (rc_state r)) \<and> 0 \<le> rc_attempts r" for r
    using rows_for_fields(3) [OF rows(1)] by (simp add: from_db_str_def)
  moreover have "ob_expires_at m = ob_created_at m + MAX_LIFETIME_SECS" using m(2) by (simp add: queued_message_def)
  ultimately show ?thesis
    using assms(2) rows(2,3) m(1) by (auto simp: queue_ok_def list_all_iff)
qed

text \<open>Without failures a valid message under the limits is accepted.\<close>

lemma insert_recipients_ok:
  assumes "faults d = []" and "i \<in> ob_id ` set (outbound (tables d))"
  shows "\<exists>d'. insert_recipients i now rcpts d = (Inr (), d') \<and> faults d' = []"
  using assms
proof (induction rcpts arbitrary: d)
  case (Cons a rcpts)
  then have "insert_rcpt (fresh_rcpt i now a) d = (Inr (), d\<lparr>tables := (tables d)\<lparr>outbound_rcpt :=
      snd (tbl_insert rc_id (\<lambda>i r. r\<lparr>rc_id := i\<rparr>) (fresh_rcpt i now a) (outbound_rcpt (tables d)))\<rparr>\<rparr>)"
    by (auto simp: insert_rcpt_def fresh_rcpt_def)
  with Cons show ?case by (simp add: op_bind_def)
qed simp

lemma enqueue_succeeds:
  assumes "valid_outbound new" and "dkim_sign dl key (no_raw_message new) = Inr header" and "hex_hash h"
    and "faults (sp_queue s) = []" and "io_faults (sp_blobs s) = []" and "under_limits now new (tables (sp_queue s))"
  shows "\<exists>i s'. enqueue h torn dl key now new s = (Inr i, s')"
proof -
  obtain b where b: "blob_write h torn (header @ no_raw_message new) (sp_blobs s) = (Inr (h (header @ no_raw_message new)), b)"
    using blob_write_no_faults [OF assms(3,5)] by blast
  have c: "check_rate_limits now new (sp_queue s) = (Inr (), sp_queue s)"
    using assms(4,6) by (auto simp: check_rate_limits_def under_limits_def op_bind_def Let_def)
  define row where "row = \<lparr>ob_id = 0, ob_account_id = no_account_id new, ob_message_blob = h (header @ no_raw_message new),
             ob_envelope_from = no_envelope_from new, ob_created_at = now, ob_expires_at = now + MAX_LIFETIME_SECS,
             ob_dsn_envid = no_dsn_envid new, ob_dsn_ret = no_dsn_ret new, ob_is_dsn = (if no_is_dsn new then 1 else 0)\<rparr>"
  obtain i d where i: "insert_outbound row (sp_queue s) = (Inr i, d)" "faults d = []" "i \<in> ob_id ` set (outbound (tables d))"
    using assms(4) by (simp add: insert_outbound_def tbl_insert_def Let_def)
  obtain d' where "insert_recipients i now (no_recipients new) d = (Inr (), d')" using insert_recipients_ok [OF i(2,3)] by blast
  with i(1) b c assms(1,2) show ?thesis by (simp add: enqueue_def op_bind_def on_spool_def on_queue_def zoom_def row_def)
qed

text \<open>C15: Accepting a message. An enqueue keeps the queue's invariant, every stored blob and their integrity. It returns an
  id exactly when a message row with that id and a ready, immediately due row for each recipient, in order, were
  added, and then the signed message is in the blob store under the hash of the row; it does so only for a valid
  envelope within the account's hourly limits. When it reports an error, nothing was queued, or the message row and the
  rows of some first recipients, but not all, stay behind: the inserts are not one transaction. Without failures a
  valid message within the limits is accepted.\<close>

theorem enqueue_outcome:
  assumes "enqueue h torn dl key now new s = (r, s')" and "queue_ok (tables (sp_queue s))" and "blobs_intact h (sp_blobs s)"
  shows "queue_ok (tables (sp_queue s')) \<and> blobs_intact h (sp_blobs s') \<and>
    (\<forall>k c. contents (sp_blobs s) k = Some c \<longrightarrow> contents (sp_blobs s') k = Some c) \<and>
    (case r of
       Inr i \<Rightarrow> \<exists>m. ob_id m = i \<and> contents (sp_blobs s') (ob_message_blob m) \<noteq> None \<and>
         accepted h dl key now new (length (no_recipients new)) m (tables (sp_queue s)) (tables (sp_queue s'))
     | Inl e \<Rightarrow> tables (sp_queue s') = tables (sp_queue s) \<or>
         (\<exists>n m. n < length (no_recipients new) \<and> contents (sp_blobs s') (ob_message_blob m) \<noteq> None \<and>
           accepted h dl key now new n m (tables (sp_queue s)) (tables (sp_queue s')))) \<and>
    (valid_outbound new \<and> is_ok (dkim_sign dl key (no_raw_message new)) \<and> hex_hash h \<and> faults (sp_queue s) = [] \<and>
       io_faults (sp_blobs s) = [] \<and> under_limits now new (tables (sp_queue s)) \<longrightarrow> is_ok r)"
proof -
  have succeeds: "valid_outbound new \<and> is_ok (dkim_sign dl key (no_raw_message new)) \<and> hex_hash h \<and> faults (sp_queue s) = [] \<and>
       io_faults (sp_blobs s) = [] \<and> under_limits now new (tables (sp_queue s)) \<longrightarrow> is_ok r"
  proof
    assume a: "valid_outbound new \<and> is_ok (dkim_sign dl key (no_raw_message new)) \<and> hex_hash h \<and> faults (sp_queue s) = [] \<and>
       io_faults (sp_blobs s) = [] \<and> under_limits now new (tables (sp_queue s))"
    then obtain header where "dkim_sign dl key (no_raw_message new) = Inr header" by (cases "dkim_sign dl key (no_raw_message new)") auto
    with enqueue_succeeds [of new dl key header h s now torn] a assms(1) show "is_ok r" by auto
  qed
  have writes: "blobs_intact h b' \<and> (\<forall>k c. contents (sp_blobs s) k = Some c \<longrightarrow> contents b' k = Some c)"
    if "blob_write h torn b (sp_blobs s) = (x, b')" for b x b'
    using blobs.put_intact [of h "sp_blobs s" torn b] blobs.put_frame [of "sp_blobs s" _ _ h torn b] that assms(3)
    by (simp add: blobs_intact_iff)
  from assms(1,2) show ?thesis
  proof (cases rule: enqueue_cases)
    case (refused e)
    with assms(2,3) succeeds show ?thesis by simp
  next
    case (blob e)
    then obtain b x where "blob_write h torn b (sp_blobs s) = (x, sp_blobs s')" by blast
    with writes blob assms(2) succeeds show ?thesis by simp
  next
    case (rows n m)
    obtain b where b: "blob_write h torn b (sp_blobs s) = (Inr (ob_message_blob m), sp_blobs s')" using rows(2) by blast
    have held: "contents (sp_blobs s') (ob_message_blob m) \<noteq> None" using blob_write_contents(2) [OF b] by blast
    have le: "n \<le> length (no_recipients new)" using rows(1) by (simp add: accepted_def)
    have "case r of
       Inr i \<Rightarrow> \<exists>m. ob_id m = i \<and> contents (sp_blobs s') (ob_message_blob m) \<noteq> None \<and>
         accepted h dl key now new (length (no_recipients new)) m (tables (sp_queue s)) (tables (sp_queue s'))
     | Inl e \<Rightarrow> tables (sp_queue s') = tables (sp_queue s) \<or>
         (\<exists>n m. n < length (no_recipients new) \<and> contents (sp_blobs s') (ob_message_blob m) \<noteq> None \<and>
           accepted h dl key now new n m (tables (sp_queue s)) (tables (sp_queue s')))"
    proof (cases r)
      case (Inl e)
      then have "n < length (no_recipients new)" using rows(3) le by simp
      with Inl held rows(1) show ?thesis by auto
    next
      case (Inr i)
      then have "n = length (no_recipients new)" "ob_id m = i" using rows(3,4) by simp_all
      with Inr held rows(1) show ?thesis by auto
    qed
    with writes [OF b] accepted_queue_ok [OF rows(1) assms(2)] succeeds show ?thesis by simp
  qed
qed

definition sample_dkim :: dkim_lib where
  "sample_dkim = \<lparr>dl_generate_rsa = (\<lambda>_. Inr (''priv'', ''pub'')), dl_key_der = Inr, dl_sign = (\<lambda>_ _ _ _ _. Inr ''DKIM-Signature: s''),
     dl_spki_der = Some, dl_base64 = (\<lambda>b. b)\<rparr>"

definition sample_key :: domain_key where
  "sample_key = \<lparr>dkey_domain = ''a.example'', dkey_selector = SELECTOR, dkey_private_der = ''priv'', dkey_public_der = ''pub''\<rparr>"

definition sample_spool :: spool where
  "sample_spool = \<lparr>sp_queue = \<lparr>tables = queue_empty, faults = []\<rparr>,
     sp_blobs = \<lparr>files = Map.empty, io_faults = [], process_id = ''1''\<rparr>\<rparr>"

definition sample_new :: new_outbound where
  "sample_new = \<lparr>no_account_id = 1, no_envelope_from = ''me@a.example'', no_raw_message = ''hello'',
     no_recipients = [''you@b.example'', ''they@c.example''], no_is_dsn = False, no_dsn_envid = None, no_dsn_ret = None\<rparr>"

lemma sample_enqueue: "\<exists>i s'. enqueue sample_hash 0 sample_dkim sample_key 100 sample_new sample_spool = (Inr i, s')"
proof -
  have "valid_email_address ''me@a.example''" "valid_email_address ''you@b.example''" "valid_email_address ''they@c.example''"
    by (simp_all add: input_eval)
  then have "valid_outbound sample_new" by (simp add: valid_outbound_def sample_new_def)
  moreover have "dkim_sign sample_dkim sample_key (no_raw_message sample_new) = Inr ''DKIM-Signature: s''"
    by (simp add: dkim_sign_def signing_key_def sample_dkim_def)
  moreover have "under_limits 100 sample_new (tables (sp_queue sample_spool))"
    by (simp add: under_limits_def sample_spool_def queue_empty_def message_count_def recipient_count_def sample_new_def
        MAX_MESSAGES_PER_WINDOW_def MAX_RECIPIENTS_PER_WINDOW_def)
  ultimately show ?thesis using sample_hash_hex by (intro enqueue_succeeds) (simp_all add: sample_spool_def)
qed

theorem enqueue_outcome_witness:
  "\<exists>i s' m. enqueue sample_hash 0 sample_dkim sample_key 100 sample_new sample_spool = (Inr i, s') \<and> ob_id m = i \<and>
     accepted sample_hash sample_dkim sample_key 100 sample_new 2 m queue_empty (tables (sp_queue s'))"
proof -
  obtain i s' where run: "enqueue sample_hash 0 sample_dkim sample_key 100 sample_new sample_spool = (Inr i, s')"
    using sample_enqueue by blast
  have "queue_ok (tables (sp_queue sample_spool))" "blobs_intact sample_hash (sp_blobs sample_spool)"
    by (simp_all add: sample_spool_def queue_empty_ok blobs_intact_def contents_def)
  from enqueue_outcome [OF run this] obtain m where "ob_id m = i"
    "accepted sample_hash sample_dkim sample_key 100 sample_new (length (no_recipients sample_new)) m (tables (sp_queue sample_spool)) (tables (sp_queue s'))"
    by auto
  moreover have "length (no_recipients sample_new) = 2" "tables (sp_queue sample_spool) = queue_empty"
    by (simp_all add: sample_new_def sample_spool_def)
  ultimately show ?thesis using run by metis
qed

section \<open>Rate limits\<close>

definition in_window :: "int \<Rightarrow> int \<Rightarrow> outbound_row \<Rightarrow> bool" where
  "in_window account now m \<longleftrightarrow> counted account (now - RATE_LIMIT_WINDOW_SECS) m \<and> ob_created_at m \<le> now"

definition sent_to :: "int \<Rightarrow> int \<Rightarrow> queue_tables \<Rightarrow> rcpt_row list" where
  "sent_to account now t = filter (\<lambda>r. \<exists>m \<in> set (outbound t). ob_id m = rc_outbound_id r \<and> in_window account now m) (outbound_rcpt t)"

text \<open>In every hour, every account: at most 200 messages to at most 500 recipients.\<close>

definition rate_ok :: "queue_tables \<Rightarrow> bool" where
  "rate_ok t \<longleftrightarrow> (\<forall>account now.
     int (length (filter (in_window account now) (outbound t))) \<le> MAX_MESSAGES_PER_WINDOW \<and>
     int (length (sent_to account now t)) \<le> MAX_RECIPIENTS_PER_WINDOW)"

lemma rate_ok_empty: "rate_ok queue_empty"
  by (simp add: rate_ok_def queue_empty_def sent_to_def MAX_MESSAGES_PER_WINDOW_def MAX_RECIPIENTS_PER_WINDOW_def)

lemma length_filter_le_impl: "(\<And>x. x \<in> set xs \<Longrightarrow> P x \<Longrightarrow> Q x) \<Longrightarrow> length (filter P xs) \<le> length (filter Q xs)"
  by (induction xs) (auto simp: le_SucI)

lemma length_filter_le_join:
  "length (filter (\<lambda>r. \<exists>m \<in> set ms. P r m) rs) \<le> length [(r, m). r \<leftarrow> rs, m \<leftarrow> ms, P r m]"
proof (induction rs)
  case (Cons r rs)
  have "\<exists>m \<in> set ms. P r m \<Longrightarrow> Suc 0 \<le> length (concat (map (\<lambda>m. if P r m then [(r, m)] else []) ms))"
    by (induction ms) auto
  then show ?case using Cons by (cases "\<exists>m \<in> set ms. P r m") auto
qed simp

lemma accepted_rate_ok:
  assumes acc: "accepted h dl key now new n m t t'" and "queue_ok t" and "rate_ok t"
  shows "rate_ok t'"
proof -
  obtain rows where rows: "rows_for (ob_id m) now (take n (no_recipients new)) rows"
    "t' = t\<lparr>outbound := outbound t @ [m], outbound_rcpt := outbound_rcpt t @ rows\<rparr>" and
    m: "ob_id m \<notin> ob_id ` set (outbound t)" "queued_message h dl key now new m" "under_limits now new t" "n \<le> length (no_recipients new)"
    using acc unfolding accepted_def by blast
  have fk: "rc_outbound_id r \<in> ob_id ` set (outbound t)" if "r \<in> set (outbound_rcpt t)" for r
    using assms(2) that by (simp add: queue_ok_def list_all_iff)
  have id: "rc_outbound_id r = ob_id m" if "r \<in> set rows" for r using rows_for_fields(3) [OF rows(1) that] by simp
  have new_rows: "filter (\<lambda>r. \<exists>x \<in> set (outbound t'). ob_id x = rc_outbound_id r \<and> in_window a T x) rows =
      (if in_window a T m then rows else [])" for a T
    using id m(1) rows(2) by (auto simp: filter_id_conv filter_empty_conv image_iff)
  have old_rows: "filter (\<lambda>r. \<exists>x \<in> set (outbound t'). ob_id x = rc_outbound_id r \<and> in_window a T x) (outbound_rcpt t) = sent_to a T t" for a T
    unfolding sent_to_def using fk m(1) rows(2) by (intro filter_cong) auto
  have sent: "sent_to a T t' = sent_to a T t @ (if in_window a T m then rows else [])" for a T
    using new_rows [of a T] old_rows [of a T] rows(2) by (simp add: sent_to_def)
  have "int (length (filter (in_window a T) (outbound t'))) \<le> MAX_MESSAGES_PER_WINDOW \<and>
      int (length (sent_to a T t')) \<le> MAX_RECIPIENTS_PER_WINDOW" for a T
  proof (cases "in_window a T m")
    case False
    with assms(3) sent rows(2) show ?thesis by (simp add: rate_ok_def)
  next
    case True
    then have a: "a = no_account_id new" "now \<le> T" "\<not> no_is_dsn new"
      using m(2) by (auto simp: in_window_def counted_def queued_message_def)
    have weaker: "in_window a T x \<Longrightarrow> counted (no_account_id new) (now - RATE_LIMIT_WINDOW_SECS) x" for x
      using a by (auto simp: in_window_def counted_def)
    have lim: "message_count a (now - RATE_LIMIT_WINDOW_SECS) t < MAX_MESSAGES_PER_WINDOW"
      "recipient_count a (now - RATE_LIMIT_WINDOW_SECS) t + int (length (no_recipients new)) \<le> MAX_RECIPIENTS_PER_WINDOW"
      using m(3) a by (simp_all add: under_limits_def)
    have "length (filter (in_window a T) (outbound t)) \<le> length (filter (counted a (now - RATE_LIMIT_WINDOW_SECS)) (outbound t))"
      using weaker a(1) by (intro length_filter_le_impl) simp
    moreover have "length (sent_to a T t) \<le> length (filter (\<lambda>r. \<exists>x \<in> set (outbound t). ob_id x = rc_outbound_id r \<and>
        counted a (now - RATE_LIMIT_WINDOW_SECS) x) (outbound_rcpt t))"
      unfolding sent_to_def using weaker a(1) by (intro length_filter_le_impl) auto
    moreover have "length rows \<le> length (no_recipients new)" using rows_for_fields(2) [OF rows(1)] by simp
    ultimately show ?thesis
      using lim length_filter_le_join [of "outbound t" "\<lambda>r x. ob_id x = rc_outbound_id r \<and> counted a (now - RATE_LIMIT_WINDOW_SECS) x" "outbound_rcpt t"]
        sent [of a T] True rows(2) by (simp add: message_count_def recipient_count_def)
  qed
  then show ?thesis by (simp add: rate_ok_def)
qed

text \<open>Making a domain's DKIM key touches no other table, and a domain never has two keys.\<close>

lemma ensure_dkim_key_run:
  assumes "ensure_dkim_key dl now dn d = (r, d')"
  shows "\<exists>ks. tables d' = (tables d)\<lparr>dkim_keys := ks\<rparr> \<and> (distinct (map dk_domain (dkim_keys (tables d))) \<longrightarrow> distinct (map dk_domain ks))"
proof -
  let ?P = "\<lambda>t. \<exists>ks. t = (tables d)\<lparr>dkim_keys := ks\<rparr> \<and> (distinct (map dk_domain (dkim_keys (tables d))) \<longrightarrow> distinct (map dk_domain ks))"
  have start: "?P (tables d)" by (rule exI [of _ "dkim_keys (tables d)"]) simp
  obtain x d1 where x: "load_dkim_key dn d = (x, d1)" by fastforce
  have t1: "tables d1 = tables d" using db_query_tables x unfolding load_dkim_key_def by blast
  show ?thesis
  proof (cases "d' = d1")
    case False
    then obtain row y where y: "insert_dkim_key row d1 = (y, d')"
      using assms x unfolding ensure_dkim_key_def op_bind_def by (auto split: sum.splits option.splits prod.splits)
    have "?P t" if "(if \<exists>r \<in> set (dkim_keys (tables d1)). dk_domain r = dk_domain row
        then (Inl (Storage ''UNIQUE constraint failed: dkim_keys.domain''), tables d1)
        else (Inr (), (tables d1)\<lparr>dkim_keys := dkim_keys (tables d1) @ [row]\<rparr>)) = (z, t)" for z and t :: queue_tables
    proof (cases "\<exists>r \<in> set (dkim_keys (tables d)). dk_domain r = dk_domain row")
      case True
      with that start show ?thesis by (simp add: t1)
    next
      case False
      with that show ?thesis by (intro exI [of _ "dkim_keys (tables d) @ [row]"]) (auto simp: t1)
    qed
    from db_stmt_tables_inv [where P = ?P, OF y [unfolded insert_dkim_key_def] _ this] show ?thesis using start by (simp add: t1)
  qed (use start t1 in simp)
qed

lemma ensure_dkim_key_keeps:
  assumes "ensure_dkim_key dl now dn d = (r, d')"
  shows "outbound (tables d') = outbound (tables d)" and "outbound_rcpt (tables d') = outbound_rcpt (tables d)"
    and "queue_ok (tables d) \<Longrightarrow> queue_ok (tables d')" and "rate_ok (tables d) \<Longrightarrow> rate_ok (tables d')"
proof -
  obtain ks where "tables d' = (tables d)\<lparr>dkim_keys := ks\<rparr>" "distinct (map dk_domain (dkim_keys (tables d))) \<longrightarrow> distinct (map dk_domain ks)"
    using ensure_dkim_key_run [OF assms] by blast
  then show "outbound (tables d') = outbound (tables d)" "outbound_rcpt (tables d') = outbound_rcpt (tables d)"
    "queue_ok (tables d) \<Longrightarrow> queue_ok (tables d')" "rate_ok (tables d) \<Longrightarrow> rate_ok (tables d')"
    by (simp_all add: queue_ok_def rate_ok_def sent_to_def)
qed

end
