(* ===== verification/Dane_Connect.thy ===== *)
theory Dane_Connect
  imports Queue_Store Dns_Resolver
begin

text \<open>
  Reaching a remote mail server: the DANE certificate check (\<open>queue/src/dane.rs\<close>), the choice of a host
  (\<open>Worker::connect_opportunistic\<close>) and the SMTP conversation (\<open>run_envelope\<close>) of \<open>queue/src/worker.rs\<close>.

  \<open>net_lib\<close> is what the network answers: the resolver, the \<open>mail-send\<close> client and the certificate parser. A
  connected client is what the remote server will answer to MAIL, to the n-th RCPT and to DATA, with the
  certificate it presented. \<open>verifies\<close> is the contract of the TLS library: a handshake with a certificate
  verifier succeeds only on a certificate that the verifier accepts.
\<close>

section \<open>DANE\<close>

definition USAGE_DANE_EE :: nat where "USAGE_DANE_EE = 3"

definition SELECTOR_SPKI :: nat where "SELECTOR_SPKI = 1"

definition MATCHING_SHA256 :: nat where "MATCHING_SHA256 = 1"

datatype tls_error = BadEncoding | ApplicationVerificationFailure

record dane_verifier =
  expected_spki_sha256 :: "bytes list"

definition supported_tlsa :: "tlsa_record \<Rightarrow> bool" where
  "supported_tlsa r \<longleftrightarrow> cert_usage r = USAGE_DANE_EE \<and> selector r = SELECTOR_SPKI \<and> matching r = MATCHING_SHA256 \<and>
     length (cert_data r) = 32"

definition dane_new :: "tlsa_record list \<Rightarrow> dane_verifier option" where
  "dane_new records =
     (if records = [] then None
      else Some \<lparr>expected_spki_sha256 = map cert_data (filter supported_tlsa records)\<rparr>)"

record smtp_client =
  cl_certificate :: "bytes option"
  cl_mail_from :: "string \<Rightarrow> send_error + unit"
  cl_rcpt_to :: "nat \<Rightarrow> string \<Rightarrow> send_error + unit"
  cl_data :: "bytes \<Rightarrow> send_error + unit"

datatype connect_result = ConnClient smtp_client | MissingStartTls | ConnError string

record net_lib =
  nl_resolver :: resolver
  nl_builder :: "string \<Rightarrow> bool"
  nl_connect :: "string \<Rightarrow> (bytes \<Rightarrow> tls_error + unit) option \<Rightarrow> connect_result"
  nl_connect_plain :: "string \<Rightarrow> smtp_client option"
  nl_spki :: "bytes \<Rightarrow> bytes option"
  nl_sha256 :: "bytes \<Rightarrow> bytes"

definition verify_server_cert :: "net_lib \<Rightarrow> dane_verifier \<Rightarrow> bytes \<Rightarrow> tls_error + unit" where
  "verify_server_cert N v end_entity =
     (case nl_spki N end_entity of
        None \<Rightarrow> Inl BadEncoding
      | Some spki \<Rightarrow>
          let spki_hash = nl_sha256 N spki in
          if list_ex (\<lambda>expected. expected = spki_hash) (expected_spki_sha256 v) then Inr ()
          else Inl ApplicationVerificationFailure)"

definition verifies :: "net_lib \<Rightarrow> bool" where
  "verifies N \<longleftrightarrow> (\<forall>host v c. nl_connect N host (Some v) = ConnClient c \<longrightarrow>
     (\<exists>cert. cl_certificate c = Some cert \<and> v cert = Inr ()))"

section \<open>Choosing a host\<close>

datatype connected = ConnTls smtp_client | ConnPlain smtp_client

datatype connect_outcome = Connected connected | ConnectFailed bool

fun connect_hosts :: "net_lib \<Rightarrow> bool \<Rightarrow> mx_record list \<Rightarrow> connect_outcome" where
  "connect_hosts N dane_required [] = ConnectFailed dane_required"
| "connect_hosts N dane_required (mx # rest) =
     (let host = trim_dots (mx_exchange mx) in
      if host = [] then connect_hosts N dane_required rest
      else if \<not> nl_builder N host then connect_hosts N dane_required rest
      else case resolve_tlsa (nl_resolver N) 25 host of
             Inl _ \<Rightarrow> connect_hosts N True rest
           | Inr records \<Rightarrow>
               (case dane_new records of
                  Some verifier \<Rightarrow>
                    (case nl_connect N host (Some (verify_server_cert N verifier)) of
                       ConnClient client \<Rightarrow> Connected (ConnTls client)
                     | _ \<Rightarrow> connect_hosts N True rest)
                | None \<Rightarrow>
                    (case nl_connect N host None of
                       ConnClient client \<Rightarrow> Connected (ConnTls client)
                     | MissingStartTls \<Rightarrow>
                         (case nl_connect_plain N host of
                            Some client \<Rightarrow> Connected (ConnPlain client)
                          | None \<Rightarrow> connect_hosts N dane_required rest)
                     | ConnError _ \<Rightarrow> connect_hosts N dane_required rest)))"

definition connect_opportunistic :: "net_lib \<Rightarrow> mx_record list \<Rightarrow> connect_outcome" where
  "connect_opportunistic N mx_records = connect_hosts N False mx_records"

section \<open>The conversation\<close>

definition unwrap_outcome :: "outcome option \<Rightarrow> outcome" where
  "unwrap_outcome o' = (case o' of Some x \<Rightarrow> x | None \<Rightarrow> Transient None None ''internal: no outcome computed'')"

definition rcpt_replies :: "smtp_client \<Rightarrow> string list \<Rightarrow> (send_error + unit) list" where
  "rcpt_replies client addrs = map (\<lambda>(i, a). cl_rcpt_to client i a) (List.enumerate 0 addrs)"

definition run_envelope :: "smtp_client \<Rightarrow> string \<Rightarrow> string list \<Rightarrow> bytes \<Rightarrow> outcome list" where
  "run_envelope client sender addrs raw =
     (case cl_mail_from client sender of
        Inl e \<Rightarrow> map (\<lambda>_. classify_send_result (Inl e)) addrs
      | Inr _ \<Rightarrow>
          (let replies = rcpt_replies client addrs;
               outcomes = map (\<lambda>r. case r of Inr _ \<Rightarrow> None | Inl e \<Rightarrow> Some (classify_send_result (Inl e))) replies;
               accepted = filter (\<lambda>i. replies ! i = Inr ()) [0..<length replies];
               settled = (if accepted \<noteq> []
                          then fold (\<lambda>i os. os[i := Some (classify_send_result (cl_data client raw))]) accepted outcomes
                          else outcomes)
           in map unwrap_outcome settled))"

section \<open>No downgrade\<close>

text \<open>The hosts that are tried: the ones the client library can address.\<close>

definition tried :: "net_lib \<Rightarrow> mx_record list \<Rightarrow> string list" where
  "tried N mxs = filter (\<lambda>h. h \<noteq> [] \<and> nl_builder N h) (map (\<lambda>m. trim_dots (mx_exchange m)) mxs)"

text \<open>A host that DANE protects, or whose TLSA records cannot be trusted.\<close>

definition dane_host :: "net_lib \<Rightarrow> string \<Rightarrow> bool" where
  "dane_host N host \<longleftrightarrow> resolve_tlsa (nl_resolver N) 25 host \<noteq> Inr []"

text \<open>A certificate whose public key a supported record of the host pins.\<close>

definition pinned :: "net_lib \<Rightarrow> string \<Rightarrow> bytes \<Rightarrow> bool" where
  "pinned N host cert \<longleftrightarrow>
     (\<exists>records r spki. resolve_tlsa (nl_resolver N) 25 host = Inr records \<and> r \<in> set records \<and> supported_tlsa r \<and>
        nl_spki N cert = Some spki \<and> nl_sha256 N spki = cert_data r)"

lemma verify_server_cert_pins:
  assumes "verify_server_cert N v cert = Inr ()" and "dane_new records = Some v"
    and "resolve_tlsa (nl_resolver N) 25 host = Inr records"
  shows "pinned N host cert"
  using assms by (auto simp: verify_server_cert_def dane_new_def pinned_def Let_def list_ex_iff split: option.splits if_splits)

lemma tried_Cons:
  "tried N (mx # mxs) = (let h = trim_dots (mx_exchange mx) in if h \<noteq> [] \<and> nl_builder N h then h # tried N mxs else tried N mxs)"
  by (simp add: tried_def Let_def)

lemma dane_new_None: "dane_new records = None \<longleftrightarrow> records = []"
  by (simp add: dane_new_def)

text \<open>How a connection to a host may have come about.\<close>

definition rightful :: "net_lib \<Rightarrow> string \<Rightarrow> connected \<Rightarrow> bool" where
  "rightful N host c \<longleftrightarrow>
     (if dane_host N host
      then \<exists>client cert. c = ConnTls client \<and> cl_certificate client = Some cert \<and> pinned N host cert
      else (\<exists>client. c = ConnTls client \<and> nl_connect N host None = ConnClient client) \<or>
        (\<exists>client. c = ConnPlain client \<and> nl_connect N host None = MissingStartTls \<and> nl_connect_plain N host = Some client))"

text \<open>Trying one host: the connection, or whether DANE was required of it.\<close>

definition try_host :: "net_lib \<Rightarrow> string \<Rightarrow> connected option" where
  "try_host N host =
     (case resolve_tlsa (nl_resolver N) 25 host of
        Inl _ \<Rightarrow> None
      | Inr records \<Rightarrow>
          (case dane_new records of
             Some verifier \<Rightarrow>
               (case nl_connect N host (Some (verify_server_cert N verifier)) of ConnClient client \<Rightarrow> Some (ConnTls client) | _ \<Rightarrow> None)
           | None \<Rightarrow>
               (case nl_connect N host None of
                  ConnClient client \<Rightarrow> Some (ConnTls client)
                | MissingStartTls \<Rightarrow> map_option ConnPlain (nl_connect_plain N host)
                | ConnError _ \<Rightarrow> None)))"

fun first_host :: "net_lib \<Rightarrow> bool \<Rightarrow> string list \<Rightarrow> connect_outcome" where
  "first_host N d [] = ConnectFailed d"
| "first_host N d (h # hs) = (case try_host N h of Some c \<Rightarrow> Connected c | None \<Rightarrow> first_host N (d \<or> dane_host N h) hs)"

lemma connect_hosts_first: "connect_hosts N d mxs = first_host N d (tried N mxs)"
proof (induction mxs arbitrary: d)
  case (Cons mx mxs)
  let ?h = "trim_dots (mx_exchange mx)"
  show ?case
  proof (cases "?h \<noteq> [] \<and> nl_builder N ?h")
    case True
    then show ?thesis
      by (auto simp: tried_Cons try_host_def dane_host_def dane_new_None Let_def Cons.IH
          split: sum.splits option.splits connect_result.splits)
        (simp_all add: dane_new_def split: if_splits)
  next
    case False
    then show ?thesis by (auto simp: tried_Cons Cons.IH Let_def)
  qed
qed (simp add: tried_def)

lemma try_host_rightful:
  assumes "verifies N" and "try_host N host = Some c"
  shows "rightful N host c"
proof (cases "resolve_tlsa (nl_resolver N) 25 host")
  case (Inl e)
  with assms(2) show ?thesis by (simp add: try_host_def)
next
  case (Inr records)
  show ?thesis
  proof (cases "dane_new records")
    case None
    with Inr assms(2) show ?thesis
      by (auto simp: rightful_def dane_host_def dane_new_None try_host_def split: connect_result.splits)
  next
    case (Some v)
    then have d: "dane_host N host" using Inr by (auto simp: dane_host_def dane_new_def)
    obtain client where "nl_connect N host (Some (verify_server_cert N v)) = ConnClient client" "c = ConnTls client"
      using assms(2) Inr Some by (auto simp: try_host_def split: connect_result.splits)
    then obtain cert where "cl_certificate client = Some cert" "verify_server_cert N v cert = Inr ()"
      using assms(1) unfolding verifies_def by blast
    with verify_server_cert_pins [OF _ Some Inr] d \<open>c = ConnTls client\<close> show ?thesis by (auto simp: rightful_def)
  qed
qed

lemma first_host_cases:
  assumes "first_host N d hosts = out"
  shows "case out of
      Connected c \<Rightarrow> \<exists>before host after. hosts = before @ host # after \<and> try_host N host = Some c \<and>
        list_all (\<lambda>h. try_host N h = None) before
    | ConnectFailed e \<Rightarrow> list_all (\<lambda>h. try_host N h = None) hosts \<and> (e \<longleftrightarrow> d \<or> list_ex (dane_host N) hosts)"
  using assms
proof (induction hosts arbitrary: d)
  case (Cons h hs)
  show ?case
  proof (cases "try_host N h")
    case None
    with Cons.prems have "first_host N (d \<or> dane_host N h) hs = out" by simp
    from Cons.IH [OF this] None show ?thesis
    proof (cases out)
      case (Connected c)
      with Cons.IH [OF \<open>first_host N _ hs = out\<close>] obtain before host after where
        "hs = before @ host # after" "try_host N host = Some c" "list_all (\<lambda>h. try_host N h = None) before" by auto
      with None Connected show ?thesis
        by (simp add: Connected) (intro exI [of _ "h # before"] exI [of _ host] exI [of _ after]; simp)
    qed auto
  next
    case (Some c)
    with Cons.prems have "out = Connected c" by simp
    with Some show ?thesis by (simp) (intro exI [of _ "[]"] exI [of _ h] exI [of _ hs]; simp)
  qed
qed auto

text \<open>C11: Mail to a host that DANE protects is never downgraded. If the TLS library keeps its contract, a connection is
  made to the first host in the order of the MX records that can be reached rightfully. For a host with validated TLSA records
  that means TLS with a certificate whose public key one of them pins, and never plain text; a host whose records cannot be
  validated is not used at all. Only a host without records is reached by unauthenticated TLS, or in the clear when it does not
  offer TLS. When no host can be reached, the failure says whether DANE stood in the way of any.\<close>

theorem dane_no_downgrade:
  assumes "verifies N" and "connect_opportunistic N mxs = out"
  shows "case out of
      Connected c \<Rightarrow> \<exists>before host after. tried N mxs = before @ host # after \<and> rightful N host c \<and>
        list_all (\<lambda>h. try_host N h = None) before
    | ConnectFailed d \<Rightarrow> list_all (\<lambda>h. try_host N h = None) (tried N mxs) \<and> (d \<longleftrightarrow> list_ex (dane_host N) (tried N mxs))"
proof (cases out)
  case (Connected c)
  with assms(2) first_host_cases [of N False "tried N mxs" out] try_host_rightful [OF assms(1)] show ?thesis
    by (auto simp: connect_opportunistic_def connect_hosts_first)
next
  case (ConnectFailed d)
  with assms(2) first_host_cases [of N False "tried N mxs" out] show ?thesis
    by (simp add: connect_opportunistic_def connect_hosts_first)
qed

definition sample_spki :: "bytes \<Rightarrow> bytes option" where "sample_spki cert = Some cert"

definition sample_sha256 :: "bytes \<Rightarrow> bytes" where "sample_sha256 b = take 32 (b @ replicate 32 (CHR ''0''))"

definition sample_client :: smtp_client where
  "sample_client = \<lparr>cl_certificate = Some ''key'', cl_mail_from = (\<lambda>_. Inr ()), cl_rcpt_to = (\<lambda>_ _. Inr ()), cl_data = (\<lambda>_. Inr ())\<rparr>"

text \<open>A network with one host that pins the key of the certificate it presents, and one that pins another.\<close>

definition sample_net :: net_lib where
  "sample_net =
     \<lparr>nl_resolver = \<lparr>rs_lookup = (\<lambda>name ty. if name = ''_25._tcp.good.example.''
           then Inr [\<lparr>rec_proof = Secure, rec_data = TLSA 3 1 1 (sample_sha256 ''key'')\<rparr>]
           else if name = ''_25._tcp.bad.example.'' then Inr [\<lparr>rec_proof = Secure, rec_data = TLSA 3 1 1 (sample_sha256 ''other'')\<rparr>]
           else Inl NoRecordsFound), rs_error_text = (\<lambda>_. [])\<rparr>,
      nl_builder = (\<lambda>_. True),
      nl_connect = (\<lambda>_ v. case v of None \<Rightarrow> MissingStartTls
        | Some check \<Rightarrow> if check ''key'' = Inr () then ConnClient sample_client else ConnError ''handshake''),
      nl_connect_plain = (\<lambda>_. None), nl_spki = sample_spki, nl_sha256 = sample_sha256\<rparr>"

lemma sample_net_verifies: "verifies sample_net"
  by (auto simp: verifies_def sample_net_def sample_client_def split: if_splits)

theorem dane_no_downgrade_witness:
  "(\<exists>before host after. tried sample_net [\<lparr>mx_preference = 1, mx_exchange = ''bad.example.''\<rparr>, \<lparr>mx_preference = 2, mx_exchange = ''good.example.''\<rparr>] =
      before @ host # after \<and> rightful sample_net host (ConnTls sample_client) \<and> list_all (\<lambda>h. try_host sample_net h = None) before) \<and>
    dane_host sample_net ''good.example''"
proof -
  have tlsa: "resolve_tlsa (nl_resolver sample_net) 25 ''bad.example'' =
      Inr [\<lparr>cert_usage = 3, selector = 1, matching = 1, cert_data = sample_sha256 ''other''\<rparr>]"
    "resolve_tlsa (nl_resolver sample_net) 25 ''good.example'' =
      Inr [\<lparr>cert_usage = 3, selector = 1, matching = 1, cert_data = sample_sha256 ''key''\<rparr>]"
    by code_simp+
  have hosts: "trim_dots ''bad.example.'' = ''bad.example''" "trim_dots ''good.example.'' = ''good.example''" by code_simp+
  have hash: "sample_sha256 ''other'' \<noteq> sample_sha256 ''key''" "length (sample_sha256 ''key'') = 32" "length (sample_sha256 ''other'') = 32" by code_simp+
  have net: "nl_builder sample_net h" "nl_connect sample_net h (Some check) = (if check ''key'' = Inr () then ConnClient sample_client else ConnError ''handshake'')"
    "verify_server_cert sample_net v ''key'' = Inr () \<longleftrightarrow> sample_sha256 ''key'' \<in> set (expected_spki_sha256 v)" for h check v
    by (simp_all add: sample_net_def verify_server_cert_def sample_spki_def list_ex_iff)
  have run: "connect_opportunistic sample_net [\<lparr>mx_preference = 1, mx_exchange = ''bad.example.''\<rparr>, \<lparr>mx_preference = 2, mx_exchange = ''good.example.''\<rparr>] =
      Connected (ConnTls sample_client)"
    using hash by (simp add: connect_opportunistic_def hosts tlsa dane_new_def supported_tlsa_def USAGE_DANE_EE_def SELECTOR_SPKI_def
        MATCHING_SHA256_def Let_def net)
  have "dane_host sample_net ''good.example''" by (simp add: dane_host_def tlsa)
  with dane_no_downgrade [OF sample_net_verifies run] show ?thesis by simp
qed

section \<open>What the conversation yields\<close>

text \<open>The reply that decides about a recipient: the refusal of MAIL, of its RCPT, or the answer to DATA.\<close>

definition deciding_reply :: "smtp_client \<Rightarrow> string \<Rightarrow> bytes \<Rightarrow> nat \<times> string \<Rightarrow> send_error + unit" where
  "deciding_reply client sender raw p =
     (case cl_mail_from client sender of
        Inl e \<Rightarrow> Inl e
      | Inr _ \<Rightarrow> (case cl_rcpt_to client (fst p) (snd p) of Inl e \<Rightarrow> Inl e | Inr _ \<Rightarrow> cl_data client raw))"

lemma nth_fold_update:
  assumes "i < length xs"
  shows "fold (\<lambda>j os. os[j := v]) js xs ! i = (if i \<in> set js then v else xs ! i)"
  using assms by (induction js arbitrary: xs) (auto simp: nth_list_update)

lemma length_fold_update [simp]: "length (fold (\<lambda>j os. os[j := v]) js xs) = length xs"
  by (induction js arbitrary: xs) auto

lemma length_rcpt_replies [simp]: "length (rcpt_replies client addrs) = length addrs"
  by (simp add: rcpt_replies_def)

lemma nth_rcpt_replies: "i < length addrs \<Longrightarrow> rcpt_replies client addrs ! i = cl_rcpt_to client i (addrs ! i)"
  by (simp add: rcpt_replies_def nth_enumerate_eq)

lemma length_run_envelope [simp]: "length (run_envelope client sender addrs raw) = length addrs"
  by (simp add: run_envelope_def Let_def split: sum.splits)

text \<open>C16: The conversation settles every recipient by exactly one reply: when MAIL is refused, by that reply for all;
  otherwise by the answer to its own RCPT when that is a refusal, and by the answer to the one DATA when it is
  accepted. So recipients are settled independently, in order, and none is left without an outcome; a recipient counts
  as delivered only when its deciding reply is a success or carries a 2xx code.\<close>

theorem run_envelope_spec:
  "run_envelope client sender addrs raw =
     map (\<lambda>p. classify_send_result (deciding_reply client sender raw p)) (List.enumerate 0 addrs) \<and>
   (\<forall>i. i < length addrs \<longrightarrow> run_envelope client sender addrs raw ! i = OutDelivered \<longrightarrow>
      (case deciding_reply client sender raw (i, addrs ! i) of
         Inr _ \<Rightarrow> True
       | Inl (UnexpectedReply r) \<Rightarrow> rp_code r div 100 = 2
       | Inl (AuthenticationFailed r) \<Rightarrow> rp_code r div 100 = 2
       | Inl (OtherSendError e) \<Rightarrow> False))"
proof -
  have eq: "run_envelope client sender addrs raw =
     map (\<lambda>p. classify_send_result (deciding_reply client sender raw p)) (List.enumerate 0 addrs)"
  proof (cases "cl_mail_from client sender")
    case (Inl e)
    then show ?thesis by (simp add: run_envelope_def deciding_reply_def list_eq_iff_nth_eq)
  next
    case (Inr u)
    let ?rs = "rcpt_replies client addrs"
    let ?os = "map (\<lambda>r. case r of Inr _ \<Rightarrow> None | Inl e \<Rightarrow> Some (classify_send_result (Inl e))) ?rs"
    let ?acc = "filter (\<lambda>i. ?rs ! i = Inr ()) [0..<length ?rs]"
    let ?data = "Some (classify_send_result (cl_data client raw))"
    let ?settled = "if ?acc \<noteq> [] then fold (\<lambda>i os. os[i := ?data]) ?acc ?os else ?os"
    have settled: "?settled ! i = Some (classify_send_result (deciding_reply client sender raw (i, addrs ! i)))"
      if i: "i < length addrs" for i
    proof (cases "cl_rcpt_to client i (addrs ! i)")
      case (Inl e)
      then have "i \<notin> set ?acc" using i by (simp add: nth_rcpt_replies)
      then have "?settled ! i = ?os ! i" using i by (simp add: nth_fold_update)
      then show ?thesis using i Inl Inr by (simp add: nth_rcpt_replies deciding_reply_def)
    next
      case (Inr u')
      then have "i \<in> set ?acc" using i by (simp add: nth_rcpt_replies)
      moreover from this have "?acc \<noteq> []" by (metis list.set_cases neq_Nil_conv)
      ultimately have "?settled ! i = ?data" using i by (simp add: nth_fold_update)
      then show ?thesis using Inr \<open>cl_mail_from client sender = Inr u\<close> by (simp add: deciding_reply_def)
    qed
    have "run_envelope client sender addrs raw = map unwrap_outcome ?settled"
      using Inr by (simp add: run_envelope_def Let_def)
    moreover have "length ?settled = length addrs" by simp
    ultimately show ?thesis
      using settled by (intro nth_equalityI) (simp_all add: unwrap_outcome_def nth_enumerate_eq)
  qed
  have two: "classify_send_result x = OutDelivered \<Longrightarrow>
      (case x of Inr _ \<Rightarrow> True | Inl (UnexpectedReply r) \<Rightarrow> rp_code r div 100 = 2
       | Inl (AuthenticationFailed r) \<Rightarrow> rp_code r div 100 = 2 | Inl (OtherSendError e) \<Rightarrow> False)" for x
    by (cases x rule: classify_send_result.cases) (auto simp: classify_code_def split: if_splits)
  show ?thesis
  proof (intro conjI allI impI)
    fix i assume "i < length addrs" "run_envelope client sender addrs raw ! i = OutDelivered"
    then have "classify_send_result (deciding_reply client sender raw (i, addrs ! i)) = OutDelivered"
      by (simp add: eq nth_enumerate_eq)
    from two [OF this] show "case deciding_reply client sender raw (i, addrs ! i) of
         Inr _ \<Rightarrow> True | Inl (UnexpectedReply r) \<Rightarrow> rp_code r div 100 = 2
       | Inl (AuthenticationFailed r) \<Rightarrow> rp_code r div 100 = 2 | Inl (OtherSendError e) \<Rightarrow> False" .
  qed (rule eq)
qed

text \<open>A 250 where 354 was expected counts as a delivery.\<close>

theorem run_envelope_spec_witness:
  "run_envelope (sample_client\<lparr>cl_data := (\<lambda>_. Inl (UnexpectedReply \<lparr>rp_code = 250, rp_esc = (0, 0, 0), rp_message = ''queued''\<rparr>))\<rparr>)
     ''a@b.example'' [''c@d.example''] ''x'' = [OutDelivered]"
  using run_envelope_spec [of "sample_client\<lparr>cl_data := (\<lambda>_. Inl (UnexpectedReply \<lparr>rp_code = 250, rp_esc = (0, 0, 0), rp_message = ''queued''\<rparr>))\<rparr>"
      "''a@b.example''" "[''c@d.example'']" "''x''"]
  by (simp add: deciding_reply_def sample_client_def classify_code_def)

end
