(* ===== verification/Queue_Worker.thy ===== *)
theory Queue_Worker
  imports Dane_Connect Delivery Auth_Store Audit_Log Change_Notifier "HOL-Library.Multiset"
begin

text \<open>
  The outbound worker (\<open>queue/src/worker.rs\<close>) and the notifications it sends (\<open>queue/src/dsn.rs\<close>).

  \<open>worker_lib\<close> holds what the worker does not change. The clock, the jitter, the random values and the network are
  functions of a counter that every use advances (\<open>wk_tick\<close>); a hash map's iteration order, the order of rows
  with equal times and the order of \<open>RETURNING\<close> are functions too, about which only \<open>orders_ok\<close> is assumed. One
  turn of \<open>Worker::run\<close> is \<open>worker_pass\<close>. A panic ends the worker's task.
\<close>

section \<open>Delivery status notifications\<close>

datatype dsn_action = DsnFailed | DsnDelayed

fun action_as_str :: "dsn_action \<Rightarrow> string" where
  "action_as_str DsnFailed = ''failed''"
| "action_as_str DsnDelayed = ''delayed''"

record failed_recipient =
  fr_rcpt_to :: string
  fr_action :: dsn_action
  fr_status :: "string option"
  fr_diagnostic :: string

record dsn_input =
  di_reporting_mta :: string
  di_original_envelope_from :: string
  di_original_subject :: "string option"
  di_recipients :: "failed_recipient list"
  di_original_message :: "bytes option"

datatype mime_part = MimeText string string | MimeRaw bytes | MimeMulti string "mime_part list"

record mime_message =
  mm_from :: "string \<times> string"
  mm_to :: string
  mm_subject :: string
  mm_headers :: "(string \<times> string) list"
  mm_body :: mime_part

definition crlf :: string where "crlf = [CHR 0x0D, CHR 0x0A]"

definition human_line :: "failed_recipient \<Rightarrow> string" where
  "human_line r =
     (case fr_action r of
        DsnFailed \<Rightarrow> ''Delivery to the following recipient failed permanently:''
      | DsnDelayed \<Rightarrow> ''Delivery to the following recipient has been delayed:'') @
     crlf @ crlf @ ''  '' @ fr_rcpt_to r @ crlf @ crlf @ fr_diagnostic r @ crlf @ crlf"

definition status_fields :: "failed_recipient \<Rightarrow> string" where
  "status_fields r =
     ''Final-Recipient: rfc822;'' @ fr_rcpt_to r @ crlf @
     ''Action: '' @ action_as_str (fr_action r) @ crlf @
     (case fr_status r of Some s \<Rightarrow> ''Status: '' @ s @ crlf | None \<Rightarrow> []) @
     ''Diagnostic-Code: smtp;'' @ fr_diagnostic r @ crlf @ crlf"

definition dsn_message :: "dsn_input \<Rightarrow> mime_message" where
  "dsn_message inp =
     (let human_readable = ''This is an automatically generated Delivery Status Notification.'' @ crlf @ crlf @
            concat (map human_line (di_recipients inp));
          status = ''Reporting-MTA: dns;'' @ di_reporting_mta inp @ crlf @ crlf @
            concat (map status_fields (di_recipients inp));
          report_parts = [MimeText ''text/plain'' human_readable, MimeText ''message/delivery-status'' status] @
            (case di_original_message inp of Some original \<Rightarrow> [MimeRaw original] | None \<Rightarrow> [])
      in \<lparr>mm_from = (''Mail Delivery Subsystem'', ''mailer-daemon@'' @ di_reporting_mta inp),
          mm_to = di_original_envelope_from inp,
          mm_subject = (case di_recipients inp of
             r # _ \<Rightarrow> (case fr_action r of DsnDelayed \<Rightarrow> ''Delivery delayed''
                        | DsnFailed \<Rightarrow> ''Delivery Status Notification (Failure)'')
           | [] \<Rightarrow> ''Delivery Status Notification (Failure)''),
          mm_headers = [(''Auto-Submitted'', ''auto-replied'')],
          mm_body = MimeMulti ''multipart/report;report-type=delivery-status'' report_parts\<rparr>)"

definition build_dsn :: "(mime_message \<Rightarrow> string + bytes) \<Rightarrow> dsn_input \<Rightarrow> bytes result" where
  "build_dsn write_to_vec inp =
     (case write_to_vec (dsn_message inp) of
        Inl e \<Rightarrow> Inl (Storage (''failed to build DSN: '' @ e))
      | Inr b \<Rightarrow> Inr b)"

section \<open>Worker state\<close>

definition KEYWORD_SNOOZED :: string where "KEYWORD_SNOOZED = ''$snoozed''"

definition KEYWORD_NUDGE :: string where "KEYWORD_NUDGE = ''$nudge''"

definition BATCH_SIZE :: int where "BATCH_SIZE = 100"

definition LEASE_TTL_SECS :: int where "LEASE_TTL_SECS = 300"

definition COOLDOWN_SECS :: int where "COOLDOWN_SECS = 60"

definition WORKER_ID :: string where "WORKER_ID = ''worker-1''"

record claimed_rcpt =
  cr_id :: int
  cr_rcpt_to :: string
  cr_domain :: string
  cr_dsn_notify :: string
  cr_attempts :: int
  cr_delayed_dsn_sent :: bool

record worker_outbound =
  wo_id :: int
  wo_message_blob :: string
  wo_envelope_from :: string
  wo_is_dsn :: bool
  wo_created_at :: int
  wo_expires_at :: int
  wo_account_id :: int

type_synonym send_unit = "(int \<times> string) \<times> claimed_rcpt list"

record worker_lib =
  wl_mail :: mail_lib
  wl_hostname :: string
  wl_net :: "nat \<Rightarrow> net_lib"
  wl_unix :: "nat \<Rightarrow> int"
  wl_instant :: "nat \<Rightarrow> int"
  wl_jitter :: "nat \<Rightarrow> real"
  wl_seal_random :: "nat \<Rightarrow> seal_random"
  wl_log_random :: "nat \<Rightarrow> bytes"
  wl_write_mime :: "nat \<Rightarrow> mime_message \<Rightarrow> string + bytes"
  wl_due_order :: "nat \<Rightarrow> rcpt_row list \<Rightarrow> rcpt_row list"
  wl_returning :: "nat \<Rightarrow> rcpt_row list \<Rightarrow> rcpt_row list"
  wl_unit_order :: "nat \<Rightarrow> send_unit list \<Rightarrow> send_unit list"

record worker_state =
  wk_queue :: queue_db
  wk_mail :: mail_store
  wk_auth :: auth_db
  wk_audit :: audit_db
  wk_cooldowns :: "string \<rightharpoonup> int"
  wk_notifier :: change_notifier
  wk_tick :: nat

type_synonym 'a wproc = "worker_state \<Rightarrow> 'a pan \<times> worker_state"

definition w_bind :: "'a wproc \<Rightarrow> ('a \<Rightarrow> 'b wproc) \<Rightarrow> 'b wproc" where
  "w_bind m f w = (case m w of (Panicked, w') \<Rightarrow> (Panicked, w') | (Returned a, w') \<Rightarrow> f a w')"

definition tick :: "worker_state \<Rightarrow> worker_state" where
  "tick w = w\<lparr>wk_tick := Suc (wk_tick w)\<rparr>"

definition w_queue :: "(queue_db \<Rightarrow> 'a \<times> queue_db) \<Rightarrow> worker_state \<Rightarrow> 'a \<times> worker_state" where
  "w_queue = zoom wk_queue (\<lambda>d w. w\<lparr>wk_queue := d\<rparr>)"

definition w_meta :: "(meta \<Rightarrow> 'a \<times> meta) \<Rightarrow> worker_state \<Rightarrow> 'a \<times> worker_state" where
  "w_meta = zoom (\<lambda>w. ms_meta (wk_mail w)) (\<lambda>d w. w\<lparr>wk_mail := (wk_mail w)\<lparr>ms_meta := d\<rparr>\<rparr>)"

definition w_blobs :: "(blob_store \<Rightarrow> 'a \<times> blob_store) \<Rightarrow> worker_state \<Rightarrow> 'a \<times> worker_state" where
  "w_blobs = zoom (\<lambda>w. ms_blobs (wk_mail w)) (\<lambda>b w. w\<lparr>wk_mail := (wk_mail w)\<lparr>ms_blobs := b\<rparr>\<rparr>)"

text \<open>\<open>let _ = conn.execute(...)\<close> on the recipient rows.\<close>

definition set_rcpts :: "(queue_tables \<Rightarrow> rcpt_row \<Rightarrow> bool) \<Rightarrow> (rcpt_row \<Rightarrow> rcpt_row) \<Rightarrow> worker_state \<Rightarrow> worker_state" where
  "set_rcpts p f w =
     snd (w_queue (db_stmt (\<lambda>t. (Inr (), t\<lparr>outbound_rcpt := update_where (p t) f (outbound_rcpt t)\<rparr>))) w)"

section \<open>Claims, leases and expiry\<close>

definition reap_stale_claims :: "worker_lib \<Rightarrow> worker_state \<Rightarrow> worker_state" where
  "reap_stale_claims W w =
     (let now = wl_unix W (wk_tick w) in
      set_rcpts (\<lambda>_ r. rc_state r = ''claimed'' \<and>
          (case rc_claimed_at r of Some c \<Rightarrow> c < now - LEASE_TTL_SECS | None \<Rightarrow> False))
        (\<lambda>r. r\<lparr>rc_state := ''ready'', rc_claimed_by := None\<rparr>) (tick w))"

definition expire_overdue :: "worker_lib \<Rightarrow> worker_state \<Rightarrow> worker_state" where
  "expire_overdue W w =
     (let now = wl_unix W (wk_tick w) in
      set_rcpts (\<lambda>t r. rc_state r \<in> {''ready'', ''deferred''} \<and>
          (\<exists>m \<in> set (outbound t). ob_id m = rc_outbound_id r \<and> ob_expires_at m < now))
        (\<lambda>r. r\<lparr>rc_state := ''expired''\<rparr>) (tick w))"

definition claim_due :: "worker_lib \<Rightarrow> nat \<Rightarrow> int \<Rightarrow> int \<Rightarrow> queue_tables \<Rightarrow> rcpt_row list" where
  "claim_due W n now limit t = sql_limit limit (wl_due_order W n
     (filter (\<lambda>r. rc_state r \<in> {''ready'', ''deferred''} \<and> rc_next_attempt_at r \<le> now) (outbound_rcpt t)))"

definition claim_rows :: "worker_lib \<Rightarrow> nat \<Rightarrow> int \<Rightarrow> int \<Rightarrow> queue_tables \<Rightarrow> rcpt_row list result \<times> queue_tables" where
  "claim_rows W n now limit t =
     (let ids = map rc_id (claim_due W n now limit t);
          rows = update_where (\<lambda>r. rc_id r \<in> set ids)
            (\<lambda>r. r\<lparr>rc_state := ''claimed'', rc_claimed_by := Some WORKER_ID, rc_claimed_at := Some now\<rparr>) (outbound_rcpt t)
      in (Inr (wl_returning W n (filter (\<lambda>r. rc_id r \<in> set ids) rows)), t\<lparr>outbound_rcpt := rows\<rparr>))"

definition row_to_claimed :: "rcpt_row \<Rightarrow> int \<times> claimed_rcpt" where
  "row_to_claimed r = (rc_outbound_id r,
     \<lparr>cr_id = rc_id r, cr_rcpt_to = rc_rcpt_to r, cr_domain = rc_domain r, cr_dsn_notify = rc_dsn_notify r,
      cr_attempts = rc_attempts r, cr_delayed_dsn_sent = (rc_delayed_dsn_sent r \<noteq> 0)\<rparr>)"

text \<open>A statement that cannot be prepared panics; one that fails when it runs yields no rows.\<close>

definition claim_batch :: "worker_lib \<Rightarrow> int \<Rightarrow> int \<Rightarrow> (int \<times> claimed_rcpt) list wproc" where
  "claim_batch W now limit w =
     (case w_queue (db_query (\<lambda>_. ())) w of
        (Inl _, w1) \<Rightarrow> (Panicked, w1)
      | (Inr _, w1) \<Rightarrow>
          (case w_queue (db_stmt (claim_rows W (wk_tick w1) now limit)) w1 of
             (Inl _, w2) \<Rightarrow> (Returned [], tick w2)
           | (Inr rows, w2) \<Rightarrow> (Returned (map row_to_claimed rows), tick w2)))"

section \<open>Scheduled events\<close>

definition scheduled_message_row_id :: "event_row \<Rightarrow> int option" where
  "scheduled_message_row_id ev =
     Option.bind (Option.bind (se_payload ev) (strip_prefix ''m'')) parse_i64"

definition mark_fired :: "event_row \<Rightarrow> worker_state \<Rightarrow> worker_state" where
  "mark_fired ev w = snd (w_queue (mark_event_fired (se_id ev)) w)"

definition wnotify :: "int \<Rightarrow> worker_state \<Rightarrow> worker_state" where
  "wnotify a w = w\<lparr>wk_notifier := notify a (wk_notifier w)\<rparr>"

definition fire_snooze_resurface :: "event_row \<Rightarrow> worker_state \<Rightarrow> worker_state" where
  "fire_snooze_resurface ev w =
     (case scheduled_message_row_id ev of
        None \<Rightarrow> mark_fired ev w
      | Some row_id \<Rightarrow>
          (case w_meta (get_message row_id) w of
             (Inr (Some msg), w1) \<Rightarrow>
               (let kept = filter (\<lambda>k. k \<noteq> [] \<and> k \<noteq> KEYWORD_SNOOZED) (split_on (CHR '','') (msg_keywords msg));
                    w2 = snd (w_meta (update_message row_id None (Some (join '','' kept))) w1)
                in mark_fired ev (wnotify (se_account_id ev) w2))
           | (_, w1) \<Rightarrow> mark_fired ev w1))"

definition is_reply :: "int \<Rightarrow> mailbox option \<Rightarrow> mailbox option \<Rightarrow> stored_message \<Rightarrow> bool" where
  "is_reply row_id sent_mb drafts m \<longleftrightarrow> msg_id m \<noteq> row_id \<and>
     (case sent_mb of None \<Rightarrow> True | Some mb \<Rightarrow> mailbox_id m \<noteq> mb_id mb) \<and>
     (case drafts of None \<Rightarrow> True | Some mb \<Rightarrow> mailbox_id m \<noteq> mb_id mb)"

definition nudge_keywords :: "string \<Rightarrow> string" where
  "nudge_keywords kws = join '','' (filter (\<lambda>k. k \<noteq> []) (split_on (CHR '','') kws) @ [KEYWORD_NUDGE])"

definition fire_followup_nudge :: "event_row \<Rightarrow> worker_state \<Rightarrow> worker_state" where
  "fire_followup_nudge ev w =
     (case Option.bind (se_thread_id ev) parse_i64 of
        None \<Rightarrow> mark_fired ev w
      | Some th \<Rightarrow>
          (case scheduled_message_row_id ev of
             None \<Rightarrow> mark_fired ev w
           | Some row_id \<Rightarrow>
               (case w_meta (get_message row_id) w of
                  (Inr (Some msg), w1) \<Rightarrow>
                    (let (s, w2) = w_meta (ensure_mailbox (se_account_id ev) ''sent'') w1;
                         (d, w3) = w_meta (ensure_mailbox (se_account_id ev) ''drafts'') w2;
                         (ms, w4) = w_meta (messages_in_thread (se_account_id ev) th) w3;
                         replied = list_ex (is_reply row_id (ok s) (ok d)) (case ms of Inr l \<Rightarrow> l | Inl _ \<Rightarrow> [])
                     in if replied then snd (w_queue (mark_event_cancelled (se_id ev)) w4)
                        else
                          let w5 = (if KEYWORD_NUDGE \<in> set (split_on (CHR '','') (msg_keywords msg)) then w4
                                    else snd (w_meta (update_message row_id None (Some (nudge_keywords (msg_keywords msg)))) w4))
                          in mark_fired ev (wnotify (se_account_id ev) w5))
                | (_, w1) \<Rightarrow> mark_fired ev w1)))"

definition fire_event :: "event_row \<Rightarrow> worker_state \<Rightarrow> worker_state" where
  "fire_event ev =
     (case kind_from_db_str (se_kind ev) of
        Some SnoozeResurface \<Rightarrow> fire_snooze_resurface ev
      | Some FollowupNudge \<Rightarrow> fire_followup_nudge ev
      | _ \<Rightarrow> mark_fired ev)"

definition fire_due_scheduled_events :: "worker_lib \<Rightarrow> worker_state \<Rightarrow> worker_state" where
  "fire_due_scheduled_events W w =
     (case w_queue (due_scheduled_events (wl_unix W (wk_tick w))) (tick w) of
        (Inl _, w1) \<Rightarrow> w1
      | (Inr due, w1) \<Rightarrow> fold fire_event due w1)"

section \<open>Settling a recipient\<close>

definition release_to_ready :: "claimed_rcpt list \<Rightarrow> worker_state \<Rightarrow> worker_state" where
  "release_to_ready rcpts =
     fold (\<lambda>rcpt. set_rcpts (\<lambda>_ r. rc_id r = cr_id rcpt) (\<lambda>r. r\<lparr>rc_state := ''ready'', rc_claimed_by := None\<rparr>)) rcpts"

definition is_cooling_down :: "worker_lib \<Rightarrow> string \<Rightarrow> worker_state \<Rightarrow> bool" where
  "is_cooling_down W domain w =
     (case wk_cooldowns w domain of None \<Rightarrow> False | Some until \<Rightarrow> wl_instant W (wk_tick w) < until)"

definition set_cooldown :: "worker_lib \<Rightarrow> string \<Rightarrow> worker_state \<Rightarrow> worker_state" where
  "set_cooldown W domain w =
     tick (w\<lparr>wk_cooldowns := (wk_cooldowns w)(domain \<mapsto> wl_instant W (wk_tick w) + COOLDOWN_SECS)\<rparr>)"

definition load_outbound :: "int \<Rightarrow> worker_state \<Rightarrow> worker_outbound option \<times> worker_state" where
  "load_outbound outbound_id w =
     (let (r, w') = w_queue (db_query (\<lambda>t. tbl_get ob_id outbound_id (outbound t))) w in
      (map_option (\<lambda>m. \<lparr>wo_id = outbound_id, wo_message_blob = ob_message_blob m, wo_envelope_from = ob_envelope_from m,
          wo_is_dsn = (ob_is_dsn m \<noteq> 0), wo_created_at = ob_created_at m, wo_expires_at = ob_expires_at m,
          wo_account_id = ob_account_id m\<rparr>) (Option.bind (ok r) (\<lambda>x. x)), w'))"

definition mark_delayed_dsn_sent :: "int \<Rightarrow> worker_state \<Rightarrow> worker_state" where
  "mark_delayed_dsn_sent rcpt_id = set_rcpts (\<lambda>_ r. rc_id r = rcpt_id) (\<lambda>r. r\<lparr>rc_delayed_dsn_sent := 1\<rparr>)"

definition active_reference :: "string \<Rightarrow> queue_tables \<Rightarrow> bool" where
  "active_reference blob t \<longleftrightarrow>
     [(r, m). r \<leftarrow> outbound_rcpt t, m \<leftarrow> outbound t, ob_id m = rc_outbound_id r \<and> ob_message_blob m = blob \<and>
        rc_state r \<notin> {''delivered'', ''failed'', ''expired''}] \<noteq> []"

definition cleanup_terminal_message :: "worker_outbound \<Rightarrow> worker_state \<Rightarrow> worker_state" where
  "cleanup_terminal_message out w =
     (case w_queue (db_query (\<lambda>t. \<not> active_reference (wo_message_blob out) t)) w of
        (Inr True, w1) \<Rightarrow> snd (w_blobs (blob_remove (wo_message_blob out)) w1)
      | (_, w1) \<Rightarrow> w1)"

definition w_audit :: "worker_lib \<Rightarrow> string \<Rightarrow> string \<Rightarrow> unit wproc" where
  "w_audit W action detail w =
     (case log_entry (ml_crypto (wl_mail W)) (wl_log_random W (wk_tick w)) (wl_unix W (wk_tick w)) action detail (wk_audit w) of
        (Panicked, d) \<Rightarrow> (Panicked, tick (w\<lparr>wk_audit := d\<rparr>))
      | (Returned _, d) \<Rightarrow> (Returned (), tick (w\<lparr>wk_audit := d\<rparr>)))"

definition dsn_for :: "worker_lib \<Rightarrow> claimed_rcpt \<Rightarrow> worker_outbound \<Rightarrow> dsn_action \<Rightarrow> nat option \<Rightarrow> string option \<Rightarrow> string \<Rightarrow> dsn_input" where
  "dsn_for W rcpt out action code status detail =
     (let status_string = (case status of Some s \<Rightarrow> s | None \<Rightarrow> (case code of Some c \<Rightarrow> show_nat c | None \<Rightarrow> []));
          diagnostic = (if detail = [] then ''delivery failed'' else detail)
      in \<lparr>di_reporting_mta = wl_hostname W, di_original_envelope_from = wo_envelope_from out, di_original_subject = None,
          di_recipients = [\<lparr>fr_rcpt_to = cr_rcpt_to rcpt, fr_action = action,
            fr_status = (if status_string \<noteq> [] then Some status_string else None), fr_diagnostic = diagnostic\<rparr>],
          di_original_message = None\<rparr>)"

definition deliver_dsn :: "worker_lib \<Rightarrow> worker_outbound \<Rightarrow> account \<Rightarrow> bytes \<Rightarrow> unit wproc" where
  "deliver_dsn W out a dsn_bytes w =
     (case deliver (wl_mail W) (wl_seal_random W (wk_tick w))
         \<lparr>ra_id = acc_id a, ra_account_pub = acc_pub a, ra_key_id = acc_key_id a\<rparr>
         \<lparr>env_mail_from = [], env_rcpt_to = wo_envelope_from out, env_remote_ip = ''127.0.0.1''\<rparr>
         \<lparr>ar_spf = ''n/a'', ar_dkim = ''n/a'', ar_dmarc = ''n/a''\<rparr> dsn_bytes (wl_unix W (wk_tick w)) None
         \<lparr>sm_spam_score = None, sm_av_clean = None\<rparr> (wk_mail w) of
        (Panicked, s) \<Rightarrow> (Panicked, tick (w\<lparr>wk_mail := s\<rparr>))
      | (Returned (Inl _), s) \<Rightarrow> (Returned (), tick (w\<lparr>wk_mail := s\<rparr>))
      | (Returned (Inr _), s) \<Rightarrow> (Returned (), wnotify (acc_id a) (tick (w\<lparr>wk_mail := s\<rparr>))))"

definition maybe_send_dsn ::
    "worker_lib \<Rightarrow> claimed_rcpt \<Rightarrow> worker_outbound \<Rightarrow> dsn_action \<Rightarrow> nat option \<Rightarrow> string option \<Rightarrow> string \<Rightarrow> unit wproc" where
  "maybe_send_dsn W rcpt out action code status detail w =
     (if wo_envelope_from out = [] \<or> wo_is_dsn out \<or> cr_dsn_notify rcpt = ''NEVER'' then (Returned (), w)
      else case build_dsn (wl_write_mime W (wk_tick w)) (dsn_for W rcpt out action code status detail) of
             Inl _ \<Rightarrow> (Returned (), tick w)
           | Inr dsn_bytes \<Rightarrow>
               (case find_by_id (wo_account_id out) (wk_auth w) of
                  (Panicked, d) \<Rightarrow> (Panicked, tick (w\<lparr>wk_auth := d\<rparr>))
                | (Returned (Inr (Some a)), d) \<Rightarrow> deliver_dsn W out a dsn_bytes (tick (w\<lparr>wk_auth := d\<rparr>))
                | (Returned _, d) \<Rightarrow> (Returned (), tick (w\<lparr>wk_auth := d\<rparr>))))"

text \<open>The new state of the row: state, next attempt, code, status and detail.\<close>

definition settle :: "real \<Rightarrow> int \<Rightarrow> claimed_rcpt \<Rightarrow> worker_outbound \<Rightarrow> outcome \<Rightarrow>
    rcpt_state \<times> int \<times> nat option \<times> string option \<times> string" where
  "settle jitter now rcpt out result =
     (case result of
        OutDelivered \<Rightarrow> (Delivered, now, None, None, [])
      | Permanent code status detail \<Rightarrow> (Failed, now, code, status, detail)
      | Transient code status detail \<Rightarrow>
          if wo_expires_at out \<le> now then (Expired, now, code, status, detail)
          else (Deferred, now + next_delay_secs jitter (cr_attempts rcpt + 1), code, status, detail))"

definition settle_row :: "rcpt_state \<Rightarrow> int \<Rightarrow> nat option \<Rightarrow> string option \<Rightarrow> string \<Rightarrow> outcome \<Rightarrow> rcpt_row \<Rightarrow> rcpt_row" where
  "settle_row st next_at code status detail result r =
     r\<lparr>rc_state := as_str st, rc_next_attempt_at := next_at, rc_claimed_by := None,
       rc_attempts := rc_attempts r + (if result = OutDelivered then 0 else 1),
       rc_last_code := map_option int code, rc_last_status := status, rc_last_detail := Some detail\<rparr>"

definition terminal_action :: "rcpt_state \<Rightarrow> string" where
  "terminal_action st =
     (if st = Delivered then ''queue.delivered'' else if st = Failed then ''queue.failed'' else ''queue.expired'')"

definition report :: "worker_lib \<Rightarrow> claimed_rcpt \<Rightarrow> worker_outbound \<Rightarrow> int \<Rightarrow>
    rcpt_state \<Rightarrow> nat option \<Rightarrow> string option \<Rightarrow> string \<Rightarrow> unit wproc" where
  "report W rcpt out now st code status detail w =
     (if is_terminal st \<and> st \<noteq> Delivered then maybe_send_dsn W rcpt out DsnFailed code status detail w
      else if st = Deferred \<and> \<not> cr_delayed_dsn_sent rcpt \<and> contains_sub ''DELAY'' (cr_dsn_notify rcpt) \<and>
              DELAYED_DSN_THRESHOLD_SECS \<le> now - wo_created_at out
      then maybe_send_dsn W rcpt out DsnDelayed code status detail (mark_delayed_dsn_sent (cr_id rcpt) w)
      else (Returned (), w))"

definition finalize :: "worker_lib \<Rightarrow> claimed_rcpt \<Rightarrow> worker_outbound \<Rightarrow> outcome \<Rightarrow> unit wproc" where
  "finalize W rcpt out result w =
     (let now = wl_unix W (wk_tick w);
          (st, next_at, code, status, detail) = settle (wl_jitter W (wk_tick w)) now rcpt out result;
          w1 = set_rcpts (\<lambda>_ r. rc_id r = cr_id rcpt) (settle_row st next_at code status detail result) (tick w)
      in
      w_bind (if is_terminal st then w_audit W (terminal_action st) (cr_rcpt_to rcpt) else (\<lambda>w. (Returned (), w))) (\<lambda>_.
      w_bind (report W rcpt out now st code status detail) (\<lambda>_ w.
        (Returned (), cleanup_terminal_message out w))) w1)"

section \<open>Sending\<close>

fun finalize_all :: "worker_lib \<Rightarrow> worker_outbound \<Rightarrow> (claimed_rcpt \<times> outcome) list \<Rightarrow> unit wproc" where
  "finalize_all W out [] w = (Returned (), w)"
| "finalize_all W out ((rcpt, result) # rest) w =
     w_bind (finalize W rcpt out result) (\<lambda>_. finalize_all W out rest) w"

definition same_for_all :: "outcome \<Rightarrow> claimed_rcpt list \<Rightarrow> (claimed_rcpt \<times> outcome) list" where
  "same_for_all result rcpts = map (\<lambda>r. (r, result)) rcpts"

fun client_of :: "connected \<Rightarrow> smtp_client" where
  "client_of (ConnTls c) = c"
| "client_of (ConnPlain c) = c"

definition send_raw :: "worker_lib \<Rightarrow> worker_outbound \<Rightarrow> string \<Rightarrow> claimed_rcpt list \<Rightarrow> bytes \<Rightarrow> unit wproc" where
  "send_raw W out domain rcpts raw w =
     (let N = wl_net W (wk_tick w); w1 = tick w in
      case resolve_mx (nl_resolver N) domain of
        Inl e \<Rightarrow> finalize_all W out (same_for_all (classify_connect_failure (error_to_string e) False) rcpts) w1
      | Inr mx_records \<Rightarrow>
          if length mx_records = 1 \<and> mx_exchange (mx_records ! 0) = ''.''
          then finalize_all W out (same_for_all (classify_connect_failure
                 ''domain publishes a null MX (RFC 7505): does not accept mail'' True) rcpts) w1
          else case connect_opportunistic N mx_records of
                 ConnectFailed dane_required \<Rightarrow>
                   finalize_all W out (same_for_all
                     (if dane_required
                      then classify_dane_failure
                        ''no certificate offered by any MX host matched its DNSSEC-validated TLSA record''
                      else classify_connect_failure ''could not connect to any MX host'' False) rcpts)
                     (set_cooldown W domain w1)
               | Connected c \<Rightarrow>
                   finalize_all W out
                     (zip rcpts (run_envelope (client_of c) (wo_envelope_from out) (map cr_rcpt_to rcpts) raw)) w1)"

definition send_unit :: "worker_lib \<Rightarrow> int \<Rightarrow> string \<Rightarrow> claimed_rcpt list \<Rightarrow> unit wproc" where
  "send_unit W outbound_id domain rcpts w =
     (case load_outbound outbound_id w of
        (None, w1) \<Rightarrow> (Returned (), w1)
      | (Some out, w1) \<Rightarrow>
          (case w_blobs (blob_read (ml_sha256_hex (wl_mail W)) (wo_message_blob out)) w1 of
             (Inl _, w2) \<Rightarrow> finalize_all W out (same_for_all (Transient None None ''local storage error'') rcpts) w2
           | (Inr raw, w2) \<Rightarrow> send_raw W out domain rcpts raw w2))"

section \<open>The loop\<close>

fun push_unit :: "int \<times> claimed_rcpt \<Rightarrow> send_unit list \<Rightarrow> send_unit list" where
  "push_unit (i, rcpt) [] = [((i, cr_domain rcpt), [rcpt])]"
| "push_unit (i, rcpt) ((key, rcpts) # rest) =
     (if key = (i, cr_domain rcpt) then (key, rcpts @ [rcpt]) # rest else (key, rcpts) # push_unit (i, rcpt) rest)"

definition group_units :: "(int \<times> claimed_rcpt) list \<Rightarrow> send_unit list" where
  "group_units claimed = fold push_unit claimed []"

fun run_units :: "worker_lib \<Rightarrow> send_unit list \<Rightarrow> unit wproc" where
  "run_units W [] w = (Returned (), w)"
| "run_units W (((outbound_id, domain), rcpts) # rest) w =
     (if is_cooling_down W domain w then run_units W rest (release_to_ready rcpts (tick w))
      else w_bind (send_unit W outbound_id domain rcpts) (\<lambda>_. run_units W rest) (tick w))"

text \<open>One turn of \<open>Worker::run\<close>; the result says whether it sleeps.\<close>

definition worker_pass :: "worker_lib \<Rightarrow> bool wproc" where
  "worker_pass W w =
     (let w1 = fire_due_scheduled_events W (expire_overdue W (reap_stale_claims W w)) in
      w_bind (claim_batch W (wl_unix W (wk_tick w1)) BATCH_SIZE) (\<lambda>claimed w2.
        if claimed = [] then (Returned True, w2)
        else w_bind (run_units W (wl_unit_order W (wk_tick w2) (group_units claimed))) (\<lambda>_ w. (Returned False, w)) w2)
        (tick w1))"

section \<open>How rows change\<close>

abbreviation qt :: "worker_state \<Rightarrow> queue_tables" where "qt w \<equiv> tables (wk_queue w)"

abbreviation held_blobs :: "worker_state \<Rightarrow> string \<rightharpoonup> bytes" where "held_blobs w \<equiv> contents (ms_blobs (wk_mail w))"

definition active :: "rcpt_row \<Rightarrow> bool" where
  "active r \<longleftrightarrow> rc_state r \<notin> {''delivered'', ''failed'', ''expired''}"

definition active_ids :: "queue_tables \<Rightarrow> int set" where
  "active_ids t = {rc_id r |r. r \<in> set (outbound_rcpt t) \<and> active r}"

definition legal_state :: "rcpt_row \<Rightarrow> bool" where
  "legal_state r \<longleftrightarrow> rc_state r = as_str (from_db_str (rc_state r))"

text \<open>A row keeps its identity, and its count of attempts never falls.\<close>

definition row_step :: "rcpt_row \<Rightarrow> rcpt_row \<Rightarrow> bool" where
  "row_step r r' \<longleftrightarrow> rc_id r' = rc_id r \<and> rc_outbound_id r' = rc_outbound_id r \<and> rc_rcpt_to r' = rc_rcpt_to r \<and>
     rc_domain r' = rc_domain r \<and> rc_dsn_notify r' = rc_dsn_notify r \<and> rc_attempts r \<le> rc_attempts r' \<and>
     (legal_state r \<longrightarrow> legal_state r')"

text \<open>Only the rows with ids in \<open>I\<close> changed; no row came or went.\<close>

definition moved :: "int set \<Rightarrow> queue_tables \<Rightarrow> queue_tables \<Rightarrow> bool" where
  "moved I t t' \<longleftrightarrow> outbound t' = outbound t \<and> dkim_keys t' = dkim_keys t \<and>
     map se_id (scheduled_events t') = map se_id (scheduled_events t) \<and>
     list_all2 (\<lambda>r r'. row_step r r' \<and> (rc_id r \<notin> I \<longrightarrow> r' = r)) (outbound_rcpt t) (outbound_rcpt t')"

lemma row_step_refl [simp]: "row_step r r"
  by (simp add: row_step_def)

lemma row_step_trans: "row_step a b \<Longrightarrow> row_step b c \<Longrightarrow> row_step a c"
  by (auto simp: row_step_def)

lemma moved_refl [simp]: "moved I t t"
  by (simp add: moved_def list_all2_same)

lemma moved_mono: "moved I t t' \<Longrightarrow> I \<subseteq> J \<Longrightarrow> moved J t t'"
  by (auto simp: moved_def elim: list_all2_mono)

lemma moved_trans:
  assumes "moved I t u" and "moved I u v"
  shows "moved I t v"
proof -
  have "list_all2 (\<lambda>r r'. row_step r r' \<and> (rc_id r \<notin> I \<longrightarrow> r' = r)) (outbound_rcpt t) (outbound_rcpt v)"
    by (rule list_all2_trans [OF _ assms(1) [unfolded moved_def, THEN conjunct2, THEN conjunct2, THEN conjunct2]
          assms(2) [unfolded moved_def, THEN conjunct2, THEN conjunct2, THEN conjunct2]])
      (auto simp: row_step_def)
  with assms show ?thesis by (simp add: moved_def)
qed

lemma moved_row:
  assumes "moved I t t'" and "r' \<in> set (outbound_rcpt t')"
  obtains r where "r \<in> set (outbound_rcpt t)" "row_step r r'" "rc_id r \<notin> I \<Longrightarrow> r' = r"
proof -
  obtain i where "i < length (outbound_rcpt t')" "r' = outbound_rcpt t' ! i" using assms(2) by (auto simp: in_set_conv_nth)
  with assms(1) show thesis by (intro that [of "outbound_rcpt t ! i"]) (auto simp: moved_def list_all2_conv_all_nth)
qed

lemma moved_row_back:
  assumes "moved I t t'" and "r \<in> set (outbound_rcpt t)"
  obtains r' where "r' \<in> set (outbound_rcpt t')" "row_step r r'" "rc_id r \<notin> I \<Longrightarrow> r' = r"
proof -
  obtain i where "i < length (outbound_rcpt t)" "r = outbound_rcpt t ! i" using assms(2) by (auto simp: in_set_conv_nth)
  with assms(1) show thesis by (intro that [of "outbound_rcpt t' ! i"]) (auto simp: moved_def list_all2_conv_all_nth)
qed

lemma moved_ids: "moved I t t' \<Longrightarrow> map rc_id (outbound_rcpt t') = map rc_id (outbound_rcpt t)"
  unfolding moved_def by (auto simp: list_all2_conv_all_nth row_step_def intro!: nth_equalityI)

lemma moved_queue_ok:
  assumes m: "moved I t t'" and q: "queue_ok t"
  shows "queue_ok t'"
proof -
  have "rc_outbound_id r' \<in> ob_id ` set (outbound t) \<and> legal_state r' \<and> 0 \<le> rc_attempts r'" if "r' \<in> set (outbound_rcpt t')" for r'
  proof -
    obtain r where "r \<in> set (outbound_rcpt t)" "row_step r r'" using m \<open>r' \<in> set (outbound_rcpt t')\<close> by (rule moved_row)
    with q show ?thesis by (auto simp: queue_ok_def list_all_iff row_step_def legal_state_def)
  qed
  with m q moved_ids [OF m] show ?thesis by (auto simp: queue_ok_def list_all_iff moved_def legal_state_def)
qed

lemma moved_rate_ok:
  assumes "moved I t t'" and "rate_ok t"
  shows "rate_ok t'"
proof -
  have "length (filter P (outbound_rcpt t')) = length (filter P (outbound_rcpt t))"
    if "\<And>r r'. row_step r r' \<Longrightarrow> P r' = P r" for P
  proof -
    have "list_all2 row_step (outbound_rcpt t) (outbound_rcpt t')"
      using assms(1) by (auto simp: moved_def elim: list_all2_mono)
    then show ?thesis by (induction rule: list_all2_induct) (simp_all add: that)
  qed
  then have "length (sent_to a T t') = length (sent_to a T t)" for a T
    using assms(1) by (simp add: sent_to_def moved_def row_step_def)
  with assms show ?thesis by (simp add: rate_ok_def moved_def)
qed

text \<open>When only active rows move, no settled row becomes active.\<close>

lemma moved_active_ids:
  assumes "moved I t t'" and "I \<subseteq> active_ids t"
  shows "active_ids t' \<subseteq> active_ids t"
proof
  fix i assume "i \<in> active_ids t'"
  then obtain r' where r': "r' \<in> set (outbound_rcpt t')" "active r'" "i = rc_id r'" by (auto simp: active_ids_def)
  obtain r where r: "r \<in> set (outbound_rcpt t)" "row_step r r'" "rc_id r \<notin> I \<Longrightarrow> r' = r"
    using assms(1) r'(1) by (rule moved_row) blast
  show "i \<in> active_ids t"
  proof (cases "rc_id r \<in> I")
    case True
    with assms(2) r(2) r'(3) show ?thesis by (auto simp: row_step_def)
  next
    case False
    with r r' show ?thesis by (auto simp: active_ids_def)
  qed
qed

lemma moved_active_trans:
  assumes "moved (active_ids t) t u" and "moved I u v" and "I \<subseteq> active_ids u"
  shows "moved (active_ids t) t v"
proof -
  have "active_ids u \<subseteq> active_ids t" by (rule moved_active_ids [OF assms(1)]) simp
  with assms show ?thesis by (meson moved_mono moved_trans subset_trans)
qed

section \<open>The invariant of the worker\<close>

text \<open>The least age of a message whose recipient is due for the attempt after \<open>n\<close> failures.\<close>

fun min_age :: "nat \<Rightarrow> int" where
  "min_age 0 = 0"
| "min_age (Suc n) = min_age n + base_minutes (int (Suc n)) * 51"

definition MAX_ATTEMPTS :: int where "MAX_ATTEMPTS = 24"

definition tries_row :: "outbound_row \<Rightarrow> rcpt_row \<Rightarrow> bool" where
  "tries_row m r \<longleftrightarrow>
     (if active r
      then ob_created_at m + min_age (nat (rc_attempts r)) \<le> rc_next_attempt_at r \<and>
        (rc_attempts r = 0 \<or> min_age (nat (rc_attempts r - 1)) < MAX_LIFETIME_SECS)
      else rc_attempts r \<le> MAX_ATTEMPTS)"

definition held_row :: "(string \<rightharpoonup> bytes) \<Rightarrow> outbound_row \<Rightarrow> rcpt_row \<Rightarrow> bool" where
  "held_row c m r \<longleftrightarrow> (active r \<longrightarrow> c (ob_message_blob m) \<noteq> None)"

definition each_row :: "(outbound_row \<Rightarrow> rcpt_row \<Rightarrow> bool) \<Rightarrow> queue_tables \<Rightarrow> bool" where
  "each_row P t \<longleftrightarrow> (\<forall>r \<in> set (outbound_rcpt t). \<forall>m \<in> set (outbound t). ob_id m = rc_outbound_id r \<longrightarrow> P m r)"

definition worker_ok :: "worker_lib \<Rightarrow> worker_state \<Rightarrow> bool" where
  "worker_ok W w \<longleftrightarrow> mail_ok (ml_sha256_hex (wl_mail W)) (wk_mail w) \<and> queue_ok (qt w) \<and>
     each_row tries_row (qt w) \<and> each_row (held_row (held_blobs w)) (qt w)"

lemma min_age_mono: "m \<le> n \<Longrightarrow> min_age m \<le> min_age n"
proof (induction n)
  case (Suc n)
  have "0 \<le> base_minutes (int (Suc n))" using base_minutes_values [of "int (Suc n)"] by auto
  with Suc show ?case by (cases "m = Suc n") auto
qed simp

lemma min_age_23: "MAX_LIFETIME_SECS \<le> min_age 23"
proof -
  have "min_age 23 = (\<Sum>i\<leftarrow>[1..<24]. base_minutes (int i) * 51)"
    by (simp add: eval_nat_numeral upt_rec)
  also have "\<dots> = 440130" by code_simp
  finally show ?thesis by (simp add: MAX_LIFETIME_SECS_def)
qed

lemma tries_row_bound:
  assumes "tries_row m r" and "active r" and "0 \<le> rc_attempts r"
  shows "rc_attempts r < MAX_ATTEMPTS"
proof (rule ccontr)
  assume "\<not> rc_attempts r < MAX_ATTEMPTS"
  then have "23 \<le> nat (rc_attempts r - 1)" "rc_attempts r \<noteq> 0" by (simp_all add: MAX_ATTEMPTS_def)
  then have "MAX_LIFETIME_SECS \<le> min_age (nat (rc_attempts r - 1))" using min_age_23 min_age_mono order_trans by blast
  with assms \<open>rc_attempts r \<noteq> 0\<close> show False by (simp add: tries_row_def)
qed

text \<open>Steps that leave the queue's rows alone and only add to the mail store.\<close>

definition calm :: "worker_lib \<Rightarrow> worker_state \<Rightarrow> worker_state \<Rightarrow> bool" where
  "calm W w w' \<longleftrightarrow> qt w' = qt w \<and> wk_tick w \<le> wk_tick w' \<and> (faults (wk_queue w) = [] \<longrightarrow> faults (wk_queue w') = []) \<and>
     (mail_ok (ml_sha256_hex (wl_mail W)) (wk_mail w) \<longrightarrow> mail_ok (ml_sha256_hex (wl_mail W)) (wk_mail w') \<and>
        (\<forall>k c. held_blobs w k = Some c \<longrightarrow> held_blobs w' k = Some c))"

lemma calm_refl [simp]: "calm W w w"
  by (simp add: calm_def)

lemma calm_trans: "calm W u v \<Longrightarrow> calm W v w \<Longrightarrow> calm W u w"
  by (simp add: calm_def)

lemma calm_ok:
  assumes "calm W w w'" and "worker_ok W w"
  shows "worker_ok W w'"
proof -
  have "held_row (held_blobs w') m r" if "held_row (held_blobs w) m r" for m r
    using assms that by (auto simp: held_row_def calm_def worker_ok_def)
  with assms show ?thesis by (auto simp: calm_def worker_ok_def each_row_def)
qed

text \<open>An update of recipient rows; a failing statement changes nothing.\<close>

lemma set_rcpts_run:
  "wk_mail (set_rcpts p f w) = wk_mail w" "wk_tick (set_rcpts p f w) = wk_tick w"
  "wk_auth (set_rcpts p f w) = wk_auth w" "wk_audit (set_rcpts p f w) = wk_audit w"
  "qt (set_rcpts p f w) = qt w \<or> qt (set_rcpts p f w) = (qt w)\<lparr>outbound_rcpt := update_where (p (qt w)) f (outbound_rcpt (qt w))\<rparr>"
  "faults (wk_queue w) = [] \<Longrightarrow> faults (wk_queue (set_rcpts p f w)) = [] \<and>
     qt (set_rcpts p f w) = (qt w)\<lparr>outbound_rcpt := update_where (p (qt w)) f (outbound_rcpt (qt w))\<rparr>"
  by (auto simp: set_rcpts_def w_queue_def zoom_def db_stmt_def split: prod.splits list.splits option.splits)

lemma update_moved:
  assumes "\<And>r. r \<in> set (outbound_rcpt t) \<Longrightarrow> p r \<Longrightarrow> row_step r (f r) \<and> rc_id r \<in> I"
  shows "moved I t (t\<lparr>outbound_rcpt := update_where p f (outbound_rcpt t)\<rparr>)"
  using assms by (auto simp: moved_def update_where_def list_all2_conv_all_nth)

lemma set_rcpts_moved:
  assumes "\<And>r. r \<in> set (outbound_rcpt (qt w)) \<Longrightarrow> p (qt w) r \<Longrightarrow> row_step r (f r) \<and> rc_id r \<in> I"
  shows "moved I (qt w) (qt (set_rcpts p f w))"
  using set_rcpts_run(5) [of p f w] update_moved [of "qt w" "p (qt w)" f I, OF assms] by auto

lemma set_rcpts_ok:
  assumes "worker_ok W w"
    and "\<And>r. r \<in> set (outbound_rcpt (qt w)) \<Longrightarrow> p (qt w) r \<Longrightarrow> row_step r (f r) \<and> (active (f r) \<longrightarrow> active r)"
    and "\<And>r m. r \<in> set (outbound_rcpt (qt w)) \<Longrightarrow> p (qt w) r \<Longrightarrow> m \<in> set (outbound (qt w)) \<Longrightarrow> ob_id m = rc_outbound_id r \<Longrightarrow>
      tries_row m r \<Longrightarrow> tries_row m (f r)"
  shows "worker_ok W (set_rcpts p f w)"
proof (cases "qt (set_rcpts p f w) = qt w")
  case True
  with assms(1) set_rcpts_run(1) [of p f w] show ?thesis by (simp add: worker_ok_def)
next
  case False
  let ?t = "(qt w)\<lparr>outbound_rcpt := update_where (p (qt w)) f (outbound_rcpt (qt w))\<rparr>"
  have t: "qt (set_rcpts p f w) = ?t" using False set_rcpts_run(5) by blast
  have "moved UNIV (qt w) ?t" by (rule update_moved) (use assms(2) in blast)
  then have "queue_ok ?t" using assms(1) moved_queue_ok by (auto simp: worker_ok_def)
  moreover have "each_row tries_row ?t \<and> each_row (held_row (held_blobs w)) ?t"
  proof -
    have "tries_row m r' \<and> held_row (held_blobs w) m r'"
      if r': "r' \<in> set (outbound_rcpt ?t)" and m: "m \<in> set (outbound (qt w))" "ob_id m = rc_outbound_id r'" for r' m
    proof -
      obtain r where r: "r \<in> set (outbound_rcpt (qt w))" "r' = (if p (qt w) r then f r else r)"
        using r' by (auto simp: set_update_where)
      have "ob_id m = rc_outbound_id r" using assms(2) [OF r(1)] r(2) m(2) by (auto simp: row_step_def split: if_splits)
      with assms(1) r(1) m(1) have "tries_row m r" "held_row (held_blobs w) m r" by (auto simp: worker_ok_def each_row_def)
      with assms(2,3) [OF r(1)] r(2) m(1) \<open>ob_id m = rc_outbound_id r\<close> show ?thesis by (auto simp: held_row_def)
    qed
    then show ?thesis by (simp add: each_row_def)
  qed
  ultimately show ?thesis using assms(1) t set_rcpts_run(1) [of p f w] by (simp add: worker_ok_def)
qed

lemma tick_simps [simp]:
  "wk_queue (tick w) = wk_queue w" "wk_mail (tick w) = wk_mail w" "wk_auth (tick w) = wk_auth w" "wk_audit (tick w) = wk_audit w"
  "wk_tick (tick w) = Suc (wk_tick w)"
  by (simp_all add: tick_def)

lemma tick_calm [simp]: "calm W w (tick w)"
  by (simp add: calm_def)

lemma w_audit_calm: "w_audit W action detail w = (r, w') \<Longrightarrow> calm W w w' \<and> wk_mail w' = wk_mail w"
  by (auto simp: w_audit_def calm_def split: prod.splits pan.splits)

lemma wnotify_simps [simp]:
  "wk_queue (wnotify a w) = wk_queue w" "wk_mail (wnotify a w) = wk_mail w" "wk_tick (wnotify a w) = wk_tick w"
  by (simp_all add: wnotify_def)

lemma deliver_dsn_calm:
  assumes "deliver_dsn W out a b w = (r, w')" and "picks_member (ml_pick (wl_mail W))"
  shows "calm W w w'"
proof -
  obtain x s where d: "deliver (wl_mail W) (wl_seal_random W (wk_tick w))
         \<lparr>ra_id = acc_id a, ra_account_pub = acc_pub a, ra_key_id = acc_key_id a\<rparr>
         \<lparr>env_mail_from = [], env_rcpt_to = wo_envelope_from out, env_remote_ip = ''127.0.0.1''\<rparr>
         \<lparr>ar_spf = ''n/a'', ar_dkim = ''n/a'', ar_dmarc = ''n/a''\<rparr> b (wl_unix W (wk_tick w)) None
         \<lparr>sm_spam_score = None, sm_av_clean = None\<rparr> (wk_mail w) = (x, s)" by fastforce
  have w': "wk_mail w' = s" "wk_queue w' = wk_queue w" "wk_tick w' = Suc (wk_tick w)"
    using assms(1) d by (auto simp: deliver_dsn_def split: pan.splits sum.splits)
  have "mail_ok (ml_sha256_hex (wl_mail W)) s \<and> (\<forall>k c. held_blobs w k = Some c \<longrightarrow> contents (ms_blobs s) k = Some c)"
    if ok: "mail_ok (ml_sha256_hex (wl_mail W)) (wk_mail w)"
  proof (cases "\<exists>dm. x = Returned (Inr dm)")
    case True
    then obtain dm where "x = Returned (Inr dm)" by blast
    from deliver_succeeds [OF d [unfolded this] assms(2) ok] show ?thesis by blast
  next
    case False
    from deliver_fails [OF d assms(2) ok] False show ?thesis by (auto simp: grows_def)
  qed
  with w' show ?thesis by (simp add: calm_def)
qed

lemma maybe_send_dsn_calm:
  assumes "maybe_send_dsn W rcpt out action code status detail w = (r, w')" and "picks_member (ml_pick (wl_mail W))"
  shows "calm W w w'"
proof (cases "wo_envelope_from out = [] \<or> wo_is_dsn out \<or> cr_dsn_notify rcpt = ''NEVER''")
  case True
  with assms(1) show ?thesis by (auto simp: maybe_send_dsn_def)
next
  case False
  obtain x d where f: "find_by_id (wo_account_id out) (wk_auth w) = (x, d)" by fastforce
  have c: "calm W w (tick (w\<lparr>wk_auth := d\<rparr>))" by (simp add: calm_def)
  show ?thesis
    using assms False f c calm_trans [OF c deliver_dsn_calm]
    by (auto simp: maybe_send_dsn_def split: sum.splits pan.splits option.splits)
qed

section \<open>Settling keeps the invariant\<close>

text \<open>The clock does not run backwards, the jitter is in its range, and the orders are permutations.\<close>

definition orders_ok :: "worker_lib \<Rightarrow> bool" where
  "orders_ok W \<longleftrightarrow> (\<forall>n rows. set (wl_due_order W n rows) = set rows \<and> sorted (map rc_next_attempt_at (wl_due_order W n rows))) \<and>
     (\<forall>n rows. mset (wl_returning W n rows) = mset rows) \<and> (\<forall>n us. mset (wl_unit_order W n us) = mset us)"

definition clock_ok :: "worker_lib \<Rightarrow> bool" where
  "clock_ok W \<longleftrightarrow> mono (wl_unix W) \<and> (\<forall>n. jitter_ok (wl_jitter W n))"

text \<open>A claimed recipient as the worker holds it still describes its row.\<close>

definition in_hand :: "worker_lib \<Rightarrow> int \<Rightarrow> worker_state \<Rightarrow> claimed_rcpt \<Rightarrow> bool" where
  "in_hand W i w rcpt \<longleftrightarrow> (\<forall>r \<in> set (outbound_rcpt (qt w)). rc_id r = cr_id rcpt \<longrightarrow>
     rc_state r = ''claimed'' \<and> rc_attempts r = cr_attempts rcpt \<and> rc_outbound_id r = i \<and>
     rc_next_attempt_at r \<le> wl_unix W (wk_tick w))"

definition loaded :: "queue_tables \<Rightarrow> worker_outbound \<Rightarrow> bool" where
  "loaded t out \<longleftrightarrow> (\<exists>m \<in> set (outbound t). ob_id m = wo_id out \<and> ob_message_blob m = wo_message_blob out \<and>
     ob_envelope_from m = wo_envelope_from out \<and> ob_created_at m = wo_created_at out \<and> ob_expires_at m = wo_expires_at out \<and>
     ob_account_id m = wo_account_id out \<and> wo_is_dsn out = (ob_is_dsn m \<noteq> 0))"

lemma active_as_str: "active (r\<lparr>rc_state := as_str st\<rparr>) \<longleftrightarrow> \<not> is_terminal st"
  by (cases st) (simp_all add: active_def)

lemma settle_row_fields:
  "rc_id (settle_row st nx c s d res r) = rc_id r" "rc_outbound_id (settle_row st nx c s d res r) = rc_outbound_id r"
  "rc_state (settle_row st nx c s d res r) = as_str st" "rc_next_attempt_at (settle_row st nx c s d res r) = nx"
  "rc_attempts (settle_row st nx c s d res r) = rc_attempts r + (if res = OutDelivered then 0 else 1)"
  "row_step r (settle_row st nx c s d res r)"
  "active (settle_row st nx c s d res r) \<longleftrightarrow> \<not> is_terminal st"
  by (simp_all add: settle_row_def row_step_def legal_state_def) (cases st; simp add: active_def)

lemma settle_tries:
  assumes "settle j now rcpt out res = (st, nx, c, s, d)" and "jitter_ok j"
    and "tries_row m r" and "active r" and "0 \<le> rc_attempts r" and "rc_attempts r = cr_attempts rcpt"
    and "rc_next_attempt_at r \<le> now" and "ob_created_at m = wo_created_at out" and "wo_expires_at out = ob_created_at m + MAX_LIFETIME_SECS"
  shows "tries_row m (settle_row st nx c s d res r)"
proof -
  have bound: "rc_attempts r < MAX_ATTEMPTS" by (rule tries_row_bound [OF assms(3-5)])
  show ?thesis
  proof (cases "is_terminal st")
    case True
    with bound show ?thesis by (simp add: tries_row_def settle_row_fields)
  next
    case False
    then have st: "nx = now + next_delay_secs j (cr_attempts rcpt + 1)" "now < wo_expires_at out" "res \<noteq> OutDelivered"
      using assms(1) by (auto simp: settle_def split: outcome.splits if_splits)
    have age: "ob_created_at m + min_age (nat (rc_attempts r)) \<le> now"
      using assms(3,4,7) by (simp add: tries_row_def)
    have n: "nat (rc_attempts r + 1) = Suc (nat (rc_attempts r))" "int (Suc (nat (rc_attempts r))) = rc_attempts r + 1"
      using assms(5) by simp_all
    have "min_age (nat (rc_attempts r + 1)) = min_age (nat (rc_attempts r)) + base_minutes (rc_attempts r + 1) * 51"
      by (simp only: n(1) min_age.simps n(2))
    then have "min_age (nat (rc_attempts r + 1)) \<le> min_age (nat (rc_attempts r)) + next_delay_secs j (rc_attempts r + 1)"
      using next_delay_secs_bounds(1) [OF assms(2), of "rc_attempts r + 1"] by simp
    with age st(1) assms(6) have "ob_created_at m + min_age (nat (rc_attempts r + 1)) \<le> nx" by simp
    moreover have "min_age (nat (rc_attempts r)) < MAX_LIFETIME_SECS" using age st(2) assms(9) by simp
    ultimately show ?thesis using False st(3) by (simp add: tries_row_def settle_row_fields)
  qed
qed

text \<open>The first step of \<open>finalize\<close>: the row is settled, if the statement runs.\<close>

definition settled_state :: "worker_lib \<Rightarrow> claimed_rcpt \<Rightarrow> worker_outbound \<Rightarrow> outcome \<Rightarrow> worker_state \<Rightarrow> worker_state" where
  "settled_state W rcpt out res w =
     (case settle (wl_jitter W (wk_tick w)) (wl_unix W (wk_tick w)) rcpt out res of (st, nx, code, status, detail) \<Rightarrow>
        set_rcpts (\<lambda>_ r. rc_id r = cr_id rcpt) (settle_row st nx code status detail res) (tick w))"

lemma queue_ok_attempts: "queue_ok t \<Longrightarrow> r \<in> set (outbound_rcpt t) \<Longrightarrow> 0 \<le> rc_attempts r"
  by (simp add: queue_ok_def list_all_iff)

lemma loaded_message:
  assumes "loaded t out" and "queue_ok t" and "m \<in> set (outbound t)" and "ob_id m = wo_id out"
  shows "ob_message_blob m = wo_message_blob out" and "ob_created_at m = wo_created_at out"
    and "wo_expires_at out = ob_created_at m + MAX_LIFETIME_SECS"
proof -
  obtain m' where m': "m' \<in> set (outbound t)" "ob_id m' = wo_id out" "ob_message_blob m' = wo_message_blob out"
    "ob_created_at m' = wo_created_at out" "ob_expires_at m' = wo_expires_at out"
    using assms(1) by (auto simp: loaded_def)
  have "distinct (map ob_id (outbound t))" using assms(2) by (simp add: queue_ok_def)
  then have "m' = m" using m'(1,2) assms(3,4) by (metis tbl_get_unique option.inject)
  with m' assms(2,3) show "ob_message_blob m = wo_message_blob out" "ob_created_at m = wo_created_at out"
    "wo_expires_at out = ob_created_at m + MAX_LIFETIME_SECS" by (auto simp: queue_ok_def list_all_iff)
qed

lemma settled_state_ok:
  assumes "worker_ok W w" and "in_hand W (wo_id out) w rcpt" and "loaded (qt w) out" and "clock_ok W"
  shows "worker_ok W (settled_state W rcpt out res w)" and "moved {cr_id rcpt} (qt w) (qt (settled_state W rcpt out res w))"
    and "wk_tick (settled_state W rcpt out res w) = Suc (wk_tick w)" and "wk_mail (settled_state W rcpt out res w) = wk_mail w"
proof -
  let ?now = "wl_unix W (wk_tick w)"
  obtain st nx c s d where st: "settle (wl_jitter W (wk_tick w)) ?now rcpt out res = (st, nx, c, s, d)" by (metis prod_cases5)
  let ?f = "settle_row st nx c s d res"
  have s: "settled_state W rcpt out res w = set_rcpts (\<lambda>_ r. rc_id r = cr_id rcpt) ?f (tick w)"
    by (simp add: settled_state_def st)
  have q: "queue_ok (qt w)" using assms(1) by (simp add: worker_ok_def)
  have row: "active r" "rc_attempts r = cr_attempts rcpt" "rc_outbound_id r = wo_id out" "rc_next_attempt_at r \<le> ?now"
    if "r \<in> set (outbound_rcpt (qt w))" "rc_id r = cr_id rcpt" for r
    using assms(2) that by (auto simp: in_hand_def active_def)
  show "worker_ok W (settled_state W rcpt out res w)"
    unfolding s
  proof (rule set_rcpts_ok)
    show "worker_ok W (tick w)" by (rule calm_ok [OF tick_calm assms(1)])
    fix r m assume r: "r \<in> set (outbound_rcpt (qt (tick w)))" "rc_id r = cr_id rcpt"
    then show "row_step r (?f r) \<and> (active (?f r) \<longrightarrow> active r)" using row by (simp add: settle_row_fields)
    assume m: "m \<in> set (outbound (qt (tick w)))" "ob_id m = rc_outbound_id r" "tries_row m r"
    have r': "r \<in> set (outbound_rcpt (qt w))" and m': "m \<in> set (outbound (qt w))" "ob_id m = wo_id out"
      using r m row(3) [of r] by simp_all
    show "tries_row m (?f r)"
      by (rule settle_tries [OF st _ m(3) row(1) [OF r' r(2)] queue_ok_attempts [OF q r'] row(2) [OF r' r(2)] row(4) [OF r' r(2)]
            loaded_message(2,3) [OF assms(3) q m']]) (use assms(4) in \<open>simp add: clock_ok_def\<close>)
  qed
  show "moved {cr_id rcpt} (qt w) (qt (settled_state W rcpt out res w))"
    using set_rcpts_moved [of "tick w" "\<lambda>_ r. rc_id r = cr_id rcpt" ?f "{cr_id rcpt}"] by (simp add: s settle_row_fields)
  show "wk_tick (settled_state W rcpt out res w) = Suc (wk_tick w)" "wk_mail (settled_state W rcpt out res w) = wk_mail w"
    by (simp_all add: s set_rcpts_run)
qed

lemma mark_delayed_ok:
  assumes "worker_ok W w"
  shows "worker_ok W (mark_delayed_dsn_sent i w)" and "moved {i} (qt w) (qt (mark_delayed_dsn_sent i w))"
proof -
  have f: "row_step r (r\<lparr>rc_delayed_dsn_sent := 1\<rparr>)" "active (r\<lparr>rc_delayed_dsn_sent := 1\<rparr>) = active r"
    "tries_row m (r\<lparr>rc_delayed_dsn_sent := 1\<rparr>) = tries_row m r" for r m
    by (simp_all add: row_step_def legal_state_def active_def tries_row_def)
  show "worker_ok W (mark_delayed_dsn_sent i w)" unfolding mark_delayed_dsn_sent_def by (rule set_rcpts_ok [OF assms]) (simp_all add: f)
  show "moved {i} (qt w) (qt (mark_delayed_dsn_sent i w))" unfolding mark_delayed_dsn_sent_def by (rule set_rcpts_moved) (simp add: f)
qed

text \<open>The cleanup removes the blob of a message only when no active recipient of any message has it.\<close>

lemma active_reference_iff:
  "active_reference b t \<longleftrightarrow> (\<exists>r \<in> set (outbound_rcpt t). \<exists>m \<in> set (outbound t). ob_id m = rc_outbound_id r \<and> ob_message_blob m = b \<and> active r)"
  unfolding active_reference_def active_def by (auto simp: concat_eq_Nil_conv split: if_splits)

lemma w_queue_run: "w_queue f w = (r, w') \<longleftrightarrow> (\<exists>d. f (wk_queue w) = (r, d) \<and> w' = w\<lparr>wk_queue := d\<rparr>)"
  by (auto simp: w_queue_def zoom_def split: prod.splits)

lemma w_blobs_run: "w_blobs f w = (r, w') \<longleftrightarrow> (\<exists>b. f (ms_blobs (wk_mail w)) = (r, b) \<and> w' = w\<lparr>wk_mail := (wk_mail w)\<lparr>ms_blobs := b\<rparr>\<rparr>)"
  by (auto simp: w_blobs_def zoom_def split: prod.splits)

lemma db_query_faults: "db_query f d = (r, d') \<Longrightarrow> faults d = [] \<Longrightarrow> faults d' = []"
  by simp

lemma cleanup_cases:
  obtains (kept) d where "cleanup_terminal_message out w = w\<lparr>wk_queue := d\<rparr>" "tables d = qt w" "faults (wk_queue w) = [] \<longrightarrow> faults d = []"
    | (removed) d where "\<not> active_reference (wo_message_blob out) (qt w)" "tables d = qt w" "faults (wk_queue w) = [] \<longrightarrow> faults d = []"
        "cleanup_terminal_message out w = w\<lparr>wk_queue := d,
           wk_mail := (wk_mail w)\<lparr>ms_blobs := snd (blob_remove (wo_message_blob out) (ms_blobs (wk_mail w)))\<rparr>\<rparr>"
proof -
  obtain x d where q: "db_query (\<lambda>t. \<not> active_reference (wo_message_blob out) t) (wk_queue w) = (x, d)" by fastforce
  have t: "tables d = qt w" "faults (wk_queue w) = [] \<longrightarrow> faults d = []" using db_query_tables [OF q] db_query_faults [OF q] by auto
  have run: "w_queue (db_query (\<lambda>t. \<not> active_reference (wo_message_blob out) t)) w = (x, w\<lparr>wk_queue := d\<rparr>)"
    using q by (simp add: w_queue_run)
  show thesis
  proof (cases "x = Inr True")
    case True
    then have "\<not> active_reference (wo_message_blob out) (qt w)" using db_query_Inr [OF q [unfolded True]] by simp
    moreover have "cleanup_terminal_message out w = w\<lparr>wk_queue := d,
           wk_mail := (wk_mail w)\<lparr>ms_blobs := snd (blob_remove (wo_message_blob out) (ms_blobs (wk_mail w)))\<rparr>\<rparr>"
      using run True by (simp add: cleanup_terminal_message_def w_blobs_def zoom_def split: prod.splits)
    ultimately show thesis using t that(2) by blast
  next
    case False
    then have "cleanup_terminal_message out w = w\<lparr>wk_queue := d\<rparr>"
      using run by (auto simp: cleanup_terminal_message_def split: sum.splits bool.splits)
    with t that(1) show thesis by blast
  qed
qed

lemma blob_remove_intact: "blobs_intact h s \<Longrightarrow> blobs_intact h (snd (blob_remove k s))"
  using blob_remove_contents [of k s] by (auto simp: blobs_intact_def split: if_splits)

lemma cleanup_ok:
  assumes "worker_ok W w"
  shows "worker_ok W (cleanup_terminal_message out w)" and "qt (cleanup_terminal_message out w) = qt w"
    and "wk_tick (cleanup_terminal_message out w) = wk_tick w"
    and "faults (wk_queue w) = [] \<Longrightarrow> faults (wk_queue (cleanup_terminal_message out w)) = []"
    and "ms_meta (wk_mail (cleanup_terminal_message out w)) = ms_meta (wk_mail w)"
proof -
  have "worker_ok W (cleanup_terminal_message out w) \<and> qt (cleanup_terminal_message out w) = qt w \<and>
      wk_tick (cleanup_terminal_message out w) = wk_tick w \<and>
      (faults (wk_queue w) = [] \<longrightarrow> faults (wk_queue (cleanup_terminal_message out w)) = []) \<and>
      ms_meta (wk_mail (cleanup_terminal_message out w)) = ms_meta (wk_mail w)"
  proof (cases rule: cleanup_cases [of out w])
  case (kept d)
  with assms show ?thesis by (simp add: worker_ok_def)
next
  case (removed d)
  let ?b = "wo_message_blob out"
  have c: "contents (snd (blob_remove ?b (ms_blobs (wk_mail w)))) k = held_blobs w k" if "k \<noteq> ?b" for k
    using blob_remove_contents [of ?b "ms_blobs (wk_mail w)"] that by (metis fun_upd_other)
  have "held_row (contents (snd (blob_remove ?b (ms_blobs (wk_mail w))))) m r"
    if r: "r \<in> set (outbound_rcpt (qt w))" "m \<in> set (outbound (qt w))" "ob_id m = rc_outbound_id r" for r m
  proof -
    have "held_row (held_blobs w) m r" using assms r by (simp add: worker_ok_def each_row_def)
    moreover have "active r \<Longrightarrow> ob_message_blob m \<noteq> ?b" using removed(1) r unfolding active_reference_iff by blast
    ultimately show ?thesis using c by (simp add: held_row_def)
  qed
  with assms removed show ?thesis
    by (simp add: worker_ok_def mail_ok_def blob_remove_intact each_row_def)
qed
  then show "worker_ok W (cleanup_terminal_message out w)" "qt (cleanup_terminal_message out w) = qt w"
    "wk_tick (cleanup_terminal_message out w) = wk_tick w"
    "faults (wk_queue w) = [] \<Longrightarrow> faults (wk_queue (cleanup_terminal_message out w)) = []"
    "ms_meta (wk_mail (cleanup_terminal_message out w)) = ms_meta (wk_mail w)" by simp_all
qed

text \<open>Part of a pass: the invariant is kept, only the rows of the given ids change, and a healthy queue stays healthy.\<close>

definition proceeds :: "worker_lib \<Rightarrow> int set \<Rightarrow> worker_state \<Rightarrow> worker_state \<Rightarrow> bool" where
  "proceeds W I w w' \<longleftrightarrow> worker_ok W w' \<and> moved I (qt w) (qt w') \<and> wk_tick w \<le> wk_tick w' \<and>
     (faults (wk_queue w) = [] \<longrightarrow> faults (wk_queue w') = [])"

definition unclaimed :: "int set \<Rightarrow> worker_state \<Rightarrow> bool" where
  "unclaimed I w \<longleftrightarrow> (\<forall>r \<in> set (outbound_rcpt (qt w)). rc_id r \<in> I \<longrightarrow> rc_state r \<noteq> ''claimed'')"

lemma proceeds_refl: "worker_ok W w \<Longrightarrow> proceeds W I w w"
  by (simp add: proceeds_def)

lemma proceeds_trans: "proceeds W I u v \<Longrightarrow> proceeds W I v w \<Longrightarrow> proceeds W I u w"
  by (auto simp: proceeds_def intro: moved_trans)

lemma proceeds_mono: "proceeds W I u v \<Longrightarrow> I \<subseteq> J \<Longrightarrow> proceeds W J u v"
  by (auto simp: proceeds_def intro: moved_mono)

lemma calm_proceeds: "calm W u v \<Longrightarrow> worker_ok W u \<Longrightarrow> proceeds W I u v"
  using calm_ok by (auto simp: proceeds_def calm_def)

lemma proceeds_row:
  assumes "proceeds W J u v" and "r' \<in> set (outbound_rcpt (qt v))"
  obtains r where "r \<in> set (outbound_rcpt (qt u))" "row_step r r'" "rc_id r \<notin> J \<Longrightarrow> r' = r"
proof -
  have "moved J (qt u) (qt v)" using assms(1) by (simp add: proceeds_def)
  from this assms(2) show thesis by (rule moved_row) (rule that)
qed

lemma proceeds_unclaimed:
  assumes "proceeds W J u v" and "unclaimed I u" and "I \<inter> J = {}"
  shows "unclaimed I v"
  unfolding unclaimed_def
proof (intro ballI impI)
  fix r' assume r': "r' \<in> set (outbound_rcpt (qt v))" "rc_id r' \<in> I"
  obtain r where "r \<in> set (outbound_rcpt (qt u))" "row_step r r'" "rc_id r \<notin> J \<Longrightarrow> r' = r"
    using assms(1) r'(1) by (rule proceeds_row) blast
  with r'(2) assms(2,3) show "rc_state r' \<noteq> ''claimed''" by (auto simp: unclaimed_def row_step_def)
qed

lemma proceeds_in_hand:
  assumes "proceeds W J u v" and "in_hand W i u rcpt" and "cr_id rcpt \<notin> J" and "clock_ok W"
  shows "in_hand W i v rcpt"
  unfolding in_hand_def
proof (intro ballI impI)
  fix r' assume r': "r' \<in> set (outbound_rcpt (qt v))" "rc_id r' = cr_id rcpt"
  obtain r where "r \<in> set (outbound_rcpt (qt u))" "row_step r r'" "rc_id r \<notin> J \<Longrightarrow> r' = r"
    using assms(1) r'(1) by (rule proceeds_row) blast
  moreover from this have "r' = r" using r'(2) assms(3) by (simp add: row_step_def)
  moreover have "wl_unix W (wk_tick u) \<le> wl_unix W (wk_tick v)"
    using assms(1,4) by (auto simp: proceeds_def clock_ok_def dest: monoD)
  ultimately show "rc_state r' = ''claimed'' \<and> rc_attempts r' = cr_attempts rcpt \<and> rc_outbound_id r' = i \<and>
      rc_next_attempt_at r' \<le> wl_unix W (wk_tick v)"
    using assms(2) r'(2) by (auto simp: in_hand_def)
qed

lemma moved_loaded: "moved I t t' \<Longrightarrow> loaded t out \<Longrightarrow> loaded t' out"
  by (simp add: moved_def loaded_def)

lemma report_run:
  assumes "report W rcpt out now st code status detail w = (r, w')" and "picks_member (ml_pick (wl_mail W))"
  shows "\<exists>v. (v = w \<or> v = mark_delayed_dsn_sent (cr_id rcpt) w) \<and> calm W v w'"
proof -
  consider (dsn) v action where "v = w \<or> v = mark_delayed_dsn_sent (cr_id rcpt) w"
      "maybe_send_dsn W rcpt out action code status detail v = (r, w')"
    | (none) "w' = w"
    using assms(1) unfolding report_def by (metis prod.inject)
  then show ?thesis
  proof cases
    case (dsn v action)
    with maybe_send_dsn_calm [OF dsn(2) assms(2)] show ?thesis by blast
  qed (use calm_refl in blast)
qed

lemma mark_delayed_proceeds:
  assumes "worker_ok W w"
  shows "proceeds W {i} w (mark_delayed_dsn_sent i w)" and "unclaimed I w \<Longrightarrow> unclaimed I (mark_delayed_dsn_sent i w)"
proof -
  show "proceeds W {i} w (mark_delayed_dsn_sent i w)"
    using mark_delayed_ok [OF assms] set_rcpts_run(2,6) by (simp add: proceeds_def mark_delayed_dsn_sent_def)
  assume "unclaimed I w"
  then show "unclaimed I (mark_delayed_dsn_sent i w)"
    using set_rcpts_run(5) [of "\<lambda>_ r. rc_id r = i" "\<lambda>r. r\<lparr>rc_delayed_dsn_sent := 1\<rparr>" w]
    by (auto simp: unclaimed_def mark_delayed_dsn_sent_def set_update_where split: if_splits)
qed

lemma calm_unclaimed: "calm W u v \<Longrightarrow> unclaimed I u \<Longrightarrow> unclaimed I v"
  by (simp add: calm_def unclaimed_def)

lemma w_bind_cases:
  assumes "w_bind m f w = (r, w'')"
  obtains (panic) "m w = (Panicked, w'')" "r = Panicked"
    | (step) a w' where "m w = (Returned a, w')" "f a w' = (r, w'')"
  using assms by (auto simp: w_bind_def split: prod.splits pan.splits)

lemma finalize_unfold:
  assumes "settle (wl_jitter W (wk_tick w)) (wl_unix W (wk_tick w)) rcpt out res = (st, nx, code, status, detail)"
  shows "finalize W rcpt out res w =
    w_bind (if is_terminal st then w_audit W (terminal_action st) (cr_rcpt_to rcpt) else (\<lambda>w. (Returned (), w))) (\<lambda>_.
      w_bind (report W rcpt out (wl_unix W (wk_tick w)) st code status detail) (\<lambda>_ w.
        (Returned (), cleanup_terminal_message out w))) (settled_state W rcpt out res w)"
  by (simp add: finalize_def settled_state_def assms Let_def)

lemma unclaimed_updated:
  assumes "faults (wk_queue w) = []" and "\<And>r. rc_id (f r) = rc_id r" and "\<And>r. rc_state (f r) \<noteq> ''claimed''"
  shows "unclaimed {i} (set_rcpts (\<lambda>_ r. rc_id r = i) f w)"
  unfolding unclaimed_def
proof (intro ballI impI)
  fix r' assume r': "r' \<in> set (outbound_rcpt (qt (set_rcpts (\<lambda>_ r. rc_id r = i) f w)))" "rc_id r' \<in> {i}"
  then obtain r where "r' = (if rc_id r = i then f r else r)"
    using set_rcpts_run(6) [OF assms(1), of "\<lambda>_ r. rc_id r = i" f] by (auto simp: set_update_where)
  with r'(2) assms(2) have "r' = f r" by (auto split: if_splits)
  with assms(3) show "rc_state r' \<noteq> ''claimed''" by simp
qed

lemma settled_state_unclaimed:
  assumes "faults (wk_queue w) = []"
  shows "unclaimed {cr_id rcpt} (settled_state W rcpt out res w)" and "faults (wk_queue (settled_state W rcpt out res w)) = []"
proof -
  obtain st nx c s d where st: "settle (wl_jitter W (wk_tick w)) (wl_unix W (wk_tick w)) rcpt out res = (st, nx, c, s, d)" by (metis prod_cases5)
  have "as_str st \<noteq> ''claimed''" using st by (auto simp: settle_def split: outcome.splits if_splits)
  then show "unclaimed {cr_id rcpt} (settled_state W rcpt out res w)"
    unfolding settled_state_def st prod.case by (intro unclaimed_updated) (simp_all add: assms settle_row_fields)
  show "faults (wk_queue (settled_state W rcpt out res w)) = []"
    using set_rcpts_run(6) [of "tick w" "\<lambda>_ r. rc_id r = cr_id rcpt" "settle_row st nx c s d res"] assms
    by (simp add: settled_state_def st)
qed

lemma finalize_proceeds:
  assumes run: "finalize W rcpt out res w = (r, w')" and ok: "worker_ok W w" and hand: "in_hand W (wo_id out) w rcpt"
    and l: "loaded (qt w) out" and clock: "clock_ok W" and pick: "picks_member (ml_pick (wl_mail W))"
  shows "proceeds W {cr_id rcpt} w w'" and "faults (wk_queue w) = [] \<Longrightarrow> unclaimed {cr_id rcpt} w'"
proof -
  let ?I = "{cr_id rcpt}" let ?w1 = "settled_state W rcpt out res w"
  obtain st nx c s d where st: "settle (wl_jitter W (wk_tick w)) (wl_unix W (wk_tick w)) rcpt out res = (st, nx, c, s, d)" by (metis prod_cases5)
  note s1 = settled_state_ok [OF ok hand l clock, of res]
  have p1: "proceeds W ?I w ?w1" using s1 settled_state_unclaimed(2) [of w] by (simp add: proceeds_def)
  have u1: "faults (wk_queue w) = [] \<Longrightarrow> unclaimed ?I ?w1" using settled_state_unclaimed(1) by blast
  have audit: "calm W ?w1 v" if "(if is_terminal st then w_audit W (terminal_action st) (cr_rcpt_to rcpt) else (\<lambda>w. (Returned (), w))) ?w1 = (x, v)" for x v
    using that w_audit_calm by (auto split: if_splits)
  have report: "proceeds W ?I v u \<and> (unclaimed ?I v \<longrightarrow> unclaimed ?I u)"
    if rep: "report W rcpt out now st c s d v = (x, u)" and v: "worker_ok W v" for now x v u
  proof -
    obtain v' where v': "v' = v \<or> v' = mark_delayed_dsn_sent (cr_id rcpt) v" "calm W v' u" using report_run [OF rep pick] by blast
    have "proceeds W ?I v v'" "unclaimed ?I v \<longrightarrow> unclaimed ?I v'" using v'(1) mark_delayed_proceeds [OF v] proceeds_refl [OF v] by auto
    with calm_proceeds [OF v'(2)] calm_unclaimed [OF v'(2)] proceeds_trans show ?thesis unfolding proceeds_def by (meson moved_trans order_trans)
  qed
  have clean: "proceeds W ?I v (cleanup_terminal_message out v) \<and> (unclaimed ?I v \<longrightarrow> unclaimed ?I (cleanup_terminal_message out v))"
    if "worker_ok W v" for v
    using cleanup_ok [OF that, of out] by (simp add: proceeds_def unclaimed_def)
  from run [unfolded finalize_unfold [OF st]]
  have "proceeds W ?I ?w1 w' \<and> (unclaimed ?I ?w1 \<longrightarrow> unclaimed ?I w')"
  proof (cases rule: w_bind_cases)
    case panic
    with audit calm_proceeds [OF _ s1(1)] calm_unclaimed show ?thesis by blast
  next
    case (step a v)
    have v: "calm W ?w1 v" by (rule audit [OF step(1)])
    have pv: "proceeds W ?I ?w1 v" "worker_ok W v" using calm_proceeds [OF v s1(1)] calm_ok [OF v s1(1)] by blast+
    from step(2) show ?thesis
    proof (cases rule: w_bind_cases)
      case panic
      from report [OF panic(1) pv(2)] pv(1) calm_unclaimed [OF v] show ?thesis using proceeds_trans by blast
    next
      case (step a u)
      have u: "proceeds W ?I v u \<and> (unclaimed ?I v \<longrightarrow> unclaimed ?I u)" by (rule report [OF step(1) pv(2)])
      then have "worker_ok W u" by (simp add: proceeds_def)
      from clean [OF this] u pv(1) calm_unclaimed [OF v] step(2) show ?thesis using proceeds_trans by blast
    qed
  qed
  with p1 u1 show "proceeds W ?I w w'" "faults (wk_queue w) = [] \<Longrightarrow> unclaimed ?I w'" using proceeds_trans by blast+
qed

text \<open>The recipients of a unit, one after the other.\<close>

lemma finalize_all_proceeds:
  assumes "finalize_all W out ps w = (r, w')" and "worker_ok W w" and "list_all (\<lambda>p. in_hand W (wo_id out) w (fst p)) ps"
    and "distinct (map (cr_id \<circ> fst) ps)" and "loaded (qt w) out" and clock: "clock_ok W" and pick: "picks_member (ml_pick (wl_mail W))"
  shows "proceeds W (cr_id ` fst ` set ps) w w' \<and>
    (faults (wk_queue w) = [] \<and> r = Returned () \<longrightarrow> unclaimed (cr_id ` fst ` set ps) w')"
  using assms(1-5)
proof (induction ps arbitrary: w)
  case Nil
  then show ?case by (auto simp: proceeds_refl unclaimed_def)
next
  case (Cons p ps)
  obtain rcpt res where p: "p = (rcpt, res)" by fastforce
  let ?I = "cr_id ` fst ` set (p # ps)"
  have hand: "in_hand W (wo_id out) w rcpt" using Cons.prems(3) p by simp
  from Cons.prems(1) [unfolded p finalize_all.simps] show ?case
  proof (cases rule: w_bind_cases)
    case panic
    from finalize_proceeds(1) [OF panic(1) Cons.prems(2) hand Cons.prems(5) clock pick] panic(2) show ?thesis
      by (auto simp: p elim: proceeds_mono)
  next
    case (step a v)
    have v: "proceeds W {cr_id rcpt} w v" "faults (wk_queue w) = [] \<Longrightarrow> unclaimed {cr_id rcpt} v"
      using finalize_proceeds [OF step(1) Cons.prems(2) hand Cons.prems(5) clock pick] by blast+
    have "worker_ok W v" "loaded (qt v) out" using v(1) Cons.prems(5) moved_loaded unfolding proceeds_def by blast+
    moreover have "list_all (\<lambda>p. in_hand W (wo_id out) v (fst p)) ps"
      unfolding list_all_iff
    proof
      fix q assume q: "q \<in> set ps"
      then have "in_hand W (wo_id out) w (fst q)" "cr_id (fst q) \<notin> {cr_id rcpt}"
        using Cons.prems(3,4) p by (auto simp: list_all_iff image_iff)
      with proceeds_in_hand [OF v(1)] clock show "in_hand W (wo_id out) v (fst q)" by blast
    qed
    ultimately have rest: "proceeds W (cr_id ` fst ` set ps) v w' \<and>
        (faults (wk_queue v) = [] \<and> r = Returned () \<longrightarrow> unclaimed (cr_id ` fst ` set ps) w')"
      using Cons.IH [OF step(2)] Cons.prems(4) by simp
    have "proceeds W ?I w w'"
      by (rule proceeds_trans [OF proceeds_mono [OF v(1)] proceeds_mono [OF rest [THEN conjunct1]]]) (auto simp: p)
    moreover have "unclaimed ?I w'" if "faults (wk_queue w) = []" "r = Returned ()"
    proof -
      have "unclaimed {cr_id rcpt} w'"
        by (rule proceeds_unclaimed [OF rest [THEN conjunct1] v(2)]) (use that Cons.prems(4) p in \<open>auto simp: image_iff\<close>)
      moreover have "unclaimed (cr_id ` fst ` set ps) w'" using rest that v(1) by (simp add: proceeds_def)
      ultimately show ?thesis by (auto simp: unclaimed_def p)
    qed
    ultimately show ?thesis by blast
  qed
qed

section \<open>A pass keeps the invariant\<close>

lemma send_raw_run:
  "\<exists>ps v. send_raw W out domain rcpts raw w = finalize_all W out ps v \<and> map fst ps = rcpts \<and> calm W w v"
proof -
  let ?N = "wl_net W (wk_tick w)"
  have same: "map fst (same_for_all res rcpts) = rcpts" for res by (simp add: same_for_all_def o_def)
  have cool: "calm W w (set_cooldown W domain (tick w))" by (simp add: calm_def set_cooldown_def)
  have via: ?thesis if "send_raw W out domain rcpts raw w = finalize_all W out (same_for_all res rcpts) v" "calm W w v" for res v
    using that same by blast
  show ?thesis
  proof (cases "resolve_mx (nl_resolver ?N) domain")
    case (Inl e)
    then have "send_raw W out domain rcpts raw w =
        finalize_all W out (same_for_all (classify_connect_failure (error_to_string e) False) rcpts) (tick w)"
      by (simp add: send_raw_def Let_def)
    from via [OF this tick_calm] show ?thesis .
  next
    case (Inr mxs)
    show ?thesis
    proof (cases "length mxs = 1 \<and> mx_exchange (mxs ! 0) = ''.''")
      case True
      with Inr have "send_raw W out domain rcpts raw w = finalize_all W out (same_for_all (classify_connect_failure
          ''domain publishes a null MX (RFC 7505): does not accept mail'' True) rcpts) (tick w)"
        by (simp add: send_raw_def Let_def)
      from via [OF this tick_calm] show ?thesis .
    next
      case False
      show ?thesis
      proof (cases "connect_opportunistic ?N mxs")
        case (Connected c)
        let ?ps = "zip rcpts (run_envelope (client_of c) (wo_envelope_from out) (map cr_rcpt_to rcpts) raw)"
        have "map fst ?ps = rcpts" by simp
        with Inr False Connected show ?thesis
          by (intro exI [of _ ?ps] exI [of _ "tick w"] conjI) (auto simp: send_raw_def Let_def)
      next
        case (ConnectFailed d)
        with Inr False have "send_raw W out domain rcpts raw w = finalize_all W out (same_for_all
            (if d then classify_dane_failure ''no certificate offered by any MX host matched its DNSSEC-validated TLSA record''
             else classify_connect_failure ''could not connect to any MX host'' False) rcpts) (set_cooldown W domain (tick w))"
          by (auto simp: send_raw_def Let_def)
        from via [OF this cool] show ?thesis .
      qed
    qed
  qed
qed

lemma blob_read_contents: "contents (snd (blob_read h k s)) = contents s"
  using io_call_keeps [of id id s]
  by (auto simp: blob_read_def path_for_valid op_bind_def Let_def split: if_splits option.splits sum.splits prod.splits)

lemma blob_read_calm: "w_blobs (blob_read (ml_sha256_hex (wl_mail W)) k) w = (r, v) \<Longrightarrow> calm W w v"
  using blob_read_contents [of "ml_sha256_hex (wl_mail W)" k "ms_blobs (wk_mail w)"]
  by (auto simp: w_blobs_run calm_def mail_ok_def blobs_intact_def)

lemma load_outbound_run:
  assumes "load_outbound i w = (o', v)"
  shows "calm W w v" and "o' = Some out \<Longrightarrow> wo_id out = i \<and> loaded (qt w) out"
    and "faults (wk_queue w) = [] \<Longrightarrow> i \<in> ob_id ` set (outbound (qt w)) \<Longrightarrow> o' \<noteq> None"
proof -
  obtain x d where q: "db_query (\<lambda>t. tbl_get ob_id i (outbound t)) (wk_queue w) = (x, d)" by fastforce
  have v: "v = w\<lparr>wk_queue := d\<rparr>" and o': "o' = map_option (\<lambda>m. \<lparr>wo_id = i, wo_message_blob = ob_message_blob m, wo_envelope_from = ob_envelope_from m,
          wo_is_dsn = (ob_is_dsn m \<noteq> 0), wo_created_at = ob_created_at m, wo_expires_at = ob_expires_at m,
          wo_account_id = ob_account_id m\<rparr>) (Option.bind (ok x) (\<lambda>x. x))"
    using assms q by (auto simp: load_outbound_def w_queue_def zoom_def)
  show "calm W w v" using db_query_tables [OF q] db_query_faults [OF q] by (simp add: v calm_def)
  {
    assume "o' = Some out"
    then obtain m where m: "x = Inr (Some m)" "out = \<lparr>wo_id = i, wo_message_blob = ob_message_blob m, wo_envelope_from = ob_envelope_from m,
          wo_is_dsn = (ob_is_dsn m \<noteq> 0), wo_created_at = ob_created_at m, wo_expires_at = ob_expires_at m, wo_account_id = ob_account_id m\<rparr>"
      unfolding o' by (cases x) (auto split: option.splits)
    have "tbl_get ob_id i (outbound (qt w)) = Some m" using db_query_Inr [OF q [unfolded m(1)]] by simp
    with m(2) tbl_get_Some_in [of ob_id i _ m] show "wo_id out = i \<and> loaded (qt w) out" by (auto simp: loaded_def)
  }
  assume f: "faults (wk_queue w) = []" and "i \<in> ob_id ` set (outbound (qt w))"
  then have "tbl_get ob_id i (outbound (qt w)) \<noteq> None" by (auto simp: tbl_get_def find_None_iff)
  with q f show "o' \<noteq> None" by (auto simp: o')
qed

lemma send_unit_proceeds:
  assumes run: "send_unit W i domain rcpts w = (r, w')" and ok: "worker_ok W w" and hand: "list_all (in_hand W i w) rcpts"
    and dist: "distinct (map cr_id rcpts)" and clock: "clock_ok W" and pick: "picks_member (ml_pick (wl_mail W))"
  shows "proceeds W (cr_id ` set rcpts) w w' \<and>
    (faults (wk_queue w) = [] \<and> r = Returned () \<and> i \<in> ob_id ` set (outbound (qt w)) \<longrightarrow> unclaimed (cr_id ` set rcpts) w')"
proof -
  let ?I = "cr_id ` set rcpts"
  obtain o' v where l: "load_outbound i w = (o', v)" by fastforce
  note lo = load_outbound_run [OF l]
  show ?thesis
  proof (cases o')
    case None
    then have "w' = v" using run l by (simp add: send_unit_def)
    with calm_proceeds [OF lo(1) ok] lo(3) None show ?thesis by auto
  next
    case (Some out)
    have out: "wo_id out = i" "loaded (qt w) out" using lo(2) [OF Some] by blast+
    have "\<exists>ps u. send_unit W i domain rcpts w = finalize_all W out ps u \<and> map fst ps = rcpts \<and> calm W w u"
    proof -
      obtain x u where b: "w_blobs (blob_read (ml_sha256_hex (wl_mail W)) (wo_message_blob out)) v = (x, u)" by fastforce
      have c: "calm W w u" by (rule calm_trans [OF lo(1) blob_read_calm [OF b]])
      show ?thesis
      proof (cases x)
        case (Inl e)
        with l Some b c show ?thesis
          by (intro exI [of _ "same_for_all (Transient None None ''local storage error'') rcpts"] exI [of _ u])
            (simp add: send_unit_def same_for_all_def o_def)
      next
        case (Inr raw)
        with l Some b have "send_unit W i domain rcpts w = send_raw W out domain rcpts raw u" by (simp add: send_unit_def)
        with send_raw_run [of W out domain rcpts raw u] calm_trans [OF c] show ?thesis by metis
      qed
    qed
    then obtain ps u where ps: "finalize_all W out ps u = (r, w')" "map fst ps = rcpts" and c: "calm W w u" using run by auto
    have p: "proceeds W {} w u" "worker_ok W u" using calm_proceeds [OF c ok] calm_ok [OF c ok] by blast+
    have "list_all (\<lambda>p. in_hand W (wo_id out) u (fst p)) ps"
      unfolding list_all_iff using hand ps(2) proceeds_in_hand [OF p(1) _ _ clock] out(1) by (force simp: list_all_iff)
    moreover have "distinct (map (cr_id \<circ> fst) ps)" using dist ps(2) by (simp flip: map_map)
    moreover have "loaded (qt u) out" using out(2) c by (simp add: calm_def)
    ultimately have "proceeds W (cr_id ` fst ` set ps) u w' \<and>
        (faults (wk_queue u) = [] \<and> r = Returned () \<longrightarrow> unclaimed (cr_id ` fst ` set ps) w')"
      by (rule finalize_all_proceeds [OF ps(1) p(2) _ _ _ clock pick])
    moreover have "cr_id ` fst ` set ps = ?I" using ps(2) by (metis list.set_map)
    ultimately show ?thesis using proceeds_trans [OF calm_proceeds [OF c ok]] c by (auto simp: calm_def)
  qed
qed

lemma release_row: "row_step r (r\<lparr>rc_state := ''ready'', rc_claimed_by := None\<rparr>)" "active (r\<lparr>rc_state := ''ready'', rc_claimed_by := None\<rparr>)"
  by (simp_all add: row_step_def legal_state_def active_def from_db_str_def)

lemma release_proceeds:
  assumes "worker_ok W w" and "list_all (in_hand W i w) rcpts" and "distinct (map cr_id rcpts)" and "clock_ok W"
  shows "proceeds W (cr_id ` set rcpts) w (release_to_ready rcpts w) \<and>
    (faults (wk_queue w) = [] \<longrightarrow> unclaimed (cr_id ` set rcpts) (release_to_ready rcpts w))"
  using assms(1-3)
proof (induction rcpts arbitrary: w)
  case Nil
  then show ?case by (simp add: release_to_ready_def proceeds_refl unclaimed_def)
next
  case (Cons rcpt rcpts)
  let ?f = "\<lambda>r. r\<lparr>rc_state := ''ready'', rc_claimed_by := None\<rparr>" let ?p = "\<lambda>_ r. rc_id r = cr_id rcpt"
  let ?v = "set_rcpts ?p ?f w"
  have hand: "in_hand W i w rcpt" using Cons.prems(2) by simp
  have tr: "tries_row m (?f r)" if "tries_row m r" "active r" for m r
    using that by (simp add: tries_row_def active_def)
  have act: "active r" if "r \<in> set (outbound_rcpt (qt w))" "rc_id r = cr_id rcpt" for r
    using hand that by (simp add: in_hand_def active_def)
  have "worker_ok W ?v" by (rule set_rcpts_ok [OF Cons.prems(1)]) (use release_row act tr in auto)
  moreover have "moved {cr_id rcpt} (qt w) (qt ?v)" by (rule set_rcpts_moved) (use release_row in auto)
  ultimately have v: "proceeds W {cr_id rcpt} w ?v" using set_rcpts_run(2) [of ?p ?f w] set_rcpts_run(6) [of w ?p ?f] by (simp add: proceeds_def)
  have uv: "unclaimed {cr_id rcpt} ?v" if "faults (wk_queue w) = []"
    by (rule unclaimed_updated [OF that]) simp_all
  have "list_all (in_hand W i ?v) rcpts"
    unfolding list_all_iff
    using Cons.prems(2,3) proceeds_in_hand [OF v _ _ assms(4)] by (fastforce simp: list_all_iff image_iff)
  with Cons.IH [OF \<open>worker_ok W ?v\<close>] Cons.prems(3)
  have rest: "proceeds W (cr_id ` set rcpts) ?v (release_to_ready rcpts ?v) \<and>
      (faults (wk_queue ?v) = [] \<longrightarrow> unclaimed (cr_id ` set rcpts) (release_to_ready rcpts ?v))" by simp
  have eq: "release_to_ready (rcpt # rcpts) w = release_to_ready rcpts ?v" by (simp add: release_to_ready_def)
  have "proceeds W (cr_id ` set (rcpt # rcpts)) w (release_to_ready rcpts ?v)"
    by (rule proceeds_trans [OF proceeds_mono [OF v] proceeds_mono [OF rest [THEN conjunct1]]]) auto
  moreover have "unclaimed (cr_id ` set (rcpt # rcpts)) (release_to_ready rcpts ?v)" if f: "faults (wk_queue w) = []"
  proof -
    have "unclaimed {cr_id rcpt} (release_to_ready rcpts ?v)"
      by (rule proceeds_unclaimed [OF rest [THEN conjunct1] uv [OF f]]) (use Cons.prems(3) in auto)
    moreover have "unclaimed (cr_id ` set rcpts) (release_to_ready rcpts ?v)" using rest f v by (simp add: proceeds_def)
    ultimately show ?thesis by (auto simp: unclaimed_def)
  qed
  ultimately show ?case by (simp add: eq)
qed

definition unit_ids :: "send_unit list \<Rightarrow> int list" where
  "unit_ids us = concat (map (\<lambda>u. map cr_id (snd u)) us)"

lemma unit_ids_Cons [simp]: "unit_ids (u # us) = map cr_id (snd u) @ unit_ids us"
  by (simp add: unit_ids_def)

lemma unit_ids_set: "set (unit_ids us) = (\<Union>u \<in> set us. cr_id ` set (snd u))"
  by (auto simp: unit_ids_def)

lemma run_units_proceeds:
  assumes "run_units W us w = (r, w')" and "worker_ok W w" and "list_all (\<lambda>u. list_all (in_hand W (fst (fst u)) w) (snd u)) us"
    and "distinct (unit_ids us)" and clock: "clock_ok W" and pick: "picks_member (ml_pick (wl_mail W))"
  shows "proceeds W (set (unit_ids us)) w w' \<and>
    (faults (wk_queue w) = [] \<and> r = Returned () \<and> list_all (\<lambda>u. fst (fst u) \<in> ob_id ` set (outbound (qt w))) us \<longrightarrow>
       unclaimed (set (unit_ids us)) w')"
  using assms(1-4)
proof (induction us arbitrary: w)
  case Nil
  then show ?case by (auto simp: proceeds_refl unclaimed_def unit_ids_def)
next
  case (Cons u us)
  obtain i domain rcpts where u: "u = ((i, domain), rcpts)" by (metis prod.exhaust)
  let ?I = "cr_id ` set rcpts"
  have tick: "proceeds W {} w (tick w)" "worker_ok W (tick w)"
    using calm_proceeds [OF tick_calm Cons.prems(2)] calm_ok [OF tick_calm Cons.prems(2)] by blast+
  have hand: "list_all (in_hand W i (tick w)) rcpts"
    using Cons.prems(3) proceeds_in_hand [OF tick(1) _ _ clock] by (auto simp: u list_all_iff)
  have dist: "distinct (map cr_id rcpts)" "?I \<inter> set (unit_ids us) = {}" using Cons.prems(4) by (auto simp: u)
  have go: ?case if first: "proceeds W ?I (tick w) v"
      "faults (wk_queue w) = [] \<and> i \<in> ob_id ` set (outbound (qt w)) \<longrightarrow> unclaimed ?I v"
    and rest: "run_units W us v = (r, w')" for v
  proof -
    have wv: "proceeds W ?I w v" by (rule proceeds_trans [OF proceeds_mono [OF tick(1)] first(1)]) simp
    have "list_all (\<lambda>u. list_all (in_hand W (fst (fst u)) v) (snd u)) us"
      unfolding list_all_iff
    proof (intro ballI)
      fix x rc assume x: "x \<in> set us" "rc \<in> set (snd x)"
      then have "cr_id rc \<notin> ?I" using dist(2) by (auto simp: unit_ids_set)
      moreover have "in_hand W (fst (fst x)) w rc" using Cons.prems(3) x by (auto simp: list_all_iff)
      ultimately show "in_hand W (fst (fst x)) v rc" using proceeds_in_hand [OF wv _ _ clock] by blast
    qed
    with Cons.IH [OF rest] wv Cons.prems(4)
    have r: "proceeds W (set (unit_ids us)) v w' \<and>
        (faults (wk_queue v) = [] \<and> r = Returned () \<and> list_all (\<lambda>u. fst (fst u) \<in> ob_id ` set (outbound (qt v))) us \<longrightarrow>
          unclaimed (set (unit_ids us)) w')" by (simp add: proceeds_def)
    have "proceeds W (set (unit_ids (u # us))) w w'"
      by (rule proceeds_trans [OF proceeds_mono [OF wv] proceeds_mono [OF r [THEN conjunct1]]]) (auto simp: u)
    moreover have "unclaimed (set (unit_ids (u # us))) w'"
      if q: "faults (wk_queue w) = []" "r = Returned ()" "list_all (\<lambda>u. fst (fst u) \<in> ob_id ` set (outbound (qt w))) (u # us)"
    proof -
      have "unclaimed ?I v" using first(2) q by (simp add: u)
      then have "unclaimed ?I w'" by (rule proceeds_unclaimed [OF r [THEN conjunct1] _ dist(2)])
      moreover have "unclaimed (set (unit_ids us)) w'" using r q wv by (simp add: proceeds_def moved_def)
      ultimately show ?thesis by (auto simp: unclaimed_def u)
    qed
    ultimately show ?thesis by blast
  qed
  show ?case
  proof (cases "is_cooling_down W domain w")
    case True
    show ?thesis
      by (rule go [of "release_to_ready rcpts (tick w)"])
        (use True Cons.prems(1) release_proceeds [OF tick(2) hand dist(1) clock] in \<open>auto simp: u\<close>)
  next
    case False
    with Cons.prems(1) have "w_bind (send_unit W i domain rcpts) (\<lambda>_. run_units W us) (tick w) = (r, w')" by (simp add: u)
    then show ?thesis
    proof (cases rule: w_bind_cases)
      case panic
      have p: "proceeds W ?I (tick w) w'" using send_unit_proceeds [OF panic(1) tick(2) hand dist(1) clock pick] by blast
      have "proceeds W (set (unit_ids (u # us))) w w'"
        by (rule proceeds_trans [OF proceeds_mono [OF tick(1)] proceeds_mono [OF p]]) (auto simp: u)
      with panic(2) show ?thesis by simp
    next
      case (step a v)
      have a: "a = ()" by simp
      have "proceeds W ?I (tick w) v" "faults (wk_queue w) = [] \<and> i \<in> ob_id ` set (outbound (qt w)) \<longrightarrow> unclaimed ?I v"
        using send_unit_proceeds [OF step(1) tick(2) hand dist(1) clock pick] by auto
      from go [OF this step(2)] show ?thesis .
    qed
  qed
qed

section \<open>Scheduled events keep the invariant\<close>

lemma w_meta_run: "w_meta f w = (r, v) \<longleftrightarrow> (\<exists>d. f (ms_meta (wk_mail w)) = (r, d) \<and> v = w\<lparr>wk_mail := (wk_mail w)\<lparr>ms_meta := d\<rparr>\<rparr>)"
  by (auto simp: w_meta_def zoom_def split: prod.splits)

lemma w_meta_query_calm: "w_meta (db_query f) w = (r, v) \<Longrightarrow> calm W w v"
  by (auto simp: w_meta_run calm_def mail_ok_def dest: db_query_tables)

lemma w_meta_ensure_calm:
  assumes "w_meta (ensure_mailbox a role) w = (r, v)"
  shows "calm W w v"
proof -
  obtain d where d: "ensure_mailbox a role (ms_meta (wk_mail w)) = (r, d)" "v = w\<lparr>wk_mail := (wk_mail w)\<lparr>ms_meta := d\<rparr>\<rparr>"
    using assms by (auto simp: w_meta_run)
  show ?thesis using ensure_mailbox_grows [OF d(1), of "wl_mail W"] by (simp add: d(2) calm_def grows_def)
qed

lemma w_meta_keywords_calm:
  assumes "w_meta (update_message i None (Some k)) w = (r, v)"
  shows "calm W w v"
proof -
  let ?f = "\<lambda>m :: stored_message. m\<lparr>msg_keywords := k\<rparr>"
  obtain d where d: "set_message i ?f (ms_meta (wk_mail w)) = (r, d)" "v = w\<lparr>wk_mail := (wk_mail w)\<lparr>ms_meta := d\<rparr>\<rparr>"
    using assms by (auto simp: w_meta_run update_message_def op_bind_def)
  let ?t = "tables (ms_meta (wk_mail w))"
  have "tables d = ?t \<or> tables d = ?t\<lparr>messages := update_where (\<lambda>m. msg_id m = i) ?f (messages ?t)\<rparr>"
    using d(1) unfolding set_message_def by (auto elim!: db_stmt_cases)
  moreover have "meta_ok (?t\<lparr>messages := update_where (\<lambda>m. msg_id m = i) ?f (messages ?t)\<rparr>)" if "meta_ok ?t"
    using that by (simp add: meta_ok_def update_where_keys)
  moreover have "threads_ok (?t\<lparr>messages := update_where (\<lambda>m. msg_id m = i) ?f (messages ?t)\<rparr>)" if "threads_ok ?t"
    using that by (auto simp: threads_ok_def set_update_where)
  ultimately show ?thesis by (auto simp: d(2) calm_def mail_ok_def)
qed

lemma set_event_proceeds:
  assumes "worker_ok W w"
  shows "proceeds W {} w (snd (w_queue (set_event_state s i) w))"
proof -
  obtain r d where d: "set_event_state s i (wk_queue w) = (r, d)" by fastforce
  let ?t = "qt w"
  have t: "tables d = ?t \<or> tables d = ?t\<lparr>scheduled_events := update_where (\<lambda>e. se_id e = i) (\<lambda>e. e\<lparr>se_state := s\<rparr>) (scheduled_events ?t)\<rparr>"
    using d unfolding set_event_state_def by (auto elim!: db_stmt_cases)
  then have "moved {} ?t (tables d)" by (auto simp: moved_def update_where_keys list_all2_same)
  moreover have "outbound (tables d) = outbound ?t" "outbound_rcpt (tables d) = outbound_rcpt ?t" using t by auto
  moreover have "queue_ok (tables d)" using moved_queue_ok [OF calculation(1)] assms by (simp add: worker_ok_def)
  moreover have "faults (wk_queue w) = [] \<longrightarrow> faults d = []" using d by (auto simp: set_event_state_def)
  ultimately show ?thesis using assms d by (simp add: proceeds_def w_queue_def zoom_def worker_ok_def each_row_def)
qed

lemma mark_fired_proceeds: "worker_ok W w \<Longrightarrow> proceeds W {} w (mark_fired ev w)"
  by (simp add: mark_fired_def mark_event_fired_def set_event_proceeds)

lemma calm_then: "calm W u v \<Longrightarrow> worker_ok W u \<Longrightarrow> (worker_ok W v \<Longrightarrow> proceeds W {} v w) \<Longrightarrow> proceeds W {} u w"
  using proceeds_trans calm_proceeds calm_ok by blast

lemma wnotify_calm [simp]: "calm W w (wnotify a w)"
  by (simp add: calm_def)

lemma fire_snooze_proceeds:
  assumes "worker_ok W w"
  shows "proceeds W {} w (fire_snooze_resurface ev w)"
proof (cases "scheduled_message_row_id ev")
  case None
  with mark_fired_proceeds [OF assms] show ?thesis by (simp add: fire_snooze_resurface_def)
next
  case (Some i)
  obtain x w1 where g: "w_meta (get_message i) w = (x, w1)" by fastforce
  have c1: "calm W w w1" using g unfolding get_message_def by (rule w_meta_query_calm)
  show ?thesis
  proof (cases "\<exists>msg. x = Inr (Some msg)")
    case True
    then obtain msg where msg: "x = Inr (Some msg)" by blast
    let ?k = "join '','' (filter (\<lambda>k. k \<noteq> [] \<and> k \<noteq> KEYWORD_SNOOZED) (split_on (CHR '','') (msg_keywords msg)))"
    obtain y w2 where u: "w_meta (update_message i None (Some ?k)) w1 = (y, w2)" by fastforce
    have "fire_snooze_resurface ev w = mark_fired ev (wnotify (se_account_id ev) w2)"
      using Some g msg u by (simp add: fire_snooze_resurface_def Let_def)
    moreover have "calm W w (wnotify (se_account_id ev) w2)"
      by (rule calm_trans [OF calm_trans [OF c1 w_meta_keywords_calm [OF u]] wnotify_calm])
    ultimately show ?thesis using calm_then [OF _ assms mark_fired_proceeds] by simp
  next
    case False
    then have "fire_snooze_resurface ev w = mark_fired ev w1"
      using Some g by (auto simp: fire_snooze_resurface_def split: sum.splits option.splits)
    then show ?thesis using calm_then [OF c1 assms mark_fired_proceeds] by simp
  qed
qed

lemma fire_nudge_proceeds:
  assumes "worker_ok W w"
  shows "proceeds W {} w (fire_followup_nudge ev w)"
proof (cases "Option.bind (se_thread_id ev) parse_i64")
  case None
  with mark_fired_proceeds [OF assms] show ?thesis by (simp add: fire_followup_nudge_def)
next
  case th: (Some th)
  show ?thesis
  proof (cases "scheduled_message_row_id ev")
    case None
    with th mark_fired_proceeds [OF assms] show ?thesis by (simp add: fire_followup_nudge_def)
  next
    case (Some i)
    obtain x w1 where g: "w_meta (get_message i) w = (x, w1)" by fastforce
    have c1: "calm W w w1" using g unfolding get_message_def by (rule w_meta_query_calm)
    show ?thesis
    proof (cases "\<exists>msg. x = Inr (Some msg)")
      case True
      then obtain msg where msg: "x = Inr (Some msg)" by blast
      obtain s w2 where 2: "w_meta (ensure_mailbox (se_account_id ev) ''sent'') w1 = (s, w2)" by fastforce
      obtain d w3 where 3: "w_meta (ensure_mailbox (se_account_id ev) ''drafts'') w2 = (d, w3)" by fastforce
      obtain ms w4 where 4: "w_meta (messages_in_thread (se_account_id ev) th) w3 = (ms, w4)" by fastforce
      obtain y w5 where 5: "w_meta (update_message i None (Some (nudge_keywords (msg_keywords msg)))) w4 = (y, w5)" by fastforce
      have c4: "calm W w w4"
        by (rule calm_trans [OF calm_trans [OF calm_trans [OF c1 w_meta_ensure_calm [OF 2]] w_meta_ensure_calm [OF 3]]
              w_meta_query_calm [OF 4 [unfolded messages_in_thread_def]]])
      have c5: "calm W w w5" by (rule calm_trans [OF c4 w_meta_keywords_calm [OF 5]])
      have "fire_followup_nudge ev w \<in> {snd (w_queue (mark_event_cancelled (se_id ev)) w4),
          mark_fired ev (wnotify (se_account_id ev) w4), mark_fired ev (wnotify (se_account_id ev) w5)}"
        using th Some g msg 2 3 4 5 by (simp add: fire_followup_nudge_def Let_def)
      moreover have "proceeds W {} w (snd (w_queue (mark_event_cancelled (se_id ev)) w4))"
        by (rule calm_then [OF c4 assms]) (simp add: mark_event_cancelled_def set_event_proceeds)
      moreover have "proceeds W {} w (mark_fired ev (wnotify (se_account_id ev) v))" if "calm W w v" for v
        by (rule calm_then [OF calm_trans [OF that wnotify_calm] assms mark_fired_proceeds])
      ultimately show ?thesis using c4 c5 by auto
    next
      case False
      then have "fire_followup_nudge ev w = mark_fired ev w1"
        using th Some g by (auto simp: fire_followup_nudge_def split: sum.splits option.splits)
      then show ?thesis using calm_then [OF c1 assms mark_fired_proceeds] by simp
    qed
  qed
qed

lemma fire_event_proceeds: "worker_ok W w \<Longrightarrow> proceeds W {} w (fire_event ev w)"
  by (auto simp: fire_event_def fire_snooze_proceeds fire_nudge_proceeds mark_fired_proceeds split: option.splits scheduled_kind.splits)

lemma fire_due_proceeds:
  assumes "worker_ok W w"
  shows "proceeds W {} w (fire_due_scheduled_events W w)"
proof -
  obtain x d where q: "due_scheduled_events (wl_unix W (wk_tick w)) (wk_queue w) = (x, d)" by fastforce
  let ?v = "(tick w)\<lparr>wk_queue := d\<rparr>"
  have c: "calm W w ?v"
    using q by (auto simp: due_scheduled_events_def calm_def dest: db_query_tables)
  have "proceeds W {} v (fold fire_event evs v)" if "worker_ok W v" for evs v
    using that
  proof (induction evs arbitrary: v)
    case (Cons ev evs)
    have p: "proceeds W {} v (fire_event ev v)" by (rule fire_event_proceeds [OF Cons.prems])
    then have "worker_ok W (fire_event ev v)" by (simp add: proceeds_def)
    from proceeds_trans [OF p Cons.IH [OF this]] show ?case by simp
  qed (simp add: proceeds_refl)
  then have "proceeds W {} w (fold fire_event evs ?v)" for evs by (rule calm_then [OF c assms])
  with calm_proceeds [OF c assms] q show ?thesis
    by (auto simp: fire_due_scheduled_events_def w_queue_def zoom_def split: sum.splits)
qed

section \<open>One turn of the loop\<close>

lemma proceeds_active:
  assumes "proceeds W (active_ids (qt u)) u v" and "proceeds W I v w" and "I \<subseteq> active_ids (qt v)"
  shows "proceeds W (active_ids (qt u)) u w"
  using assms moved_active_trans [of "qt u" "qt v" I "qt w"] by (auto simp: proceeds_def)

lemma moved_empty: "moved {} t t' \<Longrightarrow> outbound_rcpt t' = outbound_rcpt t"
  by (auto simp: moved_def list_all2_conv_all_nth intro: nth_equalityI)

lemma set_rcpts_proceeds:
  assumes "worker_ok W w"
    and "\<And>r. r \<in> set (outbound_rcpt (qt w)) \<Longrightarrow> p (qt w) r \<Longrightarrow> row_step r (f r) \<and> active r \<and> rc_id r \<in> I"
    and "\<And>r m. r \<in> set (outbound_rcpt (qt w)) \<Longrightarrow> p (qt w) r \<Longrightarrow> m \<in> set (outbound (qt w)) \<Longrightarrow> ob_id m = rc_outbound_id r \<Longrightarrow>
      tries_row m r \<Longrightarrow> tries_row m (f r)"
  shows "proceeds W I w (set_rcpts p f w)"
  using set_rcpts_ok [OF assms(1), of p f] set_rcpts_moved [of w p f I] set_rcpts_run(2,6) assms(2,3) by (auto simp: proceeds_def)

lemma active_idI: "r \<in> set (outbound_rcpt t) \<Longrightarrow> active r \<Longrightarrow> rc_id r \<in> active_ids t"
  by (auto simp: active_ids_def)

lemma reap_proceeds:
  assumes "worker_ok W w"
  shows "proceeds W (active_ids (qt w)) w (reap_stale_claims W w)"
proof -
  have "proceeds W (active_ids (qt w)) (tick w) (reap_stale_claims W w)"
    unfolding reap_stale_claims_def Let_def
    by (rule set_rcpts_proceeds [OF calm_ok [OF tick_calm assms]])
      (auto simp: release_row active_def tries_row_def intro!: active_idI)
  with proceeds_trans [OF calm_proceeds [OF tick_calm assms]] show ?thesis by blast
qed

lemma expire_proceeds:
  assumes "worker_ok W w"
  shows "proceeds W (active_ids (qt w)) w (expire_overdue W w)"
proof -
  have step: "row_step r (r\<lparr>rc_state := ''expired''\<rparr>)" for r
    by (simp add: row_step_def legal_state_def from_db_str_def)
  have tries: "tries_row m (r\<lparr>rc_state := ''expired''\<rparr>)"
    if "r \<in> set (outbound_rcpt (qt w))" "rc_state r \<in> {''ready'', ''deferred''}" "tries_row m r" for m r
  proof -
    have "active r" using that(2) by (auto simp: active_def)
    moreover have "0 \<le> rc_attempts r" using queue_ok_attempts that(1) assms by (auto simp: worker_ok_def)
    ultimately have "rc_attempts r < MAX_ATTEMPTS" by (rule tries_row_bound [OF that(3)])
    then show ?thesis by (simp add: tries_row_def active_def)
  qed
  have "proceeds W (active_ids (qt w)) (tick w) (expire_overdue W w)"
    unfolding expire_overdue_def Let_def
    by (rule set_rcpts_proceeds [OF calm_ok [OF tick_calm assms]])
      (use step tries in \<open>auto simp: active_def intro!: active_idI\<close>)
  with proceeds_trans [OF calm_proceeds [OF tick_calm assms]] show ?thesis by blast
qed

text \<open>A claim takes due, waiting rows and hands each of them out once.\<close>

definition waiting :: "rcpt_row \<Rightarrow> bool" where
  "waiting r \<longleftrightarrow> rc_state r \<in> {''ready'', ''deferred''}"

definition waiting_ids :: "queue_tables \<Rightarrow> int set" where
  "waiting_ids t = {rc_id r |r. r \<in> set (outbound_rcpt t) \<and> waiting r}"

lemma waiting_active: "waiting r \<Longrightarrow> active r"
  by (auto simp: waiting_def active_def)

lemma waiting_ids_active: "waiting_ids t \<subseteq> active_ids t"
  by (auto simp: waiting_ids_def active_ids_def waiting_active)

lemma waiting_idI: "r \<in> set (outbound_rcpt t) \<Longrightarrow> waiting r \<Longrightarrow> rc_id r \<in> waiting_ids t"
  by (auto simp: waiting_ids_def)

definition handed_out :: "worker_lib \<Rightarrow> worker_state \<Rightarrow> worker_state \<Rightarrow> (int \<times> claimed_rcpt) list \<Rightarrow> bool" where
  "handed_out W w w' claimed \<longleftrightarrow> distinct (map (cr_id \<circ> snd) claimed) \<and>
     list_all (\<lambda>(i, rcpt). in_hand W i w' rcpt \<and> i \<in> ob_id ` set (outbound (qt w)) \<and> cr_id rcpt \<in> waiting_ids (qt w)) claimed \<and>
     list_all (\<lambda>r. rc_state r = ''claimed'' \<longrightarrow> rc_id r \<in> (cr_id \<circ> snd) ` set claimed \<or> r \<in> set (outbound_rcpt (qt w))) (outbound_rcpt (qt w'))"

lemma claim_due_rows:
  assumes "orders_ok W" and "r \<in> set (claim_due W n now limit t)"
  shows "r \<in> set (outbound_rcpt t)" and "waiting r" and "rc_next_attempt_at r \<le> now"
proof -
  have "set (sql_limit limit xs) \<subseteq> set xs" for xs :: "rcpt_row list" by (auto simp: sql_limit_def dest: in_set_takeD)
  with assms have "r \<in> set (filter (\<lambda>r. rc_state r \<in> {''ready'', ''deferred''} \<and> rc_next_attempt_at r \<le> now) (outbound_rcpt t))"
    unfolding claim_due_def orders_ok_def by blast
  then show "r \<in> set (outbound_rcpt t)" "waiting r" "rc_next_attempt_at r \<le> now" by (auto simp: waiting_def)
qed

lemma distinct_rows: "distinct (map rc_id rows) \<Longrightarrow> r \<in> set rows \<Longrightarrow> s \<in> set rows \<Longrightarrow> rc_id r = rc_id s \<Longrightarrow> r = s"
  by (metis tbl_get_unique option.inject)

lemma claim_rows_handed_out:
  assumes ok: "worker_ok W w" and ord: "orders_ok W" and now: "now \<le> wl_unix W (wk_tick w')" and mail: "wk_mail w' = wk_mail w"
    and run: "claim_rows W n now limit (qt w) = (Inr rows, qt w')" and tk: "wk_tick w \<le> wk_tick w'"
    and fl: "faults (wk_queue w) = [] \<longrightarrow> faults (wk_queue w') = []"
  shows "proceeds W (waiting_ids (qt w)) w w'" and "handed_out W w w' (map row_to_claimed rows)"
proof -
  let ?f = "\<lambda>r. r\<lparr>rc_state := ''claimed'', rc_claimed_by := Some WORKER_ID, rc_claimed_at := Some now\<rparr>"
  define ids where "ids = set (map rc_id (claim_due W n now limit (qt w)))"
  let ?p = "\<lambda>r. rc_id r \<in> ids"
  have t': "qt w' = (qt w)\<lparr>outbound_rcpt := update_where ?p ?f (outbound_rcpt (qt w))\<rparr>"
    and "rows = wl_returning W n (filter ?p (update_where ?p ?f (outbound_rcpt (qt w))))"
    using run unfolding claim_rows_def Let_def ids_def [symmetric] by auto
  then have "rows = wl_returning W n (filter ?p (outbound_rcpt (qt w')))" by simp
  then have rows: "mset rows = mset (filter ?p (outbound_rcpt (qt w')))" using ord by (simp add: orders_ok_def)
  have q: "queue_ok (qt w)" using ok by (simp add: worker_ok_def)
  then have dist: "distinct (map rc_id (outbound_rcpt (qt w)))" by (simp add: queue_ok_def)
  have due: "waiting r \<and> rc_next_attempt_at r \<le> now" if r: "r \<in> set (outbound_rcpt (qt w))" "?p r" for r
  proof -
    obtain s where s: "s \<in> set (claim_due W n now limit (qt w))" "rc_id s = rc_id r" using r(2) by (auto simp: ids_def)
    have "s = r" using distinct_rows [OF dist claim_due_rows(1) [OF ord s(1)] r(1) s(2)] .
    with claim_due_rows(2,3) [OF ord s(1)] show ?thesis by simp
  qed
  have step: "row_step r (?f r)" for r by (simp add: row_step_def legal_state_def from_db_str_def)
  have mv: "moved (waiting_ids (qt w)) (qt w) (qt w')"
    unfolding t' by (rule update_moved) (use step due in \<open>auto intro: waiting_idI\<close>)
  have each: "each_row P (qt w')" if "each_row P (qt w)" "\<And>m r. P m r \<Longrightarrow> active r \<Longrightarrow> P m (?f r)" for P
    unfolding each_row_def
  proof (intro ballI impI)
    fix r' m assume r': "r' \<in> set (outbound_rcpt (qt w'))" "m \<in> set (outbound (qt w'))" "ob_id m = rc_outbound_id r'"
    obtain r where r: "r \<in> set (outbound_rcpt (qt w))" "r' = (if ?p r then ?f r else r)"
      using r'(1) unfolding t' by (auto simp: set_update_where)
    have "P m r" using that(1) r r'(2,3) unfolding each_row_def by (auto simp: t' split: if_splits)
    with that(2) due [OF r(1)] waiting_active r(2) show "P m r'" by auto
  qed
  have "each_row tries_row (qt w')" by (rule each) (use ok in \<open>auto simp: worker_ok_def tries_row_def active_def\<close>)
  moreover have "each_row (held_row (held_blobs w)) (qt w')" by (rule each) (use ok in \<open>auto simp: worker_ok_def held_row_def\<close>)
  ultimately show "proceeds W (waiting_ids (qt w)) w w'"
    using ok mail tk fl mv moved_queue_ok [OF mv q] by (simp add: proceeds_def worker_ok_def)
  have dist': "distinct (map rc_id (outbound_rcpt (qt w')))" using moved_ids [OF mv] dist by simp
  have in_rows: "r \<in> set rows \<longleftrightarrow> r \<in> set (outbound_rcpt (qt w')) \<and> ?p r" for r using mset_eq_setD [OF rows] by auto
  have row': "\<exists>x \<in> set (outbound_rcpt (qt w)). ?p x \<and> r = ?f x" if "r \<in> set rows" for r
  proof -
    have "r \<in> set (outbound_rcpt (qt w'))" "?p r" using that in_rows by auto
    then show ?thesis unfolding t' by (auto simp: set_update_where split: if_splits)
  qed
  have "in_hand W (fst (row_to_claimed r)) w' (snd (row_to_claimed r)) \<and> fst (row_to_claimed r) \<in> ob_id ` set (outbound (qt w)) \<and>
      cr_id (snd (row_to_claimed r)) \<in> waiting_ids (qt w)" if r: "r \<in> set rows" for r
  proof -
    obtain x where x: "x \<in> set (outbound_rcpt (qt w))" "?p x" "r = ?f x" using row' [OF r] by blast
    have r': "r \<in> set (outbound_rcpt (qt w'))" using r in_rows by blast
    have "in_hand W (fst (row_to_claimed r)) w' (snd (row_to_claimed r))"
      unfolding in_hand_def
    proof (intro ballI impI)
      fix s assume "s \<in> set (outbound_rcpt (qt w'))" "rc_id s = cr_id (snd (row_to_claimed r))"
      then have "s = r" using distinct_rows [OF dist' _ r'] by (simp add: row_to_claimed_def)
      with x due [OF x(1,2)] now show "rc_state s = ''claimed'' \<and> rc_attempts s = cr_attempts (snd (row_to_claimed r)) \<and>
          rc_outbound_id s = fst (row_to_claimed r) \<and> rc_next_attempt_at s \<le> wl_unix W (wk_tick w')"
        by (simp add: row_to_claimed_def)
    qed
    moreover have "rc_outbound_id x \<in> ob_id ` set (outbound (qt w))" using q x(1) by (simp add: queue_ok_def list_all_iff)
    moreover have "rc_id x \<in> waiting_ids (qt w)" using waiting_idI [OF x(1)] due [OF x(1,2)] by blast
    ultimately show ?thesis by (simp add: row_to_claimed_def x(3))
  qed
  moreover have "distinct (map rc_id rows)"
  proof -
    have "mset (map rc_id rows) = mset (map rc_id (filter ?p (outbound_rcpt (qt w'))))" by (simp add: rows)
    moreover have "distinct (map rc_id (filter ?p (outbound_rcpt (qt w'))))" by (rule distinct_map_filter [OF dist'])
    ultimately show ?thesis using mset_eq_imp_distinct_iff by blast
  qed
  moreover have "rc_id r \<in> rc_id ` set rows \<or> r \<in> set (outbound_rcpt (qt w))" if "r \<in> set (outbound_rcpt (qt w'))" for r
  proof (cases "?p r")
    case True
    with that in_rows show ?thesis by blast
  next
    case False
    with that show ?thesis unfolding t' by (auto simp: set_update_where split: if_splits)
  qed
  ultimately show "handed_out W w w' (map row_to_claimed rows)"
    by (auto simp: handed_out_def list_all_iff o_def row_to_claimed_def image_iff)
qed

lemma claim_batch_run:
  assumes run: "claim_batch W now limit w = (r, w')" and ok: "worker_ok W w" and ord: "orders_ok W" and clock: "clock_ok W"
    and now: "now \<le> wl_unix W (wk_tick w)"
  shows "proceeds W (waiting_ids (qt w)) w w' \<and> (\<forall>claimed. r = Returned claimed \<longrightarrow> handed_out W w w' claimed) \<and>
    (faults (wk_queue w) = [] \<longrightarrow> r \<noteq> Panicked)"
proof -
  obtain x d1 where 1: "db_query (\<lambda>_. ()) (wk_queue w) = (x, d1)" by fastforce
  have t1: "tables d1 = qt w" "faults (wk_queue w) = [] \<Longrightarrow> faults d1 = [] \<and> x = Inr ()" using db_query_tables [OF 1] 1 by auto
  let ?w1 = "w\<lparr>wk_queue := d1\<rparr>"
  have c1: "calm W w ?w1" using t1 by (simp add: calm_def)
  have nothing': "handed_out W w v []" if "qt v = qt w" for v using that by (simp add: handed_out_def list_all_iff)
  show ?thesis
  proof (cases x)
    case (Inl e)
    then have "r = Panicked" "w' = ?w1" using run 1 by (simp_all add: claim_batch_def w_queue_def zoom_def)
    with calm_proceeds [OF c1 ok] t1(2) Inl show ?thesis by auto
  next
    case (Inr u)
    obtain y d2 where 2: "db_stmt (claim_rows W (wk_tick w) now limit) d1 = (y, d2)" by fastforce
    let ?w2 = "w\<lparr>wk_queue := d2\<rparr>"
    have r: "w' = tick ?w2" "r = Returned (case y of Inl _ \<Rightarrow> [] | Inr rows \<Rightarrow> map row_to_claimed rows)"
      using run 1 2 Inr by (auto simp: claim_batch_def w_queue_def zoom_def split: sum.splits)
    have f: "faults (wk_queue w) = [] \<longrightarrow> faults d2 = []" using t1(2) 2 by auto
    from 2 show ?thesis
    proof (cases rule: db_stmt_cases)
      case (failed msg)
      have c: "calm W w w'" using failed(2) t1(1) f by (simp add: r(1) calm_def)
      with calm_proceeds [OF c ok] nothing' [of w'] failed r show ?thesis by (simp add: calm_def)
    next
      case ran
      then obtain rows where rows: "y = Inr rows" by (auto simp: claim_rows_def Let_def)
      have cr: "claim_rows W (wk_tick w) now limit (qt w) = (Inr rows, qt w')" using ran rows t1(1) r(1) by simp
      have "now \<le> wl_unix W (wk_tick w')"
        using now clock monoD [of "wl_unix W" "wk_tick w" "Suc (wk_tick w)"] r(1) by (simp add: clock_ok_def)
      from claim_rows_handed_out [OF ok ord this _ cr] f r rows show ?thesis by simp
    qed
  qed
qed

definition unit_pairs :: "send_unit list \<Rightarrow> (int \<times> claimed_rcpt) list" where
  "unit_pairs us = concat (map (\<lambda>u. map (Pair (fst (fst u))) (snd u)) us)"

lemma push_unit_pairs: "mset (unit_pairs (push_unit p us)) = add_mset p (mset (unit_pairs us))"
  by (induction p us rule: push_unit.induct) (auto simp: unit_pairs_def)

lemma group_units_pairs: "mset (unit_pairs (group_units ps)) = mset ps"
proof -
  have "mset (unit_pairs (fold push_unit ps us)) = mset ps + mset (unit_pairs us)" for us
    by (induction ps arbitrary: us) (simp_all add: push_unit_pairs)
  from this [of "[]"] show ?thesis by (simp add: group_units_def unit_pairs_def)
qed

lemma mset_concat_map: "mset xs = mset ys \<Longrightarrow> mset (concat (map f xs)) = mset (concat (map f ys))"
proof -
  have "mset (concat (map f zs)) = (\<Sum>x \<in># mset zs. mset (f x))" for zs by (induction zs) auto
  then show "mset xs = mset ys \<Longrightarrow> mset (concat (map f xs)) = mset (concat (map f ys))" by simp
qed

lemma unit_ids_pairs: "unit_ids us = map (cr_id \<circ> snd) (unit_pairs us)"
  by (induction us) (simp_all add: unit_ids_def unit_pairs_def)

lemma units_in_hand:
  assumes "handed_out W w w' claimed" and "orders_ok W" and us: "us = wl_unit_order W n (group_units claimed)"
  shows "list_all (\<lambda>u. list_all (in_hand W (fst (fst u)) w') (snd u)) us" and "distinct (unit_ids us)"
    and "set (unit_ids us) = (cr_id \<circ> snd) ` set claimed"
    and "u \<in> set us \<Longrightarrow> snd u \<noteq> [] \<Longrightarrow> fst (fst u) \<in> ob_id ` set (outbound (qt w))"
proof -
  have "mset us = mset (group_units claimed)" using assms(2) us by (simp add: orders_ok_def)
  then have pairs: "mset (unit_pairs us) = mset claimed"
    using mset_concat_map [of us "group_units claimed" "\<lambda>u. map (Pair (fst (fst u))) (snd u)"] group_units_pairs [of claimed]
    by (simp add: unit_pairs_def)
  have mem: "(fst (fst u), rcpt) \<in> set claimed" if "u \<in> set us" "rcpt \<in> set (snd u)" for u rcpt
    using mset_eq_setD [OF pairs] that by (force simp: unit_pairs_def)
  show "list_all (\<lambda>u. list_all (in_hand W (fst (fst u)) w') (snd u)) us"
    using assms(1) mem by (fastforce simp: handed_out_def list_all_iff)
  have "mset (map (cr_id \<circ> snd) (unit_pairs us)) = mset (map (cr_id \<circ> snd) claimed)" by (simp add: pairs)
  then have "distinct (map (cr_id \<circ> snd) (unit_pairs us)) = distinct (map (cr_id \<circ> snd) claimed)" by (rule mset_eq_imp_distinct_iff)
  then show "distinct (unit_ids us)" using assms(1) by (simp add: unit_ids_pairs handed_out_def)
  show "set (unit_ids us) = (cr_id \<circ> snd) ` set claimed" using mset_eq_setD [OF pairs] by (simp add: unit_ids_pairs)
  assume "u \<in> set us" "snd u \<noteq> []"
  then obtain rcpt where "(fst (fst u), rcpt) \<in> set claimed" using mem [of u "hd (snd u)"] by auto
  with assms(1) show "fst (fst u) \<in> ob_id ` set (outbound (qt w))" by (auto simp: handed_out_def list_all_iff)
qed

lemma push_unit_nonempty: "list_all (\<lambda>u. snd u \<noteq> []) us \<Longrightarrow> list_all (\<lambda>u. snd u \<noteq> []) (push_unit p us)"
  by (induction p us rule: push_unit.induct) auto

lemma group_units_nonempty: "list_all (\<lambda>u. snd u \<noteq> []) (group_units ps)"
proof -
  have "list_all (\<lambda>u. snd u \<noteq> []) us \<Longrightarrow> list_all (\<lambda>u. snd u \<noteq> []) (fold push_unit ps us)" for us
    by (induction ps arbitrary: us) (simp_all add: push_unit_nonempty)
  then show ?thesis by (simp add: group_units_def)
qed

text \<open>The housekeeping before the claim.\<close>

definition housekept :: "worker_lib \<Rightarrow> worker_state \<Rightarrow> worker_state" where
  "housekept W w = fire_due_scheduled_events W (expire_overdue W (reap_stale_claims W w))"

lemma housekept_proceeds:
  assumes "worker_ok W w"
  shows "proceeds W (active_ids (qt w)) w (housekept W w)"
proof -
  have 1: "proceeds W (active_ids (qt w)) w (reap_stale_claims W w)" by (rule reap_proceeds [OF assms])
  then have "worker_ok W (reap_stale_claims W w)" by (simp add: proceeds_def)
  from expire_proceeds [OF this] have 2: "proceeds W (active_ids (qt w)) w (expire_overdue W (reap_stale_claims W w))"
    using proceeds_active [OF 1] by blast
  then have "worker_ok W (expire_overdue W (reap_stale_claims W w))" by (simp add: proceeds_def)
  from fire_due_proceeds [OF this] proceeds_active [OF 2] show ?thesis unfolding housekept_def by blast
qed

text \<open>Every pass, whatever fails in it: the invariant is kept and only active rows change; a pass of a healthy queue
  that returns leaves claimed only what was claimed when it claimed its batch.\<close>

lemma worker_pass_run:
  assumes run: "worker_pass W w = (r, w')" and ok: "worker_ok W w" and ord: "orders_ok W" and clock: "clock_ok W"
    and pick: "picks_member (ml_pick (wl_mail W))"
  shows "proceeds W (active_ids (qt w)) w w'"
    and "proceeds W (waiting_ids (qt (housekept W w))) (housekept W w) w'"
    and "faults (wk_queue w) = [] \<Longrightarrow> r = Returned b \<Longrightarrow> x \<in> set (outbound_rcpt (qt w')) \<Longrightarrow> rc_state x = ''claimed'' \<Longrightarrow>
      x \<in> set (outbound_rcpt (qt (housekept W w)))"
proof -
  let ?h = "housekept W w" let ?I = "waiting_ids (qt ?h)" let ?now = "wl_unix W (wk_tick ?h)"
  have h: "proceeds W (active_ids (qt w)) w ?h" by (rule housekept_proceeds [OF ok])
  then have okh: "worker_ok W ?h" and fh: "faults (wk_queue w) = [] \<longrightarrow> faults (wk_queue ?h) = []" by (simp_all add: proceeds_def)
  have th: "proceeds W ?I ?h (tick ?h)" "worker_ok W (tick ?h)" using calm_proceeds [OF tick_calm okh] calm_ok [OF tick_calm okh] by blast+
  have now: "?now \<le> wl_unix W (wk_tick (tick ?h))" using clock monoD [of "wl_unix W" "wk_tick ?h" "Suc (wk_tick ?h)"] by (simp add: clock_ok_def)
  have "proceeds W ?I ?h w' \<and>
    (faults (wk_queue w) = [] \<and> r = Returned b \<and> x \<in> set (outbound_rcpt (qt w')) \<and> rc_state x = ''claimed'' \<longrightarrow> x \<in> set (outbound_rcpt (qt ?h)))"
    using run unfolding worker_pass_def Let_def housekept_def [symmetric]
  proof (cases rule: w_bind_cases)
    case panic
    have "proceeds W ?I (tick ?h) w'" using claim_batch_run [OF panic(1) th(2) ord clock now] by simp
    from proceeds_trans [OF th(1) this] panic(2) show ?thesis by simp
  next
    case (step claimed v)
    have v: "proceeds W ?I ?h v" "handed_out W (tick ?h) v claimed" "worker_ok W v"
    proof -
      have c: "proceeds W ?I (tick ?h) v" "handed_out W (tick ?h) v claimed"
        using claim_batch_run [OF step(1) th(2) ord clock now] by simp_all
      from proceeds_trans [OF th(1) c(1)] c show "proceeds W ?I ?h v" "handed_out W (tick ?h) v claimed" "worker_ok W v"
        by (simp_all add: proceeds_def)
    qed
    have claimed_rows: "rc_id y \<in> (cr_id \<circ> snd) ` set claimed \<or> y \<in> set (outbound_rcpt (qt ?h))"
      if "y \<in> set (outbound_rcpt (qt v))" "rc_state y = ''claimed''" for y
      using v(2) that by (auto simp: handed_out_def list_all_iff)
    show ?thesis
    proof (cases "claimed = []")
      case True
      with step(2) v(1) claimed_rows show ?thesis by auto
    next
      case False
      let ?us = "wl_unit_order W (wk_tick v) (group_units claimed)"
      note us = units_in_hand [where us = ?us and n = "wk_tick v", OF v(2) ord refl]
      have run': "w_bind (run_units W ?us) (\<lambda>_ w. (Returned False, w)) v = (r, w')" using step(2) False by simp
      obtain a where ru: "run_units W ?us v = (a, w')" and a: "r = Returned b \<Longrightarrow> a = Returned ()"
        using run' by (cases rule: w_bind_cases) (auto intro: that)
      have units: "proceeds W (set (unit_ids ?us)) v w' \<and>
          (faults (wk_queue v) = [] \<and> a = Returned () \<and> list_all (\<lambda>u. fst (fst u) \<in> ob_id ` set (outbound (qt v))) ?us \<longrightarrow>
             unclaimed (set (unit_ids ?us)) w')"
        by (rule run_units_proceeds [OF ru v(3) us(1,2) clock pick])
      have "set (unit_ids ?us) \<subseteq> ?I" using v(2) us(3) by (auto simp: handed_out_def list_all_iff)
      then have "proceeds W ?I ?h w'" using proceeds_trans [OF v(1) proceeds_mono] units by blast
      moreover have "x \<in> set (outbound_rcpt (qt ?h))"
        if q: "faults (wk_queue w) = []" "r = Returned b" "x \<in> set (outbound_rcpt (qt w'))" "rc_state x = ''claimed''"
      proof -
        have "outbound (qt v) = outbound (qt (tick ?h))" using v(1) by (simp add: proceeds_def moved_def)
        moreover have "list_all (\<lambda>u. snd u \<noteq> []) ?us"
        proof -
          have "set ?us = set (group_units claimed)" using ord mset_eq_setD unfolding orders_ok_def by blast
          then show ?thesis using group_units_nonempty [of claimed] by (simp add: list_all_iff)
        qed
        ultimately have "list_all (\<lambda>u. fst (fst u) \<in> ob_id ` set (outbound (qt v))) ?us" using us(4) by (simp add: list_all_iff)
        then have "unclaimed (set (unit_ids ?us)) w'" using units q fh v(1) a by (auto simp: proceeds_def)
        with q have x: "rc_id x \<notin> set (unit_ids ?us)" by (auto simp: unclaimed_def)
        obtain y where "y \<in> set (outbound_rcpt (qt v))" "row_step y x" "rc_id y \<notin> set (unit_ids ?us) \<Longrightarrow> x = y"
          using units [THEN conjunct1] q(3) by (rule proceeds_row) blast
        with x claimed_rows [of x] q(4) us(3) show ?thesis by (auto simp: row_step_def)
      qed
      ultimately show ?thesis by blast
    qed
  qed
  then show "proceeds W ?I ?h w'"
    and "faults (wk_queue w) = [] \<Longrightarrow> r = Returned b \<Longrightarrow> x \<in> set (outbound_rcpt (qt w')) \<Longrightarrow> rc_state x = ''claimed'' \<Longrightarrow>
      x \<in> set (outbound_rcpt (qt ?h))" by blast+
  from proceeds_active [OF h this(1) waiting_ids_active] show "proceeds W (active_ids (qt w)) w w'" .
qed

end
