(* ===== verification/Queue_Life.thy ===== *)
theory Queue_Life
  imports Queue_Worker
begin

text \<open>
  The life of queued mail: what holds in every state that accepting messages, making keys, passes of the worker and local
  deliveries can reach, in any order, with any failures and panics in between. The worker and the servers share
  one queue database and one blob directory. Each of these operations is one step: an \<open>enqueue\<close> that overlaps
  the removal of a blob with the very same content is outside this model (the code does not exclude it).
\<close>

section \<open>Reachable states\<close>

definition spool_of :: "worker_state \<Rightarrow> spool" where
  "spool_of w = \<lparr>sp_queue = wk_queue w, sp_blobs = ms_blobs (wk_mail w)\<rparr>"

definition with_spool :: "spool \<Rightarrow> worker_state \<Rightarrow> worker_state" where
  "with_spool s w = w\<lparr>wk_queue := sp_queue s, wk_mail := (wk_mail w)\<lparr>ms_blobs := sp_blobs s\<rparr>\<rparr>"

inductive queue_runs :: "worker_lib \<Rightarrow> worker_state \<Rightarrow> worker_state \<Rightarrow> bool" for W w where
  start: "queue_runs W w w"
| accept: "queue_runs W w v \<Longrightarrow> enqueue (ml_sha256_hex (wl_mail W)) torn dl key now new (spool_of v) = (r, s) \<Longrightarrow>
    queue_runs W w (with_spool s v)"
| key: "queue_runs W w v \<Longrightarrow> ensure_dkim_key dl now dn (wk_queue v) = (r, q) \<Longrightarrow> queue_runs W w (v\<lparr>wk_queue := q\<rparr>)"
| pass: "queue_runs W w v \<Longrightarrow> worker_pass W v = (r, v') \<Longrightarrow> queue_runs W w v'"
| receive: "queue_runs W w v \<Longrightarrow> deliver (wl_mail W) rnd account envelope auth raw now spam scan (wk_mail v) = (r, s) \<Longrightarrow>
    queue_runs W w (v\<lparr>wk_mail := s\<rparr>)"

text \<open>What is relied on: the clock, the orders, and the choice among rows.\<close>

definition lib_ok :: "worker_lib \<Rightarrow> bool" where
  "lib_ok W \<longleftrightarrow> orders_ok W \<and> clock_ok W \<and> picks_member (ml_pick (wl_mail W))"

text \<open>How a state follows another: messages and recipients are never lost, and a settled recipient is final.\<close>

definition follows :: "queue_tables \<Rightarrow> queue_tables \<Rightarrow> bool" where
  "follows t t' \<longleftrightarrow> set (outbound t) \<subseteq> set (outbound t') \<and>
     (\<forall>r \<in> set (outbound_rcpt t). \<exists>r' \<in> set (outbound_rcpt t'). row_step r r' \<and> (\<not> active r \<longrightarrow> r' = r))"

lemma follows_grow: "set (outbound t) \<subseteq> set (outbound t') \<Longrightarrow> set (outbound_rcpt t) \<subseteq> set (outbound_rcpt t') \<Longrightarrow> follows t t'"
  unfolding follows_def using row_step_refl by blast

lemma follows_refl: "follows t t"
  by (simp add: follows_grow)

lemma follows_trans:
  assumes "follows t u" and "follows u v"
  shows "follows t v"
  unfolding follows_def
proof (intro conjI ballI)
  show "set (outbound t) \<subseteq> set (outbound v)" using assms by (auto simp: follows_def)
  fix r assume "r \<in> set (outbound_rcpt t)"
  then obtain s where s: "s \<in> set (outbound_rcpt u)" "row_step r s" "\<not> active r \<longrightarrow> s = r" using assms(1) by (auto simp: follows_def)
  obtain r' where r': "r' \<in> set (outbound_rcpt v)" "row_step s r'" "\<not> active s \<longrightarrow> r' = s" using assms(2) s(1) by (auto simp: follows_def)
  from row_step_trans [OF s(2) r'(2)] s r' show "\<exists>r' \<in> set (outbound_rcpt v). row_step r r' \<and> (\<not> active r \<longrightarrow> r' = r)" by auto
qed

lemma moved_follows:
  assumes "moved (active_ids t) t t'" and "distinct (map rc_id (outbound_rcpt t))"
  shows "follows t t'"
  unfolding follows_def
proof (intro conjI ballI)
  show "set (outbound t) \<subseteq> set (outbound t')" using assms(1) by (simp add: moved_def)
  fix r assume r: "r \<in> set (outbound_rcpt t)"
  obtain r' where r': "r' \<in> set (outbound_rcpt t')" "row_step r r'" "rc_id r \<notin> active_ids t \<Longrightarrow> r' = r"
    using assms(1) r by (rule moved_row_back) blast
  have "rc_id r \<notin> active_ids t" if "\<not> active r"
    using distinct_rows [OF assms(2) r] that by (auto simp: active_ids_def)
  with r' show "\<exists>r' \<in> set (outbound_rcpt t'). row_step r r' \<and> (\<not> active r \<longrightarrow> r' = r)" by blast
qed

text \<open>Accepting a message keeps the worker's invariant.\<close>

lemma accept_keeps:
  assumes run: "enqueue (ml_sha256_hex (wl_mail W)) torn dl key now new (spool_of v) = (r, s)" and ok: "worker_ok W v" and rate: "rate_ok (qt v)"
  shows "worker_ok W (with_spool s v)" and "rate_ok (qt (with_spool s v))" and "follows (qt v) (qt (with_spool s v))"
proof -
  let ?h = "ml_sha256_hex (wl_mail W)"
  have q: "queue_ok (tables (sp_queue (spool_of v)))" using ok by (simp add: worker_ok_def spool_of_def)
  have wr: "blobs_intact ?h b' \<and> (\<forall>k c. held_blobs v k = Some c \<longrightarrow> contents b' k = Some c)"
    if "blob_write ?h torn b (ms_blobs (wk_mail v)) = (x, b')" for b x b'
    using blobs.put_intact [of ?h "ms_blobs (wk_mail v)" torn b] blobs.put_frame [of "ms_blobs (wk_mail v)" _ _ ?h torn b] that ok
    by (simp add: blobs_intact_iff worker_ok_def mail_ok_def)
  have keep: "worker_ok W (with_spool s v)" if "tables (sp_queue s) = qt v" "blobs_intact ?h (sp_blobs s)"
      "\<forall>k c. held_blobs v k = Some c \<longrightarrow> contents (sp_blobs s) k = Some c"
    using ok that by (fastforce simp: worker_ok_def with_spool_def mail_ok_def each_row_def held_row_def)
  have "worker_ok W (with_spool s v) \<and> rate_ok (qt (with_spool s v)) \<and> follows (qt v) (qt (with_spool s v))"
    using run q
  proof (cases rule: enqueue_cases)
    case (refused e)
    then have "with_spool s v = v" by (simp add: with_spool_def spool_of_def)
    with ok rate follows_refl show ?thesis by simp
  next
    case (blob e)
    then have t: "tables (sp_queue s) = qt v" by (simp add: spool_of_def)
    obtain b x where "blob_write ?h torn b (ms_blobs (wk_mail v)) = (x, sp_blobs s)" using blob(4) by (auto simp: spool_of_def)
    from keep [OF t] wr [OF this] t rate follows_refl show ?thesis by (simp add: with_spool_def)
  next
    case (rows n m)
    have acc: "accepted ?h dl key now new n m (qt v) (tables (sp_queue s))" using rows(1) by (simp add: spool_of_def)
    obtain b where b: "blob_write ?h torn b (ms_blobs (wk_mail v)) = (Inr (ob_message_blob m), sp_blobs s)" using rows(2) by (auto simp: spool_of_def)
    have held: "contents (sp_blobs s) (ob_message_blob m) \<noteq> None" using blob_write_contents(2) [OF b] by blast
    obtain rs where rs: "rows_for (ob_id m) now (take n (no_recipients new)) rs"
      "tables (sp_queue s) = (qt v)\<lparr>outbound := outbound (qt v) @ [m], outbound_rcpt := outbound_rcpt (qt v) @ rs\<rparr>" and
      m: "ob_id m \<notin> ob_id ` set (outbound (qt v))" "queued_message ?h dl key now new m"
      using acc unfolding accepted_def by blast
    have fk: "rc_outbound_id x \<in> ob_id ` set (outbound (qt v))" if "x \<in> set (outbound_rcpt (qt v))" for x
      using ok that by (simp add: worker_ok_def queue_ok_def list_all_iff)
    have each: "each_row P (tables (sp_queue s))" if "each_row P (qt v)" "\<And>x. x \<in> set rs \<Longrightarrow> P m x" for P
      unfolding each_row_def
    proof (intro ballI impI)
      fix x y assume xy: "x \<in> set (outbound_rcpt (tables (sp_queue s)))" "y \<in> set (outbound (tables (sp_queue s)))" "ob_id y = rc_outbound_id x"
      show "P y x"
      proof (cases "x \<in> set rs")
        case True
        then have "ob_id y = ob_id m" using rows_for_fields(3) [OF rs(1)] xy(3) by simp
        then have "y = m" using xy(2) m(1) rs(2) by (auto simp: image_iff)
        with that(2) [OF True] show ?thesis by simp
      next
        case False
        then have x: "x \<in> set (outbound_rcpt (qt v))" using xy(1) rs(2) by simp
        then have "y \<noteq> m" using fk xy(3) m(1) by metis
        with that(1) x xy rs(2) show ?thesis by (simp add: each_row_def)
      qed
    qed
    have "tries_row m x" if "x \<in> set rs" for x
      using rows_for_fields(3) [OF rs(1) that] m(2) by (simp add: tries_row_def active_def queued_message_def)
    then have "each_row tries_row (tables (sp_queue s))" using ok by (intro each) (auto simp: worker_ok_def)
    moreover have "each_row (held_row (held_blobs v)) (qt v)" using ok by (simp add: worker_ok_def)
    then have "each_row (held_row (contents (sp_blobs s))) (qt v)" using wr [OF b] by (fastforce simp: each_row_def held_row_def)
    then have "each_row (held_row (contents (sp_blobs s))) (tables (sp_queue s))" by (rule each) (simp add: held_row_def held)
    moreover have "queue_ok (tables (sp_queue s))" by (rule accepted_queue_ok [OF acc]) (use ok in \<open>simp add: worker_ok_def\<close>)
    ultimately have "worker_ok W (with_spool s v)" using ok wr [OF b] by (simp add: worker_ok_def with_spool_def mail_ok_def)
    moreover have "rate_ok (tables (sp_queue s))" by (rule accepted_rate_ok [OF acc _ rate]) (use ok in \<open>simp add: worker_ok_def\<close>)
    moreover have "follows (qt v) (tables (sp_queue s))" by (rule follows_grow) (auto simp: rs(2))
    ultimately show ?thesis by (simp add: with_spool_def)
  qed
  then show "worker_ok W (with_spool s v)" "rate_ok (qt (with_spool s v))" "follows (qt v) (qt (with_spool s v))" by blast+
qed

lemma deliver_keeps_blobs:
  assumes "deliver ml rnd account envelope auth raw now spam scan s = (r, s')" and "picks_member (ml_pick ml)" and "mail_ok (ml_sha256_hex ml) s"
  shows "mail_ok (ml_sha256_hex ml) s' \<and> (\<forall>k c. contents (ms_blobs s) k = Some c \<longrightarrow> contents (ms_blobs s') k = Some c)"
proof (cases "\<exists>dm. r = Returned (Inr dm)")
  case True
  then obtain dm where "r = Returned (Inr dm)" by blast
  from deliver_succeeds [OF assms(1) [unfolded this] assms(2,3)] show ?thesis by blast
next
  case False
  from deliver_fails [OF assms] False show ?thesis by (auto simp: grows_def)
qed

lemma queue_runs_keep:
  assumes "queue_runs W w w'" and "worker_ok W w" and "rate_ok (qt w)" and "lib_ok W"
  shows "worker_ok W w' \<and> rate_ok (qt w') \<and> follows (qt w) (qt w')"
  using assms(1)
proof (induction rule: queue_runs.induct)
  case start
  with assms(2,3) follows_refl show ?case by simp
next
  case (accept v torn dl key now new r s)
  with accept_keeps [OF accept(2)] follows_trans show ?case by blast
next
  case (key v dl now dn r q)
  note k = ensure_dkim_key_keeps [OF key(2)]
  have "follows (qt v) (tables q)" by (rule follows_grow) (simp_all add: k)
  with key k follows_trans show ?case by (fastforce simp: worker_ok_def each_row_def)
next
  case (pass v r v')
  have lib: "orders_ok W" "clock_ok W" "picks_member (ml_pick (wl_mail W))" using assms(4) by (simp_all add: lib_ok_def)
  have p: "proceeds W (active_ids (qt v)) v v'" by (rule worker_pass_run(1) [OF pass(2) _ lib]) (use pass in simp)
  then have mv: "moved (active_ids (qt v)) (qt v) (qt v')" "worker_ok W v'" by (simp_all add: proceeds_def)
  have "distinct (map rc_id (outbound_rcpt (qt v)))" using pass by (simp add: worker_ok_def queue_ok_def)
  from moved_follows [OF mv(1) this] moved_rate_ok [OF mv(1)] mv(2) pass follows_trans show ?case by blast
next
  case (receive v rnd account envelope auth raw now spam scan r s)
  have "mail_ok (ml_sha256_hex (wl_mail W)) s \<and> (\<forall>k c. held_blobs v k = Some c \<longrightarrow> contents (ms_blobs s) k = Some c)"
    by (rule deliver_keeps_blobs [OF receive(2)]) (use receive assms(4) in \<open>simp_all add: lib_ok_def worker_ok_def\<close>)
  then have "calm W v (v\<lparr>wk_mail := s\<rparr>)" by (simp add: calm_def)
  from calm_ok [OF this] receive show ?case by simp
qed

section \<open>Properties of every reachable state\<close>

text \<open>C14: A queue is well typed and never goes back. In every state that accepting messages, making DKIM keys,
  worker passes and local deliveries reach from a sound one, whatever fails in between, ids are unique, every recipient belongs to a
  message, its state column is one of the six states the code knows, and a message expires five days after its
  creation. No message and no recipient is ever lost: each keeps its identity, and once it is delivered, failed or
  expired its row never changes again.\<close>

theorem recipients_well_typed:
  assumes "queue_runs W w w'" and "worker_ok W w" and "rate_ok (qt w)" and "lib_ok W"
  shows "queue_ok (qt w') \<and> set (outbound (qt w)) \<subseteq> set (outbound (qt w')) \<and>
    (\<forall>r \<in> set (outbound_rcpt (qt w)). \<exists>r' \<in> set (outbound_rcpt (qt w')). row_step r r' \<and> (is_terminal (from_db_str (rc_state r)) \<longrightarrow> r' = r))"
proof -
  have k: "worker_ok W w'" "follows (qt w) (qt w')" using queue_runs_keep [OF assms] by blast+
  have "is_terminal (from_db_str (rc_state r)) \<Longrightarrow> \<not> active r" for r
    by (auto simp: active_def from_db_str_def split: if_splits)
  with k show ?thesis unfolding follows_def worker_ok_def by blast
qed

text \<open>C6: Queued mail is kept. In every reachable state the signed message of every recipient that is not settled is in the
  blob store, complete: it is removed only after the last recipient of every message with that content is settled.\<close>

theorem queued_mail_kept:
  assumes "queue_runs W w w'" and "worker_ok W w" and "rate_ok (qt w)" and "lib_ok W"
    and "r \<in> set (outbound_rcpt (qt w'))" and "\<not> is_terminal (from_db_str (rc_state r))"
  shows "\<exists>m raw. m \<in> set (outbound (qt w')) \<and> ob_id m = rc_outbound_id r \<and>
    contents (ms_blobs (wk_mail w')) (ob_message_blob m) = Some raw \<and> ml_sha256_hex (wl_mail W) raw = ob_message_blob m"
proof -
  have ok: "worker_ok W w'" using queue_runs_keep [OF assms(1-4)] by blast
  then obtain m where m: "m \<in> set (outbound (qt w'))" "ob_id m = rc_outbound_id r"
    using assms(5) by (auto simp: worker_ok_def queue_ok_def list_all_iff)
  have "active r" using assms(6) by (auto simp: active_def from_db_str_def)
  moreover have "held_row (held_blobs w') m r" using ok m assms(5) by (simp add: worker_ok_def each_row_def)
  ultimately obtain raw where raw: "held_blobs w' (ob_message_blob m) = Some raw" by (auto simp: held_row_def)
  with ok have "ml_sha256_hex (wl_mail W) raw = ob_message_blob m" by (simp add: worker_ok_def mail_ok_def blobs_intact_def)
  with m raw show ?thesis by blast
qed





section \<open>Progress\<close>

lemma reap_effect:
  assumes "faults (wk_queue w) = []" and "x \<in> set (outbound_rcpt (qt (reap_stale_claims W w)))" and "rc_state x = ''claimed''"
  shows "x \<in> set (outbound_rcpt (qt w)) \<and> (case rc_claimed_at x of Some c \<Rightarrow> wl_unix W (wk_tick w) - LEASE_TTL_SECS \<le> c | None \<Rightarrow> True)"
proof -
  let ?stale = "\<lambda>(_ :: queue_tables) r. rc_state r = ''claimed'' \<and>
    (case rc_claimed_at r of Some c \<Rightarrow> c < wl_unix W (wk_tick w) - LEASE_TTL_SECS | None \<Rightarrow> False)"
  obtain r where r: "r \<in> set (outbound_rcpt (qt w))" "x = (if ?stale (qt w) r then r\<lparr>rc_state := ''ready'', rc_claimed_by := None\<rparr> else r)"
    using assms(2) set_rcpts_run(6) [of "tick w" ?stale "\<lambda>r. r\<lparr>rc_state := ''ready'', rc_claimed_by := None\<rparr>"] assms(1)
    by (auto simp: reap_stale_claims_def Let_def set_update_where)
  then have "x = r" "\<not> ?stale (qt w) r" using assms(3) by (auto split: if_splits)
  with r(1) assms(3) show ?thesis by (auto split: option.splits)
qed

lemma expire_effect:
  assumes "faults (wk_queue w) = []" and "x \<in> set (outbound_rcpt (qt (expire_overdue W w)))"
  shows "rc_state x = ''claimed'' \<Longrightarrow> x \<in> set (outbound_rcpt (qt w))"
    and "waiting x \<Longrightarrow> m \<in> set (outbound (qt w)) \<Longrightarrow> ob_id m = rc_outbound_id x \<Longrightarrow> wl_unix W (wk_tick w) \<le> ob_expires_at m"
proof -
  let ?late = "\<lambda>(t :: queue_tables) r. rc_state r \<in> {''ready'', ''deferred''} \<and>
    (\<exists>m \<in> set (outbound t). ob_id m = rc_outbound_id r \<and> ob_expires_at m < wl_unix W (wk_tick w))"
  obtain r where r: "r \<in> set (outbound_rcpt (qt w))" "x = (if ?late (qt w) r then r\<lparr>rc_state := ''expired''\<rparr> else r)"
    using assms(2) set_rcpts_run(6) [of "tick w" ?late "\<lambda>r. r\<lparr>rc_state := ''expired''\<rparr>"] assms(1)
    by (auto simp: expire_overdue_def Let_def set_update_where)
  show "rc_state x = ''claimed'' \<Longrightarrow> x \<in> set (outbound_rcpt (qt w))" using r by (auto split: if_splits)
  assume x: "waiting x" and m: "m \<in> set (outbound (qt w))" "ob_id m = rc_outbound_id x"
  have "\<not> ?late (qt w) r" "x = r" using x r(2) by (auto simp: waiting_def split: if_splits)
  with x m show "wl_unix W (wk_tick w) \<le> ob_expires_at m" by (fastforce simp: waiting_def not_less)
qed

lemma housekept_effect:
  assumes f: "faults (wk_queue w) = []" and ok: "worker_ok W w" and clock: "clock_ok W" and x: "x \<in> set (outbound_rcpt (qt (housekept W w)))"
  shows "rc_state x = ''claimed'' \<Longrightarrow> x \<in> set (outbound_rcpt (qt w)) \<and>
      (case rc_claimed_at x of Some c \<Rightarrow> wl_unix W (wk_tick w) - LEASE_TTL_SECS \<le> c | None \<Rightarrow> True)"
    and "waiting x \<Longrightarrow> m \<in> set (outbound (qt w)) \<Longrightarrow> ob_id m = rc_outbound_id x \<Longrightarrow> wl_unix W (wk_tick w) \<le> ob_expires_at m"
proof -
  let ?a = "reap_stale_claims W w" let ?b = "expire_overdue W ?a"
  have a: "proceeds W (active_ids (qt w)) w ?a" by (rule reap_proceeds [OF ok])
  then have oka: "worker_ok W ?a" "faults (wk_queue ?a) = []" "outbound (qt ?a) = outbound (qt w)" "wk_tick w \<le> wk_tick ?a"
    using f by (simp_all add: proceeds_def moved_def)
  have "worker_ok W ?b" using expire_proceeds [OF oka(1)] by (simp add: proceeds_def)
  from fire_due_proceeds [OF this] have "outbound_rcpt (qt (housekept W w)) = outbound_rcpt (qt ?b)"
    by (simp add: housekept_def proceeds_def moved_empty)
  with x have b: "x \<in> set (outbound_rcpt (qt ?b))" by simp
  {
    assume "rc_state x = ''claimed''"
    with expire_effect(1) [OF oka(2) b] reap_effect [OF f] show "x \<in> set (outbound_rcpt (qt w)) \<and>
      (case rc_claimed_at x of Some c \<Rightarrow> wl_unix W (wk_tick w) - LEASE_TTL_SECS \<le> c | None \<Rightarrow> True)" by blast
  }
  assume "waiting x" "m \<in> set (outbound (qt w))" "ob_id m = rc_outbound_id x"
  then have "wl_unix W (wk_tick ?a) \<le> ob_expires_at m" using expire_effect(2) [OF oka(2) b] oka(3) by simp
  moreover have "wl_unix W (wk_tick w) \<le> wl_unix W (wk_tick ?a)" using clock oka(4) by (auto simp: clock_ok_def dest: monoD)
  ultimately show "wl_unix W (wk_tick w) \<le> ob_expires_at m" by simp
qed

text \<open>C12: Every pass of the worker makes progress. A pass in which no statement of the queue fails and nothing panics leaves
  no recipient behind: what is still claimed afterwards was claimed before the pass and its lease of five minutes had not
  run out, so nothing of the pass's own batch stays claimed; and every recipient of a message that had expired when the
  pass began is settled, unless such a lease holds it. A recipient therefore waits at most until the first healthy
  pass after its message has expired.\<close>

theorem pass_settles:
  assumes "worker_pass W w = (Returned b, w')" and "faults (wk_queue w) = []" and "worker_ok W w" and "lib_ok W"
    and "x \<in> set (outbound_rcpt (qt w'))"
  shows "(rc_state x = ''claimed'' \<longrightarrow> x \<in> set (outbound_rcpt (qt w)) \<and>
      (case rc_claimed_at x of Some c \<Rightarrow> wl_unix W (wk_tick w) - LEASE_TTL_SECS \<le> c | None \<Rightarrow> True)) \<and>
    (\<forall>m \<in> set (outbound (qt w')). ob_id m = rc_outbound_id x \<and> ob_expires_at m < wl_unix W (wk_tick w) \<and> rc_state x \<noteq> ''claimed'' \<longrightarrow>
      is_terminal (from_db_str (rc_state x)))"
proof -
  have lib: "orders_ok W" "clock_ok W" "picks_member (ml_pick (wl_mail W))" using assms(4) by (simp_all add: lib_ok_def)
  let ?h = "housekept W w"
  note run = worker_pass_run [OF assms(1,3) lib]
  note eff = housekept_effect [OF assms(2,3) lib(2)]
  have okh: "worker_ok W ?h" "outbound (qt ?h) = outbound (qt w)" using housekept_proceeds [OF assms(3)] by (simp_all add: proceeds_def moved_def)
  have out: "outbound (qt w') = outbound (qt w)" "worker_ok W w'" using run(1) by (simp_all add: proceeds_def moved_def)
  have "rc_state x = ''claimed'' \<Longrightarrow> x \<in> set (outbound_rcpt (qt ?h))" using run(3) [OF assms(2) refl assms(5)] .
  then have first: "rc_state x = ''claimed'' \<longrightarrow> x \<in> set (outbound_rcpt (qt w)) \<and>
      (case rc_claimed_at x of Some c \<Rightarrow> wl_unix W (wk_tick w) - LEASE_TTL_SECS \<le> c | None \<Rightarrow> True)" using eff(1) by blast
  have "is_terminal (from_db_str (rc_state x))"
    if m: "m \<in> set (outbound (qt w'))" "ob_id m = rc_outbound_id x" "ob_expires_at m < wl_unix W (wk_tick w)" "rc_state x \<noteq> ''claimed''" for m
  proof -
    obtain y where y: "y \<in> set (outbound_rcpt (qt ?h))" "row_step y x" "rc_id y \<notin> waiting_ids (qt ?h) \<Longrightarrow> x = y"
      using run(2) assms(5) by (rule proceeds_row) blast
    have "\<not> waiting y" using eff(2) [OF y(1), of m] m(1-3) out(1) y(2) by (auto simp: row_step_def)
    moreover have "distinct (map rc_id (outbound_rcpt (qt ?h)))" using okh(1) by (simp add: worker_ok_def queue_ok_def)
    ultimately have "rc_id y \<notin> waiting_ids (qt ?h)" using distinct_rows [OF _ y(1)] by (auto simp: waiting_ids_def)
    then have "\<not> waiting x" using y(3) \<open>\<not> waiting y\<close> by simp
    moreover have "rc_state x = as_str (from_db_str (rc_state x))" using out(2) assms(5) by (simp add: worker_ok_def queue_ok_def list_all_iff)
    ultimately show ?thesis using m(4) by (cases "from_db_str (rc_state x)") (auto simp: waiting_def)
  qed
  with first show ?thesis by blast
qed

section \<open>A concrete queue\<close>

text \<open>The net has one mail host, which takes every message; its clock stands still.\<close>

definition sample_mx_net :: net_lib where
  "sample_mx_net = sample_net\<lparr>nl_resolver := \<lparr>rs_lookup = (\<lambda>name ty. if ty = TypeMX \<and> name = ''b.example.''
       then Inr [\<lparr>rec_proof = Insecure, rec_data = MX 10 ''mx.b.example.''\<rparr>] else Inl NoRecordsFound), rs_error_text = (\<lambda>_. [])\<rparr>,
     nl_connect := (\<lambda>_ _. MissingStartTls), nl_connect_plain := (\<lambda>_. Some sample_client)\<rparr>"

definition sample_worker :: worker_lib where
  "sample_worker = \<lparr>wl_mail = sample_mail_lib, wl_hostname = ''mx.a.example'', wl_net = (\<lambda>_. sample_mx_net), wl_unix = (\<lambda>_. 1000000),
     wl_instant = (\<lambda>_. 0), wl_jitter = (\<lambda>_. 0), wl_seal_random = (\<lambda>_. sample_random), wl_log_random = (\<lambda>_. []),
     wl_write_mime = (\<lambda>_ m. Inr (mm_subject m)), wl_due_order = (\<lambda>_. sort_key rc_next_attempt_at), wl_returning = (\<lambda>_ rows. rows),
     wl_unit_order = (\<lambda>_ us. us)\<rparr>"

definition sample_queued :: "int \<Rightarrow> int \<Rightarrow> outbound_row" where
  "sample_queued i created = \<lparr>ob_id = i, ob_account_id = 1, ob_message_blob = sample_hash ''signed'', ob_envelope_from = ''me@a.example'',
     ob_created_at = created, ob_expires_at = created + MAX_LIFETIME_SECS, ob_dsn_envid = None, ob_dsn_ret = None, ob_is_dsn = 0\<rparr>"

text \<open>An expired recipient, one that is due, and one that a worker claimed a moment ago.\<close>

definition sample_queue :: queue_tables where
  "sample_queue = \<lparr>outbound = [sample_queued 1 0, sample_queued 2 999000],
     outbound_rcpt = [(fresh_rcpt 1 0 ''x@b.example'')\<lparr>rc_id := 1\<rparr>, (fresh_rcpt 2 999000 ''y@b.example'')\<lparr>rc_id := 2\<rparr>,
       (fresh_rcpt 2 999000 ''z@b.example'')\<lparr>rc_id := 3, rc_state := ''claimed'', rc_claimed_at := Some 999900\<rparr>],
     dkim_keys = [], scheduled_events = []\<rparr>"

definition sample_blobs :: blob_store where
  "sample_blobs = \<lparr>files = [(take 2 (sample_hash ''signed''), drop 2 (sample_hash ''signed'')) \<mapsto> ''signed''], io_faults = [], process_id = ''7''\<rparr>"

definition sample_state :: worker_state where
  "sample_state = \<lparr>wk_queue = \<lparr>tables = sample_queue, faults = []\<rparr>, wk_mail = empty_store\<lparr>ms_blobs := sample_blobs\<rparr>,
     wk_auth = \<lparr>tables = \<lparr>accounts = [], app_passwords = []\<rparr>, faults = []\<rparr>,
     wk_audit = \<lparr>tables = \<lparr>keys_row = None, audit_log = [], last_seq = 0, head_signatures = []\<rparr>, faults = []\<rparr>,
     wk_cooldowns = Map.empty, wk_notifier = notifier_new, wk_tick = 0\<rparr>"

lemma sample_lib_ok: "lib_ok sample_worker"
  using sample_mail_lib_ok(1) by (simp add: lib_ok_def orders_ok_def clock_ok_def sample_worker_def jitter_ok_def mono_def)

lemma sample_contents: "contents sample_blobs k = (if k = sample_hash ''signed'' then Some ''signed'' else None)"
proof -
  have "valid_hash (sample_hash ''signed'')" using sample_hash_hex by (simp add: hex_hash_def)
  then show ?thesis using take_drop_inj [of 2 k "sample_hash ''signed''"] by (auto simp: contents_def sample_blobs_def)
qed

lemma sample_rows:
  "r \<in> set (outbound_rcpt sample_queue) \<Longrightarrow> rc_attempts r = 0 \<and> active r \<and>
     (\<forall>m \<in> set (outbound sample_queue). ob_id m = rc_outbound_id r \<longrightarrow> ob_created_at m \<le> rc_next_attempt_at r \<and> ob_message_blob m = sample_hash ''signed'')"
  by (auto simp: sample_queue_def sample_queued_def fresh_rcpt_def active_def)

lemma sample_worker_ok: "worker_ok sample_worker sample_state"
proof -
  have "mail_ok sample_hash (empty_store\<lparr>ms_blobs := sample_blobs\<rparr>)"
    using empty_store_ok(1) [of sample_hash] by (simp add: mail_ok_def blobs_intact_def sample_contents)
  moreover have "queue_ok sample_queue"
    by (simp add: queue_ok_def sample_queue_def sample_queued_def fresh_rcpt_def from_db_str_def)
  moreover have "each_row tries_row sample_queue" "each_row (held_row (contents sample_blobs)) sample_queue"
    using sample_rows by (auto simp: each_row_def tries_row_def held_row_def sample_contents)
  ultimately show ?thesis by (simp add: worker_ok_def sample_state_def sample_worker_def sample_mail_lib_def)
qed

lemma sample_rate_ok: "rate_ok (qt sample_state)"
proof -
  have l: "length (filter P (outbound sample_queue)) \<le> 2" "length (filter Q (outbound_rcpt sample_queue)) \<le> 3" for P Q
    using length_filter_le [of P "outbound sample_queue"] length_filter_le [of Q "outbound_rcpt sample_queue"]
    by (simp_all add: sample_queue_def)
  have "int (length (filter P (outbound sample_queue))) \<le> 200" for P using l(1) [of P] by linarith
  moreover have "int (length (filter Q (outbound_rcpt sample_queue))) \<le> 500" for Q using l(2) [of Q] by linarith
  ultimately show ?thesis
    by (simp add: rate_ok_def sent_to_def sample_state_def MAX_MESSAGES_PER_WINDOW_def MAX_RECIPIENTS_PER_WINDOW_def)
qed

lemma sample_pass:
  "fst (worker_pass sample_worker sample_state) = Returned False"
  "map rc_state (outbound_rcpt (qt (snd (worker_pass sample_worker sample_state)))) = [''expired'', ''delivered'', ''claimed'']"
  by code_simp+

lemma sample_run: "queue_runs sample_worker sample_state (snd (worker_pass sample_worker sample_state))"
  by (rule queue_runs.pass [OF queue_runs.start]) (rule prod.collapse [symmetric])

lemma sample_sha: "ml_sha256_hex (wl_mail sample_worker) = sample_hash"
  by (simp add: sample_worker_def sample_mail_lib_def)

theorem recipients_well_typed_witness:
  "queue_ok (qt (snd (worker_pass sample_worker sample_state))) \<and>
   map rc_state (outbound_rcpt (qt (snd (worker_pass sample_worker sample_state)))) = [''expired'', ''delivered'', ''claimed'']"
  using recipients_well_typed [OF sample_run sample_worker_ok sample_rate_ok sample_lib_ok] sample_pass(2) by blast

theorem queued_mail_kept_witness:
  "let w' = snd (worker_pass sample_worker sample_state); r = outbound_rcpt (qt w') ! 2 in
   rc_state r = ''claimed'' \<and> (\<exists>m raw. m \<in> set (outbound (qt w')) \<and> ob_id m = rc_outbound_id r \<and>
     contents (ms_blobs (wk_mail w')) (ob_message_blob m) = Some raw \<and> sample_hash raw = ob_message_blob m)"
proof -
  let ?w' = "snd (worker_pass sample_worker sample_state)" let ?r = "outbound_rcpt (qt ?w') ! 2"
  have len: "2 < length (outbound_rcpt (qt ?w'))" using arg_cong [OF sample_pass(2), of length] by simp
  have st: "rc_state ?r = ''claimed''" using arg_cong [OF sample_pass(2), of "\<lambda>l. l ! 2"] len by simp
  have "?r \<in> set (outbound_rcpt (qt ?w'))" "\<not> is_terminal (from_db_str (rc_state ?r))"
    using len by (simp_all add: st from_db_str_def)
  from queued_mail_kept [OF sample_run sample_worker_ok sample_rate_ok sample_lib_ok this] st show ?thesis
    unfolding Let_def sample_sha by blast
qed


theorem pass_settles_witness:
  "\<exists>w'. worker_pass sample_worker sample_state = (Returned False, w') \<and>
     is_terminal (from_db_str (rc_state (outbound_rcpt (qt w') ! 0))) \<and> outbound_rcpt (qt w') ! 2 \<in> set (outbound_rcpt (qt sample_state))"
proof -
  let ?w' = "snd (worker_pass sample_worker sample_state)"
  have run: "worker_pass sample_worker sample_state = (Returned False, ?w')" using sample_pass(1) by (metis prod.collapse)
  have len: "length (outbound_rcpt (qt ?w')) = 3" using arg_cong [OF sample_pass(2), of length] by simp
  have st: "rc_state (outbound_rcpt (qt ?w') ! 2) = ''claimed''" "rc_state (outbound_rcpt (qt ?w') ! 0) = ''expired''"
    using arg_cong [OF sample_pass(2), of "\<lambda>l. l ! 2"] arg_cong [OF sample_pass(2), of "\<lambda>l. l ! 0"] len by simp_all
  have f: "faults (wk_queue sample_state) = []" by (simp add: sample_state_def)
  have "outbound_rcpt (qt ?w') ! 2 \<in> set (outbound_rcpt (qt sample_state))"
    using pass_settles [OF run f sample_worker_ok sample_lib_ok, of "outbound_rcpt (qt ?w') ! 2"] st(1) len by simp
  with run st(2) show ?thesis by (auto simp: from_db_str_def)
qed

section \<open>Bounces\<close>

definition mailed :: "worker_state \<Rightarrow> stored_message list" where
  "mailed w = messages (tables (ms_meta (wk_mail w)))"

definition bounce_to :: "worker_outbound \<Rightarrow> stored_message \<Rightarrow> bool" where
  "bounce_to out m \<longleftrightarrow> mail_from m = [] \<and> rcpt_to m = wo_envelope_from out \<and> new_message.account_id m = wo_account_id out"

definition may_bounce :: "claimed_rcpt \<Rightarrow> worker_outbound \<Rightarrow> bool" where
  "may_bounce rcpt out \<longleftrightarrow> wo_envelope_from out \<noteq> [] \<and> \<not> wo_is_dsn out \<and> cr_dsn_notify rcpt \<noteq> ''NEVER''"

lemma find_by_id_account:
  assumes "find_by_id i d = (Returned (Inr (Some a)), d')"
  shows "acc_id a = i"
proof -
  obtain row where "Some row = tbl_get ar_id i (accounts (tables d))" "row_to_account row = Returned a"
    using assms unfolding find_by_id_def query_account_def
    by (auto simp: proc_bind_Inr dest!: db_query_Inr split: option.splits)
  then show ?thesis by (auto simp: row_to_account_def dest!: tbl_get_Some_in [OF sym] split: if_splits)
qed

lemma deliver_dsn_mailed:
  assumes "deliver_dsn W out a b w = (r, w')" and "picks_member (ml_pick (wl_mail W))"
    and "mail_ok (ml_sha256_hex (wl_mail W)) (wk_mail w)" and "acc_id a = wo_account_id out"
  shows "mailed w' = mailed w \<or> (\<exists>m. mailed w' = mailed w @ [m] \<and> bounce_to out m)"
proof -
  obtain x s where d: "deliver (wl_mail W) (wl_seal_random W (wk_tick w))
         \<lparr>ra_id = acc_id a, ra_account_pub = acc_pub a, ra_key_id = acc_key_id a\<rparr>
         \<lparr>env_mail_from = [], env_rcpt_to = wo_envelope_from out, env_remote_ip = ''127.0.0.1''\<rparr>
         \<lparr>ar_spf = ''n/a'', ar_dkim = ''n/a'', ar_dmarc = ''n/a''\<rparr> b (wl_unix W (wk_tick w)) None
         \<lparr>sm_spam_score = None, sm_av_clean = None\<rparr> (wk_mail w) = (x, s)" by fastforce
  have w': "wk_mail w' = s" using assms(1) d by (auto simp: deliver_dsn_def split: pan.splits sum.splits)
  show ?thesis
  proof (cases "\<exists>dm. x = Returned (Inr dm)")
    case True
    then obtain dm where "x = Returned (Inr dm)" by blast
    from deliver_succeeds [OF d [unfolded this] assms(2,3)] obtain m where
      "filed \<lparr>ra_id = acc_id a, ra_account_pub = acc_pub a, ra_key_id = acc_key_id a\<rparr>
         \<lparr>env_mail_from = [], env_rcpt_to = wo_envelope_from out, env_remote_ip = ''127.0.0.1''\<rparr> None dm (wk_mail w) s m" by blast
    then show ?thesis using assms(4) by (auto simp: filed_def mailed_def w' bounce_to_def)
  next
    case False
    from deliver_fails [OF d assms(2,3)] False show ?thesis by (auto simp: grows_def mailed_def w')
  qed
qed

lemma maybe_send_dsn_mailed:
  assumes "maybe_send_dsn W rcpt out action code status detail w = (r, w')" and "picks_member (ml_pick (wl_mail W))"
    and "mail_ok (ml_sha256_hex (wl_mail W)) (wk_mail w)"
  shows "mailed w' = mailed w \<or> may_bounce rcpt out \<and> (\<exists>m. mailed w' = mailed w @ [m] \<and> bounce_to out m)"
proof (cases "may_bounce rcpt out")
  case False
  then have "w' = w" using assms(1) by (auto simp: maybe_send_dsn_def may_bounce_def)
  then show ?thesis by simp
next
  case True
  obtain x d where f: "find_by_id (wo_account_id out) (wk_auth w) = (x, d)" by fastforce
  show ?thesis
  proof (cases "\<exists>a b. x = Returned (Inr (Some a)) \<and> build_dsn (wl_write_mime W (wk_tick w)) (dsn_for W rcpt out action code status detail) = Inr b")
    case found: True
    then obtain a b where ab: "x = Returned (Inr (Some a))" "build_dsn (wl_write_mime W (wk_tick w)) (dsn_for W rcpt out action code status detail) = Inr b" by blast
    have "deliver_dsn W out a b (tick (w\<lparr>wk_auth := d\<rparr>)) = (r, w')"
      using assms(1) True ab f by (simp add: maybe_send_dsn_def may_bounce_def)
    from deliver_dsn_mailed [OF this assms(2)] find_by_id_account [of _ _ a d] f ab(1) assms(3) True show ?thesis
      by (auto simp: mailed_def)
  next
    case not_found: False
    then have "wk_mail w' = wk_mail w"
      using assms(1) True f by (auto simp: maybe_send_dsn_def may_bounce_def split: sum.splits pan.splits option.splits)
    then show ?thesis by (simp add: mailed_def)
  qed
qed

text \<open>C13: Bounces never loop. Settling a recipient files at most one notification, whatever the outcome and whatever fails: with
  the null sender, to the sender of the message, in the account that queued it. It files none for a delivered
  recipient, none for a message that has the null sender or is itself a notification, and none when the
  recipient asked for none. A notification is therefore never answered by another.\<close>

theorem bounces_never_loop:
  assumes "finalize W rcpt out res w = (r, w')" and "picks_member (ml_pick (wl_mail W))"
    and "mail_ok (ml_sha256_hex (wl_mail W)) (wk_mail w)"
  shows "mailed w' = mailed w \<or>
    res \<noteq> OutDelivered \<and> may_bounce rcpt out \<and> (\<exists>m. mailed w' = mailed w @ [m] \<and> bounce_to out m)"
proof -
  obtain st nx c s d where st: "settle (wl_jitter W (wk_tick w)) (wl_unix W (wk_tick w)) rcpt out res = (st, nx, c, s, d)" by (metis prod_cases5)
  let ?w1 = "settled_state W rcpt out res w"
  have w1: "wk_mail ?w1 = wk_mail w" by (simp add: settled_state_def st set_rcpts_run)
  have clean: "mailed (cleanup_terminal_message out v) = mailed v" for v
    by (cases rule: cleanup_cases [of out v]) (simp_all add: mailed_def)
  have delivered: "res = OutDelivered \<Longrightarrow> st = Delivered" using st by (simp add: settle_def)
  have report: "mailed u = mailed v \<or> res \<noteq> OutDelivered \<and> may_bounce rcpt out \<and> (\<exists>m. mailed u = mailed v @ [m] \<and> bounce_to out m)"
    if rep: "report W rcpt out now st c s d v = (x, u)" and v: "wk_mail v = wk_mail w" for now x v u
  proof (cases "u = v \<or> st = Delivered")
    case True
    with rep show ?thesis by (auto simp: report_def)
  next
    case False
    obtain v' action where v': "wk_mail v' = wk_mail v" "maybe_send_dsn W rcpt out action c s d v' = (x, u)"
      using rep False set_rcpts_run(1) unfolding report_def mark_delayed_dsn_sent_def by (metis prod.inject)
    from maybe_send_dsn_mailed [OF v'(2) assms(2)] v' v assms(3) False delivered show ?thesis by (auto simp: mailed_def)
  qed
  from assms(1) [unfolded finalize_unfold [OF st]] show ?thesis
  proof (cases rule: w_bind_cases)
    case panic
    then have "wk_mail w' = wk_mail ?w1" using w_audit_calm by (auto split: if_splits)
    then show ?thesis by (simp add: mailed_def w1)
  next
    case (step a v)
    then have v: "wk_mail v = wk_mail w" using w_audit_calm w1 by (auto split: if_splits)
    from step(2) show ?thesis
    proof (cases rule: w_bind_cases)
      case panic
      from report [OF panic(1) v] v show ?thesis by (simp add: mailed_def)
    next
      case (step a u)
      then have "mailed w' = mailed u" using clean by auto
      with report [OF step(1) v] v show ?thesis by (simp add: mailed_def)
    qed
  qed
qed

definition sample_sender :: account_row where
  "sample_sender = \<lparr>ar_id = 1, ar_local_part = ''me'', ar_domain = ''a.example'', ar_key_id = 0, ar_salt = replicate SALT_LEN CHR ''s'',
     ar_wrapped_amk = [], ar_pub = replicate KEY_LEN CHR ''p'', ar_wrapped_priv = [], ar_created_at = 0, ar_signature = None\<rparr>"

definition sample_failing :: worker_state where
  "sample_failing = sample_state\<lparr>wk_mail := empty_store,
     wk_auth := \<lparr>tables = \<lparr>accounts = [sample_sender], app_passwords = []\<rparr>, faults = []\<rparr>\<rparr>"

definition sample_claimed :: claimed_rcpt where
  "sample_claimed = \<lparr>cr_id = 2, cr_rcpt_to = ''y@b.example'', cr_domain = ''b.example'', cr_dsn_notify = ''SUCCESS'', cr_attempts = 1,
     cr_delayed_dsn_sent = False\<rparr>"

definition sample_outbound :: worker_outbound where
  "sample_outbound = \<lparr>wo_id = 2, wo_message_blob = sample_hash ''signed'', wo_envelope_from = ''me@a.example'', wo_is_dsn = False,
     wo_created_at = 999000, wo_expires_at = 999000 + MAX_LIFETIME_SECS, wo_account_id = 1\<rparr>"

lemma sample_bounce:
  "length (mailed (snd (finalize sample_worker sample_claimed sample_outbound (Permanent (Some 550) None ''no'') sample_failing))) = 1"
  by code_simp

theorem bounces_never_loop_witness:
  "\<exists>m. mailed (snd (finalize sample_worker sample_claimed sample_outbound (Permanent (Some 550) None ''no'') sample_failing)) = [m] \<and>
     mail_from m = [] \<and> rcpt_to m = ''me@a.example''"
proof -
  have "mail_ok (ml_sha256_hex (wl_mail sample_worker)) (wk_mail sample_failing)" "mailed sample_failing = []"
    using empty_store_ok(1) by (simp_all add: sample_failing_def mailed_def empty_store_def meta_empty_def)
  note bounces_never_loop [OF prod.collapse [symmetric] sample_lib_ok [unfolded lib_ok_def, THEN conjunct2, THEN conjunct2] this(1),
    of sample_claimed sample_outbound "Permanent (Some 550) None ''no''"] this(2) sample_bounce
  then show ?thesis by (auto simp: bounce_to_def sample_outbound_def)
qed

end
