(* ===== verification/Submission.thy ===== *)
theory Submission
  imports Queue_Life Login_Throttle Input_Validation Command_Session
begin

text \<open>
  The submission session (\<open>submission/src/session.rs\<close>): greeting, EHLO, STARTTLS, AUTH PLAIN, MAIL, RCPT, DATA and the
  rest, over a connection with arbitrary segmentation and failures, the account and audit stores, the login throttle
  and the outbound queue.

  \<open>sub_deps\<close> holds what a session does not change. The clocks, the random values, the DKIM library's key
  generation and the permit of the semaphore that bounds concurrent password checks are functions of a counter
  (\<open>s_tick\<close>). The remote address is only logged to the console. A panic of the password check is caught by the task it
  runs in and closes the connection; any other panic ends the session's task: the outcome \<open>SubCrashed\<close>.
\<close>

section \<open>Session state\<close>

record sub_deps =
  sb_hostname :: string
  sb_max_message_size :: nat
  sb_crypto :: crypto_lib
  sb_argon2_config :: argon2_config
  sb_sha256_hex :: "bytes \<Rightarrow> string"
  sb_dkim :: "nat \<Rightarrow> dkim_lib"
  sb_base64_decode :: "string \<Rightarrow> bytes option"
  sb_permit :: "nat \<Rightarrow> bool"
  sb_unix :: "nat \<Rightarrow> int"
  sb_instant :: "nat \<Rightarrow> nat"
  sb_log_random :: "nat \<Rightarrow> bytes"
  sb_torn :: "nat \<Rightarrow> nat"

record sub_envelope =
  sv_helo_domain :: "string option"
  sv_authenticated :: "account option"
  sv_mail_from :: "string option"
  sv_rcpt_to :: "string list"

definition sub_envelope_default :: sub_envelope where
  "sub_envelope_default = \<lparr>sv_helo_domain = None, sv_authenticated = None, sv_mail_from = None, sv_rcpt_to = []\<rparr>"

definition sub_envelope_reset :: "sub_envelope \<Rightarrow> sub_envelope" where
  "sub_envelope_reset e = e\<lparr>sv_mail_from := None, sv_rcpt_to := []\<rparr>"

datatype sub_outcome = SubClosed | SubStartTls | SubCrashed

record sub_world =
  s_conn :: conn
  s_env :: sub_envelope
  s_auth :: auth_db
  s_spool :: spool
  s_audit :: audit_db
  s_throttle :: login_throttle
  s_tick :: nat

definition sub_reply :: "nat \<Rightarrow> string \<Rightarrow> sub_world \<Rightarrow> bool \<times> sub_world" where
  "sub_reply code msg w = (let (sent_ok, c) = write_reply code msg (s_conn w) in (sent_ok, w\<lparr>s_conn := c\<rparr>))"

text \<open>\<open>let _ = write_reply(...)\<close>, then on to the next command.\<close>

definition sub_answer :: "nat \<Rightarrow> string \<Rightarrow> sub_world \<Rightarrow> sub_outcome step \<times> sub_world" where
  "sub_answer code msg w = (Next, snd (sub_reply code msg w))"

definition sub_reset :: "sub_world \<Rightarrow> sub_world" where
  "sub_reset w = w\<lparr>s_env := sub_envelope_reset (s_env w)\<rparr>"

definition sub_audit :: "sub_deps \<Rightarrow> string \<Rightarrow> string \<Rightarrow> sub_world \<Rightarrow> unit pan \<times> sub_world" where
  "sub_audit D action detail w =
     (case log_entry (sb_crypto D) (sb_log_random D (s_tick w)) (sb_unix D (s_tick w)) action detail (s_audit w) of
        (Panicked, d) \<Rightarrow> (Panicked, w\<lparr>s_audit := d, s_tick := Suc (s_tick w)\<rparr>)
      | (Returned _, d) \<Rightarrow> (Returned (), w\<lparr>s_audit := d, s_tick := Suc (s_tick w)\<rparr>))"

section \<open>Authentication\<close>

definition parse_sasl_plain :: "bytes \<Rightarrow> (string \<times> string) option" where
  "parse_sasl_plain payload =
     (case split_once (CHR 0x00) payload of
        None \<Rightarrow> None
      | Some (_, rest) \<Rightarrow>
          (case split_once (CHR 0x00) rest of
             None \<Rightarrow> None
           | Some (authcid, passwd) \<Rightarrow>
               if \<not> utf8_valid authcid then None else if \<not> utf8_valid passwd then None else Some (authcid, passwd)))"

text \<open>The initial response, or the line the client sends after the empty challenge.\<close>

definition auth_payload :: "string \<Rightarrow> sub_world \<Rightarrow> (unit + string) \<times> sub_world" where
  "auth_payload initial w =
     (if initial \<noteq> [] then (Inr initial, w)
      else case sub_reply 334 [] w of
             (False, w1) \<Rightarrow> (Inl (), w1)
           | (True, w1) \<Rightarrow>
               (case read_line_bounded MAX_COMMAND_LINE (s_conn w1) of
                  (Line line, c) \<Rightarrow> (Inr (line_text line), w1\<lparr>s_conn := c\<rparr>)
                | (_, c) \<Rightarrow> (Inl (), w1\<lparr>s_conn := c\<rparr>)))"

definition auth_failed :: "sub_deps \<Rightarrow> string \<Rightarrow> sub_world \<Rightarrow> (unit + account option) pan \<times> sub_world" where
  "auth_failed D authcid w =
     (let n = s_tick w;
          w1 = w\<lparr>s_throttle := record_failure (sb_instant D n) (sb_instant D (Suc n)) authcid (s_throttle w), s_tick := n + 2\<rparr>
      in case sub_audit D ''auth.submission_failed'' authcid w1 of
           (Panicked, w2) \<Rightarrow> (Panicked, w2)
         | (Returned _, w2) \<Rightarrow> (Returned (Inr None), w2))"

definition auth_password :: "sub_deps \<Rightarrow> account \<Rightarrow> string \<Rightarrow> string \<Rightarrow> sub_world \<Rightarrow> (unit + account option) pan \<times> sub_world" where
  "auth_password D a authcid password w =
     (if \<not> sb_permit D (s_tick w) then (Returned (Inl ()), w)
      else
        let (result, d) = unlock_any (sb_crypto D) (sb_unix D (s_tick w)) a password (sb_argon2_config D) (s_auth w);
            w1 = w\<lparr>s_auth := d, s_tick := Suc (s_tick w)\<rparr>
        in case result of
             Panicked \<Rightarrow> (Returned (Inl ()), w1)
           | Returned (Inl _) \<Rightarrow> auth_failed D authcid w1
           | Returned (Inr _) \<Rightarrow>
               (case sub_audit D ''auth.submission'' authcid (w1\<lparr>s_throttle := record_success authcid (s_throttle w1)\<rparr>) of
                  (Panicked, w2) \<Rightarrow> (Panicked, w2)
                | (Returned _, w2) \<Rightarrow> (Returned (Inr (Some a)), w2)))"

definition auth_login :: "sub_deps \<Rightarrow> string \<Rightarrow> string \<Rightarrow> sub_world \<Rightarrow> (unit + account option) pan \<times> sub_world" where
  "auth_login D authcid password w =
     (case split_once (CHR ''@'') authcid of
        None \<Rightarrow> (Returned (Inr None), w)
      | Some (local_part, domain) \<Rightarrow>
          (let w1 = w\<lparr>s_tick := Suc (s_tick w)\<rparr> in
           case throttle_check (sb_instant D (s_tick w)) authcid (s_throttle w) of
             Inl _ \<Rightarrow> (Returned (Inr None), w1)
           | Inr _ \<Rightarrow>
               (let (r, d) = find_by_address local_part domain (s_auth w1); w2 = w1\<lparr>s_auth := d\<rparr> in
                case r of
                  Panicked \<Rightarrow> (Panicked, w2)
                | Returned (Inr (Some a)) \<Rightarrow> auth_password D a authcid password w2
                | Returned _ \<Rightarrow> auth_failed D authcid w2)))"

definition handle_auth :: "sub_deps \<Rightarrow> string \<Rightarrow> sub_world \<Rightarrow> (unit + account option) pan \<times> sub_world" where
  "handle_auth D rest w =
     (let (mechanism, initial) = split_command rest in
      if \<not> eq_ignore_ascii_case mechanism ''PLAIN''
      then (Returned (Inr None), snd (sub_reply 504 ''Unsupported authentication mechanism'' w))
      else case auth_payload initial w of
             (Inl _, w1) \<Rightarrow> (Returned (Inl ()), w1)
           | (Inr payload_b64, w1) \<Rightarrow>
               (case sb_base64_decode D (trim payload_b64) of
                  None \<Rightarrow> (Returned (Inr None), w1)
                | Some decoded \<Rightarrow>
                    (case parse_sasl_plain decoded of
                       None \<Rightarrow> (Returned (Inr None), w1)
                     | Some (authcid, password) \<Rightarrow> auth_login D authcid password w1)))"

section \<open>Commands\<close>

definition sub_helo :: "sub_deps \<Rightarrow> bool \<Rightarrow> string \<Rightarrow> string \<Rightarrow> sub_world \<Rightarrow> sub_outcome step \<times> sub_world" where
  "sub_helo D is_tls verb rest w =
     (let dn = trim rest in
      if \<not> valid_helo_domain dn then sub_answer 501 ''Syntax error in parameters'' w
      else
        let w1 = sub_reset (w\<lparr>s_env := (s_env w)\<lparr>sv_helo_domain := Some dn\<rparr>\<rparr>);
            lines = (sb_hostname D @ '' Hello'') #
              (if eq_ignore_ascii_case verb ''EHLO''
               then [''SIZE '' @ show_nat (sb_max_message_size D), if \<not> is_tls then ''STARTTLS'' else ''AUTH PLAIN'', ''8BITMIME'']
               else []);
            (sent_ok, c) = write_multiline_reply 250 lines (s_conn w1)
        in (if sent_ok then Next else Done SubClosed, w1\<lparr>s_conn := c\<rparr>))"

definition sub_starttls :: "bool \<Rightarrow> string \<Rightarrow> sub_world \<Rightarrow> sub_outcome step \<times> sub_world" where
  "sub_starttls is_tls rest w =
     (if is_tls then sub_answer 503 ''Already using TLS'' w
      else if rest \<noteq> [] then sub_answer 501 ''Syntax error'' w
      else let (sent_ok, w') = sub_reply 220 ''Go ahead'' w in (Done (if sent_ok then SubStartTls else SubClosed), w'))"

definition auth_command :: "sub_deps \<Rightarrow> bool \<Rightarrow> string \<Rightarrow> sub_world \<Rightarrow> sub_outcome step \<times> sub_world" where
  "auth_command D is_tls rest w =
     (if \<not> is_tls then sub_answer 530 ''Must issue STARTTLS first'' w
      else if sv_authenticated (s_env w) \<noteq> None then sub_answer 503 ''Already authenticated'' w
      else case handle_auth D rest w of
             (Panicked, w1) \<Rightarrow> (Done SubCrashed, w1)
           | (Returned (Inl _), w1) \<Rightarrow> (Done SubClosed, w1)
           | (Returned (Inr None), w1) \<Rightarrow> sub_answer 535 ''Authentication failed'' w1
           | (Returned (Inr (Some a)), w1) \<Rightarrow>
               sub_answer 235 ''Authentication successful'' (w1\<lparr>s_env := (s_env w1)\<lparr>sv_authenticated := Some a\<rparr>\<rparr>))"

definition sub_mail :: "string \<Rightarrow> sub_world \<Rightarrow> sub_outcome step \<times> sub_world" where
  "sub_mail rest w =
     (case sv_authenticated (s_env w) of
        None \<Rightarrow> sub_answer 530 ''Authentication required'' w
      | Some a \<Rightarrow>
          (case parse_addr_param rest ''FROM:'' of
             Panicked \<Rightarrow> (Done SubCrashed, w)
           | Returned None \<Rightarrow> sub_answer 501 ''Syntax error in parameters'' w
           | Returned (Some addr) \<Rightarrow>
               if eq_ignore_ascii_case addr (address a)
               then sub_answer 250 ''OK'' (w\<lparr>s_env := (s_env w)\<lparr>sv_mail_from := Some addr, sv_rcpt_to := []\<rparr>\<rparr>)
               else sub_answer 553 ''Sender address does not match authenticated identity'' w))"

definition sub_rcpt :: "string \<Rightarrow> sub_world \<Rightarrow> sub_outcome step \<times> sub_world" where
  "sub_rcpt rest w =
     (if sv_mail_from (s_env w) = None then sub_answer 503 ''Bad sequence of commands'' w
      else case parse_addr_param rest ''TO:'' of
             Panicked \<Rightarrow> (Done SubCrashed, w)
           | Returned None \<Rightarrow> sub_answer 501 ''Syntax error in parameters'' w
           | Returned (Some addr) \<Rightarrow>
               if MAX_RECIPIENTS \<le> length (sv_rcpt_to (s_env w)) then sub_answer 452 ''Too many recipients'' w
               else if valid_email_address addr
               then sub_answer 250 ''OK'' (w\<lparr>s_env := (s_env w)\<lparr>sv_rcpt_to := sv_rcpt_to (s_env w) @ [addr]\<rparr>\<rparr>)
               else sub_answer 501 ''Syntax error in parameters'' w)"

definition submission :: "account \<Rightarrow> sub_envelope \<Rightarrow> bytes \<Rightarrow> new_outbound" where
  "submission a e raw =
     \<lparr>no_account_id = acc_id a, no_envelope_from = (case sv_mail_from e of Some f \<Rightarrow> f | None \<Rightarrow> []), no_raw_message = raw,
      no_recipients = sv_rcpt_to e, no_is_dsn = False, no_dsn_envid = None, no_dsn_ret = None\<rparr>"

definition enqueue_submission :: "sub_deps \<Rightarrow> account \<Rightarrow> bytes \<Rightarrow> sub_world \<Rightarrow> unit result \<times> sub_world" where
  "enqueue_submission D a raw w =
     (let n = s_tick w;
          (k, q) = ensure_dkim_key (sb_dkim D n) (sb_unix D n) (acc_domain a) (sp_queue (s_spool w));
          s = (s_spool w)\<lparr>sp_queue := q\<rparr>
      in case k of
           Inl e \<Rightarrow> (Inl e, w\<lparr>s_spool := s, s_tick := Suc n\<rparr>)
         | Inr domain_key \<Rightarrow>
             (let (r, s') = enqueue (sb_sha256_hex D) (sb_torn D n) (sb_dkim D (Suc n)) domain_key (sb_unix D (Suc n))
                    (submission a (s_env w) raw) s
              in (case r of Inl e \<Rightarrow> Inl e | Inr _ \<Rightarrow> Inr (), w\<lparr>s_spool := s', s_tick := n + 2\<rparr>)))"

definition sub_accept :: "sub_deps \<Rightarrow> bytes \<Rightarrow> sub_world \<Rightarrow> sub_outcome step \<times> sub_world" where
  "sub_accept D raw w =
     (case sv_authenticated (s_env w) of
        None \<Rightarrow> (Done SubCrashed, w)
      | Some a \<Rightarrow>
          (let (r, w1) = enqueue_submission D a raw w;
               (sent_ok, w2) =
                 (case r of
                    Inr _ \<Rightarrow> sub_reply 250 ''OK: message queued'' w1
                  | Inl (RateLimited _) \<Rightarrow> sub_reply 450 ''Rate limit exceeded, try again later'' w1
                  | Inl _ \<Rightarrow> sub_reply 451 ''Local error in processing'' w1)
           in if sent_ok then (Next, sub_reset w2) else (Done SubClosed, w2)))"

definition sub_data :: "sub_deps \<Rightarrow> sub_world \<Rightarrow> sub_outcome step \<times> sub_world" where
  "sub_data D w =
     (if sv_mail_from (s_env w) = None \<or> sv_rcpt_to (s_env w) = [] then sub_answer 503 ''Bad sequence of commands'' w
      else case sub_reply 354 ''Start mail input; end with <CRLF>.<CRLF>'' w of
             (False, w1) \<Rightarrow> (Done SubClosed, w1)
           | (True, w1) \<Rightarrow>
               (let (r, c) = read_data (sb_max_message_size D) (s_conn w1); w2 = w1\<lparr>s_conn := c\<rparr> in
                case r of
                  Inl TooLarge \<Rightarrow> (Done SubClosed, snd (sub_reply 552 ''Message size exceeds fixed limit'' w2))
                | Inl IoError \<Rightarrow> (Done SubClosed, w2)
                | Inr raw \<Rightarrow> sub_accept D raw w2))"

definition sub_run_command :: "sub_deps \<Rightarrow> bool \<Rightarrow> string \<Rightarrow> string \<Rightarrow> sub_world \<Rightarrow> sub_outcome step \<times> sub_world" where
  "sub_run_command D is_tls verb rest w =
     (let v = to_ascii_uppercase verb in
      if v = ''EHLO'' \<or> v = ''HELO'' then sub_helo D is_tls verb rest w
      else if v = ''STARTTLS'' then sub_starttls is_tls rest w
      else if v = ''AUTH'' then auth_command D is_tls rest w
      else if v = ''MAIL'' then sub_mail rest w
      else if v = ''RCPT'' then sub_rcpt rest w
      else if v = ''DATA'' then sub_data D w
      else if v = ''RSET'' then sub_answer 250 ''OK'' (sub_reset w)
      else if v = ''NOOP'' then sub_answer 250 ''OK'' w
      else if v = ''QUIT'' then (Done SubClosed, snd (sub_reply 221 ''Bye'' w))
      else sub_answer 502 ''Command not implemented'' w)"

definition sub_step :: "sub_deps \<Rightarrow> bool \<Rightarrow> sub_world \<Rightarrow> sub_outcome step \<times> sub_world" where
  "sub_step D is_tls w =
     (case read_line_bounded MAX_COMMAND_LINE (s_conn w) of
        (LineEof, c) \<Rightarrow> (Done SubClosed, w\<lparr>s_conn := c\<rparr>)
      | (LineError, c) \<Rightarrow> (Done SubClosed, snd (sub_reply 500 ''Line too long'' (w\<lparr>s_conn := c\<rparr>)))
      | (Line line, c) \<Rightarrow>
          (let (verb, rest) = split_command (line_text line) in sub_run_command D is_tls verb rest (w\<lparr>s_conn := c\<rparr>)))"

section \<open>What a session may do\<close>

text \<open>A step that only talks: input is consumed, replies are written, nothing else changes.\<close>

definition talks :: "sub_world \<Rightarrow> sub_world \<Rightarrow> bool" where
  "talks w w' \<longleftrightarrow> (\<exists>c. w' = w\<lparr>s_conn := c\<rparr> \<and> remaining c \<le> remaining (s_conn w) \<and> (clean_sent (s_conn w) \<longrightarrow> clean_sent c))"

lemma talks_refl [simp]: "talks w w"
  unfolding talks_def by (rule exI [of _ "s_conn w"]) simp

lemma talks_trans: "talks u v \<Longrightarrow> talks v w \<Longrightarrow> talks u w"
  by (fastforce simp: talks_def)

lemma talks_reply:
  assumes "sub_reply code msg w = (b, w')" and "100 \<le> code" and "code < 1000" and "clean_text msg"
  shows "talks w w'" and "remaining (s_conn w') = remaining (s_conn w)"
proof -
  obtain c where c: "write_reply code msg (s_conn w) = (b, c)" "w' = w\<lparr>s_conn := c\<rparr>"
    using assms(1) by (auto simp: sub_reply_def split: prod.splits)
  show "talks w w'" "remaining (s_conn w') = remaining (s_conn w)"
    using write_reply_effect [OF c(1)] assms(2-4) c(2) by (auto simp: talks_def wrote_def)
qed

lemma talks_snd_reply:
  assumes "100 \<le> code" and "code < 1000" and "clean_text msg"
  shows "talks w (snd (sub_reply code msg w))"
  using talks_reply(1) [OF _ assms, of w "fst (sub_reply code msg w)"] by simp

lemma talks_answer:
  assumes "sub_answer code msg w = (r, w')" and "100 \<le> code" and "code < 1000" and "clean_text msg"
  shows "talks w w'"
  using assms talks_snd_reply by (auto simp: sub_answer_def)

lemma talks_read: "remaining c \<le> remaining (s_conn w) \<Longrightarrow> same_writer (s_conn w) c \<Longrightarrow> talks w (w\<lparr>s_conn := c\<rparr>)"
  by (auto simp: talks_def same_writer_def clean_sent_def)

lemma talks_fields:
  assumes "talks w w'"
  shows "s_env w' = s_env w" "s_auth w' = s_auth w" "s_spool w' = s_spool w" "s_audit w' = s_audit w"
    "s_throttle w' = s_throttle w" "s_tick w' = s_tick w" "remaining (s_conn w') \<le> remaining (s_conn w)"
    "clean_sent (s_conn w) \<Longrightarrow> clean_sent (s_conn w')"
  using assms by (auto simp: talks_def)

text \<open>The accounts and the secrets of the app passwords stay as they are; only the time of last use may change.\<close>

definition same_credentials :: "auth_tables \<Rightarrow> auth_tables \<Rightarrow> bool" where
  "same_credentials t t' \<longleftrightarrow> accounts t' = accounts t \<and>
     map (ap_last_used_at_update (\<lambda>_. None)) (app_passwords t') = map (ap_last_used_at_update (\<lambda>_. None)) (app_passwords t)"

lemma same_credentials_refl [simp]: "same_credentials t t"
  by (simp add: same_credentials_def)

lemma same_credentials_trans: "same_credentials t u \<Longrightarrow> same_credentials u v \<Longrightarrow> same_credentials t v"
  by (simp add: same_credentials_def)

lemma touch_same_credentials:
  assumes "touch_app_password now i s = (r, s')"
  shows "same_credentials (tables s) (tables s')"
proof -
  have "map (ap_last_used_at_update (\<lambda>_. None)) (update_where p (\<lambda>a. a\<lparr>ap_last_used_at := v\<rparr>) rows) =
      map (ap_last_used_at_update (\<lambda>_. None)) rows" for p v rows
    by (simp add: update_where_def)
  then show ?thesis
    using assms unfolding touch_app_password_def by (elim db_stmt_tables_inv) (auto simp: same_credentials_def)
qed

lemma try_candidates_same:
  "try_candidates L now a credential config cs s = (r, s') \<Longrightarrow> same_credentials (tables s) (tables s')"
proof (induction cs)
  case (Cons c cs)
  show ?case
  proof (cases "length (ap_salt c) = SALT_LEN")
    case True
    have "proc_bind (proc_return (crypto_err (derive_pk L credential (ap_salt c) config))) (\<lambda>pk.
        case unwrap_amk L pk (ap_wrapped_amk c) of
          Panicked \<Rightarrow> proc_result Panicked
        | Returned (Inl _) \<Rightarrow> try_candidates L now a credential config cs
        | Returned (Inr amk) \<Rightarrow>
            proc_bind (proc_result (finish_unlock L amk (acc_wrapped_priv a))) (\<lambda>unlocked.
            proc_bind (lift_op (touch_app_password now (ap_id c))) (\<lambda>_.
            proc_return (Inr (unlocked, scope_or_full (ap_scope c)))))) s = (r, s')"
      using Cons.prems(1) True by simp
    then show ?thesis
    proof (cases rule: proc_bind_cases)
      case (step pk s1)
      then have s1: "s1 = s" by simp
      show ?thesis
      proof (cases "unwrap_amk L pk (ap_wrapped_amk c)")
        case (Returned x)
        show ?thesis
        proof (cases x)
          case (Inl e)
          with step Returned s1 Cons show ?thesis by simp
        next
          case (Inr amk)
          from step(2) [unfolded Returned Inr s1, simplified] show ?thesis
            by (elim proc_bind_cases) (use touch_same_credentials in auto)
        qed
      qed (use step s1 in simp)
    qed auto
  next
    case False
    with Cons show ?thesis by simp
  qed
qed simp

lemma unlock_any_same:
  assumes "unlock_any L now a credential config s = (r, s')"
  shows "same_credentials (tables s) (tables s')"
proof (cases "unlock L a credential config")
  case (Returned x)
  show ?thesis
  proof (cases x)
    case (Inl e)
    from assms [unfolded unlock_any_def Returned Inl, simplified] show ?thesis
      by (elim proc_bind_cases) (use try_candidates_same db_query_tables in \<open>fastforce+\<close>)
  qed (use assms Returned in \<open>auto simp: unlock_any_def\<close>)
qed (use assms in \<open>auto simp: unlock_any_def\<close>)

text \<open>A password that opens an account: its own, or an app password of it.\<close>

definition opens :: "sub_deps \<Rightarrow> auth_tables \<Rightarrow> account \<Rightarrow> string \<Rightarrow> bool" where
  "opens D t a pw \<longleftrightarrow>
     (\<exists>u. unlock (sb_crypto D) a pw (sb_argon2_config D) = Returned (Inr u)) \<or>
     (\<exists>c \<in> set (app_passwords t). ap_account_id c = acc_id a \<and> (\<exists>amk. accepts (sb_crypto D) (sb_argon2_config D) pw c amk))"

lemma opens_same:
  assumes "same_credentials t t'"
  shows "opens D t' a pw \<longleftrightarrow> opens D t a pw"
proof -
  have f: "ap_account_id (ap_last_used_at_update g c) = ap_account_id c"
    "accepts L cf pw (ap_last_used_at_update g c) = accepts L cf pw c" for g c L cf
    by (simp_all add: accepts_def fun_eq_iff)
  define P where "P c \<longleftrightarrow> ap_account_id c = acc_id a \<and> (\<exists>amk. accepts (sb_crypto D) (sb_argon2_config D) pw c amk)" for c
  have P: "P (ap_last_used_at_update g c) = P c" for g c by (simp add: P_def f)
  have "list_ex P ps = list_ex P (map (ap_last_used_at_update (\<lambda>_. None)) ps)" for ps by (induction ps) (simp_all add: P)
  with assms have "list_ex P (app_passwords t') = list_ex P (app_passwords t)" unfolding same_credentials_def by metis
  then show ?thesis by (simp add: opens_def list_ex_iff P_def)
qed

lemma unlock_any_opens:
  assumes "unlock_any (sb_crypto D) now a pw (sb_argon2_config D) s = (Returned (Inr x), s')"
  shows "opens D (tables s) a pw"
proof (cases "\<exists>u. unlock (sb_crypto D) a pw (sb_argon2_config D) = Returned (Inr u)")
  case True
  then show ?thesis by (simp add: opens_def)
next
  case False
  obtain u sc where x: "x = (u, sc)" by fastforce
  from False assms obtain cs s1 where
    q: "db_query (\<lambda>t. filter (\<lambda>p. ap_account_id p = acc_id a) (app_passwords t)) s = (Inr cs, s1)"
    and t: "try_candidates (sb_crypto D) now a pw (sb_argon2_config D) cs s1 = (Returned (Inr (u, sc)), s')"
    by (auto simp: unlock_any_def proc_bind_Inr x split: pan.splits sum.splits)
  with try_candidates_sound [OF t] db_query_Inr [OF q] show ?thesis by (auto simp: opens_def)
qed

text \<open>What a session does to the queue: it makes DKIM keys, and it queues mail of the accounts it is logged in to.\<close>

definition by_user :: "account set \<Rightarrow> new_outbound \<Rightarrow> bool" where
  "by_user U new \<longleftrightarrow> \<not> no_is_dsn new \<and> (\<exists>a \<in> U. no_account_id new = acc_id a \<and>
     eq_ignore_ascii_case (no_envelope_from new) (address a))"

inductive spooled :: "sub_deps \<Rightarrow> account set \<Rightarrow> spool \<Rightarrow> spool \<Rightarrow> bool" for D U s where
  same: "spooled D U s s"
| key: "spooled D U s u \<Longrightarrow> ensure_dkim_key dl now dn (sp_queue u) = (r, q) \<Longrightarrow> spooled D U s (u\<lparr>sp_queue := q\<rparr>)"
| mail: "spooled D U s u \<Longrightarrow> enqueue (sb_sha256_hex D) torn dl k now new u = (r, v) \<Longrightarrow> by_user U new \<Longrightarrow> spooled D U s v"

lemma spooled_trans: "spooled D U u v \<Longrightarrow> spooled D U s u \<Longrightarrow> spooled D U s v"
  by (induction rule: spooled.induct) (auto intro: spooled.intros)

section \<open>Logging in\<close>

lemma sub_audit_run:
  assumes "sub_audit D action detail w = (r, w')"
  shows "s_env w' = s_env w" "s_spool w' = s_spool w" "s_conn w' = s_conn w" "s_auth w' = s_auth w" "s_throttle w' = s_throttle w"
  using assms by (auto simp: sub_audit_def split: prod.splits pan.splits)

lemma auth_failed_run:
  assumes "auth_failed D authcid w = (r, w')"
  shows "s_env w' = s_env w" "s_spool w' = s_spool w" "s_conn w' = s_conn w" "s_auth w' = s_auth w"
    "\<exists>i j. s_throttle w' = record_failure i j authcid (s_throttle w)" "r = Panicked \<or> r = Returned (Inr None)"
proof -
  let ?w1 = "w\<lparr>s_throttle := record_failure (sb_instant D (s_tick w)) (sb_instant D (Suc (s_tick w))) authcid (s_throttle w), s_tick := s_tick w + 2\<rparr>"
  obtain x v where x: "sub_audit D ''auth.submission_failed'' authcid ?w1 = (x, v)" by fastforce
  then have "w' = v" "r = Panicked \<or> r = Returned (Inr None)" using assms by (auto simp: auth_failed_def Let_def split: pan.splits)
  with sub_audit_run [OF x] show "s_env w' = s_env w" "s_spool w' = s_spool w" "s_conn w' = s_conn w" "s_auth w' = s_auth w"
    "\<exists>i j. s_throttle w' = record_failure i j authcid (s_throttle w)" "r = Panicked \<or> r = Returned (Inr None)" by auto
qed

text \<open>What checking a password leaves alone.\<close>

definition auth_frame :: "sub_world \<Rightarrow> sub_world \<Rightarrow> bool" where
  "auth_frame w w' \<longleftrightarrow> s_env w' = s_env w \<and> s_spool w' = s_spool w \<and> remaining (s_conn w') \<le> remaining (s_conn w) \<and>
     (clean_sent (s_conn w) \<longrightarrow> clean_sent (s_conn w')) \<and>
     same_credentials (tables (s_auth w)) (tables (s_auth w')) \<and> (auth_ok (tables (s_auth w)) \<longrightarrow> auth_ok (tables (s_auth w')))"

lemma auth_frame_trans: "auth_frame u v \<Longrightarrow> auth_frame v w \<Longrightarrow> auth_frame u w"
  using same_credentials_trans by (auto simp: auth_frame_def)

lemma talks_frame: "talks w w' \<Longrightarrow> auth_frame w w'"
  using talks_fields [of w w'] by (simp add: auth_frame_def)

lemma auth_password_cases:
  assumes "auth_password D a authcid pw w = (r, w')"
  obtains (aborted) "auth_frame w w'" "r = Returned (Inl ())" "s_throttle w' = s_throttle w"
    | (counted) i j where "auth_frame w w'" "r = Panicked \<or> r = Returned (Inr None)" "s_throttle w' = record_failure i j authcid (s_throttle w)"
    | (entered) "auth_frame w w'" "r = Panicked \<or> r = Returned (Inr (Some a))" "opens D (tables (s_auth w)) a pw"
        "s_throttle w' = record_success authcid (s_throttle w)"
proof (cases "sb_permit D (s_tick w)")
  case False
  then show thesis using assms that(1) by (simp add: auth_password_def auth_frame_def)
next
  case True
  obtain x d where x: "unlock_any (sb_crypto D) (sb_unix D (s_tick w)) a pw (sb_argon2_config D) (s_auth w) = (x, d)" by fastforce
  have fr: "auth_frame w w'" if "s_env w' = s_env w" "s_spool w' = s_spool w" "s_conn w' = s_conn w" "s_auth w' = d"
    using that unlock_any_same [OF x] unlock_any_keeps [OF x] by (simp add: auth_frame_def)
  let ?w1 = "w\<lparr>s_auth := d, s_tick := Suc (s_tick w)\<rparr>"
  consider (p) "x = Panicked" | (l) e where "x = Returned (Inl e)" | (r) y where "x = Returned (Inr y)"
    by (metis pan.exhaust sum.exhaust)
  then show thesis
  proof cases
    case p
    with assms True x have "r = Returned (Inl ())" "w' = ?w1" by (simp_all add: auth_password_def)
    with that(1) fr show thesis by simp
  next
    case l
    then have "auth_failed D authcid ?w1 = (r, w')" using assms True x by (simp add: auth_password_def)
    from auth_failed_run [OF this] that(2) fr show thesis by auto
  next
    case r
    let ?w2 = "?w1\<lparr>s_throttle := record_success authcid (s_throttle w)\<rparr>"
    obtain z v where z: "sub_audit D ''auth.submission'' authcid ?w2 = (z, v)" by fastforce
    then have "w' = v" "r = Panicked \<or> r = Returned (Inr (Some a))"
      using assms True x r by (auto simp: auth_password_def split: pan.splits)
    with sub_audit_run [OF z] that(3) fr unlock_any_opens [OF x [unfolded r]] show thesis by simp
  qed
qed

definition let_in :: "sub_deps \<Rightarrow> string \<Rightarrow> sub_world \<Rightarrow> bool" where
  "let_in D authcid w \<longleftrightarrow> split_once (CHR ''@'') authcid \<noteq> None \<and> throttle_check (sb_instant D (s_tick w)) authcid (s_throttle w) = Inr ()"

text \<open>The account an identity names.\<close>

definition named :: "string \<Rightarrow> account_row \<Rightarrow> bool" where
  "named authcid row \<longleftrightarrow> (\<exists>dn. split_once (CHR ''@'') authcid = Some (ar_local_part row, dn) \<and> ar_domain row = to_ascii_lowercase dn)"

lemma auth_login_cases:
  assumes "auth_login D authcid pw w = (r, w')" and "auth_ok (tables (s_auth w))"
  obtains (blocked) "auth_frame w w'" "r = Returned (Inr None)" "\<not> let_in D authcid w" "s_throttle w' = s_throttle w" "s_auth w' = s_auth w"
    | (aborted) "auth_frame w w'" "r = Returned (Inl ())" "let_in D authcid w" "s_throttle w' = s_throttle w"
    | (counted) i j where "auth_frame w w'" "r = Panicked \<or> r = Returned (Inr None)" "let_in D authcid w"
        "s_throttle w' = record_failure i j authcid (s_throttle w)"
    | (entered) row where "auth_frame w w'" "r = Panicked \<or> r = Returned (Inr (Some (account_of row)))" "let_in D authcid w"
        "row \<in> set (accounts (tables (s_auth w)))" "named authcid row" "opens D (tables (s_auth w)) (account_of row) pw"
        "s_throttle w' = record_success authcid (s_throttle w)"
proof (cases "let_in D authcid w")
  case False
  then have "r = Returned (Inr None)" "w' = w \<or> w' = w\<lparr>s_tick := Suc (s_tick w)\<rparr>"
    using assms(1) by (auto simp: auth_login_def let_in_def Let_def split: option.splits sum.splits)
  with False that(1) show thesis by (auto simp: auth_frame_def)
next
  case True
  then obtain lp dn where sp: "split_once (CHR ''@'') authcid = Some (lp, dn)" by (auto simp: let_in_def)
  obtain x d where x: "find_by_address lp dn (s_auth w) = (x, d)" by fastforce
  note f = find_by_address_run [OF x assms(2)]
  let ?w2 = "w\<lparr>s_tick := Suc (s_tick w), s_auth := d\<rparr>"
  have fr: "auth_frame w v" if "auth_frame ?w2 v" for v using that f(1) by (simp add: auth_frame_def)
  have run: "(case x of Panicked \<Rightarrow> (Panicked, ?w2) | Returned (Inr (Some a)) \<Rightarrow> auth_password D a authcid pw ?w2
      | Returned _ \<Rightarrow> auth_failed D authcid ?w2) = (r, w')"
    using assms(1) sp x True by (simp add: auth_login_def let_in_def Let_def)
  show thesis
  proof (cases "\<exists>a. x = Returned (Inr (Some a))")
    case found: True
    then obtain a where a: "x = Returned (Inr (Some a))" by blast
    then obtain row where row: "row \<in> set (accounts (tables (s_auth w)))" "a = account_of row" "ar_local_part row = lp"
      "ar_domain row = to_ascii_lowercase dn" using f(3) by blast
    have n: "named authcid row" using row sp by (simp add: named_def)
    have "auth_password D a authcid pw ?w2 = (r, w')" using run a by simp
    then show thesis
      by (cases rule: auth_password_cases) (use that(2-4) fr True row n f(1) in auto)
  next
    case False
    with f(2) run have "auth_failed D authcid ?w2 = (r, w')" by (auto split: pan.splits sum.splits option.splits)
    from auth_failed_run [OF this] that(3) [OF fr] True f(1) show thesis by (auto simp: auth_frame_def)
  qed
qed

text \<open>What the client presented: the initial response of AUTH PLAIN or the line after the challenge.\<close>

definition presented :: "sub_deps \<Rightarrow> string \<Rightarrow> sub_world \<Rightarrow> string \<Rightarrow> string \<Rightarrow> bool" where
  "presented D rest w authcid pw \<longleftrightarrow> eq_ignore_ascii_case (fst (split_command rest)) ''PLAIN'' \<and>
     (\<exists>payload decoded. fst (auth_payload (snd (split_command rest)) w) = Inr payload \<and>
        sb_base64_decode D (trim payload) = Some decoded \<and> parse_sasl_plain decoded = Some (authcid, pw))"

lemma auth_payload_talks:
  assumes "auth_payload initial w = (r, w')"
  shows "talks w w'"
proof (cases "initial = []")
  case True
  obtain b v where v: "sub_reply 334 [] w = (b, v)" by fastforce
  have t: "talks w v" by (rule talks_reply(1) [OF v]) simp_all
  obtain x c where x: "read_line_bounded MAX_COMMAND_LINE (s_conn v) = (x, c)" by fastforce
  have "talks v (v\<lparr>s_conn := c\<rparr>)" by (rule talks_read) (use read_line_remaining(1) [OF x] read_line_writer [OF x] in simp_all)
  with talks_trans [OF t] t assms True v x show ?thesis by (auto simp: auth_payload_def split: bool.splits line_result.splits)
qed (use assms in \<open>simp add: auth_payload_def\<close>)

lemma handle_auth_cases:
  assumes "handle_auth D rest w = (r, w')"
  obtains (silent) "talks w w'" "r = Returned (Inr None) \<or> r = Returned (Inl ())"
    | (login) authcid pw w1 where "presented D rest w authcid pw" "talks w w1" "auth_login D authcid pw w1 = (r, w')"
proof -
  obtain mech initial where sp: "split_command rest = (mech, initial)" by fastforce
  obtain x w1 where x: "auth_payload initial w = (x, w1)" by fastforce
  note t = auth_payload_talks [OF x]
  have t504: "talks w (snd (sub_reply 504 ''Unsupported authentication mechanism'' w))" by (rule talks_snd_reply) simp_all
  show thesis
  proof (cases "\<exists>payload decoded authcid pw. eq_ignore_ascii_case mech ''PLAIN'' \<and> x = Inr payload \<and>
      sb_base64_decode D (trim payload) = Some decoded \<and> parse_sasl_plain decoded = Some (authcid, pw)")
    case True
    then show thesis using that(2) [OF _ t] assms sp x by (auto simp: handle_auth_def presented_def)
  next
    case False
    then have "r = Returned (Inr None) \<or> r = Returned (Inl ())" "w' = w1 \<or> w' = snd (sub_reply 504 ''Unsupported authentication mechanism'' w)"
      using assms sp x by (auto simp: handle_auth_def split: if_splits sum.splits option.splits prod.splits)
    with that(1) t t504 show thesis by auto
  qed
qed

text \<open>Queueing the message of an envelope that satisfies the invariant.\<close>

lemma enqueue_submission_run:
  assumes "enqueue_submission D a raw w = (r, w')"
  shows "s_env w' = s_env w" "s_conn w' = s_conn w" "s_auth w' = s_auth w"
    "by_user U (submission a (s_env w) raw) \<Longrightarrow> spooled D U (s_spool w) (s_spool w')"
proof -
  let ?n = "s_tick w"
  obtain k q where k: "ensure_dkim_key (sb_dkim D ?n) (sb_unix D ?n) (acc_domain a) (sp_queue (s_spool w)) = (k, q)" by fastforce
  let ?s = "(s_spool w)\<lparr>sp_queue := q\<rparr>"
  have s1: "spooled D U (s_spool w) ?s" by (rule spooled.key [OF spooled.same k])
  have "s_env w' = s_env w \<and> s_conn w' = s_conn w \<and> s_auth w' = s_auth w \<and>
      (s_spool w' = ?s \<or> (\<exists>y x. enqueue (sb_sha256_hex D) (sb_torn D ?n) (sb_dkim D (Suc ?n)) y (sb_unix D (Suc ?n))
         (submission a (s_env w) raw) ?s = (x, s_spool w')))"
    using assms k by (auto simp: enqueue_submission_def Let_def split: sum.splits prod.splits)
  with s1 show "s_env w' = s_env w" "s_conn w' = s_conn w" "s_auth w' = s_auth w"
    "by_user U (submission a (s_env w) raw) \<Longrightarrow> spooled D U (s_spool w) (s_spool w')"
    using spooled.mail [OF s1] by auto
qed

section \<open>Every command consumes input\<close>

definition shrinks :: "sub_world \<Rightarrow> sub_world \<Rightarrow> bool" where
  "shrinks w w' \<longleftrightarrow> remaining (s_conn w') \<le> remaining (s_conn w)"

lemma shrinks_reply: "shrinks w (snd (sub_reply code msg w))"
proof -
  obtain b c where "write_reply code msg (s_conn w) = (b, c)" by fastforce
  with write_reply_effect(1) [OF this] show ?thesis by (simp add: shrinks_def sub_reply_def wrote_def)
qed

lemma shrinks_conn: "s_conn v = s_conn w \<Longrightarrow> shrinks v w' = shrinks w w'"
  by (simp add: shrinks_def)

lemma auth_login_conn: "s_conn (snd (auth_login D authcid pw w)) = s_conn w"
proof -
  have f: "s_conn (snd (auth_failed D authcid v)) = s_conn v" for v using auth_failed_run(3) [of D authcid v] by (metis prod.collapse)
  have g: "s_conn (snd (sub_audit D x y v)) = s_conn v" for x y v using sub_audit_run(3) [of D x y v] by (metis prod.collapse)
  have p: "s_conn (snd (auth_password D a authcid pw v)) = s_conn v" for a v
    by (simp add: auth_password_def Let_def f g case_prod_unfold split: pan.split sum.split)
  show ?thesis
    by (simp add: auth_login_def Let_def f p case_prod_unfold split: option.split sum.split pan.split)
qed

lemma handle_auth_shrinks: "shrinks w (snd (handle_auth D rest w))"
proof -
  obtain r w' where h: "handle_auth D rest w = (r, w')" by fastforce
  then have "shrinks w w'"
  proof (cases rule: handle_auth_cases)
    case silent
    then show ?thesis using talks_fields(7) by (simp add: shrinks_def)
  next
    case (login authcid pw w1)
    with auth_login_conn [of D authcid pw w1] talks_fields(7) [OF login(2)] show ?thesis by (simp add: shrinks_def)
  qed
  with h show ?thesis by simp
qed

lemma auth_command_shrinks: "shrinks w (snd (auth_command D is_tls rest w))"
proof -
  obtain x u where x: "handle_auth D rest w = (x, u)" by fastforce
  have u: "shrinks w u" using handle_auth_shrinks [of w D rest] x by simp
  have "shrinks w (snd (sub_reply code msg (u\<lparr>s_env := e\<rparr>)))" "shrinks w (snd (sub_reply code msg u))" for code msg e
    using shrinks_reply [of "u\<lparr>s_env := e\<rparr>" code msg] shrinks_reply [of u code msg] u by (simp_all add: shrinks_def)
  then show ?thesis
    using u x shrinks_reply by (auto simp: auth_command_def sub_answer_def split: pan.splits sum.splits option.splits)
qed

lemma sub_accept_shrinks: "shrinks w (snd (sub_accept D raw w))"
proof (cases "sv_authenticated (s_env w)")
  case None
  then show ?thesis by (simp add: sub_accept_def shrinks_def)
next
  case (Some a)
  obtain x w1 where x: "enqueue_submission D a raw w = (x, w1)" by fastforce
  have c: "shrinks w (snd (sub_reply code msg w1))" "shrinks w (sub_reset (snd (sub_reply code msg w1)))" for code msg
    using shrinks_reply [of w1 code msg] enqueue_submission_run(2) [OF x] by (simp_all add: shrinks_def sub_reset_def)
  have "shrinks w (snd (case sub_reply code msg w1 of (b, w2) \<Rightarrow> if b then (Next, sub_reset w2) else (Done SubClosed, w2)))" for code msg
    using c [of code msg] by (cases "sub_reply code msg w1") simp
  then show ?thesis using Some x by (auto simp: sub_accept_def split: sum.splits error.splits)
qed

lemma sub_data_shrinks: "shrinks w (snd (sub_data D w))"
proof -
  obtain b w1 where w1: "sub_reply 354 ''Start mail input; end with <CRLF>.<CRLF>'' w = (b, w1)" by fastforce
  have q1: "shrinks w w1" using shrinks_reply [of w 354 "''Start mail input; end with <CRLF>.<CRLF>''"] w1 by simp
  obtain x c where rd: "read_data (sb_max_message_size D) (s_conn w1) = (x, c)" by fastforce
  let ?w2 = "w1\<lparr>s_conn := c\<rparr>"
  have q2: "shrinks w ?w2" using q1 read_data_remaining(1) [OF rd] by (simp add: shrinks_def)
  have "shrinks w v" if "shrinks ?w2 v" for v using q2 that by (simp add: shrinks_def)
  with q1 q2 w1 rd shrinks_reply sub_accept_shrinks show ?thesis
    by (auto simp: sub_data_def sub_answer_def Let_def split: bool.splits sum.splits data_error.splits)
qed

lemma sub_helo_shrinks: "shrinks w (snd (sub_helo D is_tls verb rest w))"
proof (cases "valid_helo_domain (trim rest)")
  case False
  then show ?thesis using shrinks_reply by (simp add: sub_helo_def sub_answer_def)
next
  case True
  have "remaining d = remaining c" if "write_multiline_reply 250 ls c = (b, d)" for ls c b d
    using write_multiline_effect [OF that] by (simp add: wrote_def)
  with True show ?thesis
    by (auto simp: sub_helo_def sub_reset_def shrinks_def Let_def simp del: write_multiline_reply.simps split: prod.splits)
qed

lemma sub_envelope_shrinks:
  "shrinks w (snd (sub_starttls is_tls rest w))" "shrinks w (snd (sub_mail rest w))" "shrinks w (snd (sub_rcpt rest w))"
proof -
  have env: "shrinks w (snd (sub_reply code msg (w\<lparr>s_env := e\<rparr>)))" for code msg e
    using shrinks_reply [of "w\<lparr>s_env := e\<rparr>" code msg] by (simp add: shrinks_def)
  show "shrinks w (snd (sub_starttls is_tls rest w))"
    using shrinks_reply [of w] by (simp add: sub_starttls_def sub_answer_def case_prod_unfold Let_def)
  show "shrinks w (snd (sub_mail rest w))" "shrinks w (snd (sub_rcpt rest w))"
    using shrinks_reply [of w] env by (simp_all add: sub_mail_def sub_rcpt_def sub_answer_def shrinks_def split: option.split pan.split)
qed

lemma sub_run_command_shrinks: "shrinks w (snd (sub_run_command D is_tls verb rest w))"
proof -
  have "shrinks w (snd (sub_reply code msg (sub_reset w)))" for code msg
    using shrinks_reply [of "sub_reset w" code msg] by (simp add: shrinks_def sub_reset_def)
  then show ?thesis
    by (simp add: sub_run_command_def sub_answer_def Let_def shrinks_reply sub_helo_shrinks sub_envelope_shrinks auth_command_shrinks sub_data_shrinks)
qed

lemma sub_step_consumes:
  assumes "sub_step D is_tls w = (Next, w')"
  shows "remaining (s_conn w') < remaining (s_conn w)"
proof -
  obtain x c where x: "read_line_bounded MAX_COMMAND_LINE (s_conn w) = (x, c)" by fastforce
  with assms obtain line where line: "x = Line line" by (cases x) (auto simp: sub_step_def)
  obtain verb rest where "split_command (line_text line) = (verb, rest)" by fastforce
  with assms x line have "sub_run_command D is_tls verb rest (w\<lparr>s_conn := c\<rparr>) = (Next, w')" by (simp add: sub_step_def)
  then have "remaining (s_conn w') \<le> remaining c"
    using sub_run_command_shrinks [of "w\<lparr>s_conn := c\<rparr>" D is_tls verb rest] unfolding shrinks_def by simp
  with read_line_remaining(2) [OF x [unfolded line]] show ?thesis by linarith
qed

section \<open>The loop and the connections\<close>

function sub_rounds :: "sub_deps \<Rightarrow> bool \<Rightarrow> sub_world \<Rightarrow> sub_outcome \<times> sub_world" where
  "sub_rounds D is_tls w =
     (case sub_step D is_tls w of
        (Next, w') \<Rightarrow> sub_rounds D is_tls w'
      | (Done out, w') \<Rightarrow> (out, w'))"
  by pat_completeness auto
termination
  by (relation "measure (\<lambda>(D, is_tls, w). remaining (s_conn w))") (auto dest: sub_step_consumes [OF sym])

declare sub_rounds.simps [simp del]

definition sub_loop :: "sub_deps \<Rightarrow> bool \<Rightarrow> bool \<Rightarrow> sub_world \<Rightarrow> sub_outcome \<times> sub_world" where
  "sub_loop D is_tls greet w =
     (if \<not> greet then sub_rounds D is_tls w
      else case sub_reply 220 (sb_hostname D @ '' ESMTP Litterae Submission'') w of
             (False, w') \<Rightarrow> (SubClosed, w')
           | (True, w') \<Rightarrow> sub_rounds D is_tls w')"

text \<open>The handshake is the TLS library's: \<open>accept\<close> gives the encrypted connection over the socket, or fails.\<close>

definition handle_starttls_connection :: "sub_deps \<Rightarrow> (conn \<Rightarrow> conn option) \<Rightarrow> sub_world \<Rightarrow> sub_outcome \<times> sub_world" where
  "handle_starttls_connection D accept w =
     (let (out, w1) = sub_loop D False True (w\<lparr>s_env := sub_envelope_default\<rparr>) in
      if out \<noteq> SubStartTls then (out, w1)
      else if rbuf (s_conn w1) \<noteq> [] then (SubClosed, w1)
      else case accept (s_conn w1) of
             None \<Rightarrow> (SubClosed, w1)
           | Some c \<Rightarrow> sub_loop D True False (w1\<lparr>s_conn := c, s_env := sub_envelope_default\<rparr>))"

definition handle_implicit_connection :: "sub_deps \<Rightarrow> (conn \<Rightarrow> conn option) \<Rightarrow> sub_world \<Rightarrow> sub_outcome \<times> sub_world" where
  "handle_implicit_connection D accept w =
     (case accept (s_conn w) of
        None \<Rightarrow> (SubClosed, w)
      | Some c \<Rightarrow> sub_loop D True True (w\<lparr>s_conn := c, s_env := sub_envelope_default\<rparr>))"

section \<open>The session keeps its invariant\<close>

text \<open>A session is logged in over TLS only, to one of the accounts in \<open>U\<close>.\<close>

definition sub_env_ok :: "account set \<Rightarrow> bool \<Rightarrow> sub_envelope \<Rightarrow> bool" where
  "sub_env_ok U is_tls e \<longleftrightarrow>
     (\<forall>a. sv_authenticated e = Some a \<longrightarrow> is_tls \<and> a \<in> U) \<and>
     (\<forall>f. sv_mail_from e = Some f \<longrightarrow> (\<exists>a. sv_authenticated e = Some a \<and> eq_ignore_ascii_case f (address a))) \<and>
     length (sv_rcpt_to e) \<le> MAX_RECIPIENTS \<and> list_all valid_email_address (sv_rcpt_to e)"

definition sub_inv :: "account set \<Rightarrow> bool \<Rightarrow> sub_world \<Rightarrow> bool" where
  "sub_inv U is_tls w \<longleftrightarrow> auth_ok (tables (s_auth w)) \<and> sub_env_ok U is_tls (s_env w)"

definition sub_rel :: "sub_deps \<Rightarrow> account set \<Rightarrow> bool \<Rightarrow> sub_world \<Rightarrow> sub_world \<Rightarrow> bool" where
  "sub_rel D U is_tls w w' \<longleftrightarrow> remaining (s_conn w') \<le> remaining (s_conn w) \<and>
     (clean_text (sb_hostname D) \<longrightarrow> clean_sent (s_conn w) \<longrightarrow> clean_sent (s_conn w')) \<and>
     same_credentials (tables (s_auth w)) (tables (s_auth w')) \<and>
     spooled D U (s_spool w) (s_spool w') \<and>
     (\<not> is_tls \<longrightarrow> s_auth w' = s_auth w \<and> s_spool w' = s_spool w \<and> s_audit w' = s_audit w \<and> s_throttle w' = s_throttle w)"

lemma sub_rel_refl: "sub_rel D U is_tls w w"
  by (simp add: sub_rel_def spooled.same)

lemma sub_rel_trans:
  assumes "sub_rel D U is_tls u v" and "sub_rel D U is_tls v w"
  shows "sub_rel D U is_tls u w"
  using assms spooled_trans same_credentials_trans unfolding sub_rel_def by (smt (verit) le_trans)

definition keeps_sub :: "sub_deps \<Rightarrow> account set \<Rightarrow> bool \<Rightarrow> sub_world \<Rightarrow> sub_world \<Rightarrow> bool" where
  "keeps_sub D U is_tls w w' \<longleftrightarrow> sub_inv U is_tls w' \<and> sub_rel D U is_tls w w'"

lemma keeps_sub_trans: "keeps_sub D U is_tls u v \<Longrightarrow> keeps_sub D U is_tls v w \<Longrightarrow> keeps_sub D U is_tls u w"
  using sub_rel_trans by (auto simp: keeps_sub_def)

lemma keeps_talks: "talks w w' \<Longrightarrow> sub_inv U is_tls w \<Longrightarrow> keeps_sub D U is_tls w w'"
  using talks_fields [of w w'] by (simp add: keeps_sub_def sub_inv_def sub_rel_def spooled.same)

lemma keeps_env:
  assumes "sub_inv U is_tls w" and "sub_env_ok U is_tls e"
  shows "keeps_sub D U is_tls w (w\<lparr>s_env := e\<rparr>)"
  using assms by (simp add: keeps_sub_def sub_inv_def sub_rel_def spooled.same)

lemma keeps_sub_answer:
  assumes "sub_answer code msg v = (r, w')" and "100 \<le> code" and "code < 1000" and "clean_text msg" and "keeps_sub D U is_tls w v"
  shows "keeps_sub D U is_tls w w'"
  using keeps_sub_trans [OF assms(5) keeps_talks [OF talks_answer [OF assms(1-4)]]] assms(5) by (simp add: keeps_sub_def)

lemma keeps_sub_refl: "sub_inv U is_tls w \<Longrightarrow> keeps_sub D U is_tls w w"
  by (rule keeps_talks) simp_all

lemma env_ok_reset: "sub_env_ok U is_tls e \<Longrightarrow> sub_env_ok U is_tls (sub_envelope_reset e)"
  by (simp add: sub_env_ok_def sub_envelope_reset_def)

lemma keeps_sub_reset: "keeps_sub D U is_tls w v \<Longrightarrow> keeps_sub D U is_tls w (sub_reset v)"
  by (rule keeps_sub_trans, assumption)
    (auto simp: sub_reset_def keeps_sub_def sub_inv_def sub_rel_def spooled.same intro: env_ok_reset)

lemma sub_helo_keeps:
  assumes "sub_helo D is_tls verb rest w = (r, w')" and "sub_inv U is_tls w"
  shows "keeps_sub D U is_tls w w'"
proof (cases "valid_helo_domain (trim rest)")
  case False
  then have "sub_answer 501 ''Syntax error in parameters'' w = (r, w')" using assms(1) by (simp add: sub_helo_def)
  then show ?thesis by (rule keeps_sub_answer) (simp_all add: keeps_sub_refl assms(2))
next
  case True
  let ?v = "w\<lparr>s_env := (s_env w)\<lparr>sv_helo_domain := Some (trim rest)\<rparr>\<rparr>"
  define w1 where "w1 = sub_reset ?v"
  define ls where "ls = (sb_hostname D @ '' Hello'') # (if eq_ignore_ascii_case verb ''EHLO''
    then [''SIZE '' @ show_nat (sb_max_message_size D), if \<not> is_tls then ''STARTTLS'' else ''AUTH PLAIN'', ''8BITMIME''] else [])"
  obtain b c where c: "write_multiline_reply 250 ls (s_conn w1) = (b, c)" by fastforce
  have w': "w' = w1\<lparr>s_conn := c\<rparr>"
    using assms(1) True c unfolding sub_helo_def w1_def [symmetric] Let_def ls_def [symmetric] by simp
  have "keeps_sub D U is_tls w ?v" by (rule keeps_env [OF assms(2)]) (use assms(2) in \<open>simp add: sub_inv_def sub_env_ok_def\<close>)
  then have k: "keeps_sub D U is_tls w w1" unfolding w1_def by (rule keeps_sub_reset)
  have "clean_text (sb_hostname D) \<longrightarrow> list_all clean_text ls" by (simp add: ls_def)
  then have "keeps_sub D U is_tls w1 w'"
    using write_multiline_effect [OF c] k by (auto simp: keeps_sub_def sub_inv_def sub_rel_def spooled.same wrote_def w')
  with k show ?thesis by (rule keeps_sub_trans)
qed

lemma sub_starttls_keeps:
  assumes "sub_starttls is_tls rest w = (r, w')" and "sub_inv U is_tls w"
  shows "keeps_sub D U is_tls w w'"
proof -
  have "talks w (snd (sub_reply 503 ''Already using TLS'' w))" "talks w (snd (sub_reply 501 ''Syntax error'' w))"
    "talks w (snd (sub_reply 220 ''Go ahead'' w))" by (rule talks_snd_reply; simp)+
  then have "talks w w'" using assms(1) by (auto simp: sub_starttls_def sub_answer_def split: if_splits prod.splits)
  from keeps_talks [OF this assms(2)] show ?thesis .
qed

lemma auth_frame_keeps:
  assumes "auth_frame w w'" and "sub_inv U True w"
  shows "keeps_sub D U True w w'"
  using assms by (simp add: keeps_sub_def sub_inv_def sub_rel_def auth_frame_def spooled.same)

text \<open>The AUTH command, case by case.\<close>

lemma auth_command_cases:
  assumes "auth_command D is_tls rest w = (r, w')" and "auth_ok (tables (s_auth w))"
  obtains (silent) "talks w w'"
    | (refused) authcid pw where "is_tls" "sv_authenticated (s_env w) = None" "presented D rest w authcid pw" "auth_frame w w'"
        "s_throttle w' = s_throttle w" "\<not> let_in D authcid w \<and> s_auth w' = s_auth w \<or> r = Done SubClosed"
    | (counted) authcid pw i j where "is_tls" "sv_authenticated (s_env w) = None" "presented D rest w authcid pw" "auth_frame w w'"
        "let_in D authcid w" "s_throttle w' = record_failure i j authcid (s_throttle w)"
    | (entered) authcid pw row where "is_tls" "sv_authenticated (s_env w) = None" "presented D rest w authcid pw"
        "auth_frame w (w'\<lparr>s_env := s_env w\<rparr>)" "let_in D authcid w" "row \<in> set (accounts (tables (s_auth w)))" "named authcid row"
        "opens D (tables (s_auth w)) (account_of row) pw" "s_throttle w' = record_success authcid (s_throttle w)"
        "s_env w' = s_env w \<and> r = Done SubCrashed \<or>
          r = Next \<and> s_env w' = (s_env w)\<lparr>sv_authenticated := Some (account_of row)\<rparr>"
proof (cases "is_tls \<and> sv_authenticated (s_env w) = None")
  case False
  have "talks w (snd (sub_reply 530 ''Must issue STARTTLS first'' w))" "talks w (snd (sub_reply 503 ''Already authenticated'' w))"
    by (rule talks_snd_reply; simp)+
  with False that(1) assms(1) show thesis by (auto simp: auth_command_def sub_answer_def split: if_splits)
next
  case True
  obtain x u where x: "handle_auth D rest w = (x, u)" by fastforce
  have t: "talks v (snd (sub_reply 535 ''Authentication failed'' v))" "talks v (snd (sub_reply 235 ''Authentication successful'' v))" for v
    by (rule talks_snd_reply; simp)+
  define fin where "fin y = (case y of Some a \<Rightarrow> u\<lparr>s_env := (s_env u)\<lparr>sv_authenticated := Some a\<rparr>\<rparr> | None \<Rightarrow> u)" for y
  have run: "x = Panicked \<and> r = Done SubCrashed \<and> w' = u \<or> x = Returned (Inl ()) \<and> r = Done SubClosed \<and> w' = u \<or>
      (\<exists>y. x = Returned (Inr y) \<and> r = Next \<and> talks (fin y) w')"
    using assms(1) True x t(1) [of u] t(2)
    by (auto simp: auth_command_def sub_answer_def fin_def split: pan.splits sum.splits option.splits)
  from x show thesis
  proof (cases rule: handle_auth_cases)
    case silent
    with run have "talks u w'" by (auto simp: fin_def)
    from that(1) [OF talks_trans [OF silent(1) this]] show thesis .
  next
    case (login authcid pw w1)
    note w1 = talks_fields [OF login(2)]
    have li: "let_in D authcid w1 = let_in D authcid w" by (simp add: let_in_def w1)
    have ok: "auth_ok (tables (s_auth w1))" using assms(2) w1 by simp
    have fr: "auth_frame w w' \<and> s_throttle w' = s_throttle u \<and> s_auth w' = s_auth u" if "auth_frame w1 u" "w' = u \<or> talks u w'"
      using auth_frame_trans [OF auth_frame_trans [OF talks_frame [OF login(2)] that(1)]] talks_frame [of u w'] that talks_fields [of u w']
        auth_frame_trans [OF talks_frame [OF login(2)] that(1)] by auto
    from login(3) ok show thesis
    proof (cases rule: auth_login_cases)
      case blocked
      with run have "talks u w'" by (auto simp: fin_def)
      with fr [OF blocked(1)] blocked that(2) [of authcid pw] True login(1) li w1 show thesis by auto
    next
      case aborted
      with run have "w' = u" "r = Done SubClosed" by auto
      with fr [OF aborted(1)] aborted that(2) [of authcid pw] True login(1) w1 show thesis by auto
    next
      case (counted i j)
      with run have "w' = u \<or> talks u w'" by (auto simp: fin_def)
      with fr [OF counted(1)] counted that(3) [of authcid pw] True login(1) li w1 show thesis by auto
    next
      case (entered row)
      let ?e = "(s_env w)\<lparr>sv_authenticated := Some (account_of row)\<rparr>"
      have u: "auth_frame w u" by (rule auth_frame_trans [OF talks_frame [OF login(2)] entered(1)])
      from run entered(2) consider (crash) "w' = u" "r = Done SubCrashed" | (go) "talks (u\<lparr>s_env := ?e\<rparr>) w'" "r = Next"
        using u by (auto simp: fin_def auth_frame_def)
      then show thesis
      proof cases
        case crash
        with u that(4) [of authcid pw row] True login(1) entered li w1 show thesis by (auto simp: auth_frame_def)
      next
        case go
        with u that(4) [of authcid pw row] True login(1) entered li w1 talks_fields [OF go(1)] show thesis by (auto simp: auth_frame_def)
      qed
    qed
  qed
qed

text \<open>A command that logs the session in to an account: AUTH, with an identity that names the account and a password
  that opens it, both presented by the client.\<close>

definition enters :: "sub_deps \<Rightarrow> string \<Rightarrow> sub_world \<Rightarrow> account \<Rightarrow> bool" where
  "enters D rest w a \<longleftrightarrow> (\<exists>authcid pw row. presented D rest w authcid pw \<and> row \<in> set (accounts (tables (s_auth w))) \<and>
     named authcid row \<and> a = account_of row \<and> opens D (tables (s_auth w)) a pw)"

lemma auth_command_keeps:
  assumes "auth_command D is_tls rest w = (r, w')" and "sub_inv U is_tls w"
    and "\<And>a. is_tls \<Longrightarrow> enters D rest w a \<Longrightarrow> r = Next \<Longrightarrow> sv_authenticated (s_env w') = Some a \<Longrightarrow> a \<in> U"
  shows "keeps_sub D U is_tls w w'"
proof -
  have ok: "auth_ok (tables (s_auth w))" using assms(2) by (simp add: sub_inv_def)
  from assms(1) ok show ?thesis
  proof (cases rule: auth_command_cases)
    case silent
    from keeps_talks [OF this assms(2)] show ?thesis .
  next
    case (refused authcid pw)
    with auth_frame_keeps [OF refused(4)] assms(2) show ?thesis by simp
  next
    case (counted authcid pw i j)
    with auth_frame_keeps [OF counted(4)] assms(2) show ?thesis by simp
  next
    case (entered authcid pw row)
    have k: "keeps_sub D U is_tls w (w'\<lparr>s_env := s_env w\<rparr>)" using auth_frame_keeps [OF entered(4)] assms(2) entered(1) by simp
    have e: "enters D rest w (account_of row)" unfolding enters_def using entered(3,6,7,8) by blast
    have "account_of row \<in> U" if "r = Next" "sv_authenticated (s_env w') = Some (account_of row)"
      by (rule assms(3) [OF entered(1) e that])
    with k entered(1,2,10) have "sub_env_ok U is_tls (s_env w')" by (auto simp: keeps_sub_def sub_inv_def sub_env_ok_def)
    with k show ?thesis by (simp add: keeps_sub_def sub_inv_def sub_rel_def)
  qed
qed

lemma sub_mail_keeps:
  assumes "sub_mail rest w = (r, w')" and "sub_inv U is_tls w"
  shows "keeps_sub D U is_tls w w'"
proof -
  have k: "keeps_sub D U is_tls w w" by (rule keeps_sub_refl [OF assms(2)])
  consider (answer) code msg where "sub_answer code msg w = (r, w')" "code \<in> {530, 501, 553}" "clean_text msg" | (crash) "w' = w"
    | (ok) a addr where "sv_authenticated (s_env w) = Some a" "eq_ignore_ascii_case addr (address a)"
        "sub_answer 250 ''OK'' (w\<lparr>s_env := (s_env w)\<lparr>sv_mail_from := Some addr, sv_rcpt_to := []\<rparr>\<rparr>) = (r, w')"
    using assms(1) by (fastforce simp: sub_mail_def split: option.splits pan.splits if_splits)
  then show ?thesis
  proof cases
    case answer
    show ?thesis by (rule keeps_sub_answer [OF answer(1) _ _ answer(3) k]) (use answer(2) in auto)
  next
    case crash
    with k show ?thesis by simp
  next
    case ok
    have "keeps_sub D U is_tls w (w\<lparr>s_env := (s_env w)\<lparr>sv_mail_from := Some addr, sv_rcpt_to := []\<rparr>\<rparr>)"
      by (rule keeps_env [OF assms(2)]) (use assms(2) ok in \<open>simp add: sub_inv_def sub_env_ok_def\<close>)
    then show ?thesis by (rule keeps_sub_answer [OF ok(3), rotated -1]) simp_all
  qed
qed

lemma sub_rcpt_keeps:
  assumes "sub_rcpt rest w = (r, w')" and "sub_inv U is_tls w"
  shows "keeps_sub D U is_tls w w'"
proof -
  have k: "keeps_sub D U is_tls w w" by (rule keeps_sub_refl [OF assms(2)])
  consider (answer) code msg where "sub_answer code msg w = (r, w')" "code \<in> {503, 501, 452}" "clean_text msg" | (crash) "w' = w"
    | (ok) addr where "length (sv_rcpt_to (s_env w)) < MAX_RECIPIENTS" "valid_email_address addr"
        "sub_answer 250 ''OK'' (w\<lparr>s_env := (s_env w)\<lparr>sv_rcpt_to := sv_rcpt_to (s_env w) @ [addr]\<rparr>\<rparr>) = (r, w')"
    using assms(1) by (fastforce simp: sub_rcpt_def split: option.splits pan.splits if_splits)
  then show ?thesis
  proof cases
    case answer
    show ?thesis by (rule keeps_sub_answer [OF answer(1) _ _ answer(3) k]) (use answer(2) in auto)
  next
    case crash
    with k show ?thesis by simp
  next
    case ok
    have "keeps_sub D U is_tls w (w\<lparr>s_env := (s_env w)\<lparr>sv_rcpt_to := sv_rcpt_to (s_env w) @ [addr]\<rparr>\<rparr>)"
      by (rule keeps_env [OF assms(2)]) (use assms(2) ok in \<open>simp add: sub_inv_def sub_env_ok_def\<close>)
    then show ?thesis by (rule keeps_sub_answer [OF ok(3), rotated -1]) simp_all
  qed
qed

lemma sub_accept_keeps:
  assumes "sub_accept D raw w = (r, w')" and "sub_inv U is_tls w" and "sv_mail_from (s_env w) \<noteq> None"
  shows "keeps_sub D U is_tls w w'"
proof -
  obtain f a where a: "sv_mail_from (s_env w) = Some f" "sv_authenticated (s_env w) = Some a" "eq_ignore_ascii_case f (address a)" "is_tls"
    using assms(2,3) by (fastforce simp: sub_inv_def sub_env_ok_def)
  have u: "by_user U (submission a (s_env w) raw)"
    using assms(2) a by (auto simp: by_user_def submission_def sub_inv_def sub_env_ok_def)
  obtain x w1 where x: "enqueue_submission D a raw w = (x, w1)" by fastforce
  note e = enqueue_submission_run [OF x]
  have k1: "keeps_sub D U is_tls w w1"
    using e(1-3) e(4) [OF u] assms(2) a(4) by (simp add: keeps_sub_def sub_inv_def sub_rel_def)
  have "talks w1 (snd (sub_reply 250 ''OK: message queued'' w1))" "talks w1 (snd (sub_reply 450 ''Rate limit exceeded, try again later'' w1))"
    "talks w1 (snd (sub_reply 451 ''Local error in processing'' w1))" by (rule talks_snd_reply; simp)+
  then obtain w2 where w2: "talks w1 w2" "w' = w2 \<or> w' = sub_reset w2"
    using assms(1) a(2) x by (auto simp: sub_accept_def split: prod.splits sum.splits error.splits if_splits)
  have "keeps_sub D U is_tls w w2" by (rule keeps_sub_trans [OF k1 keeps_talks [OF w2(1)]]) (use k1 in \<open>simp add: keeps_sub_def\<close>)
  with w2(2) keeps_sub_reset show ?thesis by blast
qed

lemma sub_data_keeps:
  assumes "sub_data D w = (r, w')" and "sub_inv U is_tls w"
  shows "keeps_sub D U is_tls w w'"
proof (cases "sv_mail_from (s_env w) = None \<or> sv_rcpt_to (s_env w) = []")
  case True
  then have "sub_answer 503 ''Bad sequence of commands'' w = (r, w')" using assms(1) by (auto simp: sub_data_def)
  then show ?thesis by (rule keeps_sub_answer) (simp_all add: keeps_sub_refl [OF assms(2)])
next
  case False
  obtain b w1 where w1: "sub_reply 354 ''Start mail input; end with <CRLF>.<CRLF>'' w = (b, w1)" by fastforce
  have q1: "talks w w1" by (rule talks_reply(1) [OF w1]) simp_all
  obtain x c where rd: "read_data (sb_max_message_size D) (s_conn w1) = (x, c)" by fastforce
  let ?w2 = "w1\<lparr>s_conn := c\<rparr>"
  have q2: "talks w ?w2" by (rule talks_trans [OF q1 talks_read]) (rule read_data_remaining [OF rd])+
  have q3: "talks w (snd (sub_reply 552 ''Message size exceeds fixed limit'' ?w2))" by (rule talks_trans [OF q2 talks_snd_reply]) simp_all
  from w1 rd assms(1) False have "w' = w1 \<or> w' = ?w2 \<or> w' = snd (sub_reply 552 ''Message size exceeds fixed limit'' ?w2) \<or>
      (\<exists>raw. sub_accept D raw ?w2 = (r, w'))"
    by (auto simp: sub_data_def Let_def split: bool.splits sum.splits data_error.splits)
  moreover have "keeps_sub D U is_tls w w'" if "sub_accept D raw ?w2 = (r, w')" for raw
  proof -
    have k: "keeps_sub D U is_tls w ?w2" by (rule keeps_talks [OF q2 assms(2)])
    from sub_accept_keeps [OF that] k False talks_fields(1) [OF q2] show ?thesis using keeps_sub_trans [OF k] by (simp add: keeps_sub_def)
  qed
  ultimately show ?thesis using keeps_talks [OF q1 assms(2)] keeps_talks [OF q2 assms(2)] keeps_talks [OF q3 assms(2)] by blast
qed

lemma sub_run_command_keeps:
  assumes "sub_run_command D is_tls verb rest w = (r, w')" and "sub_inv U is_tls w"
    and "\<And>a. is_tls \<Longrightarrow> to_ascii_uppercase verb = ''AUTH'' \<Longrightarrow> enters D rest w a \<Longrightarrow> r = Next \<Longrightarrow>
      sv_authenticated (s_env w') = Some a \<Longrightarrow> a \<in> U"
  shows "keeps_sub D U is_tls w w'"
proof -
  have ans: "keeps_sub D U is_tls v (snd (sub_reply code msg u))" if "keeps_sub D U is_tls v u" "100 \<le> code" "code < 1000" "clean_text msg" for code msg u v
    using keeps_sub_trans [OF that(1) keeps_talks [OF talks_snd_reply [OF that(2-4)]]] that(1) by (simp add: keeps_sub_def)
  note k = keeps_sub_refl [OF assms(2)] keeps_sub_reset [OF keeps_sub_refl [OF assms(2)]]
  note cmds = sub_helo_keeps [of D is_tls verb rest w r w' U] sub_starttls_keeps [of is_tls rest w r w' U D]
    sub_mail_keeps [of rest w r w' U is_tls D] sub_rcpt_keeps [of rest w r w' U is_tls D] sub_data_keeps [of D w r w' U is_tls]
  have auth: "keeps_sub D U is_tls w w'" if "to_ascii_uppercase verb = ''AUTH''" "auth_command D is_tls rest w = (r, w')"
    by (rule auth_command_keeps [OF that(2) assms(2)]) (use assms(3) that(1) in blast)
  have "keeps_sub D U is_tls w (snd (sub_reply 250 ''OK'' (sub_reset w)))" "keeps_sub D U is_tls w (snd (sub_reply 250 ''OK'' w))"
    "keeps_sub D U is_tls w (snd (sub_reply 221 ''Bye'' w))" "keeps_sub D U is_tls w (snd (sub_reply 502 ''Command not implemented'' w))"
    by (rule ans [OF k(2)] ans [OF k(1)]; simp)+
  with cmds auth assms(1,2) show ?thesis unfolding sub_run_command_def Let_def sub_answer_def by (auto split: if_splits)
qed

text \<open>A step that reads an AUTH command which logs the session in, and the accounts that a run of the command loop
  logs in to: each of them is traced to the command of the run that did it.\<close>

definition logs_in :: "sub_deps \<Rightarrow> sub_world \<Rightarrow> account \<Rightarrow> bool" where
  "logs_in D w a \<longleftrightarrow> (\<exists>line c verb rest w'. read_line_bounded MAX_COMMAND_LINE (s_conn w) = (Line line, c) \<and>
     split_command (line_text line) = (verb, rest) \<and> to_ascii_uppercase verb = ''AUTH'' \<and> enters D rest (w\<lparr>s_conn := c\<rparr>) a \<and>
     sub_step D True w = (Next, w') \<and> sv_authenticated (s_env w') = Some a)"

definition logins :: "sub_deps \<Rightarrow> sub_world \<Rightarrow> account set" where
  "logins D w = {a. \<exists>n v. rounds (sub_step D True) n w = Some v \<and> logs_in D v a}"

lemma sub_step_keeps:
  assumes "sub_step D is_tls w = (r, w')" and "sub_inv U is_tls w" and "\<And>a. is_tls \<Longrightarrow> logs_in D w a \<Longrightarrow> a \<in> U"
  shows "keeps_sub D U is_tls w w'"
proof -
  obtain x c where x: "read_line_bounded MAX_COMMAND_LINE (s_conn w) = (x, c)" by fastforce
  let ?w = "w\<lparr>s_conn := c\<rparr>"
  have t: "talks w ?w" by (rule talks_read) (use read_line_remaining(1) [OF x] read_line_writer [OF x] in simp_all)
  have k: "keeps_sub D U is_tls w ?w" by (rule keeps_talks [OF t assms(2)])
  have inv: "sub_inv U is_tls ?w" using k by (simp add: keeps_sub_def)
  have t5: "talks w (snd (sub_reply 500 ''Line too long'' ?w))" by (rule talks_trans [OF t talks_snd_reply]) simp_all
  have run: "keeps_sub D U is_tls ?w w'"
    if l: "x = Line line" "split_command (line_text line) = (verb, rest)" "sub_run_command D is_tls verb rest ?w = (r, w')" for line verb rest
  proof (rule sub_run_command_keeps [OF l(3) inv])
    fix a assume a: "is_tls" "to_ascii_uppercase verb = ''AUTH''" "enters D rest ?w a" "r = Next" "sv_authenticated (s_env w') = Some a"
    have "logs_in D w a" unfolding logs_in_def using x l(1,2) a assms(1) by auto
    then show "a \<in> U" by (rule assms(3) [OF a(1)])
  qed
  show ?thesis
    using assms(1) x k keeps_talks [OF t5 assms(2)] keeps_sub_trans [OF k run]
    by (auto simp: sub_step_def split: line_result.splits prod.splits)
qed

interpretation submit: command_session "sub_step D is_tls" "sub_rounds D is_tls" "\<lambda>w. remaining (s_conn w)" "sub_inv UNIV is_tls" "sub_rel D UNIV is_tls"
  for D is_tls
proof
  show "sub_rounds D is_tls w = (case sub_step D is_tls w of (Next, w') \<Rightarrow> sub_rounds D is_tls w' | (Done out, w') \<Rightarrow> (out, w'))" for w
    by (rule sub_rounds.simps)
  show "sub_step D is_tls w = (Next, w') \<Longrightarrow> remaining (s_conn w') < remaining (s_conn w)" for w w' by (rule sub_step_consumes)
  fix w r w' assume "sub_inv UNIV is_tls w" "sub_step D is_tls w = (r, w')"
  then show "sub_inv UNIV is_tls w'" "sub_rel D UNIV is_tls w w'" using sub_step_keeps [of D is_tls w r w' UNIV] by (auto simp: keeps_sub_def)
qed (rule sub_rel_refl, rule sub_rel_trans)

lemma sub_rounds_keeps:
  assumes "sub_rounds D is_tls w = (out, w')" and "sub_inv U is_tls w" and "is_tls \<Longrightarrow> logins D w \<subseteq> U"
  shows "keeps_sub D U is_tls w w'"
proof (rule submit.loop_traced [OF assms(1), where P = "keeps_sub D U is_tls w"])
  show "keeps_sub D U is_tls w w" by (rule keeps_sub_refl [OF assms(2)])
  fix n v r v'
  assume v: "rounds (sub_step D is_tls) n w = Some v" "keeps_sub D U is_tls w v" "sub_step D is_tls v = (r, v')"
  have "a \<in> U" if "is_tls" "logs_in D v a" for a using assms(3) that v(1) by (auto simp: logins_def)
  with sub_step_keeps [OF v(3), of U] v(2) have "keeps_sub D U is_tls v v'" by (simp add: keeps_sub_def)
  with v(2) show "keeps_sub D U is_tls w v'" by (rule keeps_sub_trans)
qed

text \<open>The state in which the loop reads its first command.\<close>

definition greeted :: "sub_deps \<Rightarrow> bool \<Rightarrow> sub_world \<Rightarrow> sub_world" where
  "greeted D greet w = (if greet then snd (sub_reply 220 (sb_hostname D @ '' ESMTP Litterae Submission'') w) else w)"

lemma greeted_keeps:
  assumes "sub_inv U is_tls w"
  shows "keeps_sub D U is_tls w (greeted D greet w)"
proof -
  obtain b c where c: "write_reply 220 (sb_hostname D @ '' ESMTP Litterae Submission'') (s_conn w) = (b, c)" by fastforce
  show ?thesis
    using write_reply_effect [OF c] keeps_sub_refl [OF assms] assms
    by (auto simp: greeted_def sub_reply_def c keeps_sub_def sub_inv_def sub_rel_def spooled.same wrote_def)
qed

lemma sub_loop_keeps:
  assumes "sub_loop D is_tls greet w = (out, w')" and "sub_inv U is_tls w" and "is_tls \<Longrightarrow> logins D (greeted D greet w) \<subseteq> U"
  shows "keeps_sub D U is_tls w w'"
proof -
  let ?v = "greeted D greet w"
  have k: "keeps_sub D U is_tls w ?v" by (rule greeted_keeps [OF assms(2)])
  have "w' = ?v \<or> sub_rounds D is_tls ?v = (out, w')"
    using assms(1) by (auto simp: sub_loop_def greeted_def split: if_splits prod.splits bool.splits)
  then show ?thesis
  proof
    assume "sub_rounds D is_tls ?v = (out, w')"
    from sub_rounds_keeps [OF this _ assms(3)] k keeps_sub_trans [OF k] show ?thesis by (simp add: keeps_sub_def)
  qed (use k in simp)
qed

section \<open>What the queue gets\<close>

definition sent_by :: "account set \<Rightarrow> outbound_row \<Rightarrow> bool" where
  "sent_by U m \<longleftrightarrow> ob_is_dsn m = 0 \<and> (\<exists>a \<in> U. ob_account_id m = acc_id a \<and> eq_ignore_ascii_case (ob_envelope_from m) (address a))"

definition queue_grows :: "account set \<Rightarrow> queue_tables \<Rightarrow> queue_tables \<Rightarrow> bool" where
  "queue_grows U q q' \<longleftrightarrow> (\<exists>ms rs. outbound q' = outbound q @ ms \<and> outbound_rcpt q' = outbound_rcpt q @ rs \<and>
     list_all (sent_by U) ms \<and> list_all (\<lambda>r. valid_email_address (rc_rcpt_to r) \<and> rc_state r = ''ready'') rs)"

lemma queue_grows_refl: "queue_grows U q q"
  by (simp add: queue_grows_def)

lemma queue_grows_trans: "queue_grows U p q \<Longrightarrow> queue_grows U q r \<Longrightarrow> queue_grows U p r"
  unfolding queue_grows_def by (elim exE conjE) (rule exI, rule exI, auto)

lemma accepted_grows:
  assumes "accepted h dl key now new n m q q'" and "by_user U new"
  shows "queue_grows U q q'"
proof -
  obtain rows where rows: "rows_for (ob_id m) now (take n (no_recipients new)) rows"
    "q' = q\<lparr>outbound := outbound q @ [m], outbound_rcpt := outbound_rcpt q @ rows\<rparr>"
    and m: "valid_outbound new" "queued_message h dl key now new m" using assms(1) unfolding accepted_def by blast
  have "rc_rcpt_to r \<in> set (no_recipients new)" if "r \<in> set rows" for r
    using rows_for_fields(1) [OF rows(1)] that by (metis image_eqI list.set_map in_set_takeD)
  moreover have "valid_email_address a" if "a \<in> set (no_recipients new)" for a
    using m(1) that by (auto simp: valid_outbound_def list_ex_iff)
  ultimately have "list_all (\<lambda>r. valid_email_address (rc_rcpt_to r) \<and> rc_state r = ''ready'') rows"
    using rows_for_fields(3) [OF rows(1)] by (simp add: list_all_iff)
  moreover have "sent_by U m" using m(2) assms(2) by (auto simp: sent_by_def queued_message_def by_user_def)
  ultimately show ?thesis unfolding queue_grows_def by (intro exI [of _ "[m]"] exI [of _ rows]) (simp add: rows(2))
qed

definition spool_ok :: "sub_deps \<Rightarrow> spool \<Rightarrow> bool" where
  "spool_ok D s \<longleftrightarrow> queue_ok (tables (sp_queue s)) \<and> rate_ok (tables (sp_queue s)) \<and> blobs_intact (sb_sha256_hex D) (sp_blobs s)"

lemma spooled_keeps:
  assumes "spooled D U s s'" and "spool_ok D s"
  shows "spool_ok D s' \<and> queue_grows U (tables (sp_queue s)) (tables (sp_queue s')) \<and>
    (\<forall>k c. contents (sp_blobs s) k = Some c \<longrightarrow> contents (sp_blobs s') k = Some c)"
  using assms
proof (induction rule: spooled.induct)
  case same
  then show ?case by (simp add: queue_grows_refl)
next
  case (key u dl now dn r q)
  note k = ensure_dkim_key_keeps [OF key(2)]
  have "queue_grows U (tables (sp_queue u)) (tables q)" by (simp add: queue_grows_def k)
  with key k queue_grows_trans show ?case by (auto simp: spool_ok_def)
next
  case (mail u torn dl k now new r v)
  let ?h = "sb_sha256_hex D"
  have u: "spool_ok D u" "queue_grows U (tables (sp_queue s)) (tables (sp_queue u))"
    "\<forall>k c. contents (sp_blobs s) k = Some c \<longrightarrow> contents (sp_blobs u) k = Some c" using mail by blast+
  have wr: "blobs_intact ?h b' \<and> (\<forall>k c. contents (sp_blobs s) k = Some c \<longrightarrow> contents b' k = Some c)"
    if "blob_write ?h torn b (sp_blobs u) = (x, b')" for b x b'
    using blobs.put_intact [of ?h "sp_blobs u" torn b] blobs.put_frame [of "sp_blobs u" _ _ ?h torn b] that u(1,3)
    by (simp add: blobs_intact_iff spool_ok_def)
  have q: "queue_ok (tables (sp_queue u))" using u(1) by (simp add: spool_ok_def)
  from mail(2) q show ?case
  proof (cases rule: enqueue_cases)
    case (refused e)
    with u show ?thesis by simp
  next
    case (blob e)
    with wr u show ?thesis by (auto simp: spool_ok_def)
  next
    case (rows n m)
    obtain b where "blob_write ?h torn b (sp_blobs u) = (Inr (ob_message_blob m), sp_blobs v)" using rows(2) by blast
    from wr [OF this] accepted_queue_ok [OF rows(1) q] accepted_rate_ok [OF rows(1) q] u(1)
      queue_grows_trans [OF u(2) accepted_grows [OF rows(1) mail(3)]] show ?thesis by (simp add: spool_ok_def)
  qed
qed

text \<open>Seen from the queue, a session is a run of accepting messages and making keys.\<close>

lemma spooled_runs:
  assumes "spooled D U s s'" and "spool_of v = s" and "ml_sha256_hex (wl_mail W) = sb_sha256_hex D"
  shows "queue_runs W v (with_spool s' v)"
  using assms(1)
proof (induction rule: spooled.induct)
  case same
  have "with_spool s v = v" using assms(2) by (auto simp: with_spool_def spool_of_def)
  then show ?case using queue_runs.start by simp
next
  case (key u dl now dn r q)
  have eq: "with_spool (u\<lparr>sp_queue := q\<rparr>) v = (with_spool u v)\<lparr>wk_queue := q\<rparr>" by (simp add: with_spool_def)
  have "wk_queue (with_spool u v) = sp_queue u" by (simp add: with_spool_def)
  with queue_runs.key [OF key.IH, of dl now dn r q] key(2) show ?case by (simp only: eq)
next
  case (mail u torn dl k now new r x)
  have "spool_of (with_spool u v) = u" "with_spool x (with_spool u v) = with_spool x v" by (simp_all add: with_spool_def spool_of_def)
  with queue_runs.accept [OF mail.IH, of torn dl k now new r x] mail(2) assms(3) show ?case by simp
qed

text \<open>The states in which the encrypted part of a connection reads its first command: after the handshake that STARTTLS
  asked for, or after the handshake and the greeting when the connection is encrypted from the start.\<close>

definition tls_starts :: "sub_deps \<Rightarrow> bool \<Rightarrow> (conn \<Rightarrow> conn option) \<Rightarrow> sub_world \<Rightarrow> sub_world set" where
  "tls_starts D implicit accept w =
     (if implicit
      then {greeted D True (w\<lparr>s_conn := c, s_env := sub_envelope_default\<rparr>) |c. accept (s_conn w) = Some c}
      else {w1\<lparr>s_conn := c, s_env := sub_envelope_default\<rparr> |w1 c.
              sub_loop D False True (w\<lparr>s_env := sub_envelope_default\<rparr>) = (SubStartTls, w1) \<and> rbuf (s_conn w1) = [] \<and> accept (s_conn w1) = Some c})"

lemma logins_accounts:
  assumes "a \<in> logins D w" and "sub_inv UNIV True w"
  shows "\<exists>row \<in> set (accounts (tables (s_auth w))). a = account_of row \<and> (\<exists>pw. opens D (tables (s_auth w)) a pw)"
proof -
  obtain n v where v: "rounds (sub_step D True) n w = Some v" "logs_in D v a" using assms(1) by (auto simp: logins_def)
  have c: "same_credentials (tables (s_auth w)) (tables (s_auth v))"
    using submit.rounds_keep [OF assms(2) v(1)] by (simp add: sub_rel_def)
  obtain row pw where "row \<in> set (accounts (tables (s_auth v)))" "a = account_of row" "opens D (tables (s_auth v)) a pw"
    using v(2) by (auto simp: logs_in_def enters_def)
  with opens_same [OF c] c show ?thesis by (auto simp: same_credentials_def)
qed

text \<open>C8: A submission connection, from its first byte to its end. Whatever the client sends and whatever fails, no account and
  no app password changes (but for the time of last use), the queue keeps its invariant and its rate limits, no blob is lost,
  and the queue only grows: by messages of accounts that this very session logged in to over TLS, each with the
  account's own address as sender, to valid addresses. Every such account is traced to an AUTH command of the
  encrypted part of the connection, in which the client presented an identity that names the account and a password
  that opens it; the accounts are accounts of this server. For the queue the session is a run of the kind that its properties range
  over. When no TLS handshake succeeds nothing at all happens: no password is tried and nothing is queued or logged.\<close>

theorem submission_session_safe:
  assumes "(if implicit then handle_implicit_connection D accept w else handle_starttls_connection D accept w) = (out, w')"
    and "auth_ok (tables (s_auth w))" and "spool_ok D (s_spool w)"
  shows "auth_ok (tables (s_auth w')) \<and> same_credentials (tables (s_auth w)) (tables (s_auth w')) \<and> spool_ok D (s_spool w') \<and>
    queue_grows (\<Union>start \<in> tls_starts D implicit accept w. logins D start) (tables (sp_queue (s_spool w))) (tables (sp_queue (s_spool w'))) \<and>
    (\<Union>start \<in> tls_starts D implicit accept w. logins D start) \<subseteq> {account_of row |row. row \<in> set (accounts (tables (s_auth w))) \<and>
       (\<exists>pw. opens D (tables (s_auth w)) (account_of row) pw)} \<and>
    (\<forall>k c. contents (sp_blobs (s_spool w)) k = Some c \<longrightarrow> contents (sp_blobs (s_spool w')) k = Some c) \<and>
    (\<forall>W v. spool_of v = s_spool w \<and> ml_sha256_hex (wl_mail W) = sb_sha256_hex D \<longrightarrow> queue_runs W v (with_spool (s_spool w') v)) \<and>
    ((\<forall>c. accept c = None) \<longrightarrow>
      s_auth w' = s_auth w \<and> s_spool w' = s_spool w \<and> s_audit w' = s_audit w \<and> s_throttle w' = s_throttle w)"
proof -
  let ?t = "tables (s_auth w)" and ?U = "\<Union>start \<in> tls_starts D implicit accept w. logins D start"
  have inv: "sub_inv U b (v\<lparr>s_conn := c, s_env := sub_envelope_default\<rparr>)" if "auth_ok (tables (s_auth v))" for U b v c
    using that by (simp add: sub_inv_def sub_env_ok_def sub_envelope_default_def)
  obtain o1 w1 where w1: "sub_loop D False True (w\<lparr>s_env := sub_envelope_default\<rparr>) = (o1, w1)" by fastforce
  have i0: "sub_inv {} False (w\<lparr>s_env := sub_envelope_default\<rparr>)"
    using assms(2) by (simp add: sub_inv_def sub_env_ok_def sub_envelope_default_def)
  have plain: "s_auth w1 = s_auth w" "s_spool w1 = s_spool w" "s_audit w1 = s_audit w" "s_throttle w1 = s_throttle w"
    using sub_loop_keeps [OF w1 i0] by (simp_all add: keeps_sub_def sub_rel_def)
  have tls: "auth_ok (tables (s_auth w')) \<and> same_credentials ?t (tables (s_auth w')) \<and> spooled D ?U (s_spool w) (s_spool w')"
    if "sub_loop D True g (v\<lparr>s_conn := c, s_env := sub_envelope_default\<rparr>) = (out, w')" "s_auth v = s_auth w" "s_spool v = s_spool w"
      "greeted D g (v\<lparr>s_conn := c, s_env := sub_envelope_default\<rparr>) \<in> tls_starts D implicit accept w" for g v c
  proof -
    have "auth_ok (tables (s_auth v))" using assms(2) that(2) by simp
    from sub_loop_keeps [OF that(1) inv [OF this], of ?U] that(2-4) show ?thesis
      by (auto simp: keeps_sub_def sub_inv_def sub_rel_def)
  qed
  have cases: "w' = w1 \<or> w' = w \<or> (\<exists>c d g v. accept d = Some c \<and> sub_loop D True g (v\<lparr>s_conn := c, s_env := sub_envelope_default\<rparr>) = (out, w') \<and>
      s_auth v = s_auth w \<and> s_spool v = s_spool w \<and> greeted D g (v\<lparr>s_conn := c, s_env := sub_envelope_default\<rparr>) \<in> tls_starts D implicit accept w)"
  proof (cases implicit)
    case True
    then show ?thesis
      using assms(1) by (auto simp: handle_implicit_connection_def tls_starts_def split: option.splits)
  next
    case False
    show ?thesis
    proof (cases "o1 = SubStartTls \<and> rbuf (s_conn w1) = [] \<and> (\<exists>c. accept (s_conn w1) = Some c)")
      case True
      then obtain c where c: "accept (s_conn w1) = Some c" by blast
      have "sub_loop D True False (w1\<lparr>s_conn := c, s_env := sub_envelope_default\<rparr>) = (out, w')"
        using assms(1) False w1 True c by (simp add: handle_starttls_connection_def)
      moreover have "greeted D False (w1\<lparr>s_conn := c, s_env := sub_envelope_default\<rparr>) \<in> tls_starts D implicit accept w"
        using False w1 True c by (auto simp: tls_starts_def greeted_def)
      ultimately show ?thesis using c plain by blast
    next
      case no: False
      then have "w' = w1" using assms(1) False w1 by (auto simp: handle_starttls_connection_def split: if_splits option.splits)
      then show ?thesis by simp
    qed
  qed
  then have r: "auth_ok (tables (s_auth w')) \<and> same_credentials ?t (tables (s_auth w')) \<and> spooled D ?U (s_spool w) (s_spool w')"
    using tls assms(2) plain by (auto simp: spooled.same)
  have "s_auth start = s_auth w \<and> sub_inv UNIV True start" if st: "start \<in> tls_starts D implicit accept w" for start
  proof (cases implicit)
    case True
    then obtain c where s: "start = greeted D True (w\<lparr>s_conn := c, s_env := sub_envelope_default\<rparr>)" using st by (auto simp: tls_starts_def)
    have "sub_inv UNIV True start"
      unfolding s using greeted_keeps [OF inv [OF assms(2)]] by (simp add: keeps_sub_def)
    moreover have "s_auth start = s_auth w" by (simp add: s greeted_def sub_reply_def case_prod_unfold Let_def)
    ultimately show ?thesis by simp
  next
    case False
    then obtain c where "start = w1\<lparr>s_conn := c, s_env := sub_envelope_default\<rparr>" using st w1 by (auto simp: tls_starts_def)
    with inv [of w1] assms(2) plain show ?thesis by simp
  qed
  then have "?U \<subseteq> {account_of row |row. row \<in> set (accounts ?t) \<and> (\<exists>pw. opens D ?t (account_of row) pw)}"
    using logins_accounts [of _ D] by fastforce
  moreover have "(\<forall>c. accept c = None) \<longrightarrow> s_auth w' = s_auth w \<and> s_spool w' = s_spool w \<and> s_audit w' = s_audit w \<and> s_throttle w' = s_throttle w"
    using cases plain by auto
  ultimately show ?thesis using r spooled_keeps [of D ?U "s_spool w" "s_spool w'"] assms(3) spooled_runs [of D ?U "s_spool w" "s_spool w'"] by blast
qed

text \<open>C9: Who is logged in has shown a password of the account. An AUTH command changes nothing but the conversation, or it runs over
  TLS on a session that is not logged in and the client presented an identity and a password. If the throttle locks the
  identity, no password is tried. If the throttle lets it in and the password is wrong, the failure is counted against that identity
  (unless the check was aborted and the connection closed). The session is logged in only to the account
  that the identity names, only with a password that opens this account, and then the identity's failures
  are forgotten.\<close>

theorem submission_auth_sound:
  assumes "auth_command D is_tls rest w = (r, w')" and "auth_ok (tables (s_auth w))"
  shows "talks w w' \<or> is_tls \<and> sv_authenticated (s_env w) = None \<and> (\<exists>authcid pw. presented D rest w authcid pw \<and>
     (s_env w' = s_env w \<and> s_throttle w' = s_throttle w \<and> (\<not> let_in D authcid w \<and> s_auth w' = s_auth w \<or> r = Done SubClosed) \<or>
      s_env w' = s_env w \<and> let_in D authcid w \<and> (\<exists>i j. s_throttle w' = record_failure i j authcid (s_throttle w)) \<or>
      let_in D authcid w \<and> s_throttle w' = record_success authcid (s_throttle w) \<and>
      (\<exists>row \<in> set (accounts (tables (s_auth w))). named authcid row \<and> opens D (tables (s_auth w)) (account_of row) pw \<and>
        (s_env w' = s_env w \<and> r = Done SubCrashed \<or> s_env w' = (s_env w)\<lparr>sv_authenticated := Some (account_of row)\<rparr>))))"
  using assms
proof (cases rule: auth_command_cases)
  case (refused authcid pw)
  then have "s_env w' = s_env w" by (simp add: auth_frame_def)
  with refused show ?thesis by blast
next
  case (counted authcid pw i j)
  then have "s_env w' = s_env w" by (simp add: auth_frame_def)
  with counted show ?thesis by blast
next
  case (entered authcid pw row)
  then show ?thesis by blast
qed simp

section \<open>What the reply to DATA means\<close>

definition reply_line :: "nat \<Rightarrow> string \<Rightarrow> bytes" where
  "reply_line code msg = show_nat code @ '' '' @ msg @ [CHR 0x0D, CHR 0x0A]"

lemma sub_reply_sent:
  assumes "sub_reply code msg w = (True, w')"
  shows "sent (s_conn w') = sent (s_conn w) @ [reply_line code msg]" "inflow (s_conn w') = inflow (s_conn w)"
    "s_env w' = s_env w" "s_spool w' = s_spool w" "s_auth w' = s_auth w"
  using assms by (auto simp: sub_reply_def write_reply_def write_all_def reply_line_def inflow_def split: if_splits)

text \<open>A reply is written whole, unless the connection fails.\<close>

lemma sub_reply_effect:
  "case sub_reply code msg w of (b, w') \<Rightarrow>
     (b \<longleftrightarrow> wleft (s_conn w) \<noteq> 0) \<and> sent (s_conn w') = sent (s_conn w) @ (if b then [reply_line code msg] else []) \<and>
     inflow (s_conn w') = inflow (s_conn w) \<and> s_env w' = s_env w \<and> s_spool w' = s_spool w \<and> s_auth w' = s_auth w"
  by (simp add: sub_reply_def write_reply_def write_all_def reply_line_def inflow_def)

definition reply_354 :: bytes where
  "reply_354 = reply_line 354 ''Start mail input; end with <CRLF>.<CRLF>''"

text \<open>The message of the envelope as queued for its first \<open>n\<close> recipients.\<close>

definition queued_for :: "sub_deps \<Rightarrow> account \<Rightarrow> sub_envelope \<Rightarrow> bytes \<Rightarrow> nat \<Rightarrow> spool \<Rightarrow> spool \<Rightarrow> bool" where
  "queued_for D a e raw n s s' \<longleftrightarrow> (\<exists>dl key now m ks.
     accepted (sb_sha256_hex D) dl key now (submission a e raw) n m ((tables (sp_queue s))\<lparr>dkim_keys := ks\<rparr>) (tables (sp_queue s')) \<and>
     contents (sp_blobs s') (ob_message_blob m) \<noteq> None)"

definition same_mail :: "spool \<Rightarrow> spool \<Rightarrow> bool" where
  "same_mail s s' \<longleftrightarrow> outbound (tables (sp_queue s')) = outbound (tables (sp_queue s)) \<and>
     outbound_rcpt (tables (sp_queue s')) = outbound_rcpt (tables (sp_queue s))"

lemma enqueue_submission_outcome:
  assumes "enqueue_submission D a raw w = (r, w')" and "queue_ok (tables (sp_queue (s_spool w)))"
  shows "if is_ok r then queued_for D a (s_env w) raw (length (sv_rcpt_to (s_env w))) (s_spool w) (s_spool w')
    else same_mail (s_spool w) (s_spool w') \<or> (\<exists>n < length (sv_rcpt_to (s_env w)). queued_for D a (s_env w) raw n (s_spool w) (s_spool w'))"
proof -
  let ?n = "s_tick w" let ?new = "submission a (s_env w) raw"
  obtain k q where k: "ensure_dkim_key (sb_dkim D ?n) (sb_unix D ?n) (acc_domain a) (sp_queue (s_spool w)) = (k, q)" by fastforce
  note q = ensure_dkim_key_keeps [OF k]
  obtain ks where ks: "tables q = (tables (sp_queue (s_spool w)))\<lparr>dkim_keys := ks\<rparr>" using ensure_dkim_key_run [OF k] by blast
  let ?s = "(s_spool w)\<lparr>sp_queue := q\<rparr>"
  show ?thesis
  proof (cases k)
    case (Inl e)
    then have "r = Inl e" "s_spool w' = ?s" using assms(1) k by (auto simp: enqueue_submission_def)
    with q show ?thesis by (simp add: same_mail_def)
  next
    case (Inr key)
    obtain x v where x: "enqueue (sb_sha256_hex D) (sb_torn D ?n) (sb_dkim D (Suc ?n)) key (sb_unix D (Suc ?n)) ?new ?s = (x, v)" by fastforce
    have v: "s_spool w' = v" "is_ok r = is_ok x" using assms(1) k Inr x by (auto simp: enqueue_submission_def split: sum.splits)
    have nr: "no_recipients ?new = sv_rcpt_to (s_env w)" by (simp add: submission_def)
    have "queue_ok (tables (sp_queue ?s))" using q(3) assms(2) by simp
    with x show ?thesis
    proof (cases rule: enqueue_cases)
      case (refused e)
      with v q show ?thesis by (simp add: same_mail_def)
    next
      case (blob e)
      with v q show ?thesis by (simp add: same_mail_def)
    next
      case (rows n m)
      obtain b where "blob_write (sb_sha256_hex D) (sb_torn D ?n) b (sp_blobs ?s) = (Inr (ob_message_blob m), sp_blobs v)" using rows(2) by blast
      then have c: "contents (sp_blobs v) (ob_message_blob m) \<noteq> None" using blob_write_contents(2) by blast
      have "accepted (sb_sha256_hex D) (sb_dkim D (Suc ?n)) key (sb_unix D (Suc ?n)) ?new n m
          ((tables (sp_queue (s_spool w)))\<lparr>dkim_keys := ks\<rparr>) (tables (sp_queue v))" using rows(1) by (simp add: ks)
      with c have "queued_for D a (s_env w) raw n (s_spool w) v" unfolding queued_for_def by blast
      moreover have "n \<le> length (sv_rcpt_to (s_env w))" using rows(1) nr by (simp add: accepted_def)
      ultimately show ?thesis using rows(3) v nr by auto
    qed
  qed
qed

text \<open>C10: What the reply to a DATA command means, on every branch. Out of sequence, without a sender or a recipient, the
  answer is 503, and nothing is queued and the envelope stays. Otherwise 354 comes first. If the client sends more than the
  size limit the answer is 552, if the connection fails there is none, and in both cases the connection is closed and
  nothing is queued. If a message was read, one more answer is given, 250, 450 or 451, and it ends the transaction
  (the connection is closed when it cannot be written). It is 250 only if the message that was read is queued,
  with the logged-in account, for every recipient of the envelope, and its signed form is in the blob store. It is 450
  or 451 only if the message is not queued or, when a statement failed half-way, queued for some first recipients
  but not all.\<close>

theorem submission_reply_means_queued:
  assumes "sub_data D w = (r, w')" and "sv_mail_from (s_env w) \<noteq> None \<longrightarrow> sv_authenticated (s_env w) \<noteq> None"
    and "queue_ok (tables (sp_queue (s_spool w)))"
  shows "\<exists>replies. sent (s_conn w') = sent (s_conn w) @ replies \<and>
    (if sv_mail_from (s_env w) = None \<or> sv_rcpt_to (s_env w) = []
     then r = Next \<and> s_env w' = s_env w \<and> s_spool w' = s_spool w \<and>
       replies = (if wleft (s_conn w) = 0 then [] else [reply_line 503 ''Bad sequence of commands''])
     else
       (r = Done SubClosed \<and> s_spool w' = s_spool w \<and>
         (replies = [] \<and> wleft (s_conn w) = 0 \<or>
          (\<exists>c d e. inflow c = inflow (s_conn w) \<and> read_data (sb_max_message_size D) c = (Inl e, d) \<and>
             (replies = [reply_354] \<or> e = TooLarge \<and> replies = [reply_354, reply_line 552 ''Message size exceeds fixed limit''])))) \<or>
       (\<exists>c d raw a code msg. inflow c = inflow (s_conn w) \<and> read_data (sb_max_message_size D) c = (Inr raw, d) \<and>
          sv_authenticated (s_env w) = Some a \<and>
          (r = Next \<and> s_env w' = sub_envelope_reset (s_env w) \<and> replies = [reply_354, reply_line code msg] \<or>
           r = Done SubClosed \<and> replies = [reply_354]) \<and>
          (if code = 250 then queued_for D a (s_env w) raw (length (sv_rcpt_to (s_env w))) (s_spool w) (s_spool w')
           else code \<in> {450, 451} \<and> (same_mail (s_spool w) (s_spool w') \<or>
             (\<exists>n < length (sv_rcpt_to (s_env w)). queued_for D a (s_env w) raw n (s_spool w) (s_spool w'))))))"
proof (cases "sv_mail_from (s_env w) = None \<or> sv_rcpt_to (s_env w) = []")
  case True
  then have "sub_answer 503 ''Bad sequence of commands'' w = (r, w')" using assms(1) by (simp add: sub_data_def)
  with True sub_reply_effect [where code = 503 and msg = "''Bad sequence of commands''" and w = w] show ?thesis
    by (auto simp: sub_answer_def case_prod_unfold)
next
  case False
  obtain b w1 where w1: "sub_reply 354 ''Start mail input; end with <CRLF>.<CRLF>'' w = (b, w1)" by fastforce
  note e1 = sub_reply_effect [where code = 354 and msg = "''Start mail input; end with <CRLF>.<CRLF>''" and w = w, unfolded w1 prod.case]
  show ?thesis
  proof (cases b)
    case no: False
    then have "r = Done SubClosed" "w' = w1" using assms(1) False w1 by (auto simp: sub_data_def)
    with no False e1 show ?thesis by (intro exI [of _ "[]"]) simp
  next
    case True
    note r1 = sub_reply_sent [OF w1 [unfolded True [THEN eqTrueI]]]
    obtain x d where rd: "read_data (sb_max_message_size D) (s_conn w1) = (x, d)" by fastforce
    let ?w2 = "w1\<lparr>s_conn := d\<rparr>"
    have d: "sent d = sent (s_conn w) @ [reply_354]"
      using read_data_remaining(2) [OF rd] r1(1) by (simp add: same_writer_def reply_354_def)
    show ?thesis
    proof (cases x)
      case (Inl e)
      have "r = Done SubClosed \<and> (w' = ?w2 \<or> e = TooLarge \<and> w' = snd (sub_reply 552 ''Message size exceeds fixed limit'' ?w2))"
        using assms(1) False w1 True rd Inl by (cases e) (auto simp: sub_data_def Let_def)
      moreover obtain y v where v: "sub_reply 552 ''Message size exceeds fixed limit'' ?w2 = (y, v)" by fastforce
      moreover note sub_reply_effect [where code = 552 and msg = "''Message size exceeds fixed limit''" and w = "?w2", unfolded v prod.case]
      ultimately have "r = Done SubClosed \<and> s_spool w' = s_spool w \<and> (sent (s_conn w') = sent (s_conn w) @ [reply_354] \<or>
          e = TooLarge \<and> sent (s_conn w') = sent (s_conn w) @ [reply_354, reply_line 552 ''Message size exceeds fixed limit''])"
        using d r1(4) by (auto split: if_splits)
      with False rd Inl r1(2) show ?thesis by auto
    next
      case (Inr raw)
      obtain a where a: "sv_authenticated (s_env w) = Some a" using assms(2) False by auto
      have acc: "sub_accept D raw ?w2 = (r, w')" using assms(1) False w1 True rd Inr by (auto simp: sub_data_def)
      obtain y w3 where y: "enqueue_submission D a raw ?w2 = (y, w3)" by fastforce
      note e = enqueue_submission_run(1,2) [OF y] enqueue_submission_outcome [OF y]
      obtain code msg w4 ok where w4: "sub_reply code msg w3 = (ok, w4)" "code \<in> {250, 450, 451}" "code = 250 \<longleftrightarrow> is_ok y"
        "if ok then r = Next \<and> w' = sub_reset w4 else r = Done SubClosed \<and> w' = w4"
        using acc a r1(3) y by (auto simp: sub_accept_def split: prod.splits sum.splits error.splits if_splits)
      note r2 = sub_reply_effect [where code = code and msg = msg and w = w3, unfolded w4(1) prod.case]
      have q: "if code = 250 then queued_for D a (s_env w) raw (length (sv_rcpt_to (s_env w))) (s_spool w) (s_spool w')
           else code \<in> {450, 451} \<and> (same_mail (s_spool w) (s_spool w') \<or>
             (\<exists>n < length (sv_rcpt_to (s_env w)). queued_for D a (s_env w) raw n (s_spool w) (s_spool w')))"
        using e(3) w4(2-4) r2 r1(3,4) assms(3) by (auto simp: sub_reset_def split: if_splits)
      obtain replies where rp: "sent (s_conn w') = sent (s_conn w) @ replies"
          "(r = Next \<and> s_env w' = sub_envelope_reset (s_env w) \<and> replies = [reply_354, reply_line code msg] \<or>
           r = Done SubClosed \<and> replies = [reply_354])"
        using w4(4) r2 e(1,2) r1(3) d by (auto simp: sub_reset_def split: if_splits)
      show ?thesis unfolding if_not_P [OF False]
        by (rule exI [of _ replies], intro conjI, rule rp(1), rule disjI2, intro exI [of _ "s_conn w1"] exI [of _ d] exI [of _ raw]
            exI [of _ a] exI [of _ code] exI [of _ msg] conjI) (rule r1(2) rd [unfolded Inr] a rp(2) q)+
    qed
  qed
qed

section \<open>A concrete session\<close>

text \<open>A command line, whatever the segments it arrives in.\<close>

lemma sub_step_line:
  assumes "inflow (s_conn w) = k @ [CHR 0x0D, CHR 0x0A] @ after" and "is_ascii k" and "CHR 0x0D \<notin> set k" and "CHR 0x0A \<notin> set k"
    and "length k < MAX_COMMAND_LINE" and "split_command k = (verb, args)"
  obtains c where "sub_step D is_tls w = sub_run_command D is_tls verb args (w\<lparr>s_conn := c\<rparr>)"
    "inflow c = after" "wleft c = wleft (s_conn w)" "sent c = sent (s_conn w)"
proof -
  from assms(1) have fl: "inflow (s_conn w) = (k @ [CHR 0x0D]) @ CHR 0x0A # after" by simp
  obtain c where c: "read_line_bounded MAX_COMMAND_LINE (s_conn w) = (Line ((k @ [CHR 0x0D]) @ [CHR 0x0A]), c)"
    "inflow c = after" "same_writer (s_conn w) c"
    by (rule read_line_Line [OF fl, of MAX_COMMAND_LINE]) (use assms(4,5) in auto)
  note t = line_text_ascii [OF assms(2-4)]
  show thesis
    by (rule that [OF _ c(2)]) (use c(3) in \<open>simp_all add: sub_step_def c(1) t assms(6) same_writer_def\<close>)
qed

lemma sub_answer_ok:
  assumes "0 < wleft (s_conn w)"
  obtains c where "sub_answer code msg w = (Next, w\<lparr>s_conn := c\<rparr>)" "inflow c = inflow (s_conn w)" "wleft c = wleft (s_conn w) - 1"
proof -
  let ?c = "(s_conn w)\<lparr>sent := sent (s_conn w) @ [show_nat code @ '' '' @ msg @ [CHR 0x0D, CHR 0x0A]], wleft := wleft (s_conn w) - 1\<rparr>"
  show thesis
    by (rule that [of ?c]) (use assms in \<open>simp_all add: sub_answer_def sub_reply_def write_reply_def write_all_def inflow_def\<close>)
qed

definition sample_response :: string where "sample_response = ''AGFsaWNlQGV4YW1wbGUuY29tAHB3''"

definition sample_sub :: sub_deps where
  "sample_sub = \<lparr>sb_hostname = ''mx'', sb_max_message_size = 1000, sb_crypto = sample_lib, sb_argon2_config = sample_config,
     sb_sha256_hex = sample_hash, sb_dkim = (\<lambda>_. sample_dkim),
     sb_base64_decode = (\<lambda>s. if s = sample_response then Some ([CHR 0x00] @ ''alice@example.com'' @ [CHR 0x00] @ ''pw'') else None),
     sb_permit = (\<lambda>_. True), sb_unix = (\<lambda>_. 100), sb_instant = (\<lambda>n. n), sb_log_random = (\<lambda>_. []), sb_torn = (\<lambda>_. 0)\<rparr>"

definition sample_client_world :: "auth_db \<Rightarrow> bytes list \<Rightarrow> sub_world" where
  "sample_client_world auth input = \<lparr>s_conn = sample_conn input, s_env = sub_envelope_default, s_auth = auth, s_spool = sample_spool,
     s_audit = \<lparr>tables = \<lparr>keys_row = None, audit_log = [], last_seq = 0, head_signatures = []\<rparr>, faults = []\<rparr>,
     s_throttle = throttle_new 1 60, s_tick = 0\<rparr>"

lemma sample_account:
  obtains a auth where "auth_ok (tables auth)" "address a = ''alice@example.com''"
    "find_by_address ''alice'' ''example.com'' auth = (Returned (Inr (Some a)), auth)"
    "unlock sample_lib a ''pw'' sample_config = Returned (Inr \<lparr>ul_amk = pr_amk sample_provision, ul_priv = fst (gen_keypair sample_lib (pr_keypair sample_provision))\<rparr>)"
proof -
  obtain a auth where run: "provision sample_lib sample_provision 7 ''alice'' ''Example.com'' ''pw'' sample_config empty_auth = (Returned (Inr a), auth)"
    "faults auth = []" using sample_provision_run by blast
  have addr: "eq_ignore_ascii_case ''example.com'' ''Example.com''"
    by (simp add: eq_ignore_ascii_case_def to_ascii_lowercase_def ascii_lower_def char_of_def bit_Suc_0_iff)
  note found = provisioned_found [OF run(1) sample_lib_correct(2) sample_lengths(1) empty_auth_simps(1) run(2) addr]
  have "\<exists>row. a = account_of row \<and> ar_local_part row = ''alice'' \<and> ar_domain row = to_ascii_lowercase ''example.com''"
    using find_by_address_run(3) [OF found(1,2) refl] by blast
  then have "address a = ''alice@example.com''"
    by (auto simp: address_def account_of_def to_ascii_lowercase_def ascii_lower_def)
  with that [OF found(2) _ found(1)] provisioned_unlocks(1) [OF run(1) sample_lib_correct(1,2) sample_lengths(2-4)] show thesis by blast
qed

text \<open>Logging in, with any input still to come.\<close>

lemma sample_login:
  assumes "find_by_address ''alice'' ''example.com'' (s_auth w) = (Returned (Inr (Some a)), s_auth w)"
    and "unlock sample_lib a ''pw'' sample_config = Returned (Inr u)" and "sv_authenticated (s_env w) = None"
    and "s_throttle w = throttle_new 1 60" and "keys_row (tables (s_audit w)) = None" and "faults (s_audit w) = []" and "0 < wleft (s_conn w)"
  obtains w' where "auth_command sample_sub True (''PLAIN '' @ sample_response) w = (Next, w')"
    "s_env w' = (s_env w)\<lparr>sv_authenticated := Some a\<rparr>" "s_spool w' = s_spool w" "inflow (s_conn w') = inflow (s_conn w)"
    "wleft (s_conn w') = wleft (s_conn w) - 1"
proof -
  have tr: "trim sample_response = sample_response" by (rule trim_tight) (simp_all add: sample_response_def is_whitespace_def)
  have sp: "split_command (''PLAIN '' @ sample_response) = (''PLAIN'', sample_response)" using split_command_arg [OF _ tr, of "''PLAIN''"] by simp
  have pl: "eq_ignore_ascii_case ''PLAIN'' ''PLAIN''" by (simp add: eq_ignore_ascii_case_def)
  have dec: "sb_base64_decode sample_sub sample_response = Some ([CHR 0x00] @ ''alice@example.com'' @ [CHR 0x00] @ ''pw'')" by (simp add: sample_sub_def)
  have "utf8_valid ''alice@example.com''" "utf8_valid ''pw''" by (rule utf8_valid_ascii; simp)+
  then have par: "parse_sasl_plain ([CHR 0x00] @ ''alice@example.com'' @ [CHR 0x00] @ ''pw'') = Some (''alice@example.com'', ''pw'')"
    by (simp add: parse_sasl_plain_def)
  have pay: "auth_payload sample_response w = (Inr sample_response, w)" by (simp add: auth_payload_def sample_response_def)
  obtain w1 where login: "auth_login sample_sub ''alice@example.com'' ''pw'' w = (Returned (Inr (Some a)), w1)"
    and w1: "s_env w1 = s_env w" "s_spool w1 = s_spool w" "s_conn w1 = s_conn w"
    using assms by (simp add: auth_login_def auth_password_def throttle_check_def throttle_new_def sample_sub_def
        unlock_any_def proc_return_def sub_audit_def log_entry_def load_keys_def proc_bind_def lift_op_def Let_def split: pan.splits)
  have h: "handle_auth sample_sub (''PLAIN '' @ sample_response) w = (Returned (Inr (Some a)), w1)"
    unfolding handle_auth_def sp by (simp add: pl tr pay dec login par [simplified])
  let ?v = "w1\<lparr>s_env := (s_env w1)\<lparr>sv_authenticated := Some a\<rparr>\<rparr>"
  have "0 < wleft (s_conn ?v)" using assms(7) w1 by simp
  from sub_answer_ok [OF this, of 235 "''Authentication successful''"] obtain c where
    c: "sub_answer 235 ''Authentication successful'' ?v = (Next, ?v\<lparr>s_conn := c\<rparr>)" "inflow c = inflow (s_conn ?v)" "wleft c = wleft (s_conn ?v) - 1" by blast
  have "auth_command sample_sub True (''PLAIN '' @ sample_response) w = (Next, ?v\<lparr>s_conn := c\<rparr>)"
    using h c(1) assms(3) by (simp add: auth_command_def)
  then show thesis by (rule that) (use c w1 in simp_all)
qed

lemma sample_words [simp]: "trim ''FROM:<alice@example.com>'' = ''FROM:<alice@example.com>''" "trim ''TO:<you@b.example>'' = ''TO:<you@b.example>''"
  by (rule trim_tight; simp add: is_whitespace_def)+

lemma sample_parse:
  "parse_addr_param ''FROM:<alice@example.com>'' ''FROM:'' = Returned (Some ''alice@example.com'')"
  "parse_addr_param ''TO:<you@b.example>'' ''TO:'' = Returned (Some ''you@b.example'')"
  by (rule parse_addr_param_angle [of "''FROM:''" _ _ _ "[]"]; simp add: eq_ignore_ascii_case_def)
     (rule parse_addr_param_angle [of "''TO:''" _ _ _ "[]"]; simp add: eq_ignore_ascii_case_def)

lemma sample_mail:
  assumes "sv_authenticated (s_env w) = Some a" and "address a = ''alice@example.com''" and "0 < wleft (s_conn w)"
  obtains c where "sub_mail ''FROM:<alice@example.com>'' w = (Next, w\<lparr>s_env := (s_env w)\<lparr>sv_mail_from := Some ''alice@example.com'', sv_rcpt_to := []\<rparr>, s_conn := c\<rparr>)"
    "inflow c = inflow (s_conn w)" "wleft c = wleft (s_conn w) - 1"
proof -
  let ?v = "w\<lparr>s_env := (s_env w)\<lparr>sv_mail_from := Some ''alice@example.com'', sv_rcpt_to := []\<rparr>\<rparr>"
  have "0 < wleft (s_conn ?v)" using assms(3) by simp
  from sub_answer_ok [OF this, of 250 "''OK''"] obtain c where
    c: "sub_answer 250 ''OK'' ?v = (Next, ?v\<lparr>s_conn := c\<rparr>)" "inflow c = inflow (s_conn ?v)" "wleft c = wleft (s_conn ?v) - 1" by blast
  show thesis by (rule that [of c]) (use assms c in \<open>simp_all add: sub_mail_def sample_parse eq_ignore_ascii_case_def\<close>)
qed

lemma sample_rcpt:
  assumes "sv_mail_from (s_env w) \<noteq> None" and "sv_rcpt_to (s_env w) = []" and "0 < wleft (s_conn w)"
  obtains c where "sub_rcpt ''TO:<you@b.example>'' w = (Next, w\<lparr>s_env := (s_env w)\<lparr>sv_rcpt_to := [''you@b.example'']\<rparr>, s_conn := c\<rparr>)"
    "inflow c = inflow (s_conn w)" "wleft c = wleft (s_conn w) - 1"
proof -
  let ?v = "w\<lparr>s_env := (s_env w)\<lparr>sv_rcpt_to := [''you@b.example'']\<rparr>\<rparr>"
  have "0 < wleft (s_conn ?v)" using assms(3) by simp
  from sub_answer_ok [OF this, of 250 "''OK''"] obtain c where
    c: "sub_answer 250 ''OK'' ?v = (Next, ?v\<lparr>s_conn := c\<rparr>)" "inflow c = inflow (s_conn ?v)" "wleft c = wleft (s_conn ?v) - 1" by blast
  have "valid_email_address ''you@b.example''" by (simp add: input_eval)
  moreover obtain f where "sv_mail_from (s_env w) = Some f" using assms(1) by blast
  ultimately show thesis by (intro that [of c]) (use assms(2,3) c in \<open>simp_all add: sub_rcpt_def sample_parse MAX_RECIPIENTS_def\<close>)
qed

lemma sample_spool_ok: "spool_ok sample_sub sample_spool"
  using rate_ok_empty by (simp add: spool_ok_def sample_spool_def queue_empty_def queue_ok_def blobs_intact_def contents_def)

lemma sample_enqueued:
  assumes "s_env w = \<lparr>sv_helo_domain = h, sv_authenticated = Some a, sv_mail_from = Some ''alice@example.com'', sv_rcpt_to = [''you@b.example'']\<rparr>"
    and "s_spool w = sample_spool"
  obtains w' where "enqueue_submission sample_sub a raw w = (Inr (), w')" "outbound (tables (sp_queue (s_spool w'))) \<noteq> []"
proof -
  let ?new = "submission a (s_env w) raw"
  obtain key q where k: "ensure_dkim_key sample_dkim 100 (acc_domain a) (sp_queue sample_spool) = (Inr key, q)" "faults q = []"
    by (simp add: ensure_dkim_key_def load_dkim_key_def insert_dkim_key_def op_bind_def sample_dkim_def sample_spool_def queue_empty_def)
  let ?s = "sample_spool\<lparr>sp_queue := q\<rparr>"
  have "valid_email_address ''alice@example.com''" "valid_email_address ''you@b.example''" by (simp_all add: input_eval)
  then have v: "valid_outbound ?new" by (simp add: valid_outbound_def submission_def assms(1))
  have s: "dkim_sign sample_dkim key (no_raw_message ?new) = Inr ''DKIM-Signature: s''"
    by (simp add: dkim_sign_def signing_key_def sample_dkim_def)
  have t: "outbound (tables q) = []" "outbound_rcpt (tables q) = []"
    using ensure_dkim_key_keeps(1,2) [OF k(1)] by (simp_all add: sample_spool_def queue_empty_def)
  then have u: "under_limits 100 ?new (tables (sp_queue ?s))"
    by (simp add: under_limits_def message_count_def recipient_count_def submission_def assms(1)
        MAX_MESSAGES_PER_WINDOW_def MAX_RECIPIENTS_PER_WINDOW_def)
  obtain i s' where e: "enqueue sample_hash 0 sample_dkim key 100 ?new ?s = (Inr i, s')"
    using enqueue_succeeds [OF v s sample_hash_hex _ _ u, of 0] k(2) by (auto simp: sample_spool_def)
  let ?w' = "w\<lparr>s_spool := s', s_tick := s_tick w + 2\<rparr>"
  have run: "enqueue_submission sample_sub a raw w = (Inr (), ?w')"
    using k(1) e by (simp add: enqueue_submission_def Let_def sample_sub_def assms(2))
  have "queue_ok (tables (sp_queue (s_spool w)))" using sample_spool_ok by (simp add: assms(2) spool_ok_def)
  from enqueue_submission_outcome [OF run this] have "outbound (tables (sp_queue s')) \<noteq> []"
    by (auto simp: queued_for_def accepted_def)
  with that [OF run] show thesis by simp
qed

text \<open>The body of a message, and what the session answers.\<close>

lemma sample_data:
  assumes "s_env w = \<lparr>sv_helo_domain = h, sv_authenticated = Some a, sv_mail_from = Some ''alice@example.com'', sv_rcpt_to = [''you@b.example'']\<rparr>"
    and "s_spool w = sample_spool" and "inflow (s_conn w) = ''hi'' @ [CHR 0x0D, CHR 0x0A] @ ''.'' @ [CHR 0x0D, CHR 0x0A] @ after"
    and "1 < wleft (s_conn w)"
  obtains w' where "sub_data sample_sub w = (Next, w')" "inflow (s_conn w') = after" "outbound (tables (sp_queue (s_spool w'))) \<noteq> []"
    "sent (s_conn w') = sent (s_conn w) @ [reply_354, reply_line 250 ''OK: message queued'']"
proof -
  obtain b w1 where w1: "sub_reply 354 ''Start mail input; end with <CRLF>.<CRLF>'' w = (b, w1)" by fastforce
  note e1 = sub_reply_effect [where code = 354 and msg = "''Start mail input; end with <CRLF>.<CRLF>''" and w = w, unfolded w1 prod.case]
  have b: "b" "wleft (s_conn w1) = wleft (s_conn w) - 1"
    using w1 assms(4) by (auto simp: sub_reply_def write_reply_def write_all_def split: if_splits)
  have flow: "inflow (s_conn w1) = concat (map dot_stuff [''hi'' @ [CHR 0x0D, CHR 0x0A]]) @ [CHR ''.'', CHR 0x0D, CHR 0x0A] @ after"
    using e1 assms(3) by (simp add: dot_stuff_def)
  obtain x d where rd: "read_data 1000 (s_conn w1) = (x, d)" by fastforce
  have "list_all data_line [''hi'' @ [CHR 0x0D, CHR 0x0A]]" by (simp add: data_line_def MAX_DATA_LINE_def)
  from read_data_roundtrip [OF this flow, of 1000] rd obtain raw where raw: "x = Inr raw" "inflow d = after" by (auto split: if_splits)
  have d: "wleft d = wleft (s_conn w) - 1" "sent d = sent (s_conn w1)"
    using read_data_remaining(2) [OF rd] b(2) by (simp_all add: same_writer_def)
  let ?w2 = "w1\<lparr>s_conn := d\<rparr>"
  obtain w3 where w3: "enqueue_submission sample_sub a raw ?w2 = (Inr (), w3)" "outbound (tables (sp_queue (s_spool w3))) \<noteq> []"
    using sample_enqueued [of ?w2 h a raw] e1 assms(1,2) by auto
  have c3: "s_conn w3 = d" "s_env w3 = s_env w" using enqueue_submission_run(1,2) [OF w3(1)] e1 by simp_all
  obtain ok w4 where w4: "sub_reply 250 ''OK: message queued'' w3 = (ok, w4)" by fastforce
  note e2 = sub_reply_effect [where code = 250 and msg = "''OK: message queued''" and w = w3, unfolded w4 prod.case]
  have ok: "ok" using e2 c3 d(1) assms(4) by simp
  have "sub_data sample_sub w = (Next, sub_reset w4)"
    using w1 b(1) rd raw(1) w3(1) w4 ok e1 assms(1) by (simp add: sub_data_def sub_accept_def sample_sub_def)
  then show thesis
    by (rule that) (use e2 ok c3 d raw(2) e1 b(1) w3(2) in \<open>simp_all add: sub_reset_def reply_354_def\<close>)
qed

lemma sub_rounds_next: "sub_step D is_tls w = (Next, w') \<Longrightarrow> sub_rounds D is_tls w = sub_rounds D is_tls w'"
  by (subst sub_rounds.simps) simp

lemma sub_rounds_eof:
  assumes "inflow (s_conn w) = []"
  obtains w' where "sub_rounds D is_tls w = (SubClosed, w')" "s_spool w' = s_spool w"
proof -
  obtain x c where x: "read_line_bounded MAX_COMMAND_LINE (s_conn w) = (x, c)" by fastforce
  have "x = LineEof \<or> x = LineError"
  proof (cases x)
    case (Line l)
    with read_line_LineD(1,5) [of MAX_COMMAND_LINE "s_conn w" l c] x assms show ?thesis by auto
  qed simp_all
  moreover have "s_spool (snd (sub_reply 500 ''Line too long'' v)) = s_spool v" for v by (simp add: sub_reply_def case_prod_unfold Let_def)
  ultimately obtain w' where "sub_step D is_tls w = (Done SubClosed, w')" "s_spool w' = s_spool w"
    using x by (auto simp: sub_step_def)
  moreover from this(1) have "sub_rounds D is_tls w = (SubClosed, w')" by (subst sub_rounds.simps) simp
  ultimately show thesis using that by blast
qed

abbreviation eol :: bytes where "eol \<equiv> [CHR 0x0D, CHR 0x0A]"

definition sample_input :: "bytes list" where
  "sample_input = [''AUTH PLAIN '' @ sample_response @ eol, ''MAIL FROM:<alice@example.com>'' @ eol @ ''RCPT TO:<you@'',
     ''b.example>'' @ eol, ''DATA'' @ eol @ ''hi'' @ eol @ ''.'' @ eol]"

lemma sample_commands:
  "split_command (''AUTH PLAIN '' @ sample_response) = (''AUTH'', ''PLAIN '' @ sample_response)"
  "split_command ''MAIL FROM:<alice@example.com>'' = (''MAIL'', ''FROM:<alice@example.com>'')"
  "split_command ''RCPT TO:<you@b.example>'' = (''RCPT'', ''TO:<you@b.example>'')"
  "split_command ''DATA'' = (''DATA'', [])"
proof -
  have "trim (''PLAIN '' @ sample_response) = ''PLAIN '' @ sample_response"
    by (rule trim_tight) (simp_all add: sample_response_def is_whitespace_def)
  from split_command_arg [OF _ this, of "''AUTH''"] show "split_command (''AUTH PLAIN '' @ sample_response) = (''AUTH'', ''PLAIN '' @ sample_response)" by simp
  show "split_command ''MAIL FROM:<alice@example.com>'' = (''MAIL'', ''FROM:<alice@example.com>'')"
    using split_command_arg [OF _ sample_words(1), of "''MAIL''"] by simp
  show "split_command ''RCPT TO:<you@b.example>'' = (''RCPT'', ''TO:<you@b.example>'')"
    using split_command_arg [OF _ sample_words(2), of "''RCPT''"] by simp
  show "split_command ''DATA'' = (''DATA'', [])" by (simp add: split_command_def)
qed

lemma sample_verbs:
  "sub_run_command D is_tls ''AUTH'' rest w = auth_command D is_tls rest w" "sub_run_command D is_tls ''MAIL'' rest w = sub_mail rest w"
  "sub_run_command D is_tls ''RCPT'' rest w = sub_rcpt rest w" "sub_run_command D is_tls ''DATA'' rest w = sub_data D w"
  by (simp_all add: sub_run_command_def to_ascii_uppercase_def ascii_upper_def)

lemma sample_sub_session:
  obtains auth w' where "auth_ok (tables auth)"
    "handle_implicit_connection sample_sub Some (sample_client_world auth sample_input) = (SubClosed, w')"
    "outbound (tables (sp_queue (s_spool w'))) \<noteq> []"
proof -
  obtain a auth where a: "auth_ok (tables auth)" "address a = ''alice@example.com''"
    "find_by_address ''alice'' ''example.com'' auth = (Returned (Inr (Some a)), auth)"
    "\<exists>u. unlock sample_lib a ''pw'' sample_config = Returned (Inr u)" by (metis sample_account)
  then obtain u where u: "unlock sample_lib a ''pw'' sample_config = Returned (Inr u)" by blast
  let ?w = "sample_client_world auth sample_input"
  let ?mail = "''MAIL FROM:<alice@example.com>''" and ?rcpt = "''RCPT TO:<you@b.example>''"
  have "0 < wleft (s_conn ?w)" by (simp add: sample_client_world_def sample_conn_def)
  from sub_answer_ok [OF this, of 220 "sb_hostname sample_sub @ '' ESMTP Litterae Submission''"] obtain c where
    c: "sub_reply 220 (sb_hostname sample_sub @ '' ESMTP Litterae Submission'') ?w = (True, ?w\<lparr>s_conn := c\<rparr>)" "inflow c = inflow (s_conn ?w)" "wleft c = 99"
    by (auto simp: sub_answer_def sub_reply_def write_reply_def write_all_def sample_client_world_def sample_conn_def)
  let ?v0 = "?w\<lparr>s_conn := c\<rparr>"
  have i0: "inflow (s_conn ?v0) = (''AUTH PLAIN '' @ sample_response) @ eol @ ?mail @ eol @ ?rcpt @ eol @ ''DATA'' @ eol @ ''hi'' @ eol @ ''.'' @ eol"
    using c(2) by (simp add: sample_client_world_def sample_conn_def inflow_def sample_input_def)
  have m: "4000 < MAX_COMMAND_LINE" by (simp add: MAX_COMMAND_LINE_def)
  obtain c1 where c1: "sub_step sample_sub True ?v0 = auth_command sample_sub True (''PLAIN '' @ sample_response) (?v0\<lparr>s_conn := c1\<rparr>)"
    "inflow c1 = ?mail @ eol @ ?rcpt @ eol @ ''DATA'' @ eol @ ''hi'' @ eol @ ''.'' @ eol" "wleft c1 = 99"
    by (rule sub_step_line [OF i0 _ _ _ _ sample_commands(1), of sample_sub True])
      (use m c(3) in \<open>auto simp: sample_verbs sample_response_def\<close>)
  obtain v1 where v1: "sub_step sample_sub True ?v0 = (Next, v1)" "s_env v1 = sub_envelope_default\<lparr>sv_authenticated := Some a\<rparr>"
    "s_spool v1 = sample_spool" "inflow (s_conn v1) = ?mail @ eol @ ?rcpt @ eol @ ''DATA'' @ eol @ ''hi'' @ eol @ ''.'' @ eol" "wleft (s_conn v1) = 98"
    by (rule sample_login [of "?v0\<lparr>s_conn := c1\<rparr>" a u])
      (use a(3) u c1 in \<open>auto simp: sample_client_world_def sub_envelope_default_def\<close>)
  obtain c2 where c2: "sub_step sample_sub True v1 = sub_mail ''FROM:<alice@example.com>'' (v1\<lparr>s_conn := c2\<rparr>)"
    "inflow c2 = ?rcpt @ eol @ ''DATA'' @ eol @ ''hi'' @ eol @ ''.'' @ eol" "wleft c2 = 98"
    by (rule sub_step_line [OF v1(4) _ _ _ _ sample_commands(2), of sample_sub True]) (use m v1(5) in \<open>auto simp: sample_verbs\<close>)
  obtain v2 where v2: "sub_step sample_sub True v1 = (Next, v2)"
    "s_env v2 = sub_envelope_default\<lparr>sv_authenticated := Some a, sv_mail_from := Some ''alice@example.com''\<rparr>"
    "s_spool v2 = sample_spool" "inflow (s_conn v2) = ?rcpt @ eol @ ''DATA'' @ eol @ ''hi'' @ eol @ ''.'' @ eol" "wleft (s_conn v2) = 97"
    by (rule sample_mail [of "v1\<lparr>s_conn := c2\<rparr>" a]) (use a(2) v1 c2 in \<open>auto simp: sub_envelope_default_def\<close>)
  obtain c3 where c3: "sub_step sample_sub True v2 = sub_rcpt ''TO:<you@b.example>'' (v2\<lparr>s_conn := c3\<rparr>)"
    "inflow c3 = ''DATA'' @ eol @ ''hi'' @ eol @ ''.'' @ eol" "wleft c3 = 97"
    by (rule sub_step_line [OF v2(4) _ _ _ _ sample_commands(3), of sample_sub True]) (use m v2(5) in \<open>auto simp: sample_verbs\<close>)
  obtain v3 where v3: "sub_step sample_sub True v2 = (Next, v3)"
    "s_env v3 = sub_envelope_default\<lparr>sv_authenticated := Some a, sv_mail_from := Some ''alice@example.com'', sv_rcpt_to := [''you@b.example'']\<rparr>"
    "s_spool v3 = sample_spool" "inflow (s_conn v3) = ''DATA'' @ eol @ ''hi'' @ eol @ ''.'' @ eol" "wleft (s_conn v3) = 96"
    by (rule sample_rcpt [of "v2\<lparr>s_conn := c3\<rparr>"]) (use v2 c3 in \<open>auto simp: sub_envelope_default_def\<close>)
  obtain c4 where c4: "sub_step sample_sub True v3 = sub_data sample_sub (v3\<lparr>s_conn := c4\<rparr>)"
    "inflow c4 = ''hi'' @ eol @ ''.'' @ eol @ []" "wleft c4 = 96"
    by (rule sub_step_line [OF v3(4) _ _ _ _ sample_commands(4), of sample_sub True]) (use m v3(5) in \<open>auto simp: sample_verbs\<close>)
  obtain v4 where v4: "sub_step sample_sub True v3 = (Next, v4)" "inflow (s_conn v4) = []" "outbound (tables (sp_queue (s_spool v4))) \<noteq> []"
    by (rule sample_data [of "v3\<lparr>s_conn := c4\<rparr>" None a "[]"]) (use v3 c4 in \<open>auto simp: sub_envelope_default_def\<close>)
  obtain w' where w': "sub_rounds sample_sub True v4 = (SubClosed, w')" "s_spool w' = s_spool v4" by (rule sub_rounds_eof [OF v4(2)])
  have "sub_rounds sample_sub True ?v0 = (SubClosed, w')"
    using sub_rounds_next [OF v1(1)] sub_rounds_next [OF v2(1)] sub_rounds_next [OF v3(1)] sub_rounds_next [OF v4(1)] w'(1) by simp
  moreover have "?w\<lparr>s_conn := s_conn ?w, s_env := sub_envelope_default\<rparr> = ?w" by (simp add: sample_client_world_def)
  ultimately have "handle_implicit_connection sample_sub Some ?w = (SubClosed, w')"
    using c(1) by (simp add: handle_implicit_connection_def sub_loop_def)
  with that a(1) v4(3) w'(2) show thesis by simp
qed

theorem submission_session_safe_witness:
  "\<exists>auth w' m. handle_implicit_connection sample_sub Some (sample_client_world auth sample_input) = (SubClosed, w') \<and>
     same_credentials (tables auth) (tables (s_auth w')) \<and> spool_ok sample_sub (s_spool w') \<and> m \<in> set (outbound (tables (sp_queue (s_spool w')))) \<and>
     sent_by (\<Union>start \<in> tls_starts sample_sub True Some (sample_client_world auth sample_input). logins sample_sub start) m"
proof -
  obtain auth w' where run: "auth_ok (tables auth)" "handle_implicit_connection sample_sub Some (sample_client_world auth sample_input) = (SubClosed, w')"
    "outbound (tables (sp_queue (s_spool w'))) \<noteq> []" by (rule sample_sub_session)
  let ?w = "sample_client_world auth sample_input"
  have w: "s_auth ?w = auth" "s_spool ?w = sample_spool" "outbound (tables (sp_queue sample_spool)) = []"
    by (simp_all add: sample_client_world_def sample_spool_def queue_empty_def)
  have h: "(if True then handle_implicit_connection sample_sub Some ?w else handle_starttls_connection sample_sub Some ?w) = (SubClosed, w')"
    using run(2) by simp
  have "auth_ok (tables (s_auth ?w))" "spool_ok sample_sub (s_spool ?w)" using run(1) sample_spool_ok by (simp_all only: w)
  note safe = submission_session_safe [OF h this]
  then have "list_all (sent_by (\<Union>start \<in> tls_starts sample_sub True Some ?w. logins sample_sub start)) (outbound (tables (sp_queue (s_spool w'))))"
    unfolding w by (auto simp: queue_grows_def w(3))
  then have "sent_by (\<Union>start \<in> tls_starts sample_sub True Some ?w. logins sample_sub start) (hd (outbound (tables (sp_queue (s_spool w')))))"
    using run(3) by (simp add: list_all_iff)
  moreover have "same_credentials (tables auth) (tables (s_auth w'))"
    using safe [THEN conjunct2, THEN conjunct1] unfolding w .
  moreover have "spool_ok sample_sub (s_spool w')" by (rule safe [THEN conjunct2, THEN conjunct2, THEN conjunct1])
  moreover have "hd (outbound (tables (sp_queue (s_spool w')))) \<in> set (outbound (tables (sp_queue (s_spool w'))))" using run(3) by simp
  ultimately show ?thesis using run(2)
    by (intro exI [of _ auth] exI [of _ w'] exI [of _ "hd (outbound (tables (sp_queue (s_spool w'))))"] conjI)
qed

theorem submission_auth_sound_witness:
  "\<exists>w w' row pw. auth_command sample_sub True (''PLAIN '' @ sample_response) w = (Next, w') \<and>
     row \<in> set (accounts (tables (s_auth w))) \<and> opens sample_sub (tables (s_auth w)) (account_of row) pw \<and>
     s_env w' = (s_env w)\<lparr>sv_authenticated := Some (account_of row)\<rparr>"
proof -
  obtain a auth where a: "auth_ok (tables auth)" "find_by_address ''alice'' ''example.com'' auth = (Returned (Inr (Some a)), auth)"
    "\<exists>u. unlock sample_lib a ''pw'' sample_config = Returned (Inr u)" by (metis sample_account)
  then obtain u where u: "unlock sample_lib a ''pw'' sample_config = Returned (Inr u)" by blast
  let ?w = "sample_client_world auth []"
  obtain w' where l: "auth_command sample_sub True (''PLAIN '' @ sample_response) ?w = (Next, w')" "s_env w' = (s_env ?w)\<lparr>sv_authenticated := Some a\<rparr>"
    by (rule sample_login [of ?w a u]) (use a u in \<open>auto simp: sample_client_world_def sub_envelope_default_def sample_conn_def\<close>)
  have w: "auth_ok (tables (s_auth ?w))" "sv_authenticated (s_env ?w) = None" using a(1) by (simp_all add: sample_client_world_def sub_envelope_default_def)
  have "sv_authenticated (s_env w') \<noteq> None" using l(2) by simp
  then have "s_env w' \<noteq> s_env ?w" using w(2) by auto
  with submission_auth_sound [OF l(1) w(1)] talks_fields(1) [of ?w w'] l(1) show ?thesis by fastforce
qed

definition sample_submitting :: "account \<Rightarrow> sub_world" where
  "sample_submitting a = (sample_client_world empty_auth [''hi'' @ eol, ''.'' @ eol])\<lparr>s_env :=
     \<lparr>sv_helo_domain = None, sv_authenticated = Some a, sv_mail_from = Some ''alice@example.com'', sv_rcpt_to = [''you@b.example'']\<rparr>\<rparr>"

theorem submission_reply_means_queued_witness:
  "\<exists>a raw w'. sub_data sample_sub (sample_submitting a) = (Next, w') \<and>
     sent (s_conn w') = [reply_354, reply_line 250 ''OK: message queued''] \<and>
     queued_for sample_sub a (s_env (sample_submitting a)) raw 1 sample_spool (s_spool w')"
proof -
  fix a :: account
  let ?w = "sample_submitting a"
  obtain w' where run: "sub_data sample_sub ?w = (Next, w')" "sent (s_conn w') = sent (s_conn ?w) @ [reply_354, reply_line 250 ''OK: message queued'']"
    by (rule sample_data [of ?w None a "[]"]) (simp_all add: sample_submitting_def sample_client_world_def sample_conn_def inflow_def)
  have w: "sv_mail_from (s_env ?w) \<noteq> None" "sv_rcpt_to (s_env ?w) = [''you@b.example'']" "sv_authenticated (s_env ?w) = Some a" "sent (s_conn ?w) = []"
    "s_spool ?w = sample_spool"
    by (simp_all add: sample_submitting_def sample_client_world_def sample_conn_def)
  have "queue_ok (tables (sp_queue (s_spool ?w)))" using sample_spool_ok by (simp add: spool_ok_def w)
  from submission_reply_means_queued [OF run(1) _ this] w run(2) obtain raw code msg where
    q: "reply_line 250 ''OK: message queued'' = reply_line code msg"
      "if code = 250 then queued_for sample_sub a (s_env ?w) raw 1 sample_spool (s_spool w') else code \<in> {450, 451}"
    by (fastforce split: if_splits)
  have "show_nat 250 = ''250''" "show_nat 450 = ''450''" "show_nat 451 = ''451''" by code_simp+
  then have "code = 250" using q by (auto simp: reply_line_def split: if_splits)
  with q(2) run w(4) show ?thesis by (intro exI [of _ a] exI [of _ raw] exI [of _ w']) simp
qed

end
