(* ===== verification/Spec2Isabelle.thy ===== *)
theory Spec2Isabelle
  imports Litterae_Prelude Input_Validation Login_Throttle Conn_Limit Change_Notifier Sealing Blob_Store Metadata_Store
    Threads Delivery Smtp_Wire Auth_Store Audit_Log Scanner Admin_Store Admin_Session Admin_Api Command_Session Smtp_In Smtp_Session Mail_Path
    Dns_Resolver Queue_Store Dane_Connect Queue_Worker Queue_Life Submission
begin

text \<open>
  A verification development for \<^emph>\<open>litterae\<close>, a self-hosted mail server in Rust (\<open>src/crates/\<close>).

  \<^bold>\<open>The program.\<close> A message comes in through \<open>smtp-in\<close>, which accepts connections under limits, speaks SMTP, resolves
  each recipient against the account store (\<open>auth\<close>) and the hosted domains (\<open>admin\<close>), has the message scanned (\<open>scan\<close>),
  and hands it to \<open>delivery\<close>. Delivery seals the message to the account's public key (\<open>crypto\<close>), writes the sealed blob
  (\<open>store\<close>), assigns mailbox and thread, and inserts a metadata row. Its owner unlocks the account with a password or
  an app password and opens it. Actions that matter are appended to a hash-chained log (\<open>audit\<close>). Administrators work
  through the HTTP handlers of \<open>admin\<close>. Outgoing mail passes \<open>submission\<close>, \<open>queue\<close> and \<open>dns\<close>; mail clients use \<open>jmap\<close>.

  \<^bold>\<open>Theories and code.\<close>
  \<^item> \<open>Litterae_Prelude\<close>: errors, panics, statements of a SQLite connection with arbitrary failures, tables keyed by a
    rowid (locale \<open>rowid_table\<close>). \<open>Rust_Str\<close>: the string functions of the standard library.
  \<^item> \<open>Input_Validation\<close>: \<open>common/src/input.rs\<close>, with the standard library's address parsers.
  \<^item> \<open>Login_Throttle\<close>, \<open>Change_Notifier\<close>: \<open>common/src/throttle.rs\<close>, \<open>common/src/changes.rs\<close>.
  \<^item> \<open>Conn_Limit\<close>: \<open>smtp-in/src/conn_limit.rs\<close> and the accept loops of both SMTP servers, as a step relation.
  \<^item> \<open>Sealing\<close>: the \<open>crypto\<close> crate and the header of \<open>common/src/header.rs\<close>.
  \<^item> \<open>Blob_Store\<close>, \<open>Metadata_Store\<close>, \<open>Threads\<close>: the \<open>store\<close> crate. \<open>Blob_Store\<close> has a sequential model with failing
    system calls (locale \<open>content_store\<close>) and an interleaving model of concurrent writers.
  \<^item> \<open>Delivery\<close>: \<open>delivery/src/lib.rs\<close>.
  \<^item> \<open>Auth_Store\<close>: the \<open>auth\<close> crate. \<open>Audit_Log\<close>: the \<open>audit\<close> crate. \<open>Scanner\<close>: the \<open>scan\<close> crate.
  \<^item> \<open>Admin_Store\<close>, \<open>Admin_Session\<close>, \<open>Admin_Api\<close>: \<open>admin/src/\<close> \<open>store.rs\<close>, \<open>session.rs\<close>, \<open>mfa.rs\<close>, \<open>handlers.rs\<close>, \<open>router.rs\<close>.
  \<^item> \<open>Smtp_Wire\<close>: the line protocol shared by the two SMTP servers. \<open>Command_Session\<close>: the contract of a command loop
    (locale \<open>command_session\<close>). \<open>Smtp_In\<close>, \<open>Smtp_Session\<close>: \<open>smtp-in/src/session.rs\<close>.
  \<^item> \<open>Mail_Path\<close>: the properties that span accounts, SMTP, delivery and the stores.
  \<^item> \<open>Dns_Resolver\<close>: the \<open>dns\<close> crate.
  \<^item> \<open>Queue_Store\<close>: the tables of the outbound queue, accepting a message, DKIM keys, the retry schedule and scheduled
    events (\<open>queue/src/\<close> but for the following). \<open>Dane_Connect\<close>: \<open>queue/src/dane.rs\<close> and the choice of a mail host and the
    conversation with it in \<open>queue/src/worker.rs\<close>. \<open>Queue_Worker\<close>: the rest of \<open>worker.rs\<close> and \<open>dsn.rs\<close>, with the
    invariants of a pass. \<open>Queue_Life\<close>: the states that accepting, sending and receiving mail reach.
  \<^item> \<open>Submission\<close>: \<open>submission/src/session.rs\<close>, over the account and audit stores, the login throttle and the queue; a second
    interpretation of \<open>command_session\<close>.

  \<^bold>\<open>State and effects.\<close> Operations are functions from a state to a result and a state. A fallible call returns a sum, a
  panic is the value \<open>Panicked\<close>, and a panicking call keeps the effects it had before. Every statement of a database and
  every system call of the blob store consumes an entry of a fault list, so all theorems hold for every pattern of
  failures unless they say otherwise. A connection delivers its bytes cut into arbitrary segments and takes an arbitrary
  number of writes. The clock and random values are arguments or functions of a counter that each use advances.
  Unbounded integers stand for \<open>i64\<close> row ids and times; widths that matter (counters, key ids) are words.

  \<^bold>\<open>What is assumed.\<close> Third-party code is a record of functions with named contracts: the AEAD and HPKE primitives
  (\<open>aead_correct\<close>, \<open>hpke_correct\<close>), SHA-256 as 64 hexadecimal digits (\<open>hex_hash\<close>), the choice among rows of an
  unordered query (\<open>picks_member\<close>). The certificate check of the TLS library is \<open>verifies\<close>; the worker's clock does not run backwards
  (\<open>clock_ok\<close>: the code reads the wall clock, which the operating system may set back, and the bounds in time hold only while it
  does not), the signature scheme verifies what it signed (\<open>sign_correct\<close>), the orders the database and the hash map choose are permutations (\<open>orders_ok\<close>), the jitter is at most fifteen percent. The
  MIME parser and writer, the scanners' answers, SPF, DKIM and DMARC evaluation, the SMTP client, TOTP, the base64 decoder and the
  DNS resolver are functions without any contract. Each property with such a hypothesis has a witness on a concrete instance.

  \<^bold>\<open>What is shown.\<close> A message sent to an account's address can be read by its owner, and only accepted mail is answered
  with 250 (\<open>Mail_Path\<close>, \<open>Smtp_Session\<close>); the session refines an abstract SMTP server, keeps every invariant whatever the
  client sends, and ends. Writes of blobs are atomic and reads verified; deliveries are all or nothing and touch only rows of their account. Login
  guesses are spaced by the lockout as far as they do not overlap (\<open>guessing\<close>: any interleaving of guesses on several
  connections), connections and recipients are bounded. Sealed blobs open under their key and algorithm only. Accounts, app
  passwords and domains behave as maps under all failures; the audit chain and the newest head signature verify, with the blind
  spots stated.
  Mail in the queue is never lost before it is settled, is attempted until 24 failures are recorded (an
  attempt whose record fails to be written is not counted), expires, is not sent in the clear to a
  host that pins its key, and bounces do not loop (\<open>Queue_Life\<close>, \<open>Dane_Connect\<close>).
  A submission session queues only mail of accounts that it logged in to over TLS, each traced to the command that presented the
  identity and one of its passwords, and answers 250 only for
  mail that is queued for every recipient (\<open>Submission\<close>).
  Administrative routes need a complete session. Where a property describes a defect, its text says so.

  \<^bold>\<open>Termination.\<close> No definition uses fuel: the command loops end because each round consumes input
  (\<open>command_session\<close>), the readers because the connection's bytes are finite. The worker's endless loop is a relation whose
  step is one pass, a total function.

  \<^bold>\<open>Simplifications.\<close> The product with the jitter is a product of reals, not of \<open>f64\<close>. The network that a send unit sees
  does not change while the unit is sent. Accepting a message, a pass and a delivery interleave as whole operations.

  \<^bold>\<open>Not modelled.\<close> \<open>jmap\<close> (JSON requests, search, composing and sanitising HTML)
  and what is only input and output or wiring: the command line and startup of \<open>server\<close>, \<open>common/src/config.rs\<close>,
  \<open>tracing_init.rs\<close>, opening databases, TLS handshakes and the asynchronous runtime.
\<close>

end
